(* ===== verification/Prelude.thy ===== *)
theory Prelude
  imports Main "HOL-Library.AList" "HOL-Library.Char_ord" "HOL-Library.List_Lexorder"
begin

text \<open>
  What every component shares: Go maps as association lists behind the interface
  \<open>go_map\<close>, first-occurrence deduplication of lists (\<open>nub\<close>), and generic lemmas on
  lists. The map interface is a locale; its client lemmas (occupancy of a map from a
  list of its keys) are proved once inside it and reach the components through the
  interpretation \<open>gm\<close>.
\<close>

named_theorems ringcache_simps \<open>unfolding rules that evaluate the model's operations\<close>
named_theorems map_laws \<open>laws of the Go map operations\<close>

section \<open>Go maps\<close>

text \<open>
  A Go map \<open>map[K]V\<close> is a list of key-value pairs with distinct keys (\<open>gm_ok\<close>).
  \<open>len(m)\<close> is the list's length. The order of the list stands for one iteration
  order of \<open>range m\<close>; Go fixes none, so every result computed by ranging over a map
  is proved independent of it.
\<close>

type_synonym ('k, 'v) gomap = "('k \<times> 'v) list"

definition gm_empty :: "('k, 'v) gomap" where
  "gm_empty = []"

definition gm_get :: "('k, 'v) gomap \<Rightarrow> 'k \<Rightarrow> 'v option" where
  "gm_get m k = map_of m k"

definition gm_put :: "'k \<Rightarrow> 'v \<Rightarrow> ('k, 'v) gomap \<Rightarrow> ('k, 'v) gomap" where
  "gm_put k v m = AList.update k v m"

definition gm_del :: "'k \<Rightarrow> ('k, 'v) gomap \<Rightarrow> ('k, 'v) gomap" where
  "gm_del k m = filter (\<lambda>kv. fst kv \<noteq> k) m"

definition gm_len :: "('k, 'v) gomap \<Rightarrow> nat" where
  "gm_len m = length m"

definition gm_keys :: "('k, 'v) gomap \<Rightarrow> 'k list" where
  "gm_keys m = map fst m"

definition gm_ok :: "('k, 'v) gomap \<Rightarrow> bool" where
  "gm_ok m \<longleftrightarrow> distinct (map fst m)"

lemmas gm_defs = gm_empty_def gm_get_def gm_put_def gm_del_def gm_len_def gm_keys_def gm_ok_def

declare gm_defs [ringcache_simps]

locale go_map =
  fixes empty :: "'m"
    and get :: "'m \<Rightarrow> 'k \<Rightarrow> 'v option"
    and put :: "'k \<Rightarrow> 'v \<Rightarrow> 'm \<Rightarrow> 'm"
    and del :: "'k \<Rightarrow> 'm \<Rightarrow> 'm"
    and len :: "'m \<Rightarrow> nat"
    and keys :: "'m \<Rightarrow> 'k list"
    and ok :: "'m \<Rightarrow> bool"
  assumes get_empty: "get empty k = None"
    and get_put: "get (put k v m) k' = (if k' = k then Some v else get m k')"
    and get_del: "get (del k m) k' = (if k' = k then None else get m k')"
    and ok_empty: "ok empty"
    and ok_put: "ok m \<Longrightarrow> ok (put k v m)"
    and ok_del: "ok m \<Longrightarrow> ok (del k m)"
    and keys_distinct: "ok m \<Longrightarrow> distinct (keys m)"
    and keys_set: "set (keys m) = dom (get m)"
    and len_keys: "len m = length (keys m)"
begin

lemma finite_dom: "finite (dom (get m))"
  by (metis keys_set finite_set)

lemma len_card: "ok m \<Longrightarrow> len m = card (dom (get m))"
  by (metis distinct_card keys_distinct keys_set len_keys)

lemma len_eq_length:
  assumes "ok m" "distinct xs" "set xs = dom (get m)"
  shows "len m = length xs"
  using assms by (metis distinct_card len_card)

lemma dom_put: "dom (get (put k v m)) = insert k (dom (get m))"
  by (auto simp: dom_def get_put)

lemma dom_del: "dom (get (del k m)) = dom (get m) - {k}"
  by (auto simp: dom_def get_del)

lemma get_del_SomeD: "get (del k m) k' = Some v \<Longrightarrow> k' \<noteq> k \<and> get m k' = Some v"
  by (simp add: get_del split: if_splits)

lemma len_put:
  "ok m \<Longrightarrow> len (put k v m) = (if get m k = None then Suc (len m) else len m)"
  by (auto simp: len_card ok_put dom_put finite_dom card_insert_if)

lemma len_del:
  "ok m \<Longrightarrow> len (del k m) = (if get m k = None then len m else len m - 1)"
  by (auto simp: len_card ok_del dom_del finite_dom card_Diff_singleton_if domIff)

lemma get_iff_keys: "get m k \<noteq> None \<longleftrightarrow> k \<in> set (keys m)"
  by (auto simp: keys_set)

end

interpretation gm: go_map gm_empty gm_get gm_put gm_del gm_len gm_keys gm_ok
proof unfold_locales
  fix k k' :: 'k and v :: 'v and m :: "('k, 'v) gomap"
  show "gm_get (gm_empty :: ('k, 'v) gomap) k = None"
    by (simp add: gm_get_def gm_empty_def)
  show "gm_get (gm_put k v m) k' = (if k' = k then Some v else gm_get m k')"
    by (simp add: gm_get_def gm_put_def update_conv')
  show "gm_get (gm_del k m) k' = (if k' = k then None else gm_get m k')"
    by (induction m) (auto simp: gm_get_def gm_del_def)
  show "gm_ok (gm_empty :: ('k, 'v) gomap)"
    by (simp add: gm_ok_def gm_empty_def)
  show "gm_ok m \<Longrightarrow> gm_ok (gm_put k v m)"
    by (simp add: gm_ok_def gm_put_def distinct_update)
  show "gm_ok m \<Longrightarrow> gm_ok (gm_del k m)"
    by (auto simp: gm_ok_def gm_del_def distinct_map_filter)
  show "gm_ok m \<Longrightarrow> distinct (gm_keys m)"
    by (simp add: gm_ok_def gm_keys_def)
  show "set (gm_keys m) = dom (gm_get m)"
    by (auto simp: gm_keys_def gm_get_def dom_def map_of_eq_None_iff weak_map_of_SomeI
        dest: map_of_SomeD)
  show "gm_len m = length (gm_keys m)"
    by (simp add: gm_len_def gm_keys_def)
qed

declare gm.get_empty [simp, map_laws] and gm.get_put [simp, map_laws]
  and gm.get_del [simp, map_laws] and gm.ok_empty [simp] and gm.ok_put [simp]
  and gm.ok_del [simp] and gm.dom_put [simp] and gm.dom_del [simp]

lemma gm_keys_del: "gm_keys (gm_del k m) = filter (\<lambda>x. x \<noteq> k) (gm_keys m)"
  by (simp add: gm_keys_def gm_del_def filter_map comp_def)

lemma gm_keys_put_new: "gm_get m k = None \<Longrightarrow> gm_keys (gm_put k v m) = gm_keys m @ [k]"
  by (simp add: gm_keys_def gm_put_def gm_get_def update_keys map_of_eq_None_iff)

section \<open>Keeping first occurrences\<close>

fun nub :: "'a list \<Rightarrow> 'a list" where
  "nub [] = []"
| "nub (x # xs) = x # filter (\<lambda>y. y \<noteq> x) (nub xs)"

lemma set_nub [simp]: "set (nub xs) = set xs"
  by (induction xs) auto

lemma distinct_nub [simp]: "distinct (nub xs)"
  by (induction xs) auto

lemma nub_filter: "nub (filter P xs) = filter P (nub xs)"
  by (induction xs) (auto simp: conj_commute intro: filter_cong)

lemma nub_append: "nub (xs @ ys) = nub xs @ filter (\<lambda>y. y \<notin> set xs) (nub ys)"
  by (induction xs) (auto intro: filter_cong)

lemma nub_distinct: "distinct xs \<Longrightarrow> nub xs = xs"
  by (induction xs) (auto simp: filter_id_conv)

lemma length_nub: "length (nub xs) = card (set xs)"
  by (metis distinct_card distinct_nub set_nub)

lemma nub_eq_Nil_iff [simp]: "nub xs = [] \<longleftrightarrow> xs = []"
  by (cases xs) auto

lemma take_filter_subset: "set (take n (filter P xs)) \<subseteq> set xs"
  by (meson filter_is_subset in_set_takeD subset_code(1))

lemma filter_neq_self: "x \<notin> set xs \<Longrightarrow> filter (\<lambda>y. y \<noteq> x) xs = xs"
  by (auto simp: filter_id_conv)

lemma length_filter_neq:
  "distinct xs \<Longrightarrow> length (filter (\<lambda>y. y \<noteq> x) xs) = (if x \<in> set xs then length xs - 1 else length xs)"
proof (induction xs)
  case Nil
  then show ?case by simp
next
  case (Cons a xs)
  then show ?case by (cases xs) (auto simp: filter_neq_self)
qed

text \<open>Taking \<open>n\<close> elements after deleting one is taking at most one more and deleting.\<close>

lemma take_filter_neq:
  assumes "distinct xs"
  shows "take n (filter (\<lambda>y. y \<noteq> x) xs)
    = (if x \<in> set (take n xs) then filter (\<lambda>y. y \<noteq> x) (take (Suc n) xs) else take n xs)"
  using assms
proof (induction xs arbitrary: n)
  case Nil
  then show ?case by simp
next
  case (Cons a xs)
  then show ?case
    by (cases n) (auto simp: filter_neq_self dest: in_set_takeD)
qed

lemma remove1_last:
  assumes "distinct xs" "xs \<noteq> []"
  shows "remove1 (last xs) xs = butlast xs"
proof -
  obtain ys y where "xs = ys @ [y]" using assms(2) by (meson rev_exhaust)
  with assms show ?thesis by (simp add: remove1_append)
qed

lemma filter_map_agree:
  "\<forall>x \<in> set xs. f x = g x \<or> \<not> P (f x) \<and> \<not> P (g x) \<Longrightarrow> filter P (map f xs) = filter P (map g xs)"
  by (induction xs) auto

text \<open>What updating one element does to a sum over the list.\<close>

lemma sum_list_swap:
  "w < length xs \<Longrightarrow> sum_list (map f (xs[w := y])) + f (xs ! w) = sum_list (map f xs) + (f y :: 'b :: comm_monoid_add)"
  by (induction xs arbitrary: w) (auto simp: nth_Cons ac_simps split: nat.splits)

end
