(* ===== verification/GoSort.thy ===== *)
theory GoSort
  imports Prelude "HOL-Library.Multiset"
begin

text \<open>
  \<open>sort.Search\<close> as the standard library writes it (a binary search over an index
  range) with its specification, and the facts on sorted lists that the ring uses.
  \<open>sort.Strings\<close> and \<open>sort.Slice\<close> are HOL's \<open>sort\<close>: both orders are total on
  the values sorted here, so the sorted permutation is unique.
\<close>

section \<open>Binary search\<close>

function search_loop :: "(nat \<Rightarrow> bool) \<Rightarrow> nat \<Rightarrow> nat \<Rightarrow> nat" where
  "search_loop f i j =
    (if i < j then
       (let h = (i + j) div 2
        in if \<not> f h then search_loop f (h + 1) j else search_loop f i h)
     else i)"
  by pat_completeness auto
termination
  by (relation "measure (\<lambda>(f, i, j). j - i)") auto

declare search_loop.simps [simp del]

definition sort_search :: "nat \<Rightarrow> (nat \<Rightarrow> bool) \<Rightarrow> nat" where
  "sort_search n f = search_loop f 0 n"

lemma search_loop_spec:
  assumes mono: "\<And>a b. a \<le> b \<Longrightarrow> b < n \<Longrightarrow> f a \<Longrightarrow> f b"
    and "i \<le> j" "j \<le> n" "\<forall>k < i. \<not> f k" "\<forall>k. j \<le> k \<and> k < n \<longrightarrow> f k"
  shows "search_loop f i j \<le> j \<and> (\<forall>k < search_loop f i j. \<not> f k)
    \<and> (\<forall>k. search_loop f i j \<le> k \<and> k < n \<longrightarrow> f k)"
  using assms
proof (induction f i j rule: search_loop.induct)
  case (1 f i j)
  define h where "h = (i + j) div 2"
  show ?case
  proof (cases "i < j")
    case False
    then have "search_loop f i j = i" by (simp add: search_loop.simps [of f i j])
    with "1.prems" False show ?thesis by auto
  next
    case True
    then have h: "i \<le> h" "h < j" by (auto simp: h_def)
    show ?thesis
    proof (cases "f h")
      case False
      have "\<forall>k < h + 1. \<not> f k"
        using False "1.prems"(1) [of _ h] "1.prems"(3) h by (auto simp: less_Suc_eq_le)
      with "1.IH"(1) [OF True h_def] False "1.prems" h True show ?thesis
        by (simp add: search_loop.simps [of f i j] flip: h_def)
    next
      case fh: True
      have "\<forall>k. h \<le> k \<and> k < n \<longrightarrow> f k"
        using fh "1.prems"(1) by blast
      with "1.IH"(2) [OF True h_def] fh "1.prems" h True have
        "search_loop f i h \<le> h \<and> (\<forall>k < search_loop f i h. \<not> f k)
          \<and> (\<forall>k. search_loop f i h \<le> k \<and> k < n \<longrightarrow> f k)"
        by simp
      with fh True h show ?thesis
        by (simp add: search_loop.simps [of f i j] flip: h_def)
    qed
  qed
qed

lemma sort_search_spec:
  assumes "\<And>a b. a \<le> b \<Longrightarrow> b < n \<Longrightarrow> f a \<Longrightarrow> f b"
  shows "sort_search n f \<le> n \<and> (\<forall>k < sort_search n f. \<not> f k)
    \<and> (\<forall>k. sort_search n f \<le> k \<and> k < n \<longrightarrow> f k)"
  unfolding sort_search_def by (rule search_loop_spec) (use assms in auto)

section \<open>Sorted lists cut at a threshold\<close>

lemma take_drop_threshold:
  assumes "\<And>k. k < i \<Longrightarrow> k < length xs \<Longrightarrow> \<not> P (xs ! k)"
    and "\<And>k. i \<le> k \<Longrightarrow> k < length xs \<Longrightarrow> P (xs ! k)"
  shows "drop i xs = filter P xs" and "take i xs = filter (\<lambda>x. \<not> P x) xs"
proof -
  have t: "\<forall>x \<in> set (take i xs). \<not> P x"
    using assms(1) by (auto simp: in_set_conv_nth)
  have d: "\<forall>x \<in> set (drop i xs). P x"
    using assms(2) by (auto simp: in_set_conv_nth)
  have "filter P xs = filter P (take i xs @ drop i xs)" by simp
  also have "\<dots> = drop i xs" using t d by (simp only: filter_append) simp
  finally show "drop i xs = filter P xs" ..
  have "filter (\<lambda>x. \<not> P x) xs = filter (\<lambda>x. \<not> P x) (take i xs @ drop i xs)" by simp
  also have "\<dots> = take i xs" using t d by (simp only: filter_append) simp
  finally show "take i xs = filter (\<lambda>x. \<not> P x) xs" ..
qed

lemma filter_sort: "filter P (sort xs) = sort (filter P xs)"
  by (simp add: filter_sort)

lemma sort_perm_eq: "mset xs = mset ys \<Longrightarrow> sort xs = sort ys"
  by (metis mset_sort properties_for_sort sorted_sort)

end
