(* ===== verification/GoText.thy ===== *)
theory GoText
  imports Prelude
begin

text \<open>
  The parts of \<open>strconv\<close> and \<open>strings\<close> the program uses, on byte strings: a Go
  string is its list of bytes, a \<open>char list\<close>. \<open>TrimSpace\<close> removes the UTF-8
  encodings of the runes for which \<open>unicode.IsSpace\<close> holds (\<open>space_runes\<close>).
\<close>

section \<open>strconv.Itoa on non-negative integers\<close>

fun itoa :: "nat \<Rightarrow> string" where
  "itoa n = (if n < 10 then [char_of (48 + n)] else itoa (n div 10) @ [char_of (48 + n mod 10)])"

declare itoa.simps [simp del]

definition digit_val :: "char \<Rightarrow> nat" where
  "digit_val c = of_char c - 48"

definition parse_digits :: "string \<Rightarrow> nat" where
  "parse_digits s = foldl (\<lambda>acc c. 10 * acc + digit_val c) 0 s"

lemma of_char_digit: "d < 10 \<Longrightarrow> of_char (char_of (48 + d) :: char) = (48 + d :: nat)"
  by (simp add: of_char_of)

lemma digit_val_char: "d < 10 \<Longrightarrow> digit_val (char_of (48 + d)) = d"
  by (simp add: digit_val_def of_char_digit)

lemma parse_itoa: "parse_digits (itoa n) = n"
proof (induction n rule: itoa.induct)
  case (1 n)
  then show ?case
    by (subst itoa.simps) (auto simp: parse_digits_def digit_val_char)
qed

lemma itoa_inj: "itoa m = itoa n \<Longrightarrow> m = n"
  by (metis parse_itoa)

lemma itoa_digits: "c \<in> set (itoa n) \<Longrightarrow> 48 \<le> (of_char c :: nat) \<and> (of_char c :: nat) \<le> 57"
proof (induction n rule: itoa.induct)
  case (1 n)
  then show ?case
    by (subst (asm) itoa.simps) (auto simp: of_char_digit split: if_splits)
qed

lemma itoa_no_hash: "CHR ''#'' \<notin> set (itoa n)"
  by (auto dest: itoa_digits)

lemma itoa_nonempty: "itoa n \<noteq> []"
  by (subst itoa.simps) simp

section \<open>Trimming\<close>

definition space_runes :: "string list" where
  "space_runes =
    [[CHR 0x09], [CHR 0x0A], [CHR 0x0B], [CHR 0x0C], [CHR 0x0D], [CHR 0x20],
     [CHR 0xC2, CHR 0x85], [CHR 0xC2, CHR 0xA0], [CHR 0xE1, CHR 0x9A, CHR 0x80],
     [CHR 0xE2, CHR 0x80, CHR 0x80], [CHR 0xE2, CHR 0x80, CHR 0x81],
     [CHR 0xE2, CHR 0x80, CHR 0x82], [CHR 0xE2, CHR 0x80, CHR 0x83],
     [CHR 0xE2, CHR 0x80, CHR 0x84], [CHR 0xE2, CHR 0x80, CHR 0x85],
     [CHR 0xE2, CHR 0x80, CHR 0x86], [CHR 0xE2, CHR 0x80, CHR 0x87],
     [CHR 0xE2, CHR 0x80, CHR 0x88], [CHR 0xE2, CHR 0x80, CHR 0x89],
     [CHR 0xE2, CHR 0x80, CHR 0x8A], [CHR 0xE2, CHR 0x80, CHR 0xA8],
     [CHR 0xE2, CHR 0x80, CHR 0xA9], [CHR 0xE2, CHR 0x80, CHR 0xAF],
     [CHR 0xE2, CHR 0x81, CHR 0x9F], [CHR 0xE3, CHR 0x80, CHR 0x80]]"

fun has_prefix :: "string \<Rightarrow> string \<Rightarrow> bool" where
  "has_prefix s [] = True"
| "has_prefix [] (p # ps) = False"
| "has_prefix (c # cs) (p # ps) = (c = p \<and> has_prefix cs ps)"

lemma has_prefix_iff: "has_prefix s p \<longleftrightarrow> (\<exists>t. s = p @ t)"
  by (induction s p rule: has_prefix.induct) auto

function trim_left_runes :: "string list \<Rightarrow> string \<Rightarrow> string" where
  "trim_left_runes rs s =
    (case find (\<lambda>r. r \<noteq> [] \<and> has_prefix s r) rs of
       None \<Rightarrow> s
     | Some r \<Rightarrow> trim_left_runes rs (drop (length r) s))"
  by pat_completeness auto
termination
  by (relation "measure (\<lambda>(rs, s). length s)")
    (auto simp: find_Some_iff has_prefix_iff)

declare trim_left_runes.simps [simp del]

definition trim_space :: "string \<Rightarrow> string" where
  "trim_space s =
    rev (trim_left_runes (map rev space_runes) (rev (trim_left_runes space_runes s)))"

definition trim_right_char :: "char \<Rightarrow> string \<Rightarrow> string" where
  "trim_right_char c s = rev (dropWhile (\<lambda>x. x = c) (rev s))"

lemma trim_left_runes_stop:
  "find (\<lambda>r. r \<noteq> [] \<and> has_prefix (trim_left_runes rs s) r) rs = None"
proof (induction rs s rule: trim_left_runes.induct)
  case (1 rs s)
  then show ?case by (subst trim_left_runes.simps) (auto simp: trim_left_runes.simps split: option.splits)
qed

lemma trim_left_runes_idem: "trim_left_runes rs (trim_left_runes rs s) = trim_left_runes rs s"
  by (subst trim_left_runes.simps) (simp add: trim_left_runes_stop)

lemma trim_left_runes_suffix: "\<exists>p. s = p @ trim_left_runes rs s"
proof (induction rs s rule: trim_left_runes.induct)
  case (1 rs s)
  show ?case
  proof (cases "find (\<lambda>r. r \<noteq> [] \<and> has_prefix s r) rs")
    case None
    then show ?thesis by (simp add: trim_left_runes.simps)
  next
    case (Some r)
    then obtain t where s: "s = r @ t"
      by (auto simp: find_Some_iff has_prefix_iff)
    obtain p where "drop (length r) s = p @ trim_left_runes rs (drop (length r) s)"
      using "1.IH" [OF Some] by blast
    then have "s = (r @ p) @ trim_left_runes rs s"
      using Some s by (simp add: trim_left_runes.simps [of rs "r @ t"])
    then show ?thesis by blast
  qed
qed

section \<open>Splitting\<close>

text \<open>\<open>strings.Split(s, sep)\<close> for a one-byte separator, \<open>strings.Cut\<close> and
  \<open>strings.LastIndex\<close> for one byte.\<close>

fun split_on :: "char \<Rightarrow> string \<Rightarrow> string list" where
  "split_on sep [] = [[]]"
| "split_on sep (c # cs) =
    (if c = sep then [] # split_on sep cs
     else (case split_on sep cs of [] \<Rightarrow> [[c]] | w # ws \<Rightarrow> (c # w) # ws))"

fun cut_at :: "char \<Rightarrow> string \<Rightarrow> string \<times> string \<times> bool" where
  "cut_at sep [] = ([], [], False)"
| "cut_at sep (c # cs) =
    (if c = sep then ([], cs, True)
     else (case cut_at sep cs of (a, b, ok) \<Rightarrow> (c # a, b, ok)))"

fun last_index_from :: "nat \<Rightarrow> char \<Rightarrow> string \<Rightarrow> nat option" where
  "last_index_from i sep [] = None"
| "last_index_from i sep (c # cs) =
    (case last_index_from (Suc i) sep cs of
       Some j \<Rightarrow> Some j
     | None \<Rightarrow> if c = sep then Some i else None)"

definition last_index :: "char \<Rightarrow> string \<Rightarrow> nat option" where
  "last_index sep s = last_index_from 0 sep s"

lemma split_on_nonempty [simp]: "split_on sep s \<noteq> []"
  by (induction s) (auto split: list.splits)

lemma cut_at_found: "cut_at sep s = (a, b, True) \<Longrightarrow> s = a @ sep # b \<and> sep \<notin> set a"
  by (induction s arbitrary: a) (auto split: if_splits prod.splits)

lemma cut_at_missing: "cut_at sep s = (a, b, False) \<Longrightarrow> a = s \<and> b = [] \<and> sep \<notin> set s"
  by (induction s arbitrary: a) (auto split: if_splits prod.splits)

lemma split_on_join:
  "sep \<notin> set w \<Longrightarrow> split_on sep (w @ sep # s) = w # split_on sep s"
  by (induction w) auto

lemma split_on_none: "sep \<notin> set w \<Longrightarrow> split_on sep w = [w]"
  by (induction w) auto

end
