(* ===== verification/RingProps.thy ===== *)
theory RingProps
  imports Ring
begin

text \<open>
  Correctness of the ring: the representation invariant and its preservation, the
  independence of a rebuild from Go's map iteration order, the characterisation of
  \<open>Owners\<close> as the first distinct nodes of the clockwise walk, and consistent hashing
  proper: what joining and leaving do to the owners of a key.
\<close>

section \<open>The representation invariant\<close>

definition ring_inv :: "ring_t \<Rightarrow> bool" where
  "ring_inv r \<longleftrightarrow> 1 \<le> vnodesPerNode r \<and> gm_ok (nodes r) \<and> gm_get (nodes r) '''' = None
    \<and> ring r = rebuild_points (vnodesPerNode r) (gm_keys (nodes r))"

lemma ring_inv_New: "ring_inv (New_ring v)"
  by (simp add: ring_inv_def New_ring_def gm_keys_def gm_empty_def rebuild_points_def gm_ok_def
      gm_get_def)

lemma ring_inv_Add: "ring_inv r \<Longrightarrow> ring_inv (Add x r)"
  by (simp add: ring_inv_def Add_def rebuildLocked_def)

lemma ring_inv_Remove: "ring_inv r \<Longrightarrow> ring_inv (Remove x r)"
  by (simp add: ring_inv_def Remove_def rebuildLocked_def)

text \<open>Rings a program can hold: built by \<open>New\<close>, changed by \<open>Add\<close> and \<open>Remove\<close>.\<close>

inductive ring_reachable :: "ring_t \<Rightarrow> bool" where
  ring_new: "ring_reachable (New_ring v)"
| ring_add: "ring_reachable r \<Longrightarrow> ring_reachable (Add x r)"
| ring_remove: "ring_reachable r \<Longrightarrow> ring_reachable (Remove x r)"

lemma ring_reachable_inv: "ring_reachable r \<Longrightarrow> ring_inv r"
  by (induction rule: ring_reachable.induct) (auto simp: ring_inv_New ring_inv_Add ring_inv_Remove)

lemma vnodesPerNode_Add [simp]: "vnodesPerNode (Add x r) = vnodesPerNode r"
  by (simp add: Add_def rebuildLocked_def)

lemma vnodesPerNode_Remove [simp]: "vnodesPerNode (Remove x r) = vnodesPerNode r"
  by (simp add: Remove_def rebuildLocked_def)

section \<open>The points of a rebuild\<close>

lemma vid_node_points: "p \<in> set (node_points v x) \<Longrightarrow> vid p = x"
  by (auto simp: node_points_def)

lemma length_node_points [simp]: "length (node_points v x) = nat v"
  by (simp add: node_points_def)

lemma sorted_rebuild [simp]: "sorted (rebuild_points v ids)"
  by (simp add: rebuild_points_def)

lemma set_rebuild: "set (rebuild_points v ids) = (\<Union>x \<in> set ids. set (node_points v x))"
  by (simp add: rebuild_points_def)

lemma vids_rebuild: "1 \<le> v \<Longrightarrow> vid ` set (rebuild_points v ids) = set ids"
proof -
  assume "1 \<le> v"
  then have "node_points v x \<noteq> []" for x by (simp add: node_points_def)
  then have "vid ` set (node_points v x) = {x}" for x
    by (auto simp: vid_node_points) (metis image_eqI length_greater_0_conv nth_mem vid_node_points)
  then show ?thesis by (simp add: set_rebuild image_UN)
qed

lemma length_rebuild: "length (rebuild_points v ids) = nat v * length ids"
  by (induction ids) (simp_all add: rebuild_points_def)

lemma filter_node_points: "filter (\<lambda>p. vid p \<noteq> x) (node_points v y) = (if y = x then [] else node_points v y)"
  by (auto simp: filter_empty_conv filter_id_conv vid_node_points)

lemma filter_rebuild:
  "filter (\<lambda>p. vid p \<noteq> x) (rebuild_points v ids) = rebuild_points v (filter (\<lambda>y. y \<noteq> x) ids)"
proof -
  have "filter (\<lambda>p. vid p \<noteq> x) (concat (map (node_points v) ids))
      = concat (map (node_points v) (filter (\<lambda>y. y \<noteq> x) ids))"
    by (induction ids) (simp_all add: filter_node_points)
  then show ?thesis by (simp add: rebuild_points_def filter_sort)
qed

lemma rebuild_perm: "mset ids = mset ids' \<Longrightarrow> rebuild_points v ids = rebuild_points v ids'"
  unfolding rebuild_points_def
  by (rule sort_perm_eq) (simp add: mset_concat flip: sum_mset_sum_list)

lemma rebuild_set_eq:
  "distinct ids \<Longrightarrow> distinct ids' \<Longrightarrow> set ids = set ids' \<Longrightarrow> rebuild_points v ids = rebuild_points v ids'"
  by (rule rebuild_perm) (simp add: set_eq_iff_mset_eq_distinct)

section \<open>The clockwise walk\<close>

text \<open>The virtual nodes in walking order from hash \<open>h\<close>: those at or after it, then the rest.\<close>

definition succs :: "32 word \<Rightarrow> vnode list \<Rightarrow> vnode list" where
  "succs h pts = filter (\<lambda>p. h \<le> vhash p) pts @ filter (\<lambda>p. \<not> h \<le> vhash p) pts"

text \<open>All distinct nodes in walking order: the abstract specification of \<open>Owners\<close>.\<close>

definition owner_order :: "32 word \<Rightarrow> vnode list \<Rightarrow> string list" where
  "owner_order h pts = nub (map vid (succs h pts))"

lemma set_succs [simp]: "set (succs h pts) = set pts"
  by (auto simp: succs_def)

lemma length_succs [simp]: "length (succs h pts) = length pts"
  by (simp add: succs_def sum_length_filter_compl)

lemma vhash_mono: "p \<le> q \<Longrightarrow> vhash p \<le> vhash q"
  by (auto simp: less_eq_vnode_def vnode_less_def split: if_splits)

lemma search_is_succs:
  assumes "sorted pts"
    and "i = sort_search (length pts) (\<lambda>i. vhash (pts ! i) \<ge> h)"
  shows "drop i pts @ take i pts = succs h pts"
proof -
  have mono: "h \<le> vhash (pts ! b)" if "a \<le> b" "b < length pts" "h \<le> vhash (pts ! a)" for a b
    using that assms(1) by (meson order_trans sorted_nth_mono vhash_mono)
  have spec: "i \<le> length pts \<and> (\<forall>k < i. \<not> h \<le> vhash (pts ! k))
      \<and> (\<forall>k. i \<le> k \<and> k < length pts \<longrightarrow> h \<le> vhash (pts ! k))"
    unfolding assms(2) by (rule sort_search_spec) (rule mono)
  have "drop i pts = filter (\<lambda>p. h \<le> vhash p) pts"
    by (rule take_drop_threshold) (use spec in auto)
  moreover have "take i pts = filter (\<lambda>p. \<not> h \<le> vhash p) pts"
    by (rule take_drop_threshold) (use spec in auto)
  ultimately show ?thesis by (simp add: succs_def)
qed

lemma rotation_nth:
  assumes "i < length pts" "w < length pts"
  shows "pts ! ((i + w) mod length pts) = (drop i pts @ take i pts) ! w"
proof (cases "i + w < length pts")
  case True
  then show ?thesis using assms by (simp add: nth_append less_diff_conv add.commute)
next
  case False
  then have "(i + w) mod length pts = i + w - length pts"
    using assms by (simp add: mod_if)
  with False assms show ?thesis by (simp add: nth_append less_diff_conv add.commute)
qed

lemma owners_loop_eq:
  assumes "rot = drop s pts @ take s pts" "s < length pts"
    and "i = (s + walked) mod length pts" "walked \<le> length pts"
    and "distinct out" "dom (gm_get seen) = set out" "length out \<le> n"
  shows "owners_loop pts n walked i seen out
    = take n (out @ filter (\<lambda>x. x \<notin> set out) (nub (map vid (drop walked rot))))"
  using assms
proof (induction pts n walked i seen out rule: owners_loop.induct)
  case (1 pts n walked i seen out)
  note prems = "1.prems"
  have rot: "length rot = length pts" using prems(1,2) by simp
  show ?case
  proof (cases "walked < length pts \<and> length out < n")
    case False
    then have "owners_loop pts n walked i seen out = out"
      unfolding owners_loop.simps [of pts n walked i seen out] by (rule if_not_P)
    moreover have "walked = length pts \<or> length out = n"
      using False prems(4,7) by linarith
    ultimately show ?thesis using prems(7) rot by auto
  next
    case True
    define x where "x = vid (pts ! i)"
    define i' where "i' = (if i + 1 = length pts then 0 else i + 1)"
    have i': "i' = (s + (walked + 1)) mod length pts"
      using prems(2,3) by (auto simp: i'_def mod_Suc)
    have "vid (rot ! walked) = x"
      using rotation_nth [of s pts walked] prems(1-3) True by (simp add: x_def)
    then have drop: "map vid (drop walked rot) = x # map vid (drop (walked + 1) rot)"
      using True rot by (simp add: Cons_nth_drop_Suc [symmetric])
    have seen: "gm_get seen x = None \<longleftrightarrow> x \<notin> set out"
      using prems(6) by (metis domIff)
    have w: "walked + 1 \<le> length pts" using True by simp
    let ?rest = "nub (map vid (drop (walked + 1) rot))"
    show ?thesis
    proof (cases "x \<in> set out")
      case False
      have "owners_loop pts n walked i seen out
          = owners_loop pts n (walked + 1) i' (gm_put x () seen) (out @ [x])"
        using True False seen
        by (simp add: owners_loop.simps [of pts n walked i seen out] x_def i'_def Let_def)
      also have "\<dots> = take n ((out @ [x]) @ filter (\<lambda>y. y \<notin> set (out @ [x])) ?rest)"
      proof (rule "1.IH" [OF True x_def refl _ _ i'_def, of "gm_put x () seen" "out @ [x]"])
        show "dom (gm_get (gm_put x () seen)) = set (out @ [x])"
          by (simp only: gm.dom_put prems(6)) simp
      qed (use prems(1,2,5) i' w True False seen in auto)
      also have "filter (\<lambda>y. y \<notin> set (out @ [x])) ?rest
          = filter (\<lambda>y. y \<notin> set out) (filter (\<lambda>y. y \<noteq> x) ?rest)"
        by (simp add: conj_commute)
      finally show ?thesis
        using False by (simp add: drop)
    next
      case mem: True
      have "owners_loop pts n walked i seen out = owners_loop pts n (walked + 1) i' seen out"
        using True mem seen
        by (simp add: owners_loop.simps [of pts n walked i seen out] x_def i'_def Let_def)
      also have "\<dots> = take n (out @ filter (\<lambda>y. y \<notin> set out) ?rest)"
        by (rule "1.IH" [OF True x_def refl _ _ i'_def, of seen out])
          (use prems i' w mem seen in auto)
      also have "filter (\<lambda>y. y \<notin> set out) ?rest
          = filter (\<lambda>y. y \<notin> set out) (filter (\<lambda>y. y \<noteq> x) ?rest)"
        using mem by (auto intro!: filter_cong)
      finally show ?thesis
        using mem by (simp add: drop)
    qed
  qed
qed

text \<open>\<open>Owners\<close> is the prefix of the walk's distinct nodes, cut at the cluster size.\<close>

lemma rebuild_nonempty:
  "ring_inv r \<Longrightarrow> gm_len (nodes r) \<noteq> 0 \<longleftrightarrow> ring r \<noteq> []"
  by (auto simp: ring_inv_def gm.len_keys length_rebuild simp flip: length_greater_0_conv)

lemma set_owner_order:
  "ring_inv r \<Longrightarrow> set (owner_order h (ring r)) = set (gm_keys (nodes r))"
  by (simp add: owner_order_def ring_inv_def vids_rebuild)

lemma distinct_owner_order [simp]: "distinct (owner_order h pts)"
  by (simp add: owner_order_def)

lemma length_owner_order:
  assumes "ring_inv r"
  shows "length (owner_order h (ring r)) = gm_len (nodes r)"
  by (metis assms distinct_card distinct_owner_order gm.keys_distinct gm.len_keys ring_inv_def
      set_owner_order)

lemma Owners_eq:
  assumes "ring_inv r"
  shows "Owners r key n = take (nat n) (owner_order (Hash32 key) (ring r))"
proof (cases "n < 1 \<or> length (ring r) = 0 \<or> gm_len (nodes r) = 0")
  case True
  then have "Owners r key n = []"
    unfolding Owners_def by (rule if_P)
  moreover have "nat n = 0 \<or> owner_order (Hash32 key) (ring r) = []"
    using True rebuild_nonempty [OF assms] by (auto simp: owner_order_def succs_def)
  ultimately show ?thesis by auto
next
  case False
  define h where "h = Hash32 key"
  define s where "s = sort_search (length (ring r)) (\<lambda>i. vhash (ring r ! i) \<ge> h)"
  define s' where "s' = (if s = length (ring r) then 0 else s)"
  define n' where "n' = (if n > int (gm_len (nodes r)) then int (gm_len (nodes r)) else n)"
  have sorted: "sorted (ring r)" using assms by (simp add: ring_inv_def)
  have "s \<le> length (ring r)"
    using sort_search_spec [of "length (ring r)" "\<lambda>i. vhash (ring r ! i) \<ge> h"] sorted
    unfolding s_def by (meson order_trans sorted_nth_mono vhash_mono)
  then have s': "s' < length (ring r)" using False by (auto simp: s'_def)
  have rot: "drop s' (ring r) @ take s' (ring r) = succs h (ring r)"
    using search_is_succs [OF sorted s_def] by (auto simp: s'_def)
  have "Owners r key n = owners_loop (ring r) (nat n') 0 s' gm_empty []"
    using False by (simp add: Owners_def h_def s_def s'_def n'_def Let_def)
  also have "\<dots> = take (nat n') (owner_order h (ring r))"
    using owners_loop_eq [OF rot [symmetric] s', of s' 0 "[]" gm_empty "nat n'"] s'
    by (simp add: owner_order_def dom_def)
  also have "\<dots> = take (nat n) (owner_order h (ring r))"
    using length_owner_order [OF assms, of h] by (auto simp: n'_def)
  finally show ?thesis by (simp add: h_def)
qed

lemma Owners_length:
  "ring_inv r \<Longrightarrow> length (Owners r key n) = min (nat n) (Size r)"
  by (simp add: Owners_eq length_owner_order Size_def min.commute)

lemma Owners_distinct: "ring_inv r \<Longrightarrow> distinct (Owners r key n)"
  by (simp add: Owners_eq)

lemma Owners_members: "ring_inv r \<Longrightarrow> set (Owners r key n) \<subseteq> set (Nodes r)"
  by (metis Nodes_def Owners_eq set_owner_order set_sort set_take_subset)

lemma Owners_prefix: "ring_inv r \<Longrightarrow> m \<le> n \<Longrightarrow> Owners r key m = take (nat m) (Owners r key n)"
  by (simp add: Owners_eq min_def)

lemma Primary_eq:
  "ring_inv r \<Longrightarrow> Primary r key = (case owner_order (Hash32 key) (ring r) of [] \<Rightarrow> '''' | x # _ \<Rightarrow> x)"
  by (auto simp: Primary_def Owners_eq Let_def split: list.splits)

lemma Primary_hd_Owners:
  "ring_inv r \<Longrightarrow> 1 \<le> n \<Longrightarrow> Owners r key n \<noteq> [] \<Longrightarrow> hd (Owners r key n) = Primary r key"
  by (auto simp: Primary_eq Owners_eq split: list.splits)

lemma Primary_empty_iff: "ring_inv r \<Longrightarrow> Primary r key = '''' \<longleftrightarrow> Size r = 0"
proof -
  assume inv: "ring_inv r"
  have fresh: "'''' \<notin> set (owner_order (Hash32 key) (ring r))"
    unfolding set_owner_order [OF inv] gm.keys_set using inv by (simp add: ring_inv_def domIff)
  have "Size r = 0 \<longleftrightarrow> owner_order (Hash32 key) (ring r) = []"
    using length_owner_order [OF inv] by (metis Size_def length_0_conv)
  with fresh show ?thesis
    by (cases "owner_order (Hash32 key) (ring r)") (auto simp: Primary_eq [OF inv])
qed

section \<open>Consistent hashing: join and leave\<close>

lemma owner_order_filter:
  "owner_order h (filter (\<lambda>p. vid p \<noteq> x) pts) = filter (\<lambda>y. y \<noteq> x) (owner_order h pts)"
proof -
  have "map vid (succs h (filter (\<lambda>p. vid p \<noteq> x) pts)) = filter (\<lambda>y. y \<noteq> x) (map vid (succs h pts))"
    by (simp add: succs_def filter_map comp_def conj_commute)
  then show ?thesis by (simp add: owner_order_def nub_filter)
qed

lemma ring_Remove:
  assumes "ring_inv r"
  shows "ring (Remove x r) = filter (\<lambda>p. vid p \<noteq> x) (ring r)"
proof (cases "gm_get (nodes r) x = None")
  case True
  then have "x \<notin> set (gm_keys (nodes r))" by (auto simp: gm.keys_set)
  with True assms show ?thesis
    by (simp add: Remove_def ring_inv_def filter_rebuild filter_neq_self)
next
  case False
  with assms show ?thesis
    by (simp add: Remove_def rebuildLocked_def ring_inv_def filter_rebuild gm_keys_del)
qed

lemma owner_order_Remove:
  "ring_inv r \<Longrightarrow> owner_order h (ring (Remove x r)) = filter (\<lambda>y. y \<noteq> x) (owner_order h (ring r))"
  by (simp add: ring_Remove owner_order_filter)

lemma Remove_Add_ring:
  assumes "ring_inv r" "gm_get (nodes r) x = None"
  shows "ring (Remove x (Add x r)) = ring r"
proof (cases "x = ''''")
  case True
  with assms show ?thesis by (simp add: Add_def Remove_def)
next
  case False
  have "nodes (Add x r) = gm_put x () (nodes r)"
    using False assms by (simp add: Add_def rebuildLocked_def)
  moreover have "x \<notin> set (gm_keys (nodes r))"
    using assms(2) by (auto simp: gm.keys_set)
  ultimately show ?thesis
    using assms by (simp add: Remove_def rebuildLocked_def gm_keys_del gm_keys_put_new
        ring_inv_def filter_neq_self)
qed

lemma owner_order_Add:
  assumes "ring_inv r" "gm_get (nodes r) x = None"
  shows "filter (\<lambda>y. y \<noteq> x) (owner_order h (ring (Add x r))) = owner_order h (ring r)"
  using owner_order_Remove [OF ring_inv_Add [OF assms(1)], of h x x]
  by (simp add: Remove_Add_ring assms)


lemma not_member_iff: "x \<notin> set (Nodes r) \<longleftrightarrow> gm_get (nodes r) x = None"
  by (simp add: Nodes_def gm.keys_set domIff del: not_None_eq)


text \<open>The ring is a function of the set of members.\<close>

lemma same_members_ring:
  assumes "ring_inv r" "ring_inv r'" "vnodesPerNode r = vnodesPerNode r'" "set (Nodes r) = set (Nodes r')"
  shows "ring r = ring r'" "Nodes r = Nodes r'" "Owners r key n = Owners r' key n" "Primary r key = Primary r' key"
proof -
  have d: "distinct (gm_keys (nodes r))" "distinct (gm_keys (nodes r'))"
    using assms(1,2) by (simp_all add: ring_inv_def gm.keys_distinct)
  have s: "set (gm_keys (nodes r)) = set (gm_keys (nodes r'))"
    using assms(4) by (simp add: Nodes_def)
  show ring: "ring r = ring r'"
    using assms(1,2) rebuild_set_eq [OF d s] by (simp add: ring_inv_def assms(3))
  show "Nodes r = Nodes r'"
    unfolding Nodes_def using d s by (metis mset_set_set sort_perm_eq)
  show "Owners r key n = Owners r' key n" "Primary r key = Primary r' key"
    using ring by (simp_all add: Owners_eq Primary_eq assms(1,2))
qed

end
