(* ===== verification/RingTheorems.thy ===== *)
theory RingTheorems
  imports RingProps
begin

text \<open>
  What the ring promises its callers, for every ring the program can hold: the walk
  that places keys, and consistent hashing under joins and leaves.
\<close>

section \<open>Placement of keys\<close>

text \<open>Rings and stores on which the properties are evaluated.\<close>

definition demo_ring :: ring_t where
  "demo_ring = Add ''b'' (Add ''a'' (New_ring 2))"

lemma demo_ring_reachable: "ring_reachable demo_ring"
  by (simp add: demo_ring_def ring_reachable.intros)

text \<open>
  C13. \<open>Owners\<close> returns the first \<open>n\<close> distinct physical nodes met on the clockwise walk
  that starts at the first virtual node whose hash is at least the key's and wraps
  around at the end; the binary search and the loop with its \<open>seen\<close> map compute exactly
  that.
\<close>

theorem owners_are_the_clockwise_walk:
  "ring_reachable r \<Longrightarrow> Owners r key n = take (nat n) (owner_order (Hash32 key) (ring r))"
  by (simp add: Owners_eq ring_reachable_inv)

theorem owners_are_the_clockwise_walk_witness:
  "Owners demo_ring ''k'' 2 = take 2 (owner_order (Hash32 ''k'') (ring demo_ring))
    \<and> Owners demo_ring ''k'' 2 = [''a'', ''b'']"
  using owners_are_the_clockwise_walk [OF demo_ring_reachable, of "''k''" 2] by simp code_simp

text \<open>
  \<open>Owners\<close> returns \<open>min n size\<close> members, each once; the primary is the first of them,
  and asking for fewer owners returns a prefix, so the replicas of a key keep their
  order when the replication factor changes.
\<close>

theorem owners_distinct_members_prefix:
  assumes "ring_reachable r"
  shows "distinct (Owners r key n) \<and> set (Owners r key n) \<subseteq> set (Nodes r)
    \<and> length (Owners r key n) = min (nat n) (Size r)
    \<and> (m \<le> n \<longrightarrow> Owners r key m = take (nat m) (Owners r key n))
    \<and> (1 \<le> n \<and> Size r \<noteq> 0 \<longrightarrow> Primary r key = hd (Owners r key n))"
proof -
  note inv = ring_reachable_inv [OF assms]
  have "1 \<le> n \<and> Size r \<noteq> 0 \<Longrightarrow> Owners r key n \<noteq> []"
    using Owners_length [OF inv, of key n] by (simp flip: length_0_conv)
  then show ?thesis
    using Owners_distinct [OF inv] Owners_members [OF inv] Owners_length [OF inv]
      Owners_prefix [OF inv] Primary_hd_Owners [OF inv, of n key] by simp
qed

theorem owners_distinct_members_prefix_witness:
  "Primary demo_ring ''k'' = hd (Owners demo_ring ''k'' 2) \<and> Primary demo_ring ''k'' = ''a''
    \<and> Owners demo_ring ''k'' 1 = take 1 (Owners demo_ring ''k'' 2)"
proof -
  have "Size demo_ring \<noteq> 0" by code_simp
  moreover have "Primary demo_ring ''k'' = ''a''" by code_simp
  ultimately show ?thesis
    using owners_distinct_members_prefix [OF demo_ring_reachable, of "''k''" 2 1] by simp
qed

text \<open>
  C15. When a node leaves, every other owner list keeps its order: a key it did not own
  keeps its owners, and a key it owned loses it and gains the next node of the walk.
\<close>

theorem leave_moves_only_its_keys:
  assumes "ring_reachable r"
  shows "Owners (Remove x r) key n =
    (if x \<in> set (Owners r key n) then filter (\<lambda>y. y \<noteq> x) (Owners r key (n + 1)) else Owners r key n)"
proof -
  note inv = ring_reachable_inv [OF assms]
  have "0 \<le> n \<Longrightarrow> nat (n + 1) = Suc (nat n)" by simp
  then show ?thesis
    by (cases "0 \<le> n")
      (simp_all add: Owners_eq inv ring_inv_Remove owner_order_Remove take_filter_neq)
qed

theorem leave_moves_only_its_keys_witness:
  "Owners (Remove ''a'' demo_ring) ''k'' 1 = filter (\<lambda>y. y \<noteq> ''a'') (Owners demo_ring ''k'' 2)
    \<and> Owners (Remove ''a'' demo_ring) ''k'' 1 = [''b'']"
proof -
  have "''a'' \<in> set (Owners demo_ring ''k'' 1)" by code_simp
  then have "Owners (Remove ''a'' demo_ring) ''k'' 1 = filter (\<lambda>y. y \<noteq> ''a'') (Owners demo_ring ''k'' 2)"
    using leave_moves_only_its_keys [OF demo_ring_reachable, of "''a''" "''k''" 1] by simp
  moreover have "Owners (Remove ''a'' demo_ring) ''k'' 1 = [''b'']" by code_simp
  ultimately show ?thesis by simp
qed

text \<open>
  C16. When a node joins, a key moves only to it: the new owner list is the old one, or
  the old one with the new node put in and the overflow cut off, and the primary is the
  old primary or the new node.
\<close>

theorem join_moves_keys_only_to_the_new_node:
  assumes "ring_reachable r" "x \<notin> set (Nodes r)"
  shows "Owners r key n =
      (if x \<in> set (Owners (Add x r) key n)
       then filter (\<lambda>y. y \<noteq> x) (Owners (Add x r) key (n + 1)) else Owners (Add x r) key n)
    \<and> (Primary (Add x r) key = Primary r key \<or> Primary (Add x r) key = x)"
proof -
  note inv = ring_reachable_inv [OF assms(1)]
  have x: "gm_get (nodes r) x = None" using assms(2) by (simp add: not_member_iff)
  let ?o = "owner_order (Hash32 key) (ring (Add x r))"
  have o': "owner_order (Hash32 key) (ring r) = filter (\<lambda>y. y \<noteq> x) ?o"
    by (simp add: owner_order_Add [OF inv x])
  have "0 \<le> n \<Longrightarrow> nat (n + 1) = Suc (nat n)" by simp
  then have "Owners r key n =
      (if x \<in> set (Owners (Add x r) key n)
       then filter (\<lambda>y. y \<noteq> x) (Owners (Add x r) key (n + 1)) else Owners (Add x r) key n)"
    by (cases "0 \<le> n") (simp_all add: Owners_eq inv ring_inv_Add o' take_filter_neq)
  moreover have "Primary (Add x r) key = Primary r key \<or> Primary (Add x r) key = x"
    by (cases ?o) (simp_all add: Primary_eq inv ring_inv_Add o' ring_inv_Add)
  ultimately show ?thesis by blast
qed

theorem join_moves_keys_only_to_the_new_node_witness:
  "Primary (Add ''c'' demo_ring) ''k'' = Primary demo_ring ''k''
    \<or> Primary (Add ''c'' demo_ring) ''k'' = ''c''"
proof -
  have "''c'' \<notin> set (Nodes demo_ring)" by code_simp
  from join_moves_keys_only_to_the_new_node [OF demo_ring_reachable this, of "''k''" 1]
  show ?thesis by (rule conjunct2)
qed

text \<open>
  The ring depends on the set of members only: two processes that were told the same
  members, in whatever order and through whatever joins and leaves, and whatever order
  Go's map iteration takes, hold the same ring and route every key alike.
\<close>

theorem members_determine_the_ring:
  assumes "ring_reachable r" "ring_reachable r'" "vnodesPerNode r = vnodesPerNode r'"
    and "set (Nodes r) = set (Nodes r')"
  shows "ring r = ring r' \<and> Nodes r = Nodes r' \<and> Owners r key n = Owners r' key n"
  using same_members_ring [OF ring_reachable_inv [OF assms(1)] ring_reachable_inv [OF assms(2)] assms(3,4)]
  by simp

theorem members_determine_the_ring_witness:
  "Owners (Add ''a'' (Remove ''c'' (Add ''b'' (Add ''c'' (New_ring 2))))) ''k'' 2
    = Owners demo_ring ''k'' 2"
proof -
  have "ring_reachable (Add ''a'' (Remove ''c'' (Add ''b'' (Add ''c'' (New_ring 2)))))"
    by (intro ring_reachable.intros)
  moreover have "set (Nodes (Add ''a'' (Remove ''c'' (Add ''b'' (Add ''c'' (New_ring 2))))))
      = set (Nodes demo_ring)"
    by code_simp
  moreover have "vnodesPerNode (Add ''a'' (Remove ''c'' (Add ''b'' (Add ''c'' (New_ring 2)))))
      = vnodesPerNode demo_ring"
    by code_simp
  ultimately show ?thesis
    using members_determine_the_ring [OF _ demo_ring_reachable] by blast
qed

text \<open>
  The ring is sorted and holds exactly \<open>V\<close> virtual nodes per member; adding a member
  twice changes nothing, removing it undoes the addition, and the empty id is refused.
\<close>

theorem ring_shape:
  assumes "ring_reachable r"
  shows "sorted (ring r) \<and> Len_ring r = nat (VNodesPerNode r) * Size r
    \<and> vid ` set (ring r) = set (Nodes r)
    \<and> Add x (Add x r) = Add x r \<and> Add '''' r = r
    \<and> (x \<notin> set (Nodes r) \<longrightarrow> ring (Remove x (Add x r)) = ring r)"
proof -
  note inv = ring_reachable_inv [OF assms]
  have "x \<notin> set (Nodes r) \<longrightarrow> ring (Remove x (Add x r)) = ring r"
    using Remove_Add_ring [OF inv, of x] by (simp add: not_member_iff)
  moreover have "Add x (Add x r) = Add x r"
    by (simp add: Add_def rebuildLocked_def)
  ultimately show ?thesis
    using inv by (simp add: Len_ring_def VNodesPerNode_def Size_def Nodes_def ring_inv_def
        length_rebuild gm.len_keys vids_rebuild Add_def)
qed

theorem ring_shape_witness:
  "Len_ring demo_ring = nat (VNodesPerNode demo_ring) * Size demo_ring \<and> Len_ring demo_ring = 4"
  using ring_shape [OF demo_ring_reachable, of "''c''"] by simp code_simp

text \<open>
  The vnode formula \<open>id + "#" + i\<close> is injective, also for ids that contain \<open>#\<close> or
  digits: no two virtual nodes of a cluster share a name.
\<close>

theorem vnode_names_injective: "VNodeName a i = VNodeName b j \<longleftrightarrow> a = b \<and> i = j"
proof
  assume eq: "VNodeName a i = VNodeName b j"
  have rev: "takeWhile (\<lambda>c. c \<noteq> CHR ''#'') (rev (VNodeName nid k)) = rev (itoa k)" for nid k
    using itoa_no_hash [of k] by (auto simp: VNodeName_def takeWhile_tail takeWhile_eq_all_conv)
  have "rev (itoa i) = rev (itoa j)" using rev [of a i] rev [of b j] by (simp only: eq)
  then have "i = j" by (simp add: itoa_inj)
  with eq show "a = b \<and> i = j" by (simp add: VNodeName_def)
qed simp

end
