(* ===== verification/GoTime.thy ===== *)
theory GoTime
  imports Prelude
begin

text \<open>
  Go's \<open>int64\<close>, \<open>time.Duration\<close> and \<open>time.Time\<close> as the program uses them.
  An \<open>int64\<close> is an \<open>int\<close> with the wrap-around of its operations written out
  (\<open>wrap64\<close>); a duration is an \<open>int64\<close> of nanoseconds; an instant is the number of
  nanoseconds since the Unix epoch, unbounded because \<open>time.Time\<close> carries a 64-bit
  second count beside the nanoseconds. The zero \<open>time.Time\<close> (January 1, year 1) is
  \<open>zero_time\<close>, which the code uses for "no expiry". Differences of instants saturate
  at the ends of \<open>int64\<close>, as \<open>Time.Sub\<close> documents.
\<close>

definition min_int64 :: int where
  "min_int64 = - 9223372036854775808"

definition max_int64 :: int where
  "max_int64 = 9223372036854775807"

definition in_int64 :: "int \<Rightarrow> bool" where
  "in_int64 x \<longleftrightarrow> min_int64 \<le> x \<and> x \<le> max_int64"

definition wrap64 :: "int \<Rightarrow> int" where
  "wrap64 x = (x + 9223372036854775808) mod 18446744073709551616 - 9223372036854775808"

lemmas int64_defs = min_int64_def max_int64_def in_int64_def wrap64_def

lemma wrap64_range: "in_int64 (wrap64 x)"
proof -
  have "0 \<le> (x + 9223372036854775808) mod 18446744073709551616"
    and "(x + 9223372036854775808) mod 18446744073709551616 < 18446744073709551616"
    by simp_all
  then show ?thesis by (simp add: int64_defs)
qed

lemma wrap64_id: "in_int64 x \<Longrightarrow> wrap64 x = x"
  by (simp add: int64_defs mod_pos_pos_trivial)

section \<open>Integer division\<close>

text \<open>Go's \<open>/\<close> on integers truncates towards zero.\<close>

definition go_div :: "int \<Rightarrow> int \<Rightarrow> int" where
  "go_div a b = sgn a * sgn b * (\<bar>a\<bar> div \<bar>b\<bar>)"

lemma go_div_nonneg: "0 \<le> a \<Longrightarrow> 0 < b \<Longrightarrow> go_div a b = a div b"
  by (cases "a = 0") (auto simp: go_div_def sgn_if)

lemma go_div_neg: "a < 0 \<Longrightarrow> 0 < b \<Longrightarrow> go_div a b = - ((- a) div b)"
  by (simp add: go_div_def sgn_if)

lemma go_div_rem_neg: "a < 0 \<Longrightarrow> 0 < b \<Longrightarrow> a - b * go_div a b \<le> 0"
proof -
  assume "a < 0" "0 < b"
  then have "b * go_div a b = - ((- a) div b * b)" by (simp add: go_div_neg mult.commute)
  moreover have "(- a) div b * b \<le> - a"
    using \<open>0 < b\<close> div_mult_mod_eq [of "- a" b] pos_mod_sign [of b "- a"] by linarith
  ultimately show ?thesis by linarith
qed

lemma go_div_le_0: "a \<le> 0 \<Longrightarrow> 0 < b \<Longrightarrow> go_div a b \<le> 0"
  by (cases "a = 0") (auto simp: go_div_neg go_div_nonneg pos_imp_zdiv_nonneg_iff)

section \<open>Durations and instants\<close>

type_synonym duration = int
type_synonym time = int

definition millisecond :: duration where
  "millisecond = 1000000"

definition second :: duration where
  "second = 1000000000"

definition dur_mul :: "int \<Rightarrow> duration \<Rightarrow> duration" where
  "dur_mul a b = wrap64 (a * b)"

definition milliseconds :: "duration \<Rightarrow> int" where
  "milliseconds d = go_div d 1000000"

definition zero_time :: time where
  "zero_time = - 62135596800000000000"

definition is_zero :: "time \<Rightarrow> bool" where
  "is_zero t \<longleftrightarrow> t = zero_time"

definition time_add :: "time \<Rightarrow> duration \<Rightarrow> time" where
  "time_add t d = t + d"

definition time_before :: "time \<Rightarrow> time \<Rightarrow> bool" where
  "time_before a b \<longleftrightarrow> a < b"

definition time_sub :: "time \<Rightarrow> time \<Rightarrow> duration" where
  "time_sub a b = max min_int64 (min max_int64 (a - b))"

definition unix_nano :: "time \<Rightarrow> int" where
  "unix_nano t = wrap64 t"

lemmas time_defs = millisecond_def second_def dur_mul_def milliseconds_def zero_time_def
  is_zero_def time_add_def time_before_def time_sub_def unix_nano_def

declare int64_defs [ringcache_simps] and time_defs [ringcache_simps]

text \<open>Every instant the system clock returns lies after the Unix epoch.\<close>

abbreviation clock_ok :: "time \<Rightarrow> bool" where
  "clock_ok t \<equiv> 0 \<le> t"

lemma clock_not_zero: "clock_ok t \<Longrightarrow> \<not> is_zero t"
  by (simp add: is_zero_def zero_time_def)

lemma clock_add_not_zero: "clock_ok t \<Longrightarrow> 0 \<le> d \<Longrightarrow> \<not> is_zero (time_add t d)"
  by (simp add: time_defs)

lemma time_sub_range: "in_int64 (time_sub a b)"
  by (simp add: time_sub_def int64_defs)

lemma time_sub_le_0_iff: "time_sub a b \<le> 0 \<longleftrightarrow> a \<le> b"
  by (auto simp: time_sub_def int64_defs)

lemma time_sub_exact: "in_int64 (a - b) \<Longrightarrow> time_sub a b = a - b"
  by (simp add: time_sub_def int64_defs)

lemma time_sub_mono: "a \<le> a' \<Longrightarrow> time_sub a b \<le> time_sub a' b"
  by (simp add: time_sub_def max_def min_def)

lemma milliseconds_le_0: "d \<le> 0 \<Longrightarrow> milliseconds d \<le> 0"
  by (simp add: milliseconds_def go_div_le_0)

lemma milliseconds_pos: "0 \<le> d \<Longrightarrow> milliseconds d = d div 1000000"
  by (simp add: milliseconds_def go_div_nonneg)

lemma milliseconds_floor:
  assumes "0 \<le> d"
  shows "milliseconds d * 1000000 \<le> d" and "d < milliseconds d * 1000000 + 1000000"
proof -
  have "d = d div 1000000 * 1000000 + d mod 1000000" by simp
  moreover have "0 \<le> d mod 1000000" "d mod 1000000 < 1000000" by simp_all
  ultimately show "milliseconds d * 1000000 \<le> d" "d < milliseconds d * 1000000 + 1000000"
    using assms by (simp_all only: milliseconds_pos)
qed

text \<open>Milliseconds to nanoseconds is exact below the overflow bound.\<close>

lemma dur_mul_ms_exact:
  assumes "0 \<le> ms" "ms \<le> 9223372036854"
  shows "dur_mul ms millisecond = ms * 1000000"
  using assms by (simp add: dur_mul_def millisecond_def wrap64_id in_int64_def
      min_int64_def max_int64_def)

end
