(* ===== verification/Store.thy ===== *)
theory Store
  imports GoTime "HOL-Library.Word"
begin

text \<open>
  \<open>internal/store/store.go\<close>: the LRU+TTL cache of one process. The state is the
  struct: the doubly linked list \<open>ll\<close> is the list of its element addresses, front
  first; the map \<open>items\<close> sends a key to an element address; \<open>elems\<close> is the heap of
  the elements' \<open>*item\<close> values, which \<open>Set\<close> mutates in place through the pointer the
  map holds, and \<open>next_elem\<close> the allocator. The statistics are \<open>uint64\<close> counters and
  wrap. Every method holds the mutex for its whole body and reads the clock inside it,
  so it is one function of the state and of the instant \<open>now\<close>. The janitor's tick is
  \<open>sweep\<close>.
\<close>

section \<open>Data\<close>

record entry =
  Value :: string
  ExpiresAt :: time
  WrittenAt :: int

record item =
  ikey :: string
  ivalue :: string
  iexpires :: time
  iwritten :: int

type_synonym elem = nat

record store =
  capacity :: int
  ll :: "elem list"
  items :: "(string, elem) gomap"
  elems :: "elem \<Rightarrow> item"
  next_elem :: elem
  hits :: "64 word"
  misses :: "64 word"
  sets :: "64 word"
  deletes :: "64 word"
  evicts :: "64 word"
  expired_ct :: "64 word"
  skipped :: "64 word"

record stats =
  Keys :: nat
  stCapacity :: int
  Hits :: "64 word"
  Misses :: "64 word"
  Sets :: "64 word"
  Deletes :: "64 word"
  Evictions :: "64 word"
  Expired :: "64 word"
  Skipped :: "64 word"

text \<open>Go's zero value \<open>Entry{}\<close>.\<close>

definition zero_entry :: entry where
  "zero_entry = \<lparr>Value = '''', ExpiresAt = zero_time, WrittenAt = 0\<rparr>"

definition zero_item :: item where
  "zero_item = \<lparr>ikey = '''', ivalue = '''', iexpires = zero_time, iwritten = 0\<rparr>"

section \<open>Operations\<close>

definition New_store :: "int \<Rightarrow> store" where
  "New_store cap =
    \<lparr>capacity = (if cap < 1 then 1 else cap), ll = [], items = gm_empty,
     elems = (\<lambda>_. zero_item), next_elem = 0, hits = 0, misses = 0, sets = 0, deletes = 0,
     evicts = 0, expired_ct = 0, skipped = 0\<rparr>"

definition expired :: "item \<Rightarrow> time \<Rightarrow> bool" where
  "expired it now \<longleftrightarrow> \<not> is_zero (iexpires it) \<and> \<not> time_before now (iexpires it)"

definition removeElem :: "elem \<Rightarrow> store \<Rightarrow> store" where
  "removeElem el s =
    (let it = elems s el
     in s\<lparr>items := gm_del (ikey it) (items s), ll := remove1 el (ll s)\<rparr>)"

definition moveToFront :: "elem \<Rightarrow> store \<Rightarrow> store" where
  "moveToFront el s = s\<lparr>ll := el # remove1 el (ll s)\<rparr>"

definition Get :: "time \<Rightarrow> string \<Rightarrow> store \<Rightarrow> (entry \<times> bool) \<times> store" where
  "Get now key s =
    (case gm_get (items s) key of
       None \<Rightarrow> ((zero_entry, False), s\<lparr>misses := misses s + 1\<rparr>)
     | Some el \<Rightarrow>
         (let it = elems s el
          in if expired it now then
               (let s1 = removeElem el s
                in ((zero_entry, False),
                    s1\<lparr>expired_ct := expired_ct s1 + 1, misses := misses s1 + 1\<rparr>))
             else
               (let s1 = moveToFront el s
                in ((\<lparr>Value = ivalue it, ExpiresAt = iexpires it, WrittenAt = iwritten it\<rparr>, True),
                    s1\<lparr>hits := hits s1 + 1\<rparr>))))"

definition evictLRU :: "store \<Rightarrow> store" where
  "evictLRU s =
    (if ll s = [] then s
     else (let s1 = removeElem (last (ll s)) s in s1\<lparr>evicts := evicts s1 + 1\<rparr>))"

text \<open>
  The loop \<open>for len(s.items) >= s.capacity\<close> of \<open>Set\<close> stops only because every round
  removes an element, which the code does not check: it is a partial function, and its
  termination is a theorem about stores that satisfy the invariant.
\<close>

partial_function (option) evict_loop :: "store \<Rightarrow> store option" where
  "evict_loop s =
    (if int (gm_len (items s)) \<ge> capacity s then evict_loop (evictLRU s) else Some s)"

definition pushFront :: "item \<Rightarrow> store \<Rightarrow> elem \<times> store" where
  "pushFront it s =
    (let el = next_elem s
     in (el, s\<lparr>next_elem := el + 1, elems := (elems s)(el := it), ll := el # ll s\<rparr>))"

definition Set ::
  "time \<Rightarrow> string \<Rightarrow> string \<Rightarrow> duration \<Rightarrow> int \<Rightarrow> store \<Rightarrow> (bool \<times> store) option" where
  "Set now key value ttl writtenAt s =
    (let exp = (if ttl > 0 then time_add now ttl else zero_time)
     in case gm_get (items s) key of
          Some el \<Rightarrow>
            (let it = elems s el
             in if iwritten it > writtenAt then
                  Some (False, s\<lparr>skipped := skipped s + 1\<rparr>)
                else
                  (let it' = it\<lparr>ivalue := value, iexpires := exp, iwritten := writtenAt\<rparr>;
                       s1 = moveToFront el (s\<lparr>elems := (elems s)(el := it')\<rparr>)
                   in Some (True, s1\<lparr>sets := sets s1 + 1\<rparr>)))
        | None \<Rightarrow>
            (case evict_loop s of
               None \<Rightarrow> None
             | Some s1 \<Rightarrow>
                 (let it = \<lparr>ikey = key, ivalue = value, iexpires = exp, iwritten = writtenAt\<rparr>;
                      (el, s2) = pushFront it s1;
                      s3 = s2\<lparr>items := gm_put key el (items s2)\<rparr>
                  in Some (True, s3\<lparr>sets := sets s3 + 1\<rparr>))))"

definition Delete :: "string \<Rightarrow> store \<Rightarrow> bool \<times> store" where
  "Delete key s =
    (case gm_get (items s) key of
       None \<Rightarrow> (False, s)
     | Some el \<Rightarrow> (let s1 = removeElem el s in (True, s1\<lparr>deletes := deletes s1 + 1\<rparr>)))"

definition Len_store :: "store \<Rightarrow> nat" where
  "Len_store s = gm_len (items s)"

definition Stats :: "store \<Rightarrow> stats" where
  "Stats s =
    \<lparr>Keys = gm_len (items s), stCapacity = capacity s, Hits = hits s, Misses = misses s,
     Sets = sets s, Deletes = deletes s, Evictions = evicts s, Expired = expired_ct s,
     Skipped = skipped s\<rparr>"

text \<open>
  \<open>sweep\<close> walks from the back with \<open>prev\<close> read before the element is removed; removing
  an element leaves the ones before it in place, so the walk visits the elements of the
  list it started on, last to first.
\<close>

fun sweep_loop :: "time \<Rightarrow> elem list \<Rightarrow> store \<Rightarrow> store" where
  "sweep_loop now [] s = s"
| "sweep_loop now (el # rest) s =
    (let it = elems s el;
         s1 = (if expired it now then
                 (let s0 = removeElem el s in s0\<lparr>expired_ct := expired_ct s0 + 1\<rparr>)
               else s)
     in sweep_loop now rest s1)"

definition sweep :: "time \<Rightarrow> store \<Rightarrow> store" where
  "sweep now s = sweep_loop now (rev (ll s)) s"

lemmas store_op_defs = New_store_def removeElem_def moveToFront_def Get_def evictLRU_def
  pushFront_def Set_def Delete_def Len_store_def sweep_def

end
