(* ===== verification/LruSpec.thy ===== *)
theory LruSpec
  imports Store
begin

text \<open>
  What the cache promises, without pointers: a list of items, most recently used first,
  with distinct keys and at most \<open>cap\<close> of them. Each operation of \<open>Store\<close> has its
  counterpart here; \<open>StoreRefine\<close> proves that the code simulates it.
\<close>

section \<open>The abstract cache\<close>

definition lookup :: "string \<Rightarrow> item list \<Rightarrow> item option" where
  "lookup key l = find (\<lambda>it. ikey it = key) l"

definition without :: "string \<Rightarrow> item list \<Rightarrow> item list" where
  "without key l = filter (\<lambda>it. ikey it \<noteq> key) l"

definition entry_of :: "item \<Rightarrow> entry" where
  "entry_of it = \<lparr>Value = ivalue it, ExpiresAt = iexpires it, WrittenAt = iwritten it\<rparr>"

definition expiry :: "time \<Rightarrow> duration \<Rightarrow> time" where
  "expiry now ttl = (if ttl > 0 then time_add now ttl else zero_time)"

definition lru_get :: "time \<Rightarrow> string \<Rightarrow> item list \<Rightarrow> (entry \<times> bool) \<times> item list" where
  "lru_get now key l =
    (case lookup key l of
       None \<Rightarrow> ((zero_entry, False), l)
     | Some it \<Rightarrow>
         if expired it now then ((zero_entry, False), without key l)
         else ((entry_of it, True), it # without key l))"

definition lru_set ::
  "int \<Rightarrow> time \<Rightarrow> string \<Rightarrow> string \<Rightarrow> duration \<Rightarrow> int \<Rightarrow> item list \<Rightarrow> bool \<times> item list" where
  "lru_set cap now key value ttl w l =
    (let it' = \<lparr>ikey = key, ivalue = value, iexpires = expiry now ttl, iwritten = w\<rparr>
     in case lookup key l of
          Some it \<Rightarrow> if iwritten it > w then (False, l) else (True, it' # without key l)
        | None \<Rightarrow> (True, it' # take (nat cap - 1) l))"

definition lru_delete :: "string \<Rightarrow> item list \<Rightarrow> bool \<times> item list" where
  "lru_delete key l = (lookup key l \<noteq> None, without key l)"

definition lru_sweep :: "time \<Rightarrow> item list \<Rightarrow> item list" where
  "lru_sweep now l = filter (\<lambda>it. \<not> expired it now) l"

definition lru_ok :: "int \<Rightarrow> item list \<Rightarrow> bool" where
  "lru_ok cap l \<longleftrightarrow> distinct (map ikey l) \<and> int (length l) \<le> cap"

section \<open>Lookup laws\<close>

lemma lookup_Nil [simp]: "lookup key [] = None"
  by (simp add: lookup_def)

lemma lookup_Cons [simp]: "lookup key (it # l) = (if ikey it = key then Some it else lookup key l)"
  by (simp add: lookup_def)

lemma lookup_without [simp]: "lookup k (without key l) = (if k = key then None else lookup k l)"
  by (induction l) (auto simp: without_def)

lemma lookup_None_iff: "lookup key l = None \<longleftrightarrow> key \<notin> ikey ` set l"
  by (induction l) auto

lemma lookup_SomeD: "lookup key l = Some it \<Longrightarrow> it \<in> set l \<and> ikey it = key"
  by (induction l) (auto split: if_splits)

lemma lookup_in: "distinct (map ikey l) \<Longrightarrow> it \<in> set l \<Longrightarrow> lookup (ikey it) l = Some it"
  by (induction l) (auto simp: image_iff)

lemma lookup_filter:
  assumes "distinct (map ikey l)"
  shows "lookup k (filter P l)
    = (case lookup k l of Some it \<Rightarrow> if P it then Some it else None | None \<Rightarrow> None)"
  using assms
proof (induction l)
  case Nil
  then show ?case by simp
next
  case (Cons a l)
  then have "ikey a = k \<Longrightarrow> lookup k l = None"
    by (auto simp: lookup_None_iff)
  with Cons show ?case by auto
qed

lemma without_notin: "lookup key l = None \<Longrightarrow> without key l = l"
  by (auto simp: lookup_None_iff without_def filter_id_conv)

lemma set_without: "set (without key l) = {it \<in> set l. ikey it \<noteq> key}"
  by (auto simp: without_def)

lemma distinct_without: "distinct (map ikey l) \<Longrightarrow> distinct (map ikey (without key l))"
  by (simp add: without_def distinct_map_filter)

lemma length_without:
  assumes "distinct (map ikey l)"
  shows "length (without key l) = (if lookup key l = None then length l else length l - 1)"
proof -
  have "map ikey (without key l) = filter (\<lambda>k. k \<noteq> key) (map ikey l)"
    by (simp add: without_def filter_map comp_def)
  then have "length (without key l) = length (filter (\<lambda>k. k \<noteq> key) (map ikey l))"
    by (metis length_map)
  also have "\<dots> = (if key \<in> set (map ikey l) then length (map ikey l) - 1 else length (map ikey l))"
    using assms by (rule length_filter_neq)
  finally show ?thesis by (simp add: lookup_None_iff)
qed

section \<open>The operations keep the cache well-formed\<close>

lemma lru_ok_without: "lru_ok cap l \<Longrightarrow> lru_ok cap (without key l)"
  by (auto simp: lru_ok_def distinct_without length_without)

text \<open>Putting an item at the front in place of the one with its key.\<close>

lemma lru_ok_replace:
  assumes "lru_ok cap l" "lookup (ikey it) l \<noteq> None"
  shows "lru_ok cap (it # without (ikey it) l)"
proof -
  have "l \<noteq> []" using assms(2) by auto
  with assms show ?thesis
    by (auto simp: lru_ok_def distinct_without length_without set_without Suc_le_eq)
qed

lemma lru_ok_get: "lru_ok cap l \<Longrightarrow> lru_ok cap (snd (lru_get now key l))"
proof (cases "lookup key l")
  case (Some it)
  moreover have "ikey it = key" using lookup_SomeD [OF Some] by simp
  moreover assume "lru_ok cap l"
  ultimately show ?thesis
    using lru_ok_replace [of cap l it] by (auto simp: lru_get_def lru_ok_without)
qed (simp add: lru_get_def)

lemma lru_ok_delete: "lru_ok cap l \<Longrightarrow> lru_ok cap (snd (lru_delete key l))"
  by (simp add: lru_delete_def lru_ok_without)

lemma lru_ok_sweep: "lru_ok cap l \<Longrightarrow> lru_ok cap (lru_sweep now l)"
  by (simp add: lru_sweep_def lru_ok_def distinct_map_filter)
    (meson length_filter_le of_nat_mono order_trans)

lemma lru_ok_set:
  assumes "lru_ok cap l" "1 \<le> cap"
  shows "lru_ok cap (snd (lru_set cap now key value ttl w l))"
proof (cases "lookup key l")
  case None
  then have "key \<notin> set (take (nat cap - 1) (map ikey l))"
    by (auto simp: lookup_None_iff dest: in_set_takeD)
  with None assms show ?thesis
    by (auto simp: lru_set_def lru_ok_def Let_def simp flip: take_map)
next
  case (Some it)
  let ?it' = "\<lparr>ikey = key, ivalue = value, iexpires = expiry now ttl, iwritten = w\<rparr>"
  show ?thesis
    using lru_ok_replace [of cap l ?it'] Some assms by (simp add: lru_set_def Let_def)
qed

end
