(* ===== verification/StoreRefine.thy ===== *)
theory StoreRefine
  imports LruSpec
begin

text \<open>
  The pointer-level store refines the abstract cache: \<open>entries\<close> reads the list off the
  heap, \<open>store_inv\<close> says that map, list and heap agree, and each operation commutes
  with \<open>entries\<close>. The eviction loop terminates on every store with the invariant.
\<close>

section \<open>Abstraction and invariant\<close>

definition entries :: "store \<Rightarrow> item list" where
  "entries s = map (elems s) (ll s)"

definition store_inv :: "store \<Rightarrow> bool" where
  "store_inv s \<longleftrightarrow> 1 \<le> capacity s \<and> gm_ok (items s) \<and> distinct (ll s)
    \<and> (\<forall>e \<in> set (ll s). e < next_elem s)
    \<and> (\<forall>k e. gm_get (items s) k = Some e \<longleftrightarrow> e \<in> set (ll s) \<and> ikey (elems s e) = k)
    \<and> int (length (ll s)) \<le> capacity s"

lemma store_invD:
  assumes "store_inv s"
  shows "1 \<le> capacity s" "gm_ok (items s)" "distinct (ll s)" "e \<in> set (ll s) \<Longrightarrow> e < next_elem s"
    "gm_get (items s) k = Some e \<longleftrightarrow> e \<in> set (ll s) \<and> ikey (elems s e) = k"
    "int (length (ll s)) \<le> capacity s"
  using assms by (auto simp: store_inv_def)

lemma key_unique:
  "store_inv s \<Longrightarrow> e \<in> set (ll s) \<Longrightarrow> e' \<in> set (ll s) \<Longrightarrow> ikey (elems s e) = ikey (elems s e') \<Longrightarrow> e = e'"
  by (metis option.inject store_invD(5))

lemma distinct_keys: "store_inv s \<Longrightarrow> distinct (map ikey (entries s))"
  by (auto simp: entries_def distinct_map comp_def inj_on_def key_unique dest: store_invD(3))

lemma get_items_eq_lookup:
  assumes "store_inv s"
  shows "map_option (elems s) (gm_get (items s) key) = lookup key (entries s)"
proof (cases "gm_get (items s) key")
  case None
  have "ikey (elems s e) \<noteq> key" if "e \<in> set (ll s)" for e
    using that None store_invD(5) [OF assms, of key e] by auto
  then have "key \<notin> ikey ` set (entries s)"
    by (auto simp: entries_def)
  then have "lookup key (entries s) = None"
    by (simp only: lookup_None_iff not_False_eq_True)
  with None show ?thesis by simp
next
  case (Some e)
  then have e: "e \<in> set (ll s)" "ikey (elems s e) = key"
    using store_invD(5) [OF assms] by auto
  then have "lookup key (entries s) = Some (elems s e)"
    using lookup_in [OF distinct_keys [OF assms], of "elems s e"] by (simp add: entries_def)
  with Some show ?thesis by simp
qed

lemma get_items_Some:
  "store_inv s \<Longrightarrow> gm_get (items s) key = Some e \<Longrightarrow> lookup key (entries s) = Some (elems s e)"
  using get_items_eq_lookup [of s key] by simp

lemma get_items_None:
  "store_inv s \<Longrightarrow> gm_get (items s) key = None \<longleftrightarrow> lookup key (entries s) = None"
  using get_items_eq_lookup [of s key] by (metis map_option_is_None)

lemmas get_items_NoneD = get_items_None [THEN iffD1]

lemma len_items:
  assumes "store_inv s"
  shows "gm_len (items s) = length (ll s)"
proof -
  have "set (map (ikey \<circ> elems s) (ll s)) = dom (gm_get (items s))"
    using store_invD(5) [OF assms] by (auto simp: dom_def)
  moreover have "distinct (map (ikey \<circ> elems s) (ll s))"
    using distinct_keys [OF assms] by (simp add: entries_def)
  ultimately show ?thesis
    using gm.len_eq_length [OF store_invD(2) [OF assms]] by (metis length_map)
qed

lemma lru_ok_entries: "store_inv s \<Longrightarrow> lru_ok (capacity s) (entries s)"
  by (simp add: lru_ok_def distinct_keys) (simp add: entries_def store_invD(6))

section \<open>The primitive list operations\<close>

lemma entries_remove:
  assumes "store_inv s" "e \<in> set (ll s)"
  shows "entries (removeElem e s) = without (ikey (elems s e)) (entries s)"
proof -
  have "filter (\<lambda>x. ikey (elems s x) \<noteq> ikey (elems s e)) (ll s) = filter (\<lambda>x. x \<noteq> e) (ll s)"
    using key_unique [OF assms(1) _ assms(2)] by (auto intro: filter_cong)
  with assms show ?thesis
    by (simp add: entries_def removeElem_def Let_def without_def filter_map comp_def
        distinct_remove1_removeAll removeAll_filter_not_eq store_invD(3) eq_commute)
qed

lemma removeElem_inv:
  assumes "store_inv s" "e \<in> set (ll s)"
  shows "store_inv (removeElem e s)"
proof -
  have "length (remove1 e (ll s)) \<le> length (ll s)" by (simp add: length_remove1)
  moreover have "ikey (elems s e') \<noteq> ikey (elems s e)" if "e' \<in> set (ll s)" "e' \<noteq> e" for e'
    using that assms key_unique by blast
  ultimately show ?thesis
    using assms by (auto simp: store_inv_def removeElem_def Let_def distinct_remove1)
qed

lemma moveToFront_inv:
  assumes "store_inv s" "e \<in> set (ll s)"
  shows "store_inv (moveToFront e s)"
proof -
  have "set (e # remove1 e (ll s)) = set (ll s)" and "length (e # remove1 e (ll s)) = length (ll s)"
    using assms store_invD(3) [OF assms(1)]
    by (auto simp: length_remove1 dest: length_pos_if_in_set)
  with assms show ?thesis
    by (auto simp: store_inv_def moveToFront_def distinct_remove1)
qed

lemma entries_moveToFront:
  assumes "store_inv s" "e \<in> set (ll s)"
  shows "entries (moveToFront e s) = elems s e # without (ikey (elems s e)) (entries s)"
  using entries_remove [OF assms] by (simp add: entries_def moveToFront_def removeElem_def Let_def)

text \<open>The counters are no part of the representation.\<close>

lemma entries_frame [simp]:
  "entries (s\<lparr>hits := x\<rparr>) = entries s" "entries (s\<lparr>misses := x\<rparr>) = entries s"
  "entries (s\<lparr>sets := x\<rparr>) = entries s" "entries (s\<lparr>deletes := x\<rparr>) = entries s"
  "entries (s\<lparr>evicts := x\<rparr>) = entries s" "entries (s\<lparr>expired_ct := x\<rparr>) = entries s"
  "entries (s\<lparr>skipped := x\<rparr>) = entries s"
  by (simp_all add: entries_def)

lemma store_inv_frame [simp]:
  "store_inv (s\<lparr>hits := x\<rparr>) = store_inv s" "store_inv (s\<lparr>misses := x\<rparr>) = store_inv s"
  "store_inv (s\<lparr>sets := x\<rparr>) = store_inv s" "store_inv (s\<lparr>deletes := x\<rparr>) = store_inv s"
  "store_inv (s\<lparr>evicts := x\<rparr>) = store_inv s" "store_inv (s\<lparr>expired_ct := x\<rparr>) = store_inv s"
  "store_inv (s\<lparr>skipped := x\<rparr>) = store_inv s"
  by (simp_all add: store_inv_def)

lemma capacity_prim [simp]:
  "capacity (removeElem e s) = capacity s" "capacity (moveToFront e s) = capacity s"
  "capacity (evictLRU s) = capacity s" "capacity (snd (pushFront it s)) = capacity s"
  by (simp_all add: removeElem_def moveToFront_def evictLRU_def pushFront_def Let_def)

section \<open>Eviction\<close>

lemma evictLRU_inv: "store_inv s \<Longrightarrow> store_inv (evictLRU s)"
  by (simp add: evictLRU_def Let_def removeElem_inv)

lemma entries_evictLRU:
  assumes "store_inv s"
  shows "entries (evictLRU s) = butlast (entries s)"
  using assms store_invD(3) [OF assms]
  by (auto simp: evictLRU_def Let_def entries_def removeElem_def remove1_last map_butlast)

lemma evict_loop_once:
  assumes "store_inv s"
  shows "evict_loop s = Some (if int (length (ll s)) = capacity s then evictLRU s else s)"
proof (cases "int (length (ll s)) = capacity s")
  case True
  have inv: "store_inv (evictLRU s)" using assms by (rule evictLRU_inv)
  have "length (entries (evictLRU s)) = length (entries s) - 1"
    by (simp add: entries_evictLRU [OF assms])
  then have "length (ll (evictLRU s)) = length (ll s) - 1"
    by (simp add: entries_def)
  then have "int (gm_len (items (evictLRU s))) < capacity (evictLRU s)"
    using True store_invD(1) [OF assms] by (simp add: len_items [OF inv])
  then have "evict_loop (evictLRU s) = Some (evictLRU s)"
    by (subst evict_loop.simps) simp
  with True show ?thesis
    by (subst evict_loop.simps) (simp add: len_items [OF assms])
next
  case False
  with store_invD(6) [OF assms] show ?thesis
    by (subst evict_loop.simps) (simp add: len_items [OF assms])
qed

lemma evict_loop_spec:
  assumes "store_inv s"
  obtains s1 where "evict_loop s = Some s1" "store_inv s1" "capacity s1 = capacity s"
    "entries s1 = take (nat (capacity s) - 1) (entries s)"
proof
  let ?s1 = "if int (length (ll s)) = capacity s then evictLRU s else s"
  show "evict_loop s = Some ?s1" using assms by (rule evict_loop_once)
  show "store_inv ?s1" using assms evictLRU_inv by simp
  show "capacity ?s1 = capacity s" by simp
  have len: "length (entries s) = length (ll s)" by (simp add: entries_def)
  have "int (length (ll s)) \<noteq> capacity s \<Longrightarrow> length (ll s) \<le> nat (capacity s) - 1"
    using store_invD(6) [OF assms] by linarith
  moreover have "int (length (ll s)) = capacity s \<Longrightarrow> length (ll s) = nat (capacity s)"
    by linarith
  ultimately show "entries ?s1 = take (nat (capacity s) - 1) (entries s)"
    using len by (auto simp: entries_evictLRU [OF assms] butlast_conv_take)
qed

section \<open>Every operation refines its specification\<close>

lemma insert_inv:
  assumes "store_inv s" "gm_get (items s) (ikey it) = None" "int (length (ll s)) < capacity s"
    and "pushFront it s = (e, s2)"
  shows "store_inv (s2\<lparr>items := gm_put (ikey it) e (items s2)\<rparr>)"
    and "entries (s2\<lparr>items := gm_put (ikey it) e (items s2)\<rparr>) = it # entries s"
proof -
  have e: "e = next_elem s" and s2: "s2 = s\<lparr>next_elem := e + 1, elems := (elems s)(e := it), ll := e # ll s\<rparr>"
    using assms(4) by (auto simp: pushFront_def Let_def)
  have fresh: "e \<notin> set (ll s)" using store_invD(4) [OF assms(1)] e by blast
  have "ikey (elems s e') \<noteq> ikey it" if "e' \<in> set (ll s)" for e'
    using that assms(2) store_invD(5) [OF assms(1), of "ikey it" e'] by auto
  then show "store_inv (s2\<lparr>items := gm_put (ikey it) e (items s2)\<rparr>)"
    using assms(1,3) fresh by (auto simp: store_inv_def s2 e less_Suc_eq)
  show "entries (s2\<lparr>items := gm_put (ikey it) e (items s2)\<rparr>) = it # entries s"
    using fresh by (auto simp: entries_def s2)
qed

lemma New_refines: "store_inv (New_store cap)" "entries (New_store cap) = []"
  "capacity (New_store cap) = max 1 cap"
  by (auto simp: store_inv_def New_store_def entries_def)

lemma Get_refines:
  assumes "store_inv s"
  shows "store_inv (snd (Get now key s)) \<and> capacity (snd (Get now key s)) = capacity s
    \<and> lru_get now key (entries s) = (fst (Get now key s), entries (snd (Get now key s)))"
proof (cases "gm_get (items s) key")
  case None
  with get_items_NoneD [OF assms] assms show ?thesis
    by (simp add: Get_def lru_get_def)
next
  case (Some e)
  with store_invD(5) [OF assms] have e: "e \<in> set (ll s)" "ikey (elems s e) = key" by auto
  show ?thesis
    using get_items_Some [OF assms Some] Some e assms
    by (simp add: Get_def lru_get_def Let_def removeElem_inv moveToFront_inv entries_remove
        entries_moveToFront entry_of_def)
qed

lemma Delete_refines:
  assumes "store_inv s"
  shows "store_inv (snd (Delete key s)) \<and> capacity (snd (Delete key s)) = capacity s
    \<and> lru_delete key (entries s) = (fst (Delete key s), entries (snd (Delete key s)))"
proof (cases "gm_get (items s) key")
  case None
  with get_items_NoneD [OF assms] assms show ?thesis
    by (simp add: Delete_def lru_delete_def without_notin)
next
  case (Some e)
  with store_invD(5) [OF assms] have e: "e \<in> set (ll s)" "ikey (elems s e) = key" by auto
  show ?thesis
    using get_items_Some [OF assms Some] Some e assms
    by (simp add: Delete_def lru_delete_def Let_def removeElem_inv entries_remove)
qed

text \<open>A key that is new, one whose entry is newer than the write, and one that is overwritten.\<close>

lemma Set_inserts:
  assumes "store_inv s" "gm_get (items s) key = None"
  shows "\<exists>s'. Set now key value ttl w s = Some (True, s') \<and> store_inv s' \<and> capacity s' = capacity s
    \<and> lru_set (capacity s) now key value ttl w (entries s) = (True, entries s')"
proof -
  obtain s1 where s1: "evict_loop s = Some s1" "store_inv s1" "capacity s1 = capacity s"
      "entries s1 = take (nat (capacity s) - 1) (entries s)"
    using evict_loop_spec [OF assms(1)] .
  define it where "it = \<lparr>ikey = key, ivalue = value, iexpires = expiry now ttl, iwritten = w\<rparr>"
  obtain e s2 where s2: "pushFront it s1 = (e, s2)" by fastforce
  have lookup: "lookup key (entries s) = None" using get_items_NoneD [OF assms] .
  then have "lookup key (entries s1) = None"
    by (auto simp: s1(4) lookup_None_iff dest: in_set_takeD)
  then have fresh: "gm_get (items s1) (ikey it) = None"
    using get_items_None [OF s1(2)] by (simp add: it_def)
  have "length (entries s1) = length (ll s1)" by (simp add: entries_def)
  then have room: "int (length (ll s1)) < capacity s1"
    using store_invD(1) [OF assms(1)] by (simp add: s1(3,4))
  let ?s3 = "s2\<lparr>items := gm_put (ikey it) e (items s2)\<rparr>"
  note ins = insert_inv [OF s1(2) fresh room s2]
  have cap: "capacity s2 = capacity s1"
    using s2 capacity_prim(4) [of it s1] by simp
  have "Set now key value ttl w s = Some (True, ?s3\<lparr>sets := sets ?s3 + 1\<rparr>)"
    using assms(2) s1(1) s2 by (simp add: Set_def Let_def it_def expiry_def)
  moreover have "lru_set (capacity s) now key value ttl w (entries s) = (True, entries (?s3\<lparr>sets := sets ?s3 + 1\<rparr>))"
    using ins(2) lookup by (simp add: lru_set_def it_def s1(4))
  ultimately show ?thesis using ins(1) cap s1(3) by (intro exI [of _ "?s3\<lparr>sets := sets ?s3 + 1\<rparr>"]) simp
qed

lemma Set_skips:
  assumes "store_inv s" "gm_get (items s) key = Some e" "iwritten (elems s e) > w"
  shows "Set now key value ttl w s = Some (False, s\<lparr>skipped := skipped s + 1\<rparr>)
    \<and> lru_set (capacity s) now key value ttl w (entries s) = (False, entries s)"
  using assms get_items_Some [OF assms(1,2)] by (simp add: Set_def lru_set_def Let_def)

lemma Set_overwrites:
  assumes "store_inv s" "gm_get (items s) key = Some e" "\<not> iwritten (elems s e) > w"
  shows "\<exists>s'. Set now key value ttl w s = Some (True, s') \<and> store_inv s' \<and> capacity s' = capacity s
    \<and> lru_set (capacity s) now key value ttl w (entries s) = (True, entries s')"
proof -
  have e: "e \<in> set (ll s)" "ikey (elems s e) = key" using store_invD(5) [OF assms(1)] assms(2) by auto
  define it where "it = (elems s e)\<lparr>ivalue := value, iexpires := expiry now ttl, iwritten := w\<rparr>"
  let ?s1 = "s\<lparr>elems := (elems s)(e := it)\<rparr>"
  have it: "it = \<lparr>ikey = key, ivalue = value, iexpires = expiry now ttl, iwritten = w\<rparr>"
    using e(2) by (cases "elems s e") (simp add: it_def)
  have inv1: "store_inv ?s1"
    using assms(1) e by (auto simp: store_inv_def it)
  have "without key (entries ?s1) = without key (entries s)"
    unfolding entries_def without_def
    by (simp, rule filter_map_agree) (use e in \<open>auto simp: it\<close>)
  then have ent: "entries (moveToFront e ?s1) = it # without key (entries s)"
    using entries_moveToFront [OF inv1] e(1) by (simp add: it)
  let ?s2 = "moveToFront e ?s1"
  have "Set now key value ttl w s = Some (True, ?s2\<lparr>sets := sets ?s2 + 1\<rparr>)"
    using assms(2,3) by (simp add: Set_def Let_def it_def expiry_def)
  moreover have "lru_set (capacity s) now key value ttl w (entries s) = (True, entries (?s2\<lparr>sets := sets ?s2 + 1\<rparr>))"
    using assms(3) get_items_Some [OF assms(1,2)] by (simp add: lru_set_def Let_def ent) (simp add: it)
  moreover have "store_inv ?s2" using moveToFront_inv [OF inv1] e(1) by simp
  ultimately show ?thesis by (intro exI [of _ "?s2\<lparr>sets := sets ?s2 + 1\<rparr>"]) simp
qed

lemma Set_refines:
  assumes "store_inv s"
  obtains b s' where "Set now key value ttl w s = Some (b, s')" "store_inv s'"
    "capacity s' = capacity s"
    "lru_set (capacity s) now key value ttl w (entries s) = (b, entries s')"
proof (cases "gm_get (items s) key")
  case None
  then show thesis using Set_inserts [OF assms] that by blast
next
  case (Some e)
  show thesis
  proof (cases "iwritten (elems s e) > w")
    case True
    then show thesis using Set_skips [OF assms Some] that [of False "s\<lparr>skipped := skipped s + 1\<rparr>"] assms by simp
  next
    case False
    then show thesis using Set_overwrites [OF assms Some] that by blast
  qed
qed

lemma sweep_loop_spec:
  assumes "store_inv s" "distinct els" "set els \<subseteq> set (ll s)"
  shows "store_inv (sweep_loop now els s) \<and> capacity (sweep_loop now els s) = capacity s
    \<and> elems (sweep_loop now els s) = elems s
    \<and> ll (sweep_loop now els s)
      = filter (\<lambda>e. e \<notin> set els \<or> \<not> expired (elems s e) now) (ll s)"
  using assms
proof (induction els arbitrary: s)
  case Nil
  then show ?case by simp
next
  case (Cons e els)
  define s0 where "s0 = removeElem e s"
  define s1 where
    "s1 = (if expired (elems s e) now then s0\<lparr>expired_ct := expired_ct s0 + 1\<rparr> else s)"
  have e: "e \<in> set (ll s)" using Cons.prems(3) by simp
  have ll0: "ll s0 = filter (\<lambda>x. x \<noteq> e) (ll s)"
    using store_invD(3) [OF Cons.prems(1)]
    by (simp add: s0_def removeElem_def Let_def distinct_remove1_removeAll
        removeAll_filter_not_eq eq_commute)
  have s1: "store_inv s1" "capacity s1 = capacity s" "elems s1 = elems s"
    using Cons.prems(1) e removeElem_inv
    by (auto simp: s1_def s0_def) (simp add: removeElem_def Let_def)
  have ll1: "ll s1 = filter (\<lambda>x. x \<noteq> e \<or> \<not> expired (elems s x) now) (ll s)"
    using ll0 by (auto simp: s1_def intro!: filter_cong filter_True [symmetric])
  have "set els \<subseteq> set (ll s1)"
    using Cons.prems(2,3) by (auto simp: ll1)
  with Cons.IH [OF s1(1)] Cons.prems(2) s1
  have "store_inv (sweep_loop now els s1) \<and> capacity (sweep_loop now els s1) = capacity s
      \<and> elems (sweep_loop now els s1) = elems s
      \<and> ll (sweep_loop now els s1)
        = filter (\<lambda>e. e \<notin> set els \<or> \<not> expired (elems s e) now) (ll s1)"
    by simp
  moreover have "sweep_loop now (e # els) s = sweep_loop now els s1"
    by (simp add: s1_def s0_def Let_def)
  ultimately show ?case
    by (auto simp: ll1 intro!: filter_cong)
qed

lemma sweep_refines:
  assumes "store_inv s"
  shows "store_inv (sweep now s) \<and> capacity (sweep now s) = capacity s
    \<and> entries (sweep now s) = lru_sweep now (entries s)"
proof -
  have "distinct (rev (ll s))" using store_invD(3) [OF assms] by simp
  from sweep_loop_spec [OF assms this, of now]
  have "store_inv (sweep now s) \<and> capacity (sweep now s) = capacity s
      \<and> elems (sweep now s) = elems s
      \<and> ll (sweep now s) = filter (\<lambda>e. e \<notin> set (ll s) \<or> \<not> expired (elems s e) now) (ll s)"
    by (simp add: sweep_def)
  moreover have "filter (\<lambda>e. e \<notin> set (ll s) \<or> \<not> expired (elems s e) now) (ll s)
      = filter (\<lambda>e. \<not> expired (elems s e) now) (ll s)"
    by (auto intro: filter_cong)
  ultimately show ?thesis
    by (simp add: entries_def lru_sweep_def filter_map comp_def)
qed

section \<open>The refinement as rewrite rules\<close>

lemma entries_ops:
  assumes "store_inv s"
  shows "entries (snd (Get now key s)) = snd (lru_get now key (entries s))"
    and "fst (Get now key s) = fst (lru_get now key (entries s))"
    and "entries (snd (Delete key s)) = snd (lru_delete key (entries s))"
    and "fst (Delete key s) = fst (lru_delete key (entries s))"
    and "entries (sweep now s) = lru_sweep now (entries s)"
  using Get_refines [OF assms, of now key] Delete_refines [OF assms, of key]
    sweep_refines [OF assms, of now]
  by (simp_all add: prod_eq_iff)

lemma inv_ops:
  assumes "store_inv s"
  shows "store_inv (snd (Get now key s))" "store_inv (snd (Delete key s))" "store_inv (sweep now s)"
    and "capacity (snd (Get now key s)) = capacity s" "capacity (snd (Delete key s)) = capacity s"
    "capacity (sweep now s) = capacity s"
  using Get_refines [OF assms, of now key] Delete_refines [OF assms, of key]
    sweep_refines [OF assms, of now]
  by simp_all

lemma Set_SomeD:
  assumes "store_inv s" "Set now key value ttl w s = Some (b, s')"
  shows "store_inv s'" and "capacity s' = capacity s"
    and "entries s' = snd (lru_set (capacity s) now key value ttl w (entries s))"
    and "b = fst (lru_set (capacity s) now key value ttl w (entries s))"
proof -
  obtain b1 s1 where "Set now key value ttl w s = Some (b1, s1)" "store_inv s1"
      "capacity s1 = capacity s"
      "lru_set (capacity s) now key value ttl w (entries s) = (b1, entries s1)"
    using Set_refines [OF assms(1)] .
  with assms(2) show "store_inv s'" and "capacity s' = capacity s"
    and "entries s' = snd (lru_set (capacity s) now key value ttl w (entries s))"
    and "b = fst (lru_set (capacity s) now key value ttl w (entries s))"
    by simp_all
qed

lemma Set_total: "store_inv s \<Longrightarrow> Set now key value ttl w s \<noteq> None"
  by (metis Set_refines option.distinct(1))

end
