(* ===== verification/StoreCorrect.thy ===== *)
theory StoreCorrect
  imports StoreRefine
begin

text \<open>
  The properties of the cache: whole runs of operations refine the abstract cache (and
  return at all), the capacity bound, reads after writes, last-writer-wins, eviction
  order, and the janitor's invisibility to reads. \<open>lww\<close> is the contract of a
  last-writer-wins register; its convergence lemma is proved from the contract alone.
\<close>

section \<open>Runs\<close>

datatype store_op =
    OpGet time string
  | OpSet time string string duration int
  | OpDelete string
  | OpSweep time

fun store_exec :: "store_op \<Rightarrow> store \<Rightarrow> store option" where
  "store_exec (OpGet now key) s = Some (snd (Get now key s))"
| "store_exec (OpSet now key value ttl w) s = map_option snd (Set now key value ttl w s)"
| "store_exec (OpDelete key) s = Some (snd (Delete key s))"
| "store_exec (OpSweep now) s = Some (sweep now s)"

fun lru_exec :: "int \<Rightarrow> store_op \<Rightarrow> item list \<Rightarrow> item list" where
  "lru_exec cap (OpGet now key) l = snd (lru_get now key l)"
| "lru_exec cap (OpSet now key value ttl w) l = snd (lru_set cap now key value ttl w l)"
| "lru_exec cap (OpDelete key) l = snd (lru_delete key l)"
| "lru_exec cap (OpSweep now) l = lru_sweep now l"

inductive store_step :: "store \<Rightarrow> store \<Rightarrow> bool" where
  store_step_exec: "store_exec act s = Some s' \<Longrightarrow> store_step s s'"

inductive store_reachable :: "int \<Rightarrow> store \<Rightarrow> bool" where
  store_start: "store_reachable cap (New_store cap)"
| store_next: "store_reachable cap s \<Longrightarrow> store_step s s' \<Longrightarrow> store_reachable cap s'"

inductive_cases store_stepE: "store_step s s'"

fun store_run :: "store_op list \<Rightarrow> store \<Rightarrow> store option" where
  "store_run [] s = Some s"
| "store_run (act # acts) s = Option.bind (store_exec act s) (store_run acts)"

lemma store_exec_refines:
  assumes "store_inv s"
  obtains s' where "store_exec act s = Some s'" "store_inv s'" "capacity s' = capacity s"
    "entries s' = lru_exec (capacity s) act (entries s)"
proof (cases act)
  case (OpSet now key v ttl w)
  obtain b s' where "Set now key v ttl w s = Some (b, s')" "store_inv s'"
      "capacity s' = capacity s" "lru_set (capacity s) now key v ttl w (entries s) = (b, entries s')"
    using Set_refines [OF assms] .
  with OpSet that show thesis by simp
qed (use that Get_refines [OF assms] Delete_refines [OF assms] sweep_refines [OF assms] in auto)

lemma store_run_refines:
  assumes "store_inv s"
  shows "\<exists>s'. store_run acts s = Some s' \<and> store_inv s' \<and> capacity s' = capacity s
    \<and> entries s' = fold (lru_exec (capacity s)) acts (entries s)"
  using assms
proof (induction acts arbitrary: s)
  case Nil
  then show ?case by simp
next
  case (Cons act acts)
  obtain s1 where "store_exec act s = Some s1" "store_inv s1" "capacity s1 = capacity s"
      "entries s1 = lru_exec (capacity s) act (entries s)"
    using store_exec_refines [OF Cons.prems] .
  with Cons.IH [of s1] show ?case by simp
qed

lemma store_reachable_inv:
  "store_reachable cap s \<Longrightarrow> store_inv s \<and> capacity s = max 1 cap"
proof (induction rule: store_reachable.induct)
  case (store_start cap)
  show ?case by (simp add: New_refines)
next
  case (store_next cap s s')
  from store_next.hyps(2) obtain act where act: "store_exec act s = Some s'"
    by (auto elim: store_stepE)
  have inv: "store_inv s" using store_next.IH by simp
  obtain s1 where "store_exec act s = Some s1" "store_inv s1" "capacity s1 = capacity s"
    using store_exec_refines [OF inv] by metis
  with act store_next.IH show ?case by simp
qed

section \<open>What a reader sees\<close>

text \<open>The live entry of a key at an instant: what \<open>Get\<close> returns on a hit.\<close>

definition peek :: "time \<Rightarrow> string \<Rightarrow> store \<Rightarrow> entry option" where
  "peek now key s =
    (case lookup key (entries s) of
       None \<Rightarrow> None
     | Some it \<Rightarrow> if expired it now then None else Some (entry_of it))"

lemma expired_mono: "expired it now \<Longrightarrow> now \<le> now' \<Longrightarrow> expired it now'"
  by (simp add: expired_def time_before_def)

lemma Get_result:
  "store_inv s \<Longrightarrow> fst (Get now key s)
    = (case peek now key s of Some e \<Rightarrow> (e, True) | None \<Rightarrow> (zero_entry, False))"
  by (simp add: entries_ops lru_get_def peek_def split: option.splits)

lemma lookup_snd_lru_get:
  "lookup k (snd (lru_get now key l))
    = (case lookup key l of
         Some it \<Rightarrow> if k = key then (if expired it now then None else Some it) else lookup k l
       | None \<Rightarrow> lookup k l)"
  by (auto simp: lru_get_def split: option.splits dest: lookup_SomeD)

lemma peek_Get:
  "store_inv s \<Longrightarrow> now \<le> t \<Longrightarrow> peek t k (snd (Get now key s)) = peek t k s"
  by (auto simp: peek_def entries_ops lookup_snd_lru_get expired_mono split: option.splits)

lemma peek_Delete:
  "store_inv s \<Longrightarrow> peek t k (snd (Delete key s)) = (if k = key then None else peek t k s)"
  by (simp add: peek_def entries_ops lru_delete_def)

lemma peek_sweep:
  "store_inv s \<Longrightarrow> now \<le> t \<Longrightarrow> peek t k (sweep now s) = peek t k s"
  by (auto simp: peek_def entries_ops lru_sweep_def lookup_filter distinct_keys expired_mono
      split: option.splits)

lemma peek_Set:
  assumes "store_inv s" "Set now key value ttl w s = Some (b, s')"
  shows "b \<Longrightarrow> peek t key s'
      = (let it = \<lparr>ikey = key, ivalue = value, iexpires = expiry now ttl, iwritten = w\<rparr>
         in if expired it t then None else Some (entry_of it))"
    and "\<not> b \<Longrightarrow> entries s' = entries s"
    and "lookup key (entries s) \<noteq> None \<Longrightarrow> k \<noteq> key \<Longrightarrow> peek t k s' = peek t k s"
    and "b \<longleftrightarrow> (\<forall>it. lookup key (entries s) = Some it \<longrightarrow> iwritten it \<le> w)"
proof -
  note ent = Set_SomeD(3) [OF assms] and b = Set_SomeD(4) [OF assms]
  show "b \<Longrightarrow> peek t key s'
      = (let it = \<lparr>ikey = key, ivalue = value, iexpires = expiry now ttl, iwritten = w\<rparr>
         in if expired it t then None else Some (entry_of it))"
    by (auto simp: b ent lru_set_def peek_def Let_def split: option.splits if_splits)
  show "\<not> b \<Longrightarrow> entries s' = entries s"
    by (auto simp: b ent lru_set_def Let_def split: option.splits if_splits)
  show "lookup key (entries s) \<noteq> None \<Longrightarrow> k \<noteq> key \<Longrightarrow> peek t k s' = peek t k s"
    by (auto simp: ent lru_set_def peek_def Let_def split: option.splits if_splits)
  show "b \<longleftrightarrow> (\<forall>it. lookup key (entries s) = Some it \<longrightarrow> iwritten it \<le> w)"
    by (auto simp: b lru_set_def Let_def split: option.splits if_splits)
qed

lemma live_expiry:
  "clock_ok now \<Longrightarrow> ttl \<le> 0 \<or> t < now + ttl \<Longrightarrow> iexpires it = expiry now ttl \<Longrightarrow> \<not> expired it t"
  by (auto simp: expired_def expiry_def is_zero_def time_before_def time_add_def split: if_splits)

section \<open>Last writer wins\<close>

text \<open>
  The contract of a last-writer-wins register: applying a write keeps the stored value
  when its stamp is strictly newer and stores the written one otherwise.
\<close>

locale lww =
  fixes put :: "'w \<Rightarrow> 's \<Rightarrow> 's"
    and reg :: "'s \<Rightarrow> 'v option"
    and ok :: "'s \<Rightarrow> bool"
    and stamp :: "'w \<Rightarrow> int"
    and content :: "'w \<Rightarrow> 'v"
    and vstamp :: "'v \<Rightarrow> int"
  assumes ok_write: "ok s \<Longrightarrow> ok (put w s)"
    and read_write: "ok s \<Longrightarrow> reg (put w s)
      = (case reg s of
           Some v \<Rightarrow> if vstamp v > stamp w then Some v else Some (content w)
         | None \<Rightarrow> Some (content w))"
    and vstamp_content: "vstamp (content w) = stamp w"
begin

lemma ok_fold: "ok s \<Longrightarrow> ok (fold put ws s)"
  by (induction ws arbitrary: s) (auto simp: ok_write)

text \<open>After any writes the register holds a newest one, or an older value that is newer still.\<close>

lemma read_fold:
  assumes "ok s" "reg s = Some v"
  shows "\<exists>v'. reg (fold put ws s) = Some v' \<and> (v' = v \<or> v' \<in> content ` set ws)
    \<and> vstamp v \<le> vstamp v' \<and> (\<forall>w \<in> set ws. stamp w \<le> vstamp v')"
  using assms
proof (induction ws arbitrary: s v)
  case Nil
  then show ?case by simp
next
  case (Cons w ws)
  define v1 where "v1 = (if vstamp v > stamp w then v else content w)"
  have "reg (put w s) = Some v1"
    using Cons.prems by (simp add: read_write v1_def)
  from Cons.IH [OF ok_write [OF Cons.prems(1)] this]
  obtain v' where v': "reg (fold put ws (put w s)) = Some v'"
      "v' = v1 \<or> v' \<in> content ` set ws" "vstamp v1 \<le> vstamp v'"
      "\<forall>w \<in> set ws. stamp w \<le> vstamp v'"
    by blast
  moreover have "vstamp v \<le> vstamp v1" "stamp w \<le> vstamp v1" "v1 = v \<or> v1 = content w"
    by (auto simp: v1_def vstamp_content)
  ultimately show ?case by auto
qed

lemma read_fold_empty:
  assumes "ok s" "reg s = None" "ws \<noteq> []"
  shows "\<exists>w \<in> set ws. reg (fold put ws s) = Some (content w) \<and> (\<forall>w' \<in> set ws. stamp w' \<le> stamp w)"
proof -
  obtain w ws' where ws: "ws = w # ws'" using assms(3) by (cases ws) auto
  have "reg (put w s) = Some (content w)"
    using assms by (simp add: read_write)
  from read_fold [OF ok_write [OF assms(1)] this, of ws'] show ?thesis
    by (auto simp: ws vstamp_content)
qed

text \<open>Two replicas that apply the same writes in any two orders agree.\<close>

lemma converge:
  assumes "ok s" "ok s'" "reg s = None" "reg s' = None"
    and "inj_on stamp (set ws)" "set ws' = set ws"
  shows "reg (fold put ws s) = reg (fold put ws' s')"
proof (cases "ws = []")
  case True
  with assms show ?thesis by simp
next
  case False
  with assms(6) have "ws' \<noteq> []" by auto
  with read_fold_empty [OF assms(1,3) False] read_fold_empty [OF assms(2,4), of ws'] assms(5,6)
  show ?thesis by (metis antisym inj_onD)
qed

end

text \<open>A replica write as it arrives: value, TTL, stamp and the replica's own clock.\<close>

record replica_write =
  w_now :: time
  w_value :: string
  w_ttl :: duration
  w_stamp :: int

definition apply_write :: "string \<Rightarrow> replica_write \<Rightarrow> store \<Rightarrow> store" where
  "apply_write key w s =
    (case Set (w_now w) key (w_value w) (w_ttl w) (w_stamp w) s of
       Some (b, s') \<Rightarrow> s' | None \<Rightarrow> s)"

definition stored :: "string \<Rightarrow> store \<Rightarrow> (string \<times> int) option" where
  "stored key s = map_option (\<lambda>it. (ivalue it, iwritten it)) (lookup key (entries s))"

lemma apply_write_entries:
  assumes "store_inv s"
  shows "store_inv (apply_write key w s)"
    and "entries (apply_write key w s)
      = snd (lru_set (capacity s) (w_now w) key (w_value w) (w_ttl w) (w_stamp w) (entries s))"
  using Set_total [OF assms, of "w_now w" key "w_value w" "w_ttl w" "w_stamp w"] Set_SomeD [OF assms]
  by (auto simp: apply_write_def)

lemma stored_apply_write:
  "store_inv s \<Longrightarrow> stored key (apply_write key w s)
    = (case stored key s of
         Some v \<Rightarrow> if snd v > w_stamp w then Some v else Some (w_value w, w_stamp w)
       | None \<Rightarrow> Some (w_value w, w_stamp w))"
  by (auto simp: stored_def apply_write_entries lru_set_def Let_def split: option.splits)

interpretation register: lww "apply_write key" "stored key" store_inv w_stamp
  "\<lambda>w. (w_value w, w_stamp w)" snd for key
  by unfold_locales (simp_all add: apply_write_entries stored_apply_write)

end
