(* ===== verification/StoreTheorems.thy ===== *)
theory StoreTheorems
  imports StoreCorrect
begin

text \<open>
  What the cache of one process promises: refinement of the abstract LRU cache over
  whole runs, the capacity bound, reads after writes, last-writer-wins with
  convergence of replicas, expiry, eviction order and the janitor's invisibility.
\<close>

section \<open>Stores to evaluate on\<close>

definition demo_writes :: "store_op list" where
  "demo_writes = [OpSet 0 ''x'' ''1'' 0 5, OpSet 1 ''y'' ''2'' 0 6]"

definition demo_store :: store where
  "demo_store = the (store_run demo_writes (New_store 2))"

lemma demo_store_run: "store_run demo_writes (New_store 2) = Some demo_store"
  using store_run_refines [OF New_refines(1), of demo_writes 2] by (auto simp: demo_store_def)

lemma store_reachable_run:
  "store_reachable cap s \<Longrightarrow> store_run acts s = Some s' \<Longrightarrow> store_reachable cap s'"
proof (induction acts arbitrary: s)
  case (Cons act acts)
  then obtain s1 where "store_exec act s = Some s1" "store_run acts s1 = Some s'"
    by (auto split: Option.bind_splits)
  with Cons show ?case by (blast intro: store_next store_step_exec)
qed simp

lemma demo_store_reachable: "store_reachable 2 demo_store"
  using store_reachable_run [OF store_start demo_store_run] .

lemma demo_store_entries:
  "entries demo_store = [\<lparr>ikey = ''y'', ivalue = ''2'', iexpires = zero_time, iwritten = 6\<rparr>,
    \<lparr>ikey = ''x'', ivalue = ''1'', iexpires = zero_time, iwritten = 5\<rparr>]"
proof -
  have "entries demo_store = fold (lru_exec (capacity (New_store 2))) demo_writes (entries (New_store 2))"
    using store_run_refines [OF New_refines(1), of demo_writes 2] demo_store_run by auto
  moreover have "capacity (New_store 2) = 2" by (simp add: New_store_def)
  ultimately show ?thesis
    by (simp add: New_refines demo_writes_def lru_set_def expiry_def)
qed

section \<open>Refinement and bounds\<close>

text \<open>
  C14. Every sequence of gets, sets, deletes and sweeps on a fresh store returns (the
  eviction loop of \<open>Set\<close> terminates each time), keeps the representation invariant, and
  leaves exactly the entries, in exactly the recency order, that the abstract LRU+TTL
  cache holds after the same sequence.
\<close>

theorem store_runs_refine_the_lru_cache:
  "\<exists>s. store_run acts (New_store cap) = Some s \<and> store_inv s
    \<and> entries s = fold (lru_exec (max 1 cap)) acts []"
proof -
  have "capacity (New_store cap) = max 1 cap" by (simp add: New_store_def)
  then show ?thesis
    using store_run_refines [OF New_refines(1), of acts cap] unfolding New_refines(2) by metis
qed

text \<open>
  No reachable store holds more keys than its capacity, and its map, list and heap
  agree: the recency list holds each element once and \<open>len(items)\<close> counts it.
\<close>

theorem store_never_exceeds_capacity:
  assumes "store_reachable cap s"
  shows "int (Len_store s) \<le> max 1 cap \<and> Len_store s = length (entries s)
    \<and> distinct (map ikey (entries s))"
proof -
  have inv: "store_inv s" "capacity s = max 1 cap" using store_reachable_inv [OF assms] by auto
  then show ?thesis
    using lru_ok_entries [OF inv(1)] len_items [OF inv(1)]
    by (simp add: Len_store_def lru_ok_def entries_def)
qed

theorem store_never_exceeds_capacity_witness: "int (Len_store demo_store) \<le> 2 \<and> Len_store demo_store = 2"
  using store_never_exceeds_capacity [OF demo_store_reachable] by (simp add: demo_store_entries)

section \<open>Reads and writes\<close>

text \<open>
  A \<open>Set\<close> that reports it was applied is what the next \<open>Get\<close> of the key returns,
  with its stamp, until its TTL has passed; a TTL of zero or less never passes.
\<close>

theorem applied_set_is_read_back:
  assumes "store_reachable cap s" "Set now key v ttl w s = Some (True, s')"
    and "clock_ok now" "ttl \<le> 0 \<or> t < now + ttl"
  shows "fst (Get t key s') = (\<lparr>Value = v, ExpiresAt = expiry now ttl, WrittenAt = w\<rparr>, True)"
proof -
  have inv: "store_inv s" using store_reachable_inv [OF assms(1)] by simp
  have "store_inv s'" using Set_SomeD [OF inv assms(2)] by simp
  moreover have "peek t key s' = Some \<lparr>Value = v, ExpiresAt = expiry now ttl, WrittenAt = w\<rparr>"
    using peek_Set(1) [OF inv assms(2) TrueI, of t] assms(3,4)
    by (simp add: Let_def live_expiry entry_of_def)
  ultimately show ?thesis by (simp add: Get_result)
qed

theorem applied_set_is_read_back_witness:
  "\<exists>s'. Set 10 ''x'' ''9'' 100 7 demo_store = Some (True, s')
    \<and> fst (Get 50 ''x'' s') = (\<lparr>Value = ''9'', ExpiresAt = 110, WrittenAt = 7\<rparr>, True)"
proof -
  have inv: "store_inv demo_store" using store_reachable_inv [OF demo_store_reachable] by simp
  obtain b s' where s': "Set 10 ''x'' ''9'' 100 7 demo_store = Some (b, s')"
    using Set_refines [OF inv] by metis
  have b: "b" using Set_SomeD(4) [OF inv s'] by (simp add: demo_store_entries lru_set_def)
  show ?thesis
    using applied_set_is_read_back [OF demo_store_reachable, of 10 "''x''" "''9''" 100 7 s' 50] s' b
    by (simp add: expiry_def time_add_def)
qed

text \<open>
  A write older than the stored one is refused: \<open>Set\<close> returns false exactly when the
  key holds a strictly newer stamp, and then no entry and no recency position changes.
  An equal stamp is applied.
\<close>

theorem stale_write_is_ignored:
  assumes "store_reachable cap s" "Set now key v ttl w s = Some (b, s')"
  shows "(b \<longleftrightarrow> (\<forall>it. lookup key (entries s) = Some it \<longrightarrow> iwritten it \<le> w))
    \<and> (\<not> b \<longrightarrow> entries s' = entries s \<and> skipped s' = skipped s + 1)"
proof -
  have inv: "store_inv s" using store_reachable_inv [OF assms(1)] by simp
  have "\<not> b \<Longrightarrow> skipped s' = skipped s + 1"
    using assms(2) by (auto simp: Set_def Let_def split_beta split: option.splits if_splits)
  then show ?thesis
    using peek_Set(2,4) [OF inv assms(2)] by blast
qed

theorem stale_write_is_ignored_witness:
  "\<exists>s'. Set 10 ''x'' ''9'' 0 4 demo_store = Some (False, s') \<and> entries s' = entries demo_store"
proof -
  have inv: "store_inv demo_store" using store_reachable_inv [OF demo_store_reachable] by simp
  obtain b s' where s': "Set 10 ''x'' ''9'' 0 4 demo_store = Some (b, s')"
    using Set_refines [OF inv] by metis
  have "\<not> b" using Set_SomeD(4) [OF inv s'] by (simp add: demo_store_entries lru_set_def)
  then show ?thesis
    using stale_write_is_ignored [OF demo_store_reachable s'] s' by simp
qed

text \<open>
  Replicas converge: two stores that lack the key and receive the same writes of it
  in any two orders, any number of times each, at any clock readings, end with the same
  value and stamp, provided no two different writes share a stamp.
\<close>

theorem replicas_converge:
  assumes "store_reachable cap s" "store_reachable cap' s'"
    and "lookup key (entries s) = None" "lookup key (entries s') = None"
    and "inj_on w_stamp (set ws)" "set ws' = set ws"
  shows "stored key (fold (apply_write key) ws s) = stored key (fold (apply_write key) ws' s')"
  using register.converge [of s s' key ws ws'] assms store_reachable_inv
  by (simp add: stored_def)

theorem replicas_converge_witness:
  "(let w1 = \<lparr>w_now = 3, w_value = ''old'', w_ttl = 0, w_stamp = 1\<rparr>;
        w2 = \<lparr>w_now = 4, w_value = ''new'', w_ttl = 0, w_stamp = 2\<rparr>
    in stored ''z'' (fold (apply_write ''z'') [w1, w2] demo_store)
      = stored ''z'' (fold (apply_write ''z'') [w2, w1, w2] (New_store 1)))"
  unfolding Let_def
  by (rule replicas_converge [OF demo_store_reachable store_start])
    (auto simp: demo_store_entries New_refines inj_on_def)


text \<open>
  Recency eviction: putting a new key into a full store drops exactly the entry that
  was used longest ago and keeps all others in order; below capacity nothing is dropped;
  overwriting a key never drops another.
\<close>

theorem set_evicts_the_least_recently_used:
  assumes "store_reachable cap s" "Set now key v ttl w s = Some (b, s')"
  shows "(lookup key (entries s) = None \<longrightarrow> map ikey (entries s') = key #
      (if length (entries s) = nat (max 1 cap) then butlast (map ikey (entries s)) else map ikey (entries s)))
    \<and> (lookup key (entries s) \<noteq> None \<longrightarrow> set (map ikey (entries s')) = set (map ikey (entries s)))"
proof -
  have inv: "store_inv s" "capacity s = max 1 cap" using store_reachable_inv [OF assms(1)] by auto
  note ent = Set_SomeD(3) [OF inv(1) assms(2)]
  have len: "int (length (entries s)) \<le> max 1 cap"
    using lru_ok_entries [OF inv(1)] by (simp add: lru_ok_def inv(2))
  have "lookup key (entries s) = None \<Longrightarrow> map ikey (entries s') = key #
      (if length (entries s) = nat (max 1 cap) then butlast (map ikey (entries s)) else map ikey (entries s))"
    using len by (auto simp: ent lru_set_def Let_def inv(2) butlast_conv_take take_map nat_less_iff)
  moreover have "lookup key (entries s) \<noteq> None
      \<Longrightarrow> set (map ikey (entries s')) = set (map ikey (entries s))"
    by (auto simp: ent lru_set_def Let_def set_without dest: lookup_SomeD split: option.splits if_splits)
  ultimately show ?thesis by blast
qed

theorem set_evicts_the_least_recently_used_witness:
  "\<exists>s'. Set 10 ''z'' ''3'' 0 7 demo_store = Some (True, s') \<and> map ikey (entries s') = [''z'', ''y'']"
proof -
  have inv: "store_inv demo_store" using store_reachable_inv [OF demo_store_reachable] by simp
  obtain b s' where s': "Set 10 ''z'' ''3'' 0 7 demo_store = Some (b, s')"
    using Set_refines [OF inv] by metis
  have "b" using Set_SomeD(4) [OF inv s'] by (simp add: demo_store_entries lru_set_def)
  then show ?thesis
    using set_evicts_the_least_recently_used [OF demo_store_reachable s'] s'
    by (simp add: demo_store_entries)
qed

text \<open>
  Expiry: an entry with a TTL is never returned at or after its expiry; the \<open>Get\<close> that
  finds it expired removes it and counts one expiry and one miss.
\<close>

theorem get_never_returns_an_expired_entry:
  assumes "store_reachable cap s" "lookup key (entries s) = Some it" "expired it t"
  shows "fst (Get t key s) = (zero_entry, False)
    \<and> entries (snd (Get t key s)) = without key (entries s)
    \<and> expired_ct (snd (Get t key s)) = expired_ct s + 1 \<and> misses (snd (Get t key s)) = misses s + 1"
proof -
  have inv: "store_inv s" using store_reachable_inv [OF assms(1)] by simp
  obtain el where el: "gm_get (items s) key = Some el" "elems s el = it"
    using get_items_eq_lookup [OF inv, of key] assms(2) by auto
  then have "expired_ct (snd (Get t key s)) = expired_ct s + 1" "misses (snd (Get t key s)) = misses s + 1"
    using assms(3) by (simp_all add: Get_def removeElem_def Let_def)
  then show ?thesis
    using assms(2,3) by (simp add: entries_ops [OF inv] Get_result [OF inv] peek_def lru_get_def)
qed

theorem get_never_returns_an_expired_entry_witness:
  "\<exists>s. store_run [OpSet 10 ''x'' ''1'' 5 1] (New_store 2) = Some s
    \<and> fst (Get 15 ''x'' s) = (zero_entry, False) \<and> entries (snd (Get 15 ''x'' s)) = []"
proof -
  obtain s where s: "store_run [OpSet 10 ''x'' ''1'' 5 1] (New_store 2) = Some s"
      "entries s = fold (lru_exec (capacity (New_store 2))) [OpSet 10 ''x'' ''1'' 5 1] []"
    using store_run_refines [OF New_refines(1), of "[OpSet 10 ''x'' ''1'' 5 1]" 2]
    by (auto simp: New_refines)
  then have e: "entries s = [\<lparr>ikey = ''x'', ivalue = ''1'', iexpires = 15, iwritten = 1\<rparr>]"
    by (simp add: lru_set_def expiry_def time_add_def)
  have "store_reachable 2 s" using store_reachable_run [OF store_start s(1)] .
  from get_never_returns_an_expired_entry [OF this, of "''x''" _ 15] s(1) show ?thesis
    by (simp add: e expired_def is_zero_def zero_time_def time_before_def without_def)
qed

text \<open>
  Deletes and the janitor: after \<open>Delete\<close> the key reads as absent and every other key
  as before; a sweep at \<open>now\<close> changes no later read of any key, and afterwards no
  expired entry is left.
\<close>

theorem delete_and_sweep_reads:
  assumes "store_reachable cap s"
  shows "fst (Delete key s) = (lookup key (entries s) \<noteq> None)
    \<and> peek t k (snd (Delete key s)) = (if k = key then None else peek t k s)
    \<and> (now \<le> t \<longrightarrow> fst (Get t k (sweep now s)) = fst (Get t k s))
    \<and> (\<forall>it \<in> set (entries (sweep now s)). \<not> expired it now)"
proof -
  have inv: "store_inv s" using store_reachable_inv [OF assms(1)] by simp
  have inv': "store_inv (sweep now s)" using inv by (simp add: inv_ops)
  have "fst (Delete key s) = (lookup key (entries s) \<noteq> None)"
    using Delete_refines [OF inv] by (metis fst_conv lru_delete_def)
  then show ?thesis
    by (simp add: peek_Delete [OF inv] Get_result [OF inv] Get_result [OF inv'] peek_sweep [OF inv]
        entries_ops [OF inv] lru_sweep_def)
qed

theorem delete_and_sweep_reads_witness:
  "peek 20 ''x'' (snd (Delete ''x'' demo_store)) = None
    \<and> fst (Get 20 ''y'' (sweep 15 demo_store)) = fst (Get 20 ''y'' demo_store)"
  using delete_and_sweep_reads [OF demo_store_reachable, of "''x''" 20 "''x''" 15]
    delete_and_sweep_reads [OF demo_store_reachable, of "''x''" 20 "''y''" 15] by simp

end
