(* ===== verification/Float64.thy ===== *)
theory Float64
  imports Complex_Main
begin

text \<open>
  Go's \<open>float64\<close> arithmetic. A finite double is the rational it denotes, and the result
  of an operation is the exact result rounded: \<open>fl64\<close> rounds to nearest, ties to even,
  with 53 bits of precision and gradual underflow at \<open>2^-1074\<close>. The range has no upper
  end: a result above the largest double stays a number here and is \<open>+Inf\<close> in Go, which
  the program cannot tell apart, since such a value only meets \<open>math.Min\<close> with a finite
  double or the conversion to \<open>int64\<close>, where both are out of range. NaN cannot arise:
  \<open>encoding/json\<close> decodes no NaN or infinity and every division is by a positive number.
  \<open>rounding\<close> is the contract the components rely on; \<open>fl64\<close> provides it.
\<close>

section \<open>The contract of a rounding\<close>

locale rounding =
  fixes fl :: "rat \<Rightarrow> rat"
  assumes fl_mono: "x \<le> y \<Longrightarrow> fl x \<le> fl y"
    and fl_zero: "fl 0 = 0"
    and fl_idem: "fl (fl x) = fl x"
    and fl_diff_pos: "fl x = x \<Longrightarrow> fl y = y \<Longrightarrow> x < y \<Longrightarrow> 0 < fl (y - x)"
begin

lemma fl_nonneg: "0 \<le> x \<Longrightarrow> 0 \<le> fl x"
  using fl_mono [of 0 x] by (simp add: fl_zero)

lemma fl_nonpos: "x \<le> 0 \<Longrightarrow> fl x \<le> 0"
  using fl_mono [of x 0] by (simp add: fl_zero)

lemma fl_sub_le: "fl t = t \<Longrightarrow> 0 \<le> c \<Longrightarrow> fl (t - c) \<le> t"
  using fl_mono [of "t - c" t] by simp

lemma fl_sub_nonneg: "c \<le> t \<Longrightarrow> 0 \<le> fl (t - c)"
  by (simp add: fl_nonneg)

lemma fl_add_ge: "fl t = t \<Longrightarrow> 0 \<le> d \<Longrightarrow> t \<le> fl (t + d)"
  using fl_mono [of t "t + d"] by simp

lemma fl_min: "fl x = x \<Longrightarrow> fl (min x (fl y)) = min x (fl y)"
  by (simp add: min_def fl_idem)

end

text \<open>Exact arithmetic is a rounding: what the formulas compute without float error.\<close>

interpretation exact: rounding "\<lambda>x. x"
  by unfold_locales simp_all

section \<open>The binary exponent\<close>

lemma nat_floor_half: "2 \<le> x \<Longrightarrow> nat \<lfloor>x / 2\<rfloor> < nat \<lfloor>x\<rfloor>" for x :: rat
proof -
  assume "2 \<le> x"
  then have "x / 2 \<le> x - 1" by simp
  then have "\<lfloor>x / 2\<rfloor> \<le> \<lfloor>x\<rfloor> - 1" by (metis floor_diff_one floor_mono)
  moreover have "2 \<le> \<lfloor>x\<rfloor>" using \<open>2 \<le> x\<close> by (simp add: le_floor_iff)
  ultimately show ?thesis by linarith
qed

function ilog2 :: "rat \<Rightarrow> int" where
  "ilog2 x =
    (if x \<le> 0 then 0
     else if 2 \<le> x then ilog2 (x / 2) + 1
     else if x < 1 then ilog2 (2 * x) - 1
     else 0)"
  by pat_completeness auto

termination
proof (relation "measure (\<lambda>x. if 1 \<le> x then nat \<lfloor>x\<rfloor> else if 0 < x then nat \<lfloor>1 / x\<rfloor> + 2 else 0)")
  show "wf (measure (\<lambda>x. if 1 \<le> x then nat \<lfloor>x\<rfloor> else if 0 < x then nat \<lfloor>1 / x\<rfloor> + 2 else 0))"
    by simp
  fix x :: rat
  assume "\<not> x \<le> 0" "2 \<le> x"
  then show "(x / 2, x) \<in> measure (\<lambda>x. if 1 \<le> x then nat \<lfloor>x\<rfloor> else if 0 < x then nat \<lfloor>1 / x\<rfloor> + 2 else 0)"
    using nat_floor_half [of x] by simp
next
  fix x :: rat
  assume x: "\<not> x \<le> 0" "\<not> 2 \<le> x" "x < 1"
  show "(2 * x, x) \<in> measure (\<lambda>x. if 1 \<le> x then nat \<lfloor>x\<rfloor> else if 0 < x then nat \<lfloor>1 / x\<rfloor> + 2 else 0)"
  proof (cases "1 \<le> 2 * x")
    case True
    have "2 * x < 2" using x by simp
    then have "\<lfloor>2 * x\<rfloor> < 2" by (simp add: floor_less_iff)
    then have "nat \<lfloor>2 * x\<rfloor> < nat \<lfloor>1 / x\<rfloor> + 2" by linarith
    with True x show ?thesis by simp
  next
    case False
    then have "2 \<le> 1 / x" using x by (simp add: field_simps)
    from nat_floor_half [OF this] have "nat \<lfloor>1 / (2 * x)\<rfloor> < nat \<lfloor>1 / x\<rfloor>"
      by (simp add: field_simps)
    with False x show ?thesis by simp
  qed
qed

declare ilog2.simps [simp del]

lemma ilog2_bounds:
  "0 < x \<Longrightarrow> 2 powi ilog2 x \<le> x \<and> x < 2 powi (ilog2 x + 1)"
proof (induction x rule: ilog2.induct)
  case (1 x)
  consider "2 \<le> x" | "x < 1" | "1 \<le> x" "x < 2" by linarith
  then show ?case
  proof cases
    case 1
    with "1.IH"(1) "1.prems" have "2 powi ilog2 (x / 2) \<le> x / 2 \<and> x / 2 < 2 powi (ilog2 (x / 2) + 1)"
      by simp
    moreover have "ilog2 x = ilog2 (x / 2) + 1"
      using 1 by (simp add: ilog2.simps [of x])
    ultimately show ?thesis by (simp add: power_int_add)
  next
    case 2
    with "1.IH"(2) "1.prems" have "2 powi ilog2 (2 * x) \<le> 2 * x \<and> 2 * x < 2 powi (ilog2 (2 * x) + 1)"
      by simp
    moreover have "ilog2 x = ilog2 (2 * x) - 1"
      using 2 "1.prems" by (simp add: ilog2.simps [of x])
    ultimately show ?thesis by (simp add: power_int_add power_int_diff)
  next
    case 3
    then have "ilog2 x = 0" by (simp add: ilog2.simps [of x])
    with 3 show ?thesis by simp
  qed
qed

lemma pow2_pos [simp]: "0 < (2 powi q :: rat)"
  by simp

lemma pow2_mono: "p \<le> q \<Longrightarrow> (2 powi p :: rat) \<le> 2 powi q"
  by (simp add: power_int_increasing)

lemma pow2_less_iff: "(2 powi p :: rat) < 2 powi q \<longleftrightarrow> p < q"
  by (metis linorder_not_le one_less_numeral_iff order_less_imp_not_less pow2_mono power_int_strict_increasing semiring_norm(76))

lemma ilog2_unique: "2 powi e \<le> x \<Longrightarrow> x < 2 powi (e + 1) \<Longrightarrow> ilog2 x = e"
proof -
  assume x: "2 powi e \<le> x" "x < 2 powi (e + 1)"
  then have "0 < x" using pow2_pos [of e] by linarith
  note b = ilog2_bounds [OF this]
  have "2 powi ilog2 x < (2 powi (e + 1) :: rat)" "2 powi e < (2 powi (ilog2 x + 1) :: rat)"
    using x b by linarith+
  then show ?thesis by (simp add: pow2_less_iff)
qed

lemma ilog2_mono: "0 < x \<Longrightarrow> x \<le> y \<Longrightarrow> ilog2 x \<le> ilog2 y"
proof -
  assume "0 < x" "x \<le> y"
  then have "2 powi ilog2 x < (2 powi (ilog2 y + 1) :: rat)"
    using ilog2_bounds [of x] ilog2_bounds [of y] by linarith
  then show ?thesis by (simp add: pow2_less_iff)
qed

lemma pow2_is_int: "0 \<le> q \<Longrightarrow> (2 powi q :: rat) = of_int (2 ^ nat q)"
  by (simp add: power_int_def)

section \<open>Round half to even\<close>

definition round_even :: "rat \<Rightarrow> int" where
  "round_even y =
    (let f = \<lfloor>y\<rfloor>; d = y - of_int f
     in if d < 1 / 2 then f else if d > 1 / 2 then f + 1 else if even f then f else f + 1)"

lemma round_even_int [simp]: "round_even (of_int n) = n"
  by (simp add: round_even_def)

lemma round_even_near: "of_int (round_even y) \<le> y + 1 / 2" "y - 1 / 2 \<le> of_int (round_even y)"
  using floor_correct [of y] by (auto simp: round_even_def Let_def) linarith+

lemma round_even_mono: "x \<le> y \<Longrightarrow> round_even x \<le> round_even y"
proof -
  assume xy: "x \<le> y"
  then have f: "\<lfloor>x\<rfloor> \<le> \<lfloor>y\<rfloor>" by (rule floor_mono)
  have r: "\<lfloor>z\<rfloor> \<le> round_even z \<and> round_even z \<le> \<lfloor>z\<rfloor> + 1" for z
    by (simp add: round_even_def Let_def)
  show ?thesis
  proof (cases "\<lfloor>x\<rfloor> = \<lfloor>y\<rfloor>")
    case True
    with xy show ?thesis by (auto simp: round_even_def Let_def)
  next
    case False
    with f r [of x] r [of y] show ?thesis by linarith
  qed
qed

section \<open>Rounding to binary64\<close>

text \<open>The unit in the last place of \<open>x > 0\<close>, never below the least subnormal.\<close>

definition ulp_exp :: "rat \<Rightarrow> int" where
  "ulp_exp x = max (ilog2 x - 52) (- 1074)"

definition fl64_pos :: "rat \<Rightarrow> rat" where
  "fl64_pos x =
    (if x \<le> 0 then 0 else of_int (round_even (x / 2 powi ulp_exp x)) * 2 powi ulp_exp x)"

definition fl64 :: "rat \<Rightarrow> rat" where
  "fl64 x = (if x < 0 then - fl64_pos (- x) else fl64_pos x)"

lemma fl64_pos_nonneg: "0 \<le> fl64_pos x"
proof -
  have "0 \<le> round_even (x / 2 powi ulp_exp x)" if "0 < x"
    using round_even_mono [of 0 "x / 2 powi ulp_exp x"] round_even_int [of 0] that
    by (simp del: round_even_int)
  then show ?thesis by (simp add: fl64_pos_def)
qed

text \<open>A point of the grid of some exponent, at or above a value's own, bounds its rounding.\<close>

lemma fl64_pos_le_grid:
  assumes "0 < x" "x \<le> of_int m * 2 powi q" "ulp_exp x \<le> q"
  shows "fl64_pos x \<le> of_int m * 2 powi q"
proof -
  let ?u = "2 powi ulp_exp x :: rat"
  define k where "k = m * 2 ^ nat (q - ulp_exp x)"
  have "(2 powi q :: rat) = 2 powi (q - ulp_exp x) * ?u"
    by (simp flip: power_int_add)
  then have k: "of_int m * 2 powi q = of_int k * ?u"
    using assms(3) by (simp add: k_def pow2_is_int)
  have "x / ?u \<le> of_int k"
    using assms(2) by (simp add: k pos_divide_le_eq)
  then have "round_even (x / ?u) \<le> k"
    using round_even_mono [of "x / ?u" "of_int k"] by simp
  then have "of_int (round_even (x / ?u)) * ?u \<le> of_int k * ?u"
    by (simp add: mult_right_mono)
  with assms(1) show ?thesis by (simp add: fl64_pos_def k)
qed

lemma grid_le_fl64_pos:
  assumes "0 < x" "of_int m * 2 powi q \<le> x" "ulp_exp x \<le> q"
  shows "of_int m * 2 powi q \<le> fl64_pos x"
proof -
  let ?u = "2 powi ulp_exp x :: rat"
  define k where "k = m * 2 ^ nat (q - ulp_exp x)"
  have "(2 powi q :: rat) = 2 powi (q - ulp_exp x) * ?u"
    by (simp flip: power_int_add)
  then have k: "of_int m * 2 powi q = of_int k * ?u"
    using assms(3) by (simp add: k_def pow2_is_int)
  have "of_int k \<le> x / ?u"
    using assms(2) by (simp add: k pos_le_divide_eq)
  then have "k \<le> round_even (x / ?u)"
    using round_even_mono [of "of_int k" "x / ?u"] by simp
  then have "of_int k * ?u \<le> of_int (round_even (x / ?u)) * ?u"
    by (simp add: mult_right_mono)
  with assms(1) show ?thesis by (simp add: fl64_pos_def k)
qed

lemma fl64_pos_grid:
  assumes "0 < x" "x = of_int m * 2 powi q" "ulp_exp x \<le> q"
  shows "fl64_pos x = x"
  using fl64_pos_le_grid [OF assms(1) _ assms(3), of m] grid_le_fl64_pos [OF assms(1) _ assms(3), of m]
    assms(2) by simp

lemma ulp_exp_mono: "0 < x \<Longrightarrow> x \<le> y \<Longrightarrow> ulp_exp x \<le> ulp_exp y"
  using ilog2_mono [of x y] by (simp add: ulp_exp_def)

lemma fl64_pos_mono: "x \<le> y \<Longrightarrow> fl64_pos x \<le> fl64_pos y"
proof (cases "0 < x")
  case False
  then show ?thesis using fl64_pos_nonneg [of y] by (simp add: fl64_pos_def)
next
  case True
  assume xy: "x \<le> y"
  then have y: "0 < y" using True by simp
  show ?thesis
  proof (cases "ulp_exp x = ulp_exp y")
    case eq: True
    have "x / 2 powi ulp_exp y \<le> y / 2 powi ulp_exp y"
      using xy by (simp add: divide_right_mono)
    then have "round_even (x / 2 powi ulp_exp y) \<le> round_even (y / 2 powi ulp_exp y)"
      by (rule round_even_mono)
    then show ?thesis
      using True y by (simp add: fl64_pos_def eq mult_right_mono)
  next
    case False
    with ulp_exp_mono [OF True xy] have lt: "ulp_exp x < ulp_exp y" by simp
    then have e: "ulp_exp y = ilog2 y - 52" "ilog2 x < ilog2 y"
      by (auto simp: ulp_exp_def)
    have "(2 powi (ilog2 x + 1) :: rat) \<le> 2 powi ilog2 y"
      using e(2) by (simp add: pow2_mono)
    then have "x \<le> of_int 1 * 2 powi ilog2 y" "of_int 1 * 2 powi ilog2 y \<le> y"
      using ilog2_bounds [OF True] ilog2_bounds [OF y] by auto
    then have "fl64_pos x \<le> of_int 1 * 2 powi ilog2 y" "of_int 1 * 2 powi ilog2 y \<le> fl64_pos y"
      using fl64_pos_le_grid [OF True, of 1 "ilog2 y"] grid_le_fl64_pos [OF y, of 1 "ilog2 y"] lt e
      by simp_all
    then show ?thesis by linarith
  qed
qed

text \<open>Every result lies on the grid of its argument, and on its own.\<close>

lemma fl64_pos_form:
  assumes "0 < x"
  obtains m where "0 \<le> m" "m \<le> 2 ^ 53" "fl64_pos x = of_int m * 2 powi ulp_exp x"
proof
  let ?u = "2 powi ulp_exp x :: rat"
  let ?m = "round_even (x / ?u)"
  show "fl64_pos x = of_int ?m * ?u" using assms by (simp add: fl64_pos_def)
  show "0 \<le> ?m"
    using round_even_mono [of 0 "x / ?u"] round_even_int [of 0] assms by (simp del: round_even_int)
  have "x < 2 powi (ilog2 x + 1)" using ilog2_bounds [OF assms] by simp
  also have "\<dots> \<le> 2 powi (53 + ulp_exp x)" by (rule pow2_mono) (simp add: ulp_exp_def)
  also have "\<dots> = 2 ^ 53 * ?u" by (simp add: power_int_add)
  finally have "x / ?u \<le> of_int (2 ^ 53)" by (simp add: pos_divide_le_eq)
  from round_even_mono [OF this] show "?m \<le> 2 ^ 53" by (simp only: round_even_int)
qed

lemma fl64_pos_rep:
  assumes "0 \<le> m" "m \<le> 2 ^ 53" "- 1074 \<le> q"
  shows "fl64_pos (of_int m * 2 powi q) = of_int m * 2 powi q"
proof (cases "m = 0")
  case True
  then show ?thesis by (simp add: fl64_pos_def)
next
  case False
  define z where "z = (of_int m * 2 powi q :: rat)"
  have z: "0 < z" using False assms(1) by (simp add: z_def)
  show ?thesis
  proof (cases "m = 2 ^ 53")
    case True
    then have zq: "z = 2 powi (53 + q)" by (simp add: z_def power_int_add)
    then have "ilog2 z = 53 + q"
      by (intro ilog2_unique) (simp_all add: pow2_less_iff)
    then have "ulp_exp z \<le> q + 1" using assms(3) by (simp add: ulp_exp_def)
    moreover have "z = of_int (2 ^ 52) * 2 powi (q + 1)"
      by (simp add: zq power_int_add)
    ultimately have "fl64_pos z = z" using fl64_pos_grid [OF z, of "2 ^ 52" "q + 1"] by simp
    then show ?thesis by (simp add: z_def)
  next
    case lt: False
    then have "m < 2 ^ 53" using assms(2) by simp
    then have "(of_int m :: rat) < of_int (2 ^ 53)" by (simp only: of_int_less_iff)
    then have "z < 2 powi (53 + q)" by (simp add: z_def power_int_add)
    with ilog2_bounds [OF z] have "(2 powi ilog2 z :: rat) < 2 powi (53 + q)" by linarith
    then have "ulp_exp z \<le> q" using assms(3) by (simp add: pow2_less_iff ulp_exp_def)
    then have "fl64_pos z = z" using fl64_pos_grid [OF z, of m q] by (simp add: z_def)
    then show ?thesis by (simp add: z_def)
  qed
qed

lemma fl64_pos_idem: "fl64_pos (fl64_pos x) = fl64_pos x"
proof (cases "0 < x")
  case False
  then show ?thesis by (simp add: fl64_pos_def)
next
  case True
  obtain m where "0 \<le> m" "m \<le> 2 ^ 53" "fl64_pos x = of_int m * 2 powi ulp_exp x"
    using fl64_pos_form [OF True] .
  then show ?thesis using fl64_pos_rep [of m "ulp_exp x"] by (simp add: ulp_exp_def)
qed

lemma fl64_nonneg_eq: "0 \<le> x \<Longrightarrow> fl64 x = fl64_pos x"
  by (simp add: fl64_def)

lemma fl64_minus: "fl64 (- x) = - fl64 x"
  by (auto simp: fl64_def fl64_pos_def)

lemma fl64_mono: "x \<le> y \<Longrightarrow> fl64 x \<le> fl64 y"
  using fl64_pos_mono [of x y] fl64_pos_mono [of "- y" "- x"] fl64_pos_nonneg [of y]
    fl64_pos_nonneg [of "- x"]
  by (auto simp: fl64_def)

lemma fl64_idem: "fl64 (fl64 x) = fl64 x"
proof (cases "x < 0")
  case True
  then have "fl64 x = - fl64_pos (- x)" by (simp add: fl64_def)
  then show ?thesis
    using fl64_minus [of "fl64_pos (- x)"]
    by (simp add: fl64_nonneg_eq fl64_pos_nonneg fl64_pos_idem)
next
  case False
  then show ?thesis by (simp add: fl64_nonneg_eq fl64_pos_nonneg fl64_pos_idem)
qed

text \<open>Doubles are multiples of the least subnormal, so distinct ones have a nonzero difference.\<close>

lemma fl64_quantum: "fl64 x = x \<Longrightarrow> \<exists>k. x = of_int k * 2 powi (- 1074)"
proof -
  assume x: "fl64 x = x"
  have pos: "\<exists>k. fl64_pos y = of_int k * 2 powi (- 1074)" if y0: "0 < y" for y
  proof -
    obtain m where "fl64_pos y = of_int m * 2 powi ulp_exp y"
      using fl64_pos_form [OF y0] by metis
    moreover have "(2 powi e :: rat) = 2 powi (e + d) * 2 powi (- d)" for e d :: int
      by (simp flip: power_int_add)
    then have "(2 powi ulp_exp y :: rat) = 2 powi (ulp_exp y + 1074) * 2 powi (- 1074)" .
    moreover have "(2 powi (ulp_exp y + 1074) :: rat) = of_int (2 ^ nat (ulp_exp y + 1074))"
      by (rule pow2_is_int) (simp add: ulp_exp_def)
    ultimately have "fl64_pos y = of_int (m * 2 ^ nat (ulp_exp y + 1074)) * 2 powi (- 1074)"
      by (simp only: of_int_mult mult.assoc)
    then show ?thesis by blast
  qed
  consider "x < 0" | "x = 0" | "0 < x" by linarith
  then show ?thesis
  proof cases
    case 1
    then obtain k where "fl64_pos (- x) = of_int k * 2 powi (- 1074)" using pos [of "- x"] by auto
    with 1 x have "x = of_int (- k) * 2 powi (- 1074)" by (simp add: fl64_def)
    then show ?thesis by blast
  next
    case 2
    then have "x = of_int 0 * 2 powi (- 1074)" by simp
    then show ?thesis by blast
  next
    case 3
    with pos [OF 3] x show ?thesis by (simp add: fl64_def)
  qed
qed

lemma fl64_diff_pos:
  assumes "fl64 x = x" "fl64 y = y" "x < y"
  shows "0 < fl64 (y - x)"
proof -
  let ?q = "2 powi (- 1074) :: rat"
  obtain k l where kl: "x = of_int k * ?q" "y = of_int l * ?q"
    using fl64_quantum assms(1,2) by metis
  then have "k < l" using assms(3) by simp
  then have "of_int 1 * ?q \<le> of_int (l - k) * ?q"
    by (intro mult_right_mono order_less_imp_le [OF pow2_pos]) (simp only: of_int_le_iff)
  then have "?q \<le> y - x" by (simp add: kl algebra_simps)
  from fl64_mono [OF this] have "fl64 ?q \<le> fl64 (y - x)" .
  moreover have "fl64 ?q = ?q"
    using fl64_pos_rep [of 1 "- 1074"] by (simp add: fl64_nonneg_eq)
  ultimately show ?thesis using pow2_pos [of "- 1074"] by linarith
qed

interpretation b64: rounding fl64
proof unfold_locales
  show "fl64 0 = 0" by (simp add: fl64_def fl64_pos_def)
qed (fact fl64_mono fl64_idem fl64_diff_pos)+

text \<open>Small integers and small integers over powers of two are doubles.\<close>

lemma fl64_rep: "0 \<le> m \<Longrightarrow> m \<le> 2 ^ 53 \<Longrightarrow> - 1074 \<le> q \<Longrightarrow> fl64 (of_int m * 2 powi q) = of_int m * 2 powi q"
  by (simp add: fl64_nonneg_eq fl64_pos_rep)

lemma fl64_of_int: "0 \<le> m \<Longrightarrow> m \<le> 2 ^ 53 \<Longrightarrow> fl64 (of_int m) = of_int m"
  using fl64_rep [of m 0] by simp

lemma fl64_numeral [simp]: "numeral k \<le> (2 ^ 53 :: int) \<Longrightarrow> fl64 (numeral k) = numeral k"
  using fl64_of_int [of "numeral k"] by simp

lemma fl64_0 [simp]: "fl64 0 = 0" and fl64_1 [simp]: "fl64 1 = 1"
  using fl64_of_int [of 0] fl64_of_int [of 1] by simp_all

section \<open>The rounding error\<close>

lemma fl64_half_ulp:
  assumes "0 < x"
  shows "\<bar>fl64 x - x\<bar> \<le> 2 powi ulp_exp x / 2"
proof -
  let ?u = "2 powi ulp_exp x :: rat"
  let ?r = "of_int (round_even (x / ?u)) :: rat"
  have "\<bar>?r - x / ?u\<bar> \<le> 1 / 2" using round_even_near [of "x / ?u"] by linarith
  then have "\<bar>?r - x / ?u\<bar> * ?u \<le> 1 / 2 * ?u" by (rule mult_right_mono) simp
  moreover have "(?r - x / ?u) * ?u = ?r * ?u - x" by (simp add: left_diff_distrib)
  then have "\<bar>?r - x / ?u\<bar> * ?u = \<bar>?r * ?u - x\<bar>"
    by (metis abs_mult abs_of_pos pow2_pos)
  ultimately show ?thesis
    using assms by (simp add: fl64_nonneg_eq fl64_pos_def)
qed

text \<open>The relative error of a normal result, and an absolute one below.\<close>

definition eps64 :: rat where
  "eps64 = 2 powi (- 53)"

definition eta64 :: rat where
  "eta64 = 2 powi (- 1075)"

lemma eps64_pos [simp]: "0 < eps64" and eta64_pos [simp]: "0 < eta64"
  unfolding eps64_def eta64_def by (rule pow2_pos)+

lemma pow2_add: "(2 powi (e + d) :: rat) = 2 powi e * 2 powi d"
  by (simp add: power_int_add)

lemma pow2_half: "(2 powi e :: rat) / 2 = 2 powi (e - 1)"
  by (simp add: power_int_diff)

lemma fl64_error_normal:
  assumes "0 < x" "- 1022 \<le> ilog2 x"
  shows "\<bar>fl64 x - x\<bar> \<le> x * eps64"
proof -
  have "ulp_exp x - 1 = ilog2 x + - 53" using assms(2) by (simp add: ulp_exp_def)
  then have "2 powi ulp_exp x / 2 = (2 powi ilog2 x * eps64 :: rat)"
    by (simp only: pow2_half pow2_add eps64_def)
  moreover have "2 powi ilog2 x * eps64 \<le> x * eps64"
    using ilog2_bounds [OF assms(1)] by (intro mult_right_mono order_less_imp_le [OF eps64_pos]) simp
  ultimately show ?thesis using fl64_half_ulp [OF assms(1)] by linarith
qed

lemma fl64_error:
  assumes "0 \<le> x"
  shows "\<bar>fl64 x - x\<bar> \<le> x * eps64 + eta64"
proof (cases "x = 0")
  case True
  then show ?thesis by (simp add: fl64_def fl64_pos_def order_less_imp_le)
next
  case False
  with assms have x: "0 < x" by simp
  show ?thesis
  proof (cases "- 1022 \<le> ilog2 x")
    case True
    then show ?thesis using fl64_error_normal [OF x] eta64_pos by linarith
  next
    case False
    then have "ulp_exp x - 1 = - 1075" by (simp add: ulp_exp_def)
    then have "2 powi ulp_exp x / 2 = eta64" by (simp only: pow2_half eta64_def)
    moreover have "0 \<le> x * eps64" using x by (simp add: order_less_imp_le)
    ultimately show ?thesis using fl64_half_ulp [OF x] by linarith
  qed
qed

lemma fl64_error_ge:
  assumes "2 powi (- 1022) \<le> x"
  shows "\<bar>fl64 x - x\<bar> \<le> x * eps64"
proof -
  have x: "0 < x" using assms pow2_pos [of "- 1022"] by linarith
  have "(2 powi (- 1022) :: rat) < 2 powi (ilog2 x + 1)"
    using assms ilog2_bounds [OF x] by linarith
  then have "- 1022 \<le> ilog2 x" by (simp only: pow2_less_iff)
  then show ?thesis by (rule fl64_error_normal [OF x])
qed


text \<open>Evaluation at a given value: \<open>m / 2^k\<close> is the nearest double.\<close>

lemma round_even_eq: "\<bar>y - of_int m\<bar> < 1 / 2 \<Longrightarrow> round_even y = m"
  using round_even_near [of y] by linarith

lemma fl64_near:
  assumes "2 ^ 52 \<le> x * 2 ^ k" "x * 2 ^ k < 2 ^ 53" "k \<le> 1074" "\<bar>x * 2 ^ k - of_int m\<bar> < 1 / 2"
  shows "fl64 x = of_int m / 2 ^ k"
proof -
  have pk: "(2 :: rat) powi (- int k) = 1 / 2 ^ k" by (simp add: power_int_minus field_simps)
  have "(2 :: rat) powi (52 + - int k) = 2 powi 52 * 2 powi (- int k)"
    "(2 :: rat) powi (53 + - int k) = 2 powi 53 * 2 powi (- int k)"
    by (simp_all only: pow2_add)
  then have p: "(2 :: rat) powi (52 - int k) = 2 ^ 52 / 2 ^ k"
    "(2 :: rat) powi (52 - int k + 1) = 2 ^ 53 / 2 ^ k"
    unfolding pk by simp_all
  have "ilog2 x = 52 - int k"
    using assms(1,2) by (intro ilog2_unique) (simp_all only: p pos_divide_le_eq pos_less_divide_eq zero_less_power zero_less_numeral)
  then have u: "2 powi ulp_exp x = (1 / 2 ^ k :: rat)"
    using assms(3) pk by (simp add: ulp_exp_def)
  have "0 < x * 2 ^ k" using assms(1) by (rule less_le_trans [rotated]) simp
  then have "0 < x" by (simp add: zero_less_mult_iff)
  moreover have "round_even (x * 2 ^ k) = m" using assms(4) by (rule round_even_eq)
  ultimately show ?thesis by (simp add: fl64_def fl64_pos_def u)
qed

end
