(* ===== verification/Bucket.thy ===== *)
theory Bucket
  imports GoTime Float64
begin

text \<open>
  \<open>internal/ratelimit/bucket.go\<close>: one token bucket. Token counts, rates and costs are
  \<open>float64\<close>; every arithmetic operation rounds with the machine's rounding
  (\<open>fpu.rnd\<close>: \<open>fl64\<close> on every Go platform). Two things the language leaves to the platform.
  A product that is added to something may be fused with the sum into one operation that
  rounds once (\<open>fpu.fused\<close>: arm64 does, amd64 does from \<open>GOAMD64=v3\<close> on). The conversion
  \<open>int64(f)\<close> of a value outside \<open>int64\<close> yields some \<open>int64\<close> (\<open>fpu.f2i_oor\<close>). Comparisons,
  \<open>math.Min\<close> and \<open>math.Ceil\<close> are exact. \<open>ideal\<close> computes without rounding and states what
  the formulas mean.
\<close>

section \<open>The machine\<close>

record fpu =
  rnd :: "rat \<Rightarrow> rat"
  fused :: bool
  f2i_oor :: "rat \<Rightarrow> int"

definition saturate :: "rat \<Rightarrow> int" where
  "saturate x = (if x < 0 then min_int64 else max_int64)"

definition ideal :: fpu where
  "ideal = \<lparr>rnd = (\<lambda>x. x), fused = False, f2i_oor = saturate\<rparr>"

text \<open>
  What a Go build may target: any choice of the two. \<open>AMD64\<close> is the default of the release
  builds and \<open>ARM64\<close> fuses and saturates.
\<close>

datatype goarch = Target bool "rat \<Rightarrow> int"

definition AMD64 :: goarch where
  "AMD64 = Target False (\<lambda>_. min_int64)"

definition ARM64 :: goarch where
  "ARM64 = Target True saturate"

fun fpu_of :: "goarch \<Rightarrow> fpu" where
  "fpu_of (Target f conv) = \<lparr>rnd = fl64, fused = f, f2i_oor = (\<lambda>x. wrap64 (conv x))\<rparr>"

text \<open>\<open>t + x * y\<close>, in one operation or in two.\<close>

definition mul_add :: "fpu \<Rightarrow> rat \<Rightarrow> rat \<Rightarrow> rat \<Rightarrow> rat" where
  "mul_add M t x y = rnd M (t + (if fused M then x * y else rnd M (x * y)))"

text \<open>\<open>int64(f)\<close>: truncation towards zero.\<close>

definition float_to_int64 :: "fpu \<Rightarrow> rat \<Rightarrow> int" where
  "float_to_int64 M x =
    (let t = (if x < 0 then \<lceil>x\<rceil> else \<lfloor>x\<rfloor>) in if in_int64 t then t else f2i_oor M x)"

text \<open>\<open>Duration.Seconds\<close>: whole seconds plus the remaining nanoseconds over 1e9.\<close>

definition dur_seconds :: "fpu \<Rightarrow> duration \<Rightarrow> rat" where
  "dur_seconds M d =
    (let sec = go_div d 1000000000; nsec = d - 1000000000 * sec
     in rnd M (rnd M (of_int sec) + rnd M (rnd M (of_int nsec) / 1000000000)))"

definition max_int32 :: int where
  "max_int32 = 2147483647"

section \<open>Data and operations\<close>

record result =
  Allowed :: bool
  Remaining :: rat
  RetryAfterMs :: int

record bucket =
  tokens :: rat
  lastRefill :: time
  rate :: rat
  burst :: rat

definition NewBucket :: "rat \<Rightarrow> rat \<Rightarrow> time \<Rightarrow> bucket" where
  "NewBucket r b now =
    (let r' = (if r < 0 then 0 else r); b' = (if b < 0 then 0 else b)
     in \<lparr>tokens = b', lastRefill = now, rate = r', burst = b'\<rparr>)"

definition refill :: "fpu \<Rightarrow> time \<Rightarrow> bucket \<Rightarrow> bucket" where
  "refill M now b =
    (if rate b \<le> 0 then b\<lparr>lastRefill := now\<rparr>
     else
       (let elapsed = dur_seconds M (time_sub now (lastRefill b))
        in if elapsed \<le> 0 then b
           else b\<lparr>tokens := min (burst b) (mul_add M (tokens b) elapsed (rate b)),
                  lastRefill := now\<rparr>))"

text \<open>
  The first assignment to \<open>need\<close> in the branch \<open>cost > burst\<close> is dead: it is
  overwritten by \<open>need = burst\<close> or the function returns.
\<close>

definition retryAfterMs :: "fpu \<Rightarrow> rat \<Rightarrow> rat \<Rightarrow> rat \<Rightarrow> rat \<Rightarrow> int" where
  "retryAfterMs M toks cost r b =
    (if cost > b \<and> toks \<ge> b then max_int32
     else
       (let need = (if cost > b then b else cost);
            deficit = rnd M (need - toks)
        in if deficit \<le> 0 then 0
           else if r \<le> 0 then max_int32
           else
             (let sec = rnd M (deficit / r);
                  ms = float_to_int64 M (of_int \<lceil>rnd M (sec * 1000)\<rceil>)
              in if ms < 1 then 1 else ms)))"

definition Take_bucket :: "fpu \<Rightarrow> time \<Rightarrow> rat \<Rightarrow> bucket \<Rightarrow> result \<times> bucket" where
  "Take_bucket M now cost0 b0 =
    (let cost = (if cost0 < 0 then 0 else cost0);
         b = refill M now b0;
         deny = \<lparr>Allowed = False, Remaining = tokens b,
                 RetryAfterMs = retryAfterMs M (tokens b) cost (rate b) (burst b)\<rparr>
     in if cost > burst b then (deny, b)
        else if tokens b \<ge> cost then
          (let b' = b\<lparr>tokens := rnd M (tokens b - cost)\<rparr>
           in (\<lparr>Allowed = True, Remaining = tokens b', RetryAfterMs = 0\<rparr>, b'))
        else (deny, b))"

lemmas bucket_op_defs = NewBucket_def refill_def retryAfterMs_def Take_bucket_def

end
