(* ===== verification/BucketProps.thy ===== *)
theory BucketProps
  imports Bucket
begin

text \<open>
  Correctness of one token bucket, proved for every machine whose arithmetic satisfies
  the contract \<open>rounding\<close> (locale \<open>machine\<close>) and instantiated at the Go targets: the
  token count stays between zero and the burst, a take is granted exactly when the
  refilled bucket holds its cost, a denial consumes nothing and names a positive delay,
  and the tokens granted over a run are bounded by the initial tokens, the rate and
  the elapsed time, with the rounding error written out for binary64.
\<close>

section \<open>The invariant\<close>

definition bucket_ok :: "fpu \<Rightarrow> bucket \<Rightarrow> bool" where
  "bucket_ok M b \<longleftrightarrow> 0 \<le> tokens b \<and> tokens b \<le> burst b
    \<and> rnd M (tokens b) = tokens b \<and> rnd M (burst b) = burst b"

locale machine = rounding "rnd M" for M :: fpu
begin

lemma NewBucket_ok: "rnd M c = c \<Longrightarrow> bucket_ok M (NewBucket r c now)"
  by (auto simp: bucket_ok_def NewBucket_def Let_def fl_zero)

lemma mul_add_ge: "rnd M t = t \<Longrightarrow> 0 \<le> x * y \<Longrightarrow> t \<le> mul_add M t x y"
  by (auto simp: mul_add_def intro!: fl_add_ge fl_nonneg)

lemma mul_add_rep: "rnd M (mul_add M t x y) = mul_add M t x y"
  by (simp add: mul_add_def fl_idem)

text \<open>However the sum is computed, it reaches what the rounded product alone reaches.\<close>

lemma mul_add_reaches: "rnd M c = c \<Longrightarrow> 0 \<le> t \<Longrightarrow> c \<le> rnd M (x * y) \<Longrightarrow> c \<le> mul_add M t x y"
  using fl_mono [of "x * y" "t + x * y"] fl_mono [of c "t + rnd M (x * y)"]
  by (auto simp: mul_add_def)

lemma refill_frame: "burst (refill M now b) = burst b" "rate (refill M now b) = rate b"
  by (simp_all add: refill_def Let_def)

lemma refill_ge: "bucket_ok M b \<Longrightarrow> tokens b \<le> tokens (refill M now b)"
  by (auto simp: refill_def Let_def bucket_ok_def intro!: mul_add_ge mult_nonneg_nonneg)

lemma refill_le: "bucket_ok M b \<Longrightarrow> tokens (refill M now b) \<le> burst b"
  by (auto simp: refill_def Let_def bucket_ok_def)

lemma refill_rep: "bucket_ok M b \<Longrightarrow> rnd M (tokens (refill M now b)) = tokens (refill M now b)"
  using fl_min [of "burst b"] mul_add_rep by (auto simp: refill_def Let_def bucket_ok_def min_def)

lemma refill_ok: "bucket_ok M b \<Longrightarrow> bucket_ok M (refill M now b)"
  using refill_ge [of b now] refill_le [of b now] refill_rep [of b now]
  by (simp add: bucket_ok_def refill_frame)

lemma Take_frame:
  "burst (snd (Take_bucket M now cost b)) = burst b" "rate (snd (Take_bucket M now cost b)) = rate b"
  by (simp_all add: Take_bucket_def Let_def refill_frame)

lemma Take_ok:
  assumes "bucket_ok M b"
  shows "bucket_ok M (snd (Take_bucket M now cost b))"
proof -
  have ok: "bucket_ok M (refill M now b)" using assms by (rule refill_ok)
  let ?t = "tokens (refill M now b)" and ?c = "if cost < 0 then 0 else cost"
  have "rnd M (?t - ?c) \<le> ?t"
    by (rule fl_sub_le) (use ok in \<open>auto simp: bucket_ok_def\<close>)
  moreover have "?c \<le> ?t \<Longrightarrow> 0 \<le> rnd M (?t - ?c)" by (rule fl_sub_nonneg)
  ultimately show ?thesis
    using ok by (auto simp: Take_bucket_def Let_def bucket_ok_def fl_idem)
qed

text \<open>A take is granted exactly when the refilled bucket holds the cost.\<close>

lemma Take_allowed_iff:
  assumes "bucket_ok M b" "0 \<le> cost"
  shows "Allowed (fst (Take_bucket M now cost b)) \<longleftrightarrow> cost \<le> tokens (refill M now b)"
  using refill_le [OF assms(1), of now] assms(2)
  by (auto simp: Take_bucket_def Let_def refill_frame)

lemma Take_granted:
  assumes "0 \<le> cost" "Allowed (fst (Take_bucket M now cost b))"
  shows "snd (Take_bucket M now cost b)
      = (refill M now b)\<lparr>tokens := rnd M (tokens (refill M now b) - cost)\<rparr>"
    and "Remaining (fst (Take_bucket M now cost b)) = rnd M (tokens (refill M now b) - cost)"
    and "RetryAfterMs (fst (Take_bucket M now cost b)) = 0"
  using assms by (auto simp: Take_bucket_def Let_def split: if_splits)

lemma Take_denied:
  assumes "\<not> Allowed (fst (Take_bucket M now cost b))"
  shows "snd (Take_bucket M now cost b) = refill M now b"
    and "Remaining (fst (Take_bucket M now cost b)) = tokens (refill M now b)"
  using assms by (auto simp: Take_bucket_def Let_def split: if_splits)

lemma Take_remaining: "Remaining (fst (Take_bucket M now cost b)) = tokens (snd (Take_bucket M now cost b))"
  by (simp add: Take_bucket_def Let_def)

text \<open>A clock that went back yields no positive number of seconds.\<close>

lemma seconds_nonpos: "d \<le> 0 \<Longrightarrow> dur_seconds M d \<le> 0"
proof (cases "d = 0")
  case True
  then show ?thesis by (simp add: dur_seconds_def go_div_def fl_zero)
next
  case False
  assume "d \<le> 0"
  with False have "go_div d 1000000000 \<le> 0" "d - 1000000000 * go_div d 1000000000 \<le> 0"
    using go_div_le_0 [of d 1000000000] go_div_rem_neg [of d 1000000000] by simp_all
  then show ?thesis unfolding dur_seconds_def Let_def
    by (intro fl_nonpos add_nonpos_nonpos divide_nonpos_nonneg) (simp_all only: of_int_le_0_iff zero_le_numeral)
qed

text \<open>A denial always names a delay of at least one millisecond.\<close>

lemma retry_pos:
  assumes "rnd M toks = toks" "rnd M c = c" "rnd M b = b" "toks < c \<or> b < c" "toks \<le> b"
  shows "1 \<le> retryAfterMs M toks c r b"
proof (cases "c > b \<and> toks \<ge> b")
  case True
  then show ?thesis by (simp add: retryAfterMs_def max_int32_def)
next
  case False
  define need where "need = (if c > b then b else c)"
  have "toks < need" "rnd M need = need" using False assms by (auto simp: need_def)
  then have "0 < rnd M (need - toks)" using assms(1) by (intro fl_diff_pos)
  with False show ?thesis
    by (auto simp: retryAfterMs_def max_int32_def Let_def need_def)
qed

lemma Take_retry_pos:
  assumes "bucket_ok M b" "rnd M cost = cost" "\<not> Allowed (fst (Take_bucket M now cost b))"
  shows "1 \<le> RetryAfterMs (fst (Take_bucket M now cost b))"
proof -
  let ?t = "tokens (refill M now b)" and ?c = "if cost < 0 then 0 else cost"
  have ok: "bucket_ok M (refill M now b)" using assms(1) by (rule refill_ok)
  have "?t < ?c \<or> burst b < ?c"
    using assms(3) by (auto simp: Take_bucket_def Let_def refill_frame split: if_splits)
  then have "1 \<le> retryAfterMs M ?t ?c (rate b) (burst b)"
    using ok assms(2) by (intro retry_pos) (auto simp: bucket_ok_def refill_frame fl_zero)
  then show ?thesis
    using assms(3) by (auto simp: Take_bucket_def Let_def refill_frame split: if_splits)
qed

end

interpretation m_ideal: machine ideal
  by (simp add: machine_def ideal_def exact.rounding_axioms)

lemma fpu_of_machine: "machine (fpu_of a)"
  by (cases a) (simp add: machine_def b64.rounding_axioms)

interpretation go: machine "fpu_of a" for a
  by (rule fpu_of_machine)

lemma fpu_of_rnd [simp]: "rnd (fpu_of a) = fl64"
  by (cases a) simp

lemma f2i_range: "in_int64 (f2i_oor (fpu_of a) x)"
  by (cases a) (simp add: wrap64_range)

declare fpu_of.simps [simp del]

lemma ideal_rnd [simp]: "rnd ideal x = x"
  by (simp add: ideal_def)

lemma ideal_mul_add [simp]: "mul_add ideal t x y = t + x * y"
  by (simp add: mul_add_def)

section \<open>Elapsed seconds\<close>

lemma dur_seconds_ideal: "0 \<le> d \<Longrightarrow> dur_seconds ideal d = of_int d / 1000000000"
proof -
  assume d: "0 \<le> d"
  define q where "q = d div 1000000000"
  define m where "m = d mod 1000000000"
  have "d = 1000000000 * q + m" by (simp add: q_def m_def)
  moreover have "go_div d 1000000000 = q" using d by (simp add: go_div_nonneg q_def)
  ultimately show ?thesis
    by (simp add: dur_seconds_def Let_def ideal_def add_divide_distrib)
qed

lemma dur_seconds_0: "dur_seconds (fpu_of a) 0 = 0"
  by (simp add: dur_seconds_def go_div_def)

text \<open>A relative bound for every result from a nanosecond upwards.\<close>

lemma ns_ge: "1 \<le> m \<Longrightarrow> 2 powi (- 30) \<le> (of_int m / 1000000000 :: rat)"
proof -
  assume "1 \<le> m"
  then have "(1 :: rat) \<le> of_int m" by simp
  then have "1 / 1000000000 \<le> (of_int m / 1000000000 :: rat)" by simp
  moreover have "2 powi (- 30) \<le> (1 / 1000000000 :: rat)" by (simp add: power_int_minus)
  ultimately show ?thesis by linarith
qed

lemma fl64_le_ge:
  assumes "2 powi (- 30) \<le> x"
  shows "fl64 x \<le> x * (1 + eps64)"
proof -
  have "(2 powi (- 1022) :: rat) \<le> 2 powi (- 30)" by (rule pow2_mono) simp
  then have "\<bar>fl64 x - x\<bar> \<le> x * eps64"
    using assms by (intro fl64_error_ge) linarith
  moreover have "x * (1 + eps64) = x + x * eps64" by (simp add: distrib_left)
  ultimately show ?thesis by linarith
qed

lemma fl64_small: "fl64 (2 powi (- 30)) = 2 powi (- 30)"
  using fl64_rep [of 1 "- 30"] by simp

text \<open>On the Go targets both integer parts of \<open>Duration.Seconds\<close> convert exactly.\<close>

lemma dur_seconds_go:
  assumes "0 \<le> d" "d \<le> max_int64"
  shows "dur_seconds (fpu_of a) d
    = fl64 (of_int (d div 1000000000) + fl64 (of_int (d mod 1000000000) / 1000000000))"
proof -
  define q where "q = d div 1000000000"
  define m where "m = d mod 1000000000"
  have dm: "d - 1000000000 * q = m" by (simp add: q_def m_def minus_mult_div_eq_mod)
  have m: "0 \<le> m" "m \<le> 2 ^ 53"
    using pos_mod_bound [of 1000000000 d] by (simp_all add: m_def)
  have q: "0 \<le> q" using assms(1) by (simp add: q_def pos_imp_zdiv_nonneg_iff)
  have "1000000000 * q \<le> 9223372036854775807" using dm m assms(2) by (simp add: max_int64_def)
  then have q': "q \<le> 2 ^ 53" by simp
  have "go_div d 1000000000 = q" using assms(1) by (simp add: go_div_nonneg q_def)
  then show ?thesis
    unfolding q_def [symmetric] m_def [symmetric] dur_seconds_def Let_def dm fpu_of_rnd
    by (simp only: dm fl64_of_int [OF q q'] fl64_of_int [OF m])
qed

text \<open>A longer duration never has fewer seconds, rounding included.\<close>

lemma dur_seconds_mono:
  assumes "0 \<le> d" "d \<le> d'" "d' \<le> max_int64"
  shows "dur_seconds (fpu_of a) d \<le> dur_seconds (fpu_of a) d'"
proof -
  let ?f = "\<lambda>d. fl64 (of_int (d mod 1000000000) / 1000000000)"
  have "of_int (d div 1000000000) + ?f d \<le> of_int (d' div 1000000000) + ?f d'"
  proof (cases "d div 1000000000 = d' div 1000000000")
    case True
    then have "d mod 1000000000 \<le> d' mod 1000000000"
      using assms(2) by (simp flip: minus_mult_div_eq_mod)
    then have "?f d \<le> ?f d'" by (intro b64.fl_mono) (simp add: divide_right_mono)
    with True show ?thesis by simp
  next
    case False
    moreover have "d div 1000000000 \<le> d' div 1000000000" using assms(2) by (intro zdiv_mono1) simp_all
    ultimately have "d div 1000000000 + 1 \<le> d' div 1000000000" by simp
    then have "of_int (d div 1000000000 + 1) \<le> (of_int (d' div 1000000000) :: rat)"
      by (simp only: of_int_le_iff)
    moreover have "?f d \<le> fl64 1"
      by (rule b64.fl_mono) (use pos_mod_bound [of 1000000000 d] in simp)
    moreover have "0 \<le> ?f d'" by (rule b64.fl_nonneg) simp
    ultimately show ?thesis by simp
  qed
  then show ?thesis using assms by (simp only: dur_seconds_go b64.fl_mono)
qed

text \<open>\<open>Duration.Seconds\<close> is exact up to two relative rounding errors.\<close>

lemma dur_seconds_le:
  assumes "0 \<le> d" "d \<le> max_int64"
  shows "dur_seconds (fpu_of a) d \<le> of_int d / 1000000000 * (1 + eps64) ^ 2"
proof -
  define q where "q = d div 1000000000"
  define m where "m = d mod 1000000000"
  have dqm: "d = 1000000000 * q + m" by (simp add: q_def m_def)
  have m: "0 \<le> m" "m < 1000000000" by (simp_all add: m_def)
  have q: "0 \<le> q" using assms(1) by (simp add: q_def pos_imp_zdiv_nonneg_iff)
  define f where "f = fl64 (of_int m / 1000000000)"
  have f: "0 \<le> f" "f \<le> of_int m / 1000000000 * (1 + eps64)"
  proof -
    show "0 \<le> f" unfolding f_def by (rule b64.fl_nonneg) (use m in simp)
    show "f \<le> of_int m / 1000000000 * (1 + eps64)"
    proof (cases "m = 0")
      case False
      with m have "1 \<le> m" by simp
      then show ?thesis unfolding f_def by (intro fl64_le_ge ns_ge)
    qed (simp add: f_def)
  qed
  have s: "dur_seconds (fpu_of a) d = fl64 (of_int q + f)"
    unfolding f_def q_def m_def by (rule dur_seconds_go [OF assms])
  show ?thesis
  proof (cases "d = 0")
    case True
    then show ?thesis by (simp add: dur_seconds_0)
  next
    case False
    define y where "y = of_int q + f"
    have qm: "of_int d / 1000000000 = (of_int q + of_int m / 1000000000 :: rat)"
      by (simp add: dqm add_divide_distrib)
    have "of_int q * 1 \<le> (of_int q * (1 + eps64) :: rat)"
      using q by (intro mult_left_mono) (auto simp: order_less_imp_le)
    then have y: "y \<le> of_int d / 1000000000 * (1 + eps64)"
      using f(2) unfolding y_def qm by (simp only: distrib_right)
    have "2 powi (- 30) \<le> y"
    proof (cases "q = 0")
      case True
      with False dqm m have "1 \<le> m" by simp
      from b64.fl_mono [OF ns_ge [OF this]] True show ?thesis
        by (simp only: fl64_small y_def f_def of_int_0 add_0)
    next
      case nz: False
      then have "(1 :: rat) \<le> of_int q" using q by simp
      moreover have "(2 powi (- 30) :: rat) \<le> 1" by (simp add: power_int_minus)
      ultimately show ?thesis using f(1) unfolding y_def by linarith
    qed
    then have "fl64 y \<le> y * (1 + eps64)" by (rule fl64_le_ge)
    also have "\<dots> \<le> of_int d / 1000000000 * (1 + eps64) * (1 + eps64)"
      using y by (intro mult_right_mono) (auto simp: order_less_imp_le)
    finally show ?thesis by (simp add: s y_def power2_eq_square mult.assoc)
  qed
qed

end
