(* ===== verification/BucketRate.thy ===== *)
theory BucketRate
  imports BucketProps
begin

text \<open>
  How many tokens one bucket can hand out. \<open>take_run\<close> serves a list of requests, each
  with the clock reading it saw, and adds up the cost of the granted ones. The locale
  \<open>bounded_machine\<close> extends the rounding contract by an error bound per operation;
  under it the total is at most the initial tokens plus the rate over the elapsed
  time, plus an error per request. Exact arithmetic has error zero and gives the
  token-bucket law itself; binary64 gives it up to the written-out rounding.
\<close>

fun take_run :: "fpu \<Rightarrow> (time \<times> rat) list \<Rightarrow> bucket \<Rightarrow> rat \<times> bucket" where
  "take_run M [] b = (0, b)"
| "take_run M ((now, cost) # reqs) b =
    (let (r, b') = Take_bucket M now cost b;
         (g, b'') = take_run M reqs b'
     in ((if Allowed r then max 0 cost else 0) + g, b''))"

text \<open>The tokens a bucket can have given out by \<open>T\<close>, when its rate is inflated by \<open>k\<close>.\<close>

definition budget :: "rat \<Rightarrow> time \<Rightarrow> bucket \<Rightarrow> rat" where
  "budget k T b = tokens b + max 0 (rate b) * k * (max 0 (of_int (T - lastRefill b)) / 1000000000)"

locale bounded_machine = machine +
  fixes e h :: rat
  assumes e_nonneg: "0 \<le> e" and h_nonneg: "0 \<le> h"
    and fl_err: "0 \<le> x \<Longrightarrow> rnd M x \<le> x + x * e + h"
    and sec_err: "0 \<le> d \<Longrightarrow> d \<le> max_int64 \<Longrightarrow> dur_seconds M d \<le> of_int d / 1000000000 * (1 + e) ^ 2"
begin

abbreviation slack :: "bucket \<Rightarrow> rat" where
  "slack b \<equiv> burst b * e + h"

lemma add_capped: "0 \<le> x \<Longrightarrow> min c (rnd M x) \<le> x + (c * e + h)" if "0 \<le> c" for c
proof (cases "x \<le> c")
  case True
  assume "0 \<le> x"
  then have "rnd M x \<le> x + x * e + h" by (rule fl_err)
  moreover have "x * e \<le> c * e" using True e_nonneg by (rule mult_right_mono)
  ultimately show ?thesis by linarith
next
  case False
  then have "min c (rnd M x) \<le> x" by simp
  moreover have "0 \<le> c * e + h" using that e_nonneg h_nonneg by simp
  ultimately show ?thesis by linarith
qed

text \<open>One rounding or two, the sum exceeds the exact one by no more than both errors.\<close>

lemma mul_add_capped:
  assumes "0 \<le> c" "0 \<le> t" "0 \<le> x * y"
  shows "min c (mul_add M t x y) \<le> t + x * y * (1 + e) + h + (c * e + h)"
proof -
  define p where "p = (if fused M then x * y else rnd M (x * y))"
  have "0 \<le> x * y * e" using assms(3) e_nonneg by (rule mult_nonneg_nonneg)
  then have p: "0 \<le> p" "p \<le> x * y + x * y * e + h"
    using fl_err [OF assms(3)] fl_nonneg [OF assms(3)] assms(3) h_nonneg by (simp_all add: p_def)
  have "min c (rnd M (t + p)) \<le> t + p + (c * e + h)" using assms(1,2) p(1) by (intro add_capped) simp_all
  moreover have "x * y + x * y * e = x * y * (1 + e)" by (simp add: distrib_left)
  ultimately show ?thesis using p(2) by (simp add: mul_add_def p_def)
qed

lemma refill_gain:
  assumes ok: "bucket_ok M b" and r: "0 < rate b" and now: "lastRefill b \<le> now"
  shows "tokens (refill M now b)
    \<le> tokens b + rate b * (1 + e) ^ 3 * (of_int (now - lastRefill b) / 1000000000) + (slack b + h)"
proof -
  define d where "d = time_sub now (lastRefill b)"
  define s where "s = dur_seconds M d"
  define x where "x = (of_int (now - lastRefill b) / 1000000000 :: rat)"
  have d: "0 \<le> d" "d \<le> max_int64" "d \<le> now - lastRefill b"
    using now by (auto simp: d_def time_sub_def int64_defs)
  have x: "0 \<le> x" using now by (simp add: x_def)
  have nn: "0 \<le> slack b" using ok e_nonneg h_nonneg by (simp add: bucket_ok_def)
  have gain: "0 \<le> rate b * (1 + e) ^ 3 * x" using r x e_nonneg by simp
  show ?thesis
  proof (cases "s \<le> 0")
    case True
    then have "refill M now b = b" using r by (simp add: refill_def s_def d_def)
    then show ?thesis using nn gain h_nonneg by (simp add: x_def)
  next
    case False
    have "s \<le> of_int d / 1000000000 * (1 + e) ^ 2" unfolding s_def by (rule sec_err) (use d in auto)
    also have "\<dots> \<le> x * (1 + e) ^ 2" unfolding x_def
      by (rule mult_right_mono) (use d e_nonneg in \<open>simp_all add: divide_right_mono\<close>)
    finally have "s * rate b \<le> x * (1 + e) ^ 2 * rate b" using r by (simp add: mult_right_mono)
    then have "s * rate b * (1 + e) \<le> x * (1 + e) ^ 2 * rate b * (1 + e)"
      using e_nonneg by (simp add: mult_right_mono)
    also have "\<dots> = rate b * (1 + e) ^ 3 * x" by (simp add: power2_eq_square power3_eq_cube)
    finally have "s * rate b * (1 + e) \<le> rate b * (1 + e) ^ 3 * x" .
    moreover have "min (burst b) (mul_add M (tokens b) s (rate b)) \<le> tokens b + s * rate b * (1 + e) + h + slack b"
      using ok False r by (intro mul_add_capped) (auto simp: bucket_ok_def)
    moreover have "tokens (refill M now b) = min (burst b) (mul_add M (tokens b) s (rate b))"
      using False r by (simp add: refill_def s_def d_def)
    ultimately show ?thesis by (simp add: x_def)
  qed
qed

lemma slack_nonneg: "bucket_ok M b \<Longrightarrow> 0 \<le> slack b"
  using e_nonneg h_nonneg by (simp add: bucket_ok_def)

abbreviation bgt :: "time \<Rightarrow> bucket \<Rightarrow> rat" where
  "bgt \<equiv> budget ((1 + e) ^ 3)"

lemma refill_budget:
  assumes ok: "bucket_ok M b" and T: "now \<le> T"
  shows "bgt T (refill M now b) \<le> bgt T b + (slack b + h)"
proof (cases "0 < rate b \<and> lastRefill b \<le> now \<and> refill M now b \<noteq> b")
  case True
  then have last: "lastRefill (refill M now b) = now"
    by (auto simp: refill_def Let_def split: if_splits)
  define k where "k = rate b * (1 + e) ^ 3"
  have "of_int (T - lastRefill b) = of_int (T - now) + (of_int (now - lastRefill b) :: rat)"
    by simp
  then have "k * (of_int (T - lastRefill b) / 1000000000)
      = k * (of_int (T - now) / 1000000000) + k * (of_int (now - lastRefill b) / 1000000000)"
    by (simp only: add_divide_distrib distrib_left)
  with refill_gain [OF ok, of now] True T show ?thesis
    by (simp add: budget_def last refill_frame k_def add_divide_distrib)
next
  case False
  have "tokens (refill M now b) = tokens b \<and> (rate b \<le> 0 \<or> refill M now b = b)"
  proof -
    consider "rate b \<le> 0" | "refill M now b = b" | "0 < rate b" "now < lastRefill b"
      using False by linarith
    then show ?thesis
    proof cases
      case 3
      then have "time_sub now (lastRefill b) \<le> 0" by (simp add: time_sub_le_0_iff)
      then show ?thesis using 3 seconds_nonpos by (simp add: refill_def Let_def)
    qed (simp_all add: refill_def)
  qed
  then show ?thesis using slack_nonneg [OF ok] h_nonneg
    by (auto simp: budget_def refill_frame)
qed

lemma Take_budget:
  assumes ok: "bucket_ok M b" and T: "now \<le> T" and t: "Take_bucket M now cost b = (r, b')"
  shows "(if Allowed r then max 0 cost else 0) + bgt T b' \<le> bgt T b + (2 * slack b + h)"
proof -
  define b1 where "b1 = refill M now b"
  have b1: "bucket_ok M b1" "burst b1 = burst b" "bgt T b1 \<le> bgt T b + (slack b + h)"
    using refill_ok [OF ok] refill_budget [OF ok T] by (simp_all add: b1_def refill_frame)
  show ?thesis
  proof (cases "Allowed r")
    case False
    then have "b' = b1" using t Take_denied(1) [of now cost b] by (simp add: b1_def)
    with False b1(3) slack_nonneg [OF ok] show ?thesis by simp
  next
    case True
    define c where "c = max 0 cost"
    have c: "0 \<le> c" "c \<le> tokens b1" "b' = b1\<lparr>tokens := rnd M (tokens b1 - c)\<rparr>"
      using t True
      by (auto simp: c_def b1_def Take_bucket_def Let_def max_def split: if_splits)
    have "rnd M (tokens b1 - c) \<le> tokens b1 - c + (tokens b1 - c) * e + h"
      using c by (intro fl_err) simp
    moreover have "(tokens b1 - c) * e \<le> burst b * e"
      using c b1(1,2) e_nonneg by (intro mult_right_mono) (auto simp: bucket_ok_def)
    ultimately have "bgt T b' + c \<le> bgt T b1 + slack b" by (simp add: c(3) budget_def)
    with b1(3) True show ?thesis by (simp add: c_def)
  qed
qed

lemma take_run_bound:
  "bucket_ok M b \<Longrightarrow> \<forall>q \<in> set reqs. fst q \<le> T
    \<Longrightarrow> fst (take_run M reqs b) + bgt T (snd (take_run M reqs b))
      \<le> bgt T b + of_nat (length reqs) * (2 * slack b + h)"
proof (induction reqs arbitrary: b)
  case (Cons q reqs)
  obtain now cost where q: "q = (now, cost)" by force
  obtain r b' where t: "Take_bucket M now cost b = (r, b')" by force
  have b': "bucket_ok M b'" "burst b' = burst b"
    using Take_ok [OF Cons.prems(1), of now cost] Take_frame(1) [of now cost b] t by simp_all
  have "(if Allowed r then max 0 cost else 0) + bgt T b' \<le> bgt T b + (2 * slack b + h)"
    using Take_budget [OF Cons.prems(1) _ t] Cons.prems(2) q by simp
  moreover have "fst (take_run M reqs b') + bgt T (snd (take_run M reqs b'))
      \<le> bgt T b' + of_nat (length reqs) * (2 * slack b + h)"
    using Cons.IH [OF b'(1)] Cons.prems(2) b'(2) by simp
  moreover have "of_nat (length (q # reqs)) * (2 * slack b + h)
      = (2 * slack b + h) + of_nat (length reqs) * (2 * slack b + h)"
    by (simp add: distrib_right)
  ultimately show ?case by (simp add: q t split_beta)
qed simp

lemma take_run_ok: "bucket_ok M b \<Longrightarrow> bucket_ok M (snd (take_run M reqs b))"
  by (induction reqs arbitrary: b) (auto simp: split_beta Take_ok)

lemma budget_nonneg: "bucket_ok M b \<Longrightarrow> 0 \<le> bgt T b"
  using e_nonneg by (simp add: budget_def bucket_ok_def)

lemma take_run_le:
  assumes "bucket_ok M b" "\<forall>q \<in> set reqs. fst q \<le> T"
  shows "fst (take_run M reqs b) \<le> bgt T b + of_nat (length reqs) * (2 * slack b + h)"
  using take_run_bound [OF assms] budget_nonneg [OF take_run_ok [OF assms(1)], of T reqs]
  by linarith

end

interpretation bounded_ideal: bounded_machine ideal 0 0
  by unfold_locales (simp_all add: ideal_rnd dur_seconds_ideal)

interpretation bounded_go: bounded_machine "fpu_of a" eps64 eta64 for a
proof unfold_locales
  show "rnd (fpu_of a) x \<le> x + x * eps64 + eta64" if "0 \<le> x" for x
    using fl64_error [OF that] by simp
  show "dur_seconds (fpu_of a) d \<le> of_int d / 1000000000 * (1 + eps64) ^ 2"
    if "0 \<le> d" "d \<le> max_int64" for d
    using that by (rule dur_seconds_le)
qed (simp_all add: order_less_imp_le)


section \<open>The announced delay\<close>

text \<open>
  In exact arithmetic the delay named by a denial is enough: a take of the same cost
  that long afterwards is granted, if nothing else draws on the bucket in between.
\<close>

lemma ideal_retry:
  assumes "0 < r" "0 \<le> toks" "toks < cost" "cost \<le> b" "retryAfterMs ideal toks cost r b \<le> 9223372036854"
  shows "cost - toks \<le> of_int (retryAfterMs ideal toks cost r b) / 1000 * r"
proof -
  define ms where "ms = retryAfterMs ideal toks cost r b"
  define c where "c = \<lceil>(cost - toks) / r * 1000\<rceil>"
  have x: "0 < (cost - toks) / r * 1000" using assms by simp
  then have c0: "0 < c" unfolding c_def by (simp only: zero_less_ceiling)
  have ms: "ms = (let k = float_to_int64 ideal (of_int c) in if k < 1 then 1 else k)"
    using assms x by (simp add: ms_def retryAfterMs_def Let_def c_def)
  have "c \<le> ms"
  proof (cases "in_int64 c")
    case True
    with c0 show ?thesis by (simp add: ms float_to_int64_def)
  next
    case False
    with c0 have "ms = max_int64"
      by (simp add: ms float_to_int64_def ideal_def saturate_def max_int64_def)
    with assms(5) show ?thesis by (simp add: ms_def max_int64_def)
  qed
  then have "(cost - toks) / r * 1000 \<le> of_int ms"
    unfolding c_def by (simp only: ceiling_le_iff)
  with assms(1) show ?thesis unfolding ms_def [symmetric]
    by (simp add: field_simps)
qed

lemma ideal_retry_suffices:
  assumes ok: "bucket_ok ideal b" and r: "0 < rate b" and now: "lastRefill b \<le> now"
    and c: "0 \<le> cost" "cost \<le> burst b"
    and t: "Take_bucket ideal now cost b = (res, b')" "\<not> Allowed res"
    and ms: "RetryAfterMs res \<le> 9223372036854"
  shows "Allowed (fst (Take_bucket ideal (now + RetryAfterMs res * 1000000) cost b'))"
proof -
  define n where "n = RetryAfterMs res"
  have b': "b' = refill ideal now b" using t m_ideal.Take_denied(1) [of now cost b] by simp
  have ok': "bucket_ok ideal b'" unfolding b' by (rule m_ideal.refill_ok [OF ok])
  have fr: "rate b' = rate b" "burst b' = burst b" by (simp_all add: b' m_ideal.refill_frame)
  have less: "tokens b' < cost"
    using t m_ideal.Take_allowed_iff [OF ok c(1), of now] by (simp add: b')
  have n: "n = retryAfterMs ideal (tokens b') cost (rate b) (burst b)"
    using t c by (auto simp: n_def b' Take_bucket_def Let_def m_ideal.refill_frame split: if_splits)
  have n1: "1 \<le> n"
    using m_ideal.Take_retry_pos [OF ok, of cost now] t by (simp add: n_def)
  have last: "lastRefill b' = now"
  proof (cases "0 < time_sub now (lastRefill b)")
    case True
    then show ?thesis using r
      by (simp add: b' refill_def Let_def dur_seconds_ideal)
  next
    case False
    then have "lastRefill b = now" using now by (simp add: not_less time_sub_le_0_iff)
    then show ?thesis by (simp add: b' refill_def Let_def)
  qed
  have sub: "time_sub (now + n * 1000000) (lastRefill b') = n * 1000000"
    using n1 ms unfolding n_def [symmetric]
    by (simp add: last time_sub_exact in_int64_def min_int64_def max_int64_def)
  have "tokens (refill ideal (now + n * 1000000) b')
      = min (burst b) (tokens b' + of_int n / 1000 * rate b)"
    using n1 r by (simp add: refill_def Let_def sub dur_seconds_ideal fr)
  moreover have "cost - tokens b' \<le> of_int n / 1000 * rate b"
    unfolding n by (rule ideal_retry) (use r ok' less c ms n in \<open>auto simp: bucket_ok_def n_def\<close>)
  ultimately have "cost \<le> tokens (refill ideal (now + n * 1000000) b')" using c by simp
  then show ?thesis
    using m_ideal.Take_allowed_iff [OF ok' c(1)] by (simp add: n_def)
qed


section \<open>Evaluation in steps\<close>

lemma retry_eval:
  assumes "cost \<le> b" "0 < r" "rnd M (cost - toks) = D" "0 < D" "rnd M (D / r) = S" "rnd M (S * 1000) = P"
  shows "retryAfterMs M toks cost r b
    = (let ms = float_to_int64 M (of_int \<lceil>P\<rceil>) in if ms < 1 then 1 else ms)"
  using assms by (simp add: retryAfterMs_def Let_def)

lemma refill_eval:
  assumes "0 < rate b" "dur_seconds M (time_sub now (lastRefill b)) = s" "0 < s"
    and "mul_add M (tokens b) s (rate b) = t"
  shows "refill M now b = b\<lparr>tokens := min (burst b) t, lastRefill := now\<rparr>"
  using assms by (simp add: refill_def Let_def)

lemma refill_same_instant: "refill (fpu_of a) (lastRefill b) b = b"
  by (simp add: refill_def Let_def time_sub_def int64_defs dur_seconds_0)

end
