(* ===== verification/RateStore.thy ===== *)
theory RateStore
  imports BucketRate
begin

text \<open>
  \<open>internal/ratelimit/store.go\<close>: the keyed token buckets of one process, with a
  capacity and an idle timeout. The state is the struct without its channels: \<open>rl_items\<close>
  is the map from keys to entries, \<open>order\<close> the keys from least to most recently used.
  An \<open>*entry\<close> is reachable only through the map, so it is stored in it by value. Every
  method holds the mutex throughout and reads the injected clock inside it, so it is a
  function of the state and of that reading. The theory shows the correspondence of
  \<open>order\<close> and \<open>rl_items\<close>, the capacity bound, the isolation of keys, which key an
  overflow drops, and what the idle sweep keeps.
\<close>

section \<open>Data and operations\<close>

record rl_entry =
  rl_bucket :: bucket
  lastUsed :: time

record rl_store =
  rl_capacity :: int
  idleTTL :: duration
  rl_items :: "(string, rl_entry) gomap"
  order :: "string list"

definition NewStore :: "int \<Rightarrow> duration \<Rightarrow> rl_store" where
  "NewStore cap idle =
    \<lparr>rl_capacity = (if cap < 1 then 1024 else cap),
     idleTTL = (if idle \<le> 0 then 60 * second else idle),
     rl_items = gm_empty, order = []\<rparr>"

fun remove_first :: "string \<Rightarrow> string list \<Rightarrow> string list" where
  "remove_first key [] = []"
| "remove_first key (k # ks) = (if k = key then ks else k # remove_first key ks)"

definition touchLocked :: "string \<Rightarrow> rl_store \<Rightarrow> rl_store" where
  "touchLocked key s = s\<lparr>order := remove_first key (order s) @ [key]\<rparr>"

fun evict_keys :: "int \<Rightarrow> (string, rl_entry) gomap \<Rightarrow> string list \<Rightarrow> (string, rl_entry) gomap \<times> string list"
where
  "evict_keys cap m [] = (m, [])"
| "evict_keys cap m (victim # ks) =
    (if int (gm_len m) \<ge> cap then evict_keys cap (gm_del victim m) ks else (m, victim # ks))"

definition evictIfNeededLocked :: "rl_store \<Rightarrow> rl_store" where
  "evictIfNeededLocked s =
    (let (m, ks) = evict_keys (rl_capacity s) (rl_items s) (order s)
     in s\<lparr>rl_items := m, order := ks\<rparr>)"

text \<open>The update of an existing bucket whose limits the request changes.\<close>

definition resize :: "fpu \<Rightarrow> time \<Rightarrow> rat \<Rightarrow> rat \<Rightarrow> bucket \<Rightarrow> bucket" where
  "resize M now r b bk =
    (if rate bk \<noteq> r \<or> burst bk \<noteq> b then
       (let bk1 = (refill M now bk)\<lparr>rate := r, burst := b\<rparr>
        in if tokens bk1 > b then bk1\<lparr>tokens := b\<rparr> else bk1)
     else bk)"

definition Take_store ::
  "fpu \<Rightarrow> time \<Rightarrow> string \<Rightarrow> rat \<Rightarrow> rat \<Rightarrow> rat \<Rightarrow> rl_store \<Rightarrow> result \<times> rl_store" where
  "Take_store M now key r b cost s =
    (let (bk, s1) =
       (case gm_get (rl_items s) key of
          None \<Rightarrow>
            (let s0 = evictIfNeededLocked s
             in (NewBucket r b now, s0\<lparr>order := order s0 @ [key]\<rparr>))
        | Some e \<Rightarrow> (resize M now r b (rl_bucket e), touchLocked key s));
       (res, bk') = Take_bucket M now cost bk
     in (res, s1\<lparr>rl_items := gm_put key \<lparr>rl_bucket = bk', lastUsed = now\<rparr> (rl_items s1)\<rparr>))"

definition Len_rl :: "rl_store \<Rightarrow> nat" where
  "Len_rl s = gm_len (rl_items s)"

text \<open>One key of the sweep: the pair is the map so far and \<open>kept\<close>.\<close>

fun sweep_keys ::
  "duration \<Rightarrow> time \<Rightarrow> string list \<Rightarrow> (string, rl_entry) gomap \<Rightarrow> (string, rl_entry) gomap \<times> string list"
where
  "sweep_keys idle now [] m = (m, [])"
| "sweep_keys idle now (key # ks) m =
    (case gm_get m key of
       None \<Rightarrow> sweep_keys idle now ks m
     | Some e \<Rightarrow>
         if time_sub now (lastUsed e) > idle then sweep_keys idle now ks (gm_del key m)
         else (let (m', kept) = sweep_keys idle now ks m in (m', key # kept)))"

definition sweep_rl :: "time \<Rightarrow> rl_store \<Rightarrow> rl_store" where
  "sweep_rl now s =
    (let (m, kept) = sweep_keys (idleTTL s) now (order s) (rl_items s)
     in s\<lparr>rl_items := m, order := kept\<rparr>)"

section \<open>The invariant\<close>

definition rl_inv :: "fpu \<Rightarrow> rl_store \<Rightarrow> bool" where
  "rl_inv M s \<longleftrightarrow> 1 \<le> rl_capacity s \<and> gm_ok (rl_items s) \<and> distinct (order s)
    \<and> set (order s) = dom (gm_get (rl_items s)) \<and> int (Len_rl s) \<le> rl_capacity s
    \<and> (\<forall>k e. gm_get (rl_items s) k = Some e \<longrightarrow> bucket_ok M (rl_bucket e))"

lemma rl_len: "rl_inv M s \<Longrightarrow> Len_rl s = length (order s)"
  unfolding Len_rl_def by (rule gm.len_eq_length) (simp_all add: rl_inv_def)

lemma NewStore_inv: "rl_inv M (NewStore cap idle)"
  by (simp add: rl_inv_def NewStore_def Len_rl_def gm_len_def gm_empty_def gm_ok_def)
     (simp add: gm_get_def dom_def)

lemma remove_first_eq: "remove_first key ks = remove1 key ks"
  by (induction ks) auto

lemma touch_order: "distinct (order s) \<Longrightarrow> order (touchLocked key s) = filter (\<lambda>k. k \<noteq> key) (order s) @ [key]"
  by (simp add: touchLocked_def remove_first_eq distinct_remove1_removeAll removeAll_filter_not_eq)
     (metis eq_commute)

text \<open>
  Eviction: under the invariant it drops nothing below the capacity and exactly the
  least recently used key at it.
\<close>

lemma evict_eq:
  assumes "rl_inv M s"
  shows "evictIfNeededLocked s =
    (if int (Len_rl s) < rl_capacity s then s
     else s\<lparr>rl_items := gm_del (hd (order s)) (rl_items s), order := tl (order s)\<rparr>)"
proof (cases "order s")
  case Nil
  then show ?thesis using assms rl_len [OF assms]
    by (simp add: evictIfNeededLocked_def rl_inv_def)
next
  case (Cons v ks)
  show ?thesis
  proof (cases "int (Len_rl s) < rl_capacity s")
    case True
    then show ?thesis by (simp add: evictIfNeededLocked_def Cons Len_rl_def)
  next
    case False
    have "gm_get (rl_items s) v \<noteq> None" using assms Cons by (auto simp: rl_inv_def)
    moreover have "gm_ok (rl_items s)" using assms by (simp add: rl_inv_def)
    ultimately have "gm_len (gm_del v (rl_items s)) = Len_rl s - 1"
      by (simp only: gm.len_del Len_rl_def if_False)
    moreover have "Len_rl s \<noteq> 0" using Cons rl_len [OF assms] by simp
    ultimately have "int (gm_len (gm_del v (rl_items s))) < rl_capacity s"
      using assms by (simp add: rl_inv_def)
    then have "evict_keys (rl_capacity s) (gm_del v (rl_items s)) ks = (gm_del v (rl_items s), ks)"
      by (cases ks) simp_all
    then show ?thesis using False by (simp add: evictIfNeededLocked_def Cons Len_rl_def)
  qed
qed

lemma evict_inv:
  assumes "rl_inv M s"
  shows "rl_inv M (evictIfNeededLocked s) \<and> int (Len_rl (evictIfNeededLocked s)) < rl_capacity s"
proof (cases "int (Len_rl s) < rl_capacity s")
  case True
  then show ?thesis using assms by (simp add: evict_eq [OF assms])
next
  case False
  then obtain v ks where o: "order s = v # ks"
    using assms rl_len [OF assms] by (cases "order s") (auto simp: rl_inv_def)
  have "distinct (order s)" "set (order s) = dom (gm_get (rl_items s))"
    using assms by (simp_all add: rl_inv_def)
  then have d: "distinct (v # ks)" "dom (gm_get (rl_items s)) = insert v (set ks)"
    by (simp_all add: o)
  have "gm_len (gm_del v (rl_items s)) = length ks"
    by (rule gm.len_eq_length) (use d assms in \<open>auto simp: rl_inv_def simp del: gm.get_del\<close>)
  then show ?thesis using assms False rl_len [OF assms] d
    by (auto simp: evict_eq [OF assms] o rl_inv_def Len_rl_def simp del: gm.get_del
        dest: gm.get_del_SomeD)
qed

text \<open>The bucket a take is served from: a fresh one, or the stored one resized.\<close>

definition bucket_for :: "fpu \<Rightarrow> time \<Rightarrow> rat \<Rightarrow> rat \<Rightarrow> bucket option \<Rightarrow> bucket" where
  "bucket_for M now r b bo = (case bo of None \<Rightarrow> NewBucket r b now | Some bk \<Rightarrow> resize M now r b bk)"

definition rl_bucket_of :: "string \<Rightarrow> rl_store \<Rightarrow> bucket option" where
  "rl_bucket_of key s = map_option rl_bucket (gm_get (rl_items s) key)"

lemma Take_store_eq:
  "Take_store M now key r b cost s =
    (let (res, bk) = Take_bucket M now cost (bucket_for M now r b (rl_bucket_of key s));
         s1 = (if gm_get (rl_items s) key = None
               then (let s0 = evictIfNeededLocked s in s0\<lparr>order := order s0 @ [key]\<rparr>)
               else touchLocked key s)
     in (res, s1\<lparr>rl_items := gm_put key \<lparr>rl_bucket = bk, lastUsed = now\<rparr> (rl_items s1)\<rparr>))"
  by (auto simp: Take_store_def Let_def bucket_for_def rl_bucket_of_def split_beta split: option.splits)

lemma Take_store_result:
  "fst (Take_store M now key r b cost s)
    = fst (Take_bucket M now cost (bucket_for M now r b (rl_bucket_of key s)))"
  by (simp add: Take_store_eq Let_def split_beta)

lemma Take_store_self:
  "gm_get (rl_items (snd (Take_store M now key r b cost s))) key
    = Some \<lparr>rl_bucket = snd (Take_bucket M now cost (bucket_for M now r b (rl_bucket_of key s))),
            lastUsed = now\<rparr>"
  by (simp add: Take_store_eq Let_def split_beta)

text \<open>Another key's entry changes only when it is the one an overflow drops.\<close>

lemma Take_store_other:
  assumes "rl_inv M s" "k \<noteq> key"
  shows "gm_get (rl_items (snd (Take_store M now key r b cost s))) k =
    (if gm_get (rl_items s) key = None \<and> int (Len_rl s) = rl_capacity s \<and> k = hd (order s)
     then None else gm_get (rl_items s) k)"
  using assms
  by (auto simp: Take_store_eq Let_def split_beta touchLocked_def evict_eq rl_inv_def)

lemma Take_store_order:
  assumes "rl_inv M s"
  shows "order (snd (Take_store M now key r b cost s)) =
    (if gm_get (rl_items s) key = None then
       (if int (Len_rl s) = rl_capacity s then tl (order s) else order s) @ [key]
     else filter (\<lambda>k. k \<noteq> key) (order s) @ [key])"
  using assms
  by (auto simp: Take_store_eq Let_def split_beta touch_order evict_eq rl_inv_def)

lemma Take_store_frame:
  "rl_capacity (snd (Take_store M now key r b cost s)) = rl_capacity s"
  "idleTTL (snd (Take_store M now key r b cost s)) = idleTTL s"
  by (simp_all add: Take_store_eq Let_def split_beta touchLocked_def evictIfNeededLocked_def)


section \<open>The idle sweep\<close>

definition live_entry :: "duration \<Rightarrow> time \<Rightarrow> rl_entry \<Rightarrow> bool" where
  "live_entry idle now e \<longleftrightarrow> time_sub now (lastUsed e) \<le> idle"

definition keep_live :: "duration \<Rightarrow> time \<Rightarrow> rl_entry option \<Rightarrow> rl_entry option" where
  "keep_live idle now eo = (case eo of None \<Rightarrow> None | Some e \<Rightarrow> if live_entry idle now e then Some e else None)"

lemma keep_live_SomeD: "keep_live idle now eo = Some e \<Longrightarrow> eo = Some e \<and> live_entry idle now e"
  by (auto simp: keep_live_def split: option.splits if_splits)

lemma sweep_keys_spec:
  "gm_ok m \<Longrightarrow> distinct ks \<Longrightarrow>
    gm_ok (fst (sweep_keys idle now ks m))
    \<and> (\<forall>k. gm_get (fst (sweep_keys idle now ks m)) k
        = (if k \<in> set ks then keep_live idle now (gm_get m k) else gm_get m k))
    \<and> snd (sweep_keys idle now ks m) = filter (\<lambda>k. keep_live idle now (gm_get m k) \<noteq> None) ks"
proof (induction ks arbitrary: m)
  case (Cons key ks)
  show ?case
  proof (cases "gm_get m key")
    case None
    with Cons show ?thesis by (auto simp: keep_live_def)
  next
    case (Some e)
    show ?thesis
    proof (cases "live_entry idle now e")
      case True
      then have "\<not> time_sub now (lastUsed e) > idle" by (simp add: live_entry_def)
      with Cons Some True show ?thesis by (auto simp: keep_live_def split_beta)
    next
      case False
      have "filter (\<lambda>k. keep_live idle now (gm_get (gm_del key m) k) \<noteq> None) ks
          = filter (\<lambda>k. keep_live idle now (gm_get m k) \<noteq> None) ks"
        using Cons.prems(2) by (intro filter_cong) auto
      moreover have "time_sub now (lastUsed e) > idle" using False by (simp add: live_entry_def)
      ultimately show ?thesis
        using Cons.IH [of "gm_del key m"] Cons.prems Some False
        by (auto simp: keep_live_def)
    qed
  qed
qed simp

lemma sweep_rl_get:
  assumes "rl_inv M s"
  shows "gm_get (rl_items (sweep_rl now s)) k = keep_live (idleTTL s) now (gm_get (rl_items s) k)"
proof -
  have "k \<notin> set (order s) \<Longrightarrow> gm_get (rl_items s) k = None"
    using assms by (auto simp: rl_inv_def)
  then show ?thesis
    using assms sweep_keys_spec [of "rl_items s" "order s" "idleTTL s" now]
    by (auto simp: sweep_rl_def split_beta rl_inv_def keep_live_def)
qed

lemma sweep_rl_order:
  assumes "rl_inv M s"
  shows "order (sweep_rl now s)
    = filter (\<lambda>k. keep_live (idleTTL s) now (gm_get (rl_items s) k) \<noteq> None) (order s)"
  using assms sweep_keys_spec [of "rl_items s" "order s" "idleTTL s" now]
  by (simp add: sweep_rl_def split_beta rl_inv_def)

lemma sweep_rl_frame:
  "rl_capacity (sweep_rl now s) = rl_capacity s" "idleTTL (sweep_rl now s) = idleTTL s"
  by (simp_all add: sweep_rl_def split_beta)

lemma sweep_rl_inv:
  assumes "rl_inv M s"
  shows "rl_inv M (sweep_rl now s)"
proof -
  note get = sweep_rl_get [OF assms] and ord = sweep_rl_order [OF assms]
  have ok: "gm_ok (rl_items (sweep_rl now s))"
    using assms sweep_keys_spec [of "rl_items s" "order s" "idleTTL s" now]
    by (simp add: sweep_rl_def split_beta rl_inv_def)
  have dom: "set (order (sweep_rl now s)) = dom (gm_get (rl_items (sweep_rl now s)))"
    using assms by (auto simp: ord get rl_inv_def dom_def keep_live_def split: option.splits if_splits)
  have dist: "distinct (order (sweep_rl now s))" using assms by (simp add: ord rl_inv_def)
  have "Len_rl (sweep_rl now s) = length (order (sweep_rl now s))"
    unfolding Len_rl_def by (rule gm.len_eq_length [OF ok dist dom])
  also have "\<dots> \<le> length (order s)" by (simp add: ord)
  finally have "int (Len_rl (sweep_rl now s)) \<le> rl_capacity s"
    using assms rl_len [OF assms] by (simp add: rl_inv_def)
  with assms ok dom dist show ?thesis
    by (auto simp: rl_inv_def sweep_rl_frame get dest!: keep_live_SomeD)
qed

section \<open>Takes keep the invariant\<close>

context machine begin

lemma resize_ok: "bucket_ok M bk \<Longrightarrow> 0 \<le> b \<Longrightarrow> rnd M b = b \<Longrightarrow> bucket_ok M (resize M now r b bk)"
  using refill_ok [of bk now] by (auto simp: resize_def Let_def bucket_ok_def)

lemma bucket_for_ok:
  "(\<forall>bk. bo = Some bk \<longrightarrow> bucket_ok M bk) \<Longrightarrow> 0 \<le> b \<Longrightarrow> rnd M b = b
    \<Longrightarrow> bucket_ok M (bucket_for M now r b bo)"
  by (auto simp: bucket_for_def resize_ok NewBucket_ok split: option.splits)

lemma stored_bucket_ok: "rl_inv M s \<Longrightarrow> rl_bucket_of key s = Some bk \<Longrightarrow> bucket_ok M bk"
  by (auto simp: rl_inv_def rl_bucket_of_def)

lemma touch_inv:
  assumes "rl_inv M s" "gm_get (rl_items s) key \<noteq> None"
  shows "rl_inv M (touchLocked key s)"
  using assms by (auto simp: rl_inv_def touch_order Len_rl_def) (auto simp: touchLocked_def)

lemma Take_store_inv:
  assumes inv: "rl_inv M s" and b: "0 \<le> b" "rnd M b = b"
  shows "rl_inv M (snd (Take_store M now key r b cost s))"
proof -
  define bk where "bk = snd (Take_bucket M now cost (bucket_for M now r b (rl_bucket_of key s)))"
  define s1 where "s1 = (if gm_get (rl_items s) key = None then evictIfNeededLocked s else touchLocked key s)"
  define ord where "ord = (if gm_get (rl_items s) key = None then order s1 @ [key] else order s1)"
  define e where "e = \<lparr>rl_bucket = bk, lastUsed = now\<rparr>"
  have "\<forall>bk. rl_bucket_of key s = Some bk \<longrightarrow> bucket_ok M bk"
    using stored_bucket_ok [OF inv, of key] by simp
  then have "bucket_ok M (bucket_for M now r b (rl_bucket_of key s))"
    using b by (rule bucket_for_ok)
  then have bk: "bucket_ok M bk" unfolding bk_def by (rule Take_ok)
  have s1: "rl_inv M s1"
    using inv evict_inv [OF inv] touch_inv [OF inv, of key] by (simp add: s1_def)
  have get: "gm_get (rl_items s1) key = gm_get (rl_items s) key"
    by (auto simp: s1_def touchLocked_def evict_eq [OF inv])
  have room: "gm_get (rl_items s) key = None \<Longrightarrow> int (Len_rl s1) < rl_capacity s1"
    using evict_inv [OF inv] by (simp add: s1_def evictIfNeededLocked_def split_beta)
  have eq: "snd (Take_store M now key r b cost s) = s1\<lparr>order := ord, rl_items := gm_put key e (rl_items s1)\<rparr>"
    by (auto simp: Take_store_eq Let_def split_beta s1_def ord_def e_def bk_def)
  have "gm_ok (rl_items s1)" using s1 by (simp add: rl_inv_def)
  then have "gm_len (gm_put key e (rl_items s1))
      = (if gm_get (rl_items s) key = None then Suc (Len_rl s1) else Len_rl s1)"
    by (simp only: gm.len_put Len_rl_def get)
  then have "int (gm_len (gm_put key e (rl_items s1))) \<le> rl_capacity s1"
    using s1 room by (auto simp: rl_inv_def)
  moreover have "distinct ord \<and> set ord = insert key (dom (gm_get (rl_items s1)))"
    using s1 get by (auto simp: ord_def rl_inv_def)
  ultimately show ?thesis
    unfolding eq using s1 bk by (auto simp: rl_inv_def Len_rl_def e_def)
qed

end

end
