(* ===== verification/RateCorrect.thy ===== *)
theory RateCorrect
  imports RateStore
begin

text \<open>
  What a client of the bucket store can rely on, over runs of the store: the keys are
  limited independently of each other while they fit the capacity, so that the answers
  for one key are those of a bucket of its own (\<open>lone_takes\<close>); an overflow drops the
  key that has been idle longest; and the idle sweep goes unnoticed by every key whose
  bucket would have been full again after the idle timeout.
\<close>

section \<open>Runs\<close>

record take_req =
  tq_now :: time
  tq_key :: string
  tq_rate :: rat
  tq_burst :: rat
  tq_cost :: rat

fun rl_takes :: "fpu \<Rightarrow> take_req list \<Rightarrow> rl_store \<Rightarrow> result list \<times> rl_store" where
  "rl_takes M [] s = ([], s)"
| "rl_takes M (q # qs) s =
    (let (res, s1) = Take_store M (tq_now q) (tq_key q) (tq_rate q) (tq_burst q) (tq_cost q) s;
         (rs, s2) = rl_takes M qs s1
     in (res # rs, s2))"

lemma rl_takes_append:
  "rl_takes M (xs @ ys) s = (fst (rl_takes M xs s) @ fst (rl_takes M ys (snd (rl_takes M xs s))),
    snd (rl_takes M ys (snd (rl_takes M xs s))))"
  by (induction xs arbitrary: s) (simp_all add: Let_def split_beta)

text \<open>The same requests served by a bucket of their own.\<close>

fun lone_takes :: "fpu \<Rightarrow> take_req list \<Rightarrow> bucket option \<Rightarrow> result list" where
  "lone_takes M [] bo = []"
| "lone_takes M (q # qs) bo =
    (let (res, bk) = Take_bucket M (tq_now q) (tq_cost q)
                       (bucket_for M (tq_now q) (tq_rate q) (tq_burst q) bo)
     in res # lone_takes M qs (Some bk))"

definition req_ok :: "fpu \<Rightarrow> take_req \<Rightarrow> bool" where
  "req_ok M q \<longleftrightarrow> 0 \<le> tq_burst q \<and> rnd M (tq_burst q) = tq_burst q"

text \<open>The answers given to one key.\<close>

definition answers :: "string \<Rightarrow> take_req list \<Rightarrow> result list \<Rightarrow> result list" where
  "answers key qs rs = map snd (filter (\<lambda>qr. tq_key (fst qr) = key) (zip qs rs))"

definition requests :: "string \<Rightarrow> take_req list \<Rightarrow> take_req list" where
  "requests key qs = filter (\<lambda>q. tq_key q = key) qs"

definition granted :: "take_req list \<Rightarrow> result list \<Rightarrow> rat" where
  "granted qs rs = sum_list (map2 (\<lambda>q r. if Allowed r then max 0 (tq_cost q) else 0) qs rs)"

context machine begin

lemma no_overflow:
  assumes inv: "rl_inv M s" and cap: "int (card (set (order s) \<union> K)) \<le> rl_capacity s"
    and key: "key \<in> K" "finite K" "gm_get (rl_items s) key = None"
  shows "int (Len_rl s) < rl_capacity s"
proof -
  have "key \<notin> set (order s)" using inv key(3) by (auto simp: rl_inv_def)
  then have "Suc (card (set (order s))) = card (insert key (set (order s)))" by simp
  also have "\<dots> \<le> card (set (order s) \<union> K)"
    using key by (intro card_mono) auto
  finally show ?thesis
    using cap rl_len [OF inv] inv distinct_card [of "order s"] by (simp add: rl_inv_def)
qed

lemma rl_takes_isolated:
  "rl_inv M s \<Longrightarrow> \<forall>q \<in> set qs. req_ok M q
    \<Longrightarrow> int (card (set (order s) \<union> tq_key ` set qs)) \<le> rl_capacity s
    \<Longrightarrow> answers key qs (fst (rl_takes M qs s)) = lone_takes M (requests key qs) (rl_bucket_of key s)"
proof (induction qs arbitrary: s)
  case Nil
  then show ?case by (simp add: answers_def requests_def)
next
  case (Cons q qs)
  define k where "k = tq_key q"
  define t where "t = Take_store M (tq_now q) k (tq_rate q) (tq_burst q) (tq_cost q) s"
  define s1 where "s1 = snd t"
  have inv1: "rl_inv M s1"
    using Cons.prems(1,2) unfolding s1_def t_def by (intro Take_store_inv) (auto simp: req_ok_def)
  have room: "gm_get (rl_items s) k = None \<Longrightarrow> int (Len_rl s) < rl_capacity s"
    by (rule no_overflow [OF Cons.prems(1,3)]) (simp_all add: k_def)
  have "set (order s1) = insert k (set (order s))"
    using room unfolding s1_def t_def by (auto simp: Take_store_order [OF Cons.prems(1)])
  then have cap1: "int (card (set (order s1) \<union> tq_key ` set qs)) \<le> rl_capacity s1"
    using Cons.prems(3) by (simp add: s1_def t_def Take_store_frame k_def)
  have other: "key \<noteq> k \<Longrightarrow> rl_bucket_of key s1 = rl_bucket_of key s"
    using room unfolding s1_def t_def rl_bucket_of_def
    by (auto simp: Take_store_other [OF Cons.prems(1)])
  have self: "rl_bucket_of k s1 = Some (snd (Take_bucket M (tq_now q) (tq_cost q)
      (bucket_for M (tq_now q) (tq_rate q) (tq_burst q) (rl_bucket_of k s))))"
    unfolding s1_def t_def by (simp add: rl_bucket_of_def [of k "snd _"] Take_store_self)
  have res: "fst t = fst (Take_bucket M (tq_now q) (tq_cost q)
      (bucket_for M (tq_now q) (tq_rate q) (tq_burst q) (rl_bucket_of k s)))"
    unfolding t_def by (rule Take_store_result)
  have "rl_takes M (q # qs) s = (fst t # fst (rl_takes M qs s1), snd (rl_takes M qs s1))"
    by (simp add: t_def s1_def k_def split_beta)
  then have "answers key (q # qs) (fst (rl_takes M (q # qs) s))
      = (if k = key then [fst t] else []) @ answers key qs (fst (rl_takes M qs s1))"
    by (simp add: answers_def k_def)
  also have "answers key qs (fst (rl_takes M qs s1)) = lone_takes M (requests key qs) (rl_bucket_of key s1)"
    using Cons.IH [OF inv1 _ cap1] Cons.prems(2) by simp
  also have "(if k = key then [fst t] else []) @ lone_takes M (requests key qs) (rl_bucket_of key s1)
      = lone_takes M (requests key (q # qs)) (rl_bucket_of key s)"
    using other self res by (auto simp: requests_def k_def split_beta)
  finally show ?case .
qed

lemma resize_same: "rate bk = r \<Longrightarrow> burst bk = b \<Longrightarrow> resize M now r b bk = bk"
  by (simp add: resize_def)

text \<open>With limits that do not change, a bucket of its own is a run of one bucket.\<close>

lemma lone_takes_run:
  "rate bk = r \<Longrightarrow> burst bk = b \<Longrightarrow> \<forall>q \<in> set qs. tq_rate q = r \<and> tq_burst q = b
    \<Longrightarrow> granted qs (lone_takes M qs (Some bk))
      = fst (take_run M (map (\<lambda>q. (tq_now q, tq_cost q)) qs) bk)"
proof (induction qs arbitrary: bk)
  case (Cons q qs)
  then show ?case
    using Take_frame [of "tq_now q" "tq_cost q" bk]
    by (simp add: granted_def bucket_for_def resize_same split_beta)
qed (simp add: granted_def)

end

context bounded_machine begin

lemma lone_takes_bound:
  assumes r: "0 \<le> r" and b: "0 \<le> b" "rnd M b = b"
    and qs: "\<forall>q \<in> set qs. tq_rate q = r \<and> tq_burst q = b \<and> t0 \<le> tq_now q \<and> tq_now q \<le> T" "qs \<noteq> []"
  shows "granted qs (lone_takes M qs None)
    \<le> b + r * (1 + e) ^ 3 * (of_int (T - t0) / 1000000000) + of_nat (length qs) * (2 * (b * e + h) + h)"
proof -
  obtain q qs' where q: "qs = q # qs'" using qs(2) by (cases qs) auto
  define bk where "bk = NewBucket r b (tq_now q)"
  have bk: "rate bk = r" "burst bk = b" "tokens bk = b" "lastRefill bk = tq_now q"
    using r b by (simp_all add: bk_def NewBucket_def Let_def)
  have "lone_takes M qs None = lone_takes M qs (Some bk)"
    using qs(1) by (simp add: q bucket_for_def bk_def [symmetric] resize_same bk)
  moreover have "granted qs (lone_takes M qs (Some bk))
      = fst (take_run M (map (\<lambda>q. (tq_now q, tq_cost q)) qs) bk)"
    using bk qs(1) by (intro lone_takes_run) auto
  moreover have "\<dots> \<le> bgt T bk + of_nat (length (map (\<lambda>q. (tq_now q, tq_cost q)) qs)) * (2 * slack bk + h)"
    using qs(1) NewBucket_ok [OF b(2), of r "tq_now q"]
    by (intro take_run_le) (auto simp: bk_def)
  moreover have "bgt T bk \<le> b + r * (1 + e) ^ 3 * (of_int (T - t0) / 1000000000)"
    using qs(1) r e_nonneg
    by (auto simp: budget_def bk q intro!: mult_left_mono divide_right_mono)
  ultimately show ?thesis by (simp add: bk)
qed

end


section \<open>The least recently used key\<close>

definition last_used :: "rl_store \<Rightarrow> string \<Rightarrow> time" where
  "last_used s k = (case gm_get (rl_items s) k of None \<Rightarrow> 0 | Some e \<Rightarrow> lastUsed e)"

text \<open>With a clock that does not go back, \<open>order\<close> is the order of the last uses.\<close>

definition recency_ok :: "time \<Rightarrow> rl_store \<Rightarrow> bool" where
  "recency_ok now s \<longleftrightarrow> sorted (map (last_used s) (order s)) \<and> (\<forall>k \<in> set (order s). last_used s k \<le> now)"

lemma recency_NewStore: "recency_ok now (NewStore cap idle)"
  by (simp add: recency_ok_def NewStore_def)

lemma recency_mono: "recency_ok t s \<Longrightarrow> t \<le> t' \<Longrightarrow> recency_ok t' s"
  by (auto simp: recency_ok_def)

lemma recency_subseq:
  assumes "recency_ok t s" "ks = tl (order s) \<or> ks = filter P (order s) \<or> ks = order s"
    and "\<forall>k \<in> set ks. last_used s' k = last_used s k"
  shows "sorted (map (last_used s') ks) \<and> (\<forall>k \<in> set ks. last_used s' k \<le> t)"
proof -
  have m: "map (last_used s') ks = map (last_used s) ks" using assms(3) by simp
  have sub: "set ks \<subseteq> set (order s)" using assms(2) by (cases "order s") (auto split: if_splits)
  have "sorted (map (last_used s) ks)"
    using assms(1,2)
    by (cases "order s") (auto simp: recency_ok_def sorted_wrt_map intro: sorted_wrt_filter)
  then show ?thesis using assms(1,3) sub unfolding m by (auto simp: recency_ok_def)
qed

lemma recency_Take:
  assumes inv: "rl_inv M s" and rec: "recency_ok t s" and t: "t \<le> now"
  shows "recency_ok now (snd (Take_store M now key r b cost s))"
proof -
  define s' where "s' = snd (Take_store M now key r b cost s)"
  define ks where "ks = (if gm_get (rl_items s) key = None
      then if int (Len_rl s) = rl_capacity s then tl (order s) else order s
      else filter (\<lambda>k. k \<noteq> key) (order s))"
  have ord: "order s' = ks @ [key]"
    using Take_store_order [OF inv, of now key r b cost] by (simp add: s'_def ks_def)
  have d: "distinct (order s)" "set (order s) = dom (gm_get (rl_items s))"
    using inv by (simp_all add: rl_inv_def)
  have "\<forall>k \<in> set ks. k \<noteq> key \<and> (int (Len_rl s) = rl_capacity s \<and> gm_get (rl_items s) key = None \<longrightarrow> k \<noteq> hd (order s))"
    using d by (cases "order s") (auto simp: ks_def)
  then have "\<forall>k \<in> set ks. last_used s' k = last_used s k"
    using Take_store_other [OF inv, of _ key now r b cost] by (auto simp: last_used_def s'_def)
  with rec have "sorted (map (last_used s') ks) \<and> (\<forall>k \<in> set ks. last_used s' k \<le> t)"
    by (intro recency_subseq [where P = "\<lambda>k. k \<noteq> key"]) (auto simp: ks_def)
  moreover have "last_used s' key = now" by (simp add: s'_def last_used_def Take_store_self)
  ultimately show ?thesis
    using t unfolding s'_def [symmetric] by (auto simp: recency_ok_def ord sorted_append)
qed

lemma recency_sweep:
  assumes "rl_inv M s" "recency_ok t s"
  shows "recency_ok t (sweep_rl now s)"
  unfolding recency_ok_def
proof (rule recency_subseq [OF assms(2)])
  show "order (sweep_rl now s) = tl (order s)
      \<or> order (sweep_rl now s) = filter (\<lambda>k. keep_live (idleTTL s) now (gm_get (rl_items s) k) \<noteq> None) (order s)
      \<or> order (sweep_rl now s) = order s"
    using sweep_rl_order [OF assms(1)] by blast
  show "\<forall>k \<in> set (order (sweep_rl now s)). last_used (sweep_rl now s) k = last_used s k"
    by (auto simp: sweep_rl_order [OF assms(1)] last_used_def sweep_rl_get [OF assms(1)]
        keep_live_def split: option.splits)
qed

lemma recency_victim:
  assumes "recency_ok t s" "k \<in> set (order s)"
  shows "last_used s (hd (order s)) \<le> last_used s k"
  using assms by (cases "order s") (auto simp: recency_ok_def)

section \<open>The sweep is not observable\<close>

lemma Take_refill_cong: "refill M now bk = refill M now bk' \<Longrightarrow> Take_bucket M now cost bk = Take_bucket M now cost bk'"
  by (simp add: Take_bucket_def)

lemma refill_full:
  assumes ok: "bucket_ok (fpu_of a) bk" and r: "0 < rate bk" and d: "0 < d" "d \<le> time_sub now (lastRefill bk)"
    and full: "burst bk \<le> fl64 (dur_seconds (fpu_of a) d * rate bk)" "0 < dur_seconds (fpu_of a) d"
  shows "refill (fpu_of a) now bk = NewBucket (rate bk) (burst bk) now"
proof -
  define el where "el = dur_seconds (fpu_of a) (time_sub now (lastRefill bk))"
  have "dur_seconds (fpu_of a) d \<le> el" unfolding el_def
    using d by (intro dur_seconds_mono) (auto simp: time_sub_def int64_defs)
  moreover from this have "dur_seconds (fpu_of a) d * rate bk \<le> el * rate bk"
    using r by (simp add: mult_right_mono)
  ultimately have el: "0 < el" "burst bk \<le> fl64 (el * rate bk)"
    using full b64.fl_mono by (force intro: order_trans)+
  then have "burst bk \<le> mul_add (fpu_of a) (tokens bk) el (rate bk)"
    using ok by (intro go.mul_add_reaches) (simp_all add: bucket_ok_def)
  then show ?thesis using ok r el
    by (simp add: refill_def Let_def el_def [symmetric] NewBucket_def min_absorb1 bucket_ok_def)
qed

lemma refill_new: "refill (fpu_of a) now (NewBucket r b now) = NewBucket r b now"
  by (simp add: refill_def Let_def NewBucket_def time_sub_def int64_defs dur_seconds_0)

lemma sweep_unobservable:
  assumes inv: "rl_inv (fpu_of a) s" and now: "now \<le> now'" and idle: "0 < idleTTL s" and r: "0 < r"
    and e: "\<And>e. gm_get (rl_items s) key = Some e \<Longrightarrow>
      rate (rl_bucket e) = r \<and> burst (rl_bucket e) = b \<and> lastRefill (rl_bucket e) \<le> lastUsed e"
    and full: "b \<le> fl64 (dur_seconds (fpu_of a) (idleTTL s) * r)" "0 < dur_seconds (fpu_of a) (idleTTL s)"
  shows "fst (Take_store (fpu_of a) now' key r b cost (sweep_rl now s))
    = fst (Take_store (fpu_of a) now' key r b cost s)"
proof (cases "gm_get (rl_items s) key")
  case None
  then show ?thesis
    by (simp add: Take_store_result rl_bucket_of_def sweep_rl_get [OF inv] keep_live_def)
next
  case (Some e)
  show ?thesis
  proof (cases "live_entry (idleTTL s) now e")
    case True
    with Some show ?thesis
      by (simp add: Take_store_result rl_bucket_of_def sweep_rl_get [OF inv] keep_live_def)
  next
    case False
    define bk where "bk = rl_bucket e"
    have bk: "rate bk = r" "burst bk = b" "lastRefill bk \<le> lastUsed e" "bucket_ok (fpu_of a) bk"
      using e [OF Some] inv Some by (auto simp: bk_def rl_inv_def)
    have "idleTTL s < time_sub now (lastUsed e)" using False by (simp add: live_entry_def)
    moreover have "time_sub now (lastUsed e) \<le> time_sub now' (lastRefill bk)"
      using now bk(3) by (simp add: time_sub_def)
    ultimately have "refill (fpu_of a) now' bk = NewBucket r b now'"
      using refill_full [OF bk(4), of "idleTTL s" now'] bk idle r full by simp
    then have "Take_bucket (fpu_of a) now' cost bk = Take_bucket (fpu_of a) now' cost (NewBucket r b now')"
      by (intro Take_refill_cong) (simp add: refill_new)
    then show ?thesis using Some False bk
      by (simp add: Take_store_result rl_bucket_of_def sweep_rl_get [OF inv] keep_live_def
          bucket_for_def bk_def go.resize_same)
  qed
qed


section \<open>Reachable states\<close>

text \<open>
  The states a store goes through under takes with validated limits and ticks of the
  janitor, in the order of the clock readings; the first argument is the last reading.
\<close>

inductive rl_reach :: "fpu \<Rightarrow> time \<Rightarrow> rl_store \<Rightarrow> bool" for M where
  rl_start: "rl_reach M t (NewStore cap idle)"
| rl_take: "rl_reach M t s \<Longrightarrow> t \<le> tq_now q \<Longrightarrow> req_ok M q
    \<Longrightarrow> rl_reach M (tq_now q)
          (snd (Take_store M (tq_now q) (tq_key q) (tq_rate q) (tq_burst q) (tq_cost q) s))"
| rl_tick: "rl_reach M t s \<Longrightarrow> t \<le> now \<Longrightarrow> rl_reach M now (sweep_rl now s)"

definition refills_ok :: "rl_store \<Rightarrow> bool" where
  "refills_ok s \<longleftrightarrow> (\<forall>k e. gm_get (rl_items s) k = Some e \<longrightarrow> lastRefill (rl_bucket e) \<le> lastUsed e)"

lemma refill_last: "lastRefill bk \<le> now \<Longrightarrow> lastRefill (refill M now bk) \<le> now"
  by (simp add: refill_def Let_def)

lemma Take_last: "lastRefill bk \<le> now \<Longrightarrow> lastRefill (snd (Take_bucket M now cost bk)) \<le> now"
  by (simp add: Take_bucket_def Let_def refill_last)

lemma bucket_for_last:
  "(\<And>bk. bo = Some bk \<Longrightarrow> lastRefill bk \<le> now) \<Longrightarrow> lastRefill (bucket_for M now r b bo) \<le> now"
  by (auto simp: bucket_for_def resize_def NewBucket_def Let_def refill_last split: option.splits)

lemma refills_Take:
  assumes "rl_inv M s" "refills_ok s" "recency_ok t s" "t \<le> now"
  shows "refills_ok (snd (Take_store M now key r b cost s))"
proof -
  have "lastRefill bk \<le> now" if "rl_bucket_of key s = Some bk" for bk
  proof -
    obtain e where e: "gm_get (rl_items s) key = Some e" "bk = rl_bucket e"
      using \<open>rl_bucket_of key s = Some bk\<close> by (auto simp: rl_bucket_of_def)
    moreover have "key \<in> set (order s)" using assms(1) e by (auto simp: rl_inv_def)
    ultimately have "lastUsed e \<le> t" using assms(3) by (auto simp: recency_ok_def last_used_def)
    moreover have "lastRefill bk \<le> lastUsed e" using assms(2) e by (simp add: refills_ok_def)
    ultimately show ?thesis using assms(4) by linarith
  qed
  then have self: "lastRefill (snd (Take_bucket M now cost (bucket_for M now r b (rl_bucket_of key s)))) \<le> now"
    by (intro Take_last bucket_for_last) simp
  show ?thesis unfolding refills_ok_def
  proof (intro allI impI)
    fix k e assume "gm_get (rl_items (snd (Take_store M now key r b cost s))) k = Some e"
    then show "lastRefill (rl_bucket e) \<le> lastUsed e"
      using self assms(2) Take_store_self [of M now key r b cost s]
        Take_store_other [OF assms(1), of k key now r b cost]
      by (cases "k = key") (auto simp: refills_ok_def split: if_splits)
  qed
qed

lemma refills_sweep: "rl_inv M s \<Longrightarrow> refills_ok s \<Longrightarrow> refills_ok (sweep_rl now s)"
  by (auto simp: refills_ok_def sweep_rl_get dest!: keep_live_SomeD)

context machine begin

lemma rl_reach_inv: "rl_reach M t s \<Longrightarrow> rl_inv M s \<and> recency_ok t s \<and> refills_ok s"
proof (induction rule: rl_reach.induct)
  case (rl_start t cap idle)
  then show ?case
    by (simp add: NewStore_inv recency_NewStore refills_ok_def) (simp add: NewStore_def)
next
  case (rl_take t s q)
  then show ?case
    by (auto simp: req_ok_def intro: Take_store_inv recency_Take refills_Take)
next
  case (rl_tick t s now)
  then show ?case
    by (auto intro: sweep_rl_inv recency_sweep refills_sweep recency_mono)
qed

end

end
