(* ===== verification/LimiterTheorems.thy ===== *)
theory LimiterTheorems
  imports RateCorrect
begin

text \<open>
  What the rate limiter promises: how one take decides and charges, how much a bucket
  and a keyed store can hand out (in exact arithmetic and in binary64), whether the
  announced delay is enough, and how the store bounds, isolates, evicts and sweeps.
\<close>

section \<open>One bucket\<close>

text \<open>
  C39. On every Go target, whether it fuses the product and the sum of the refill or not and
  whatever it makes of an overflowing conversion, a take of a well-formed bucket for a cost that
  is not negative is granted exactly when the refilled bucket holds the cost; then the cost and
  nothing else is taken off, up to one rounding, and no delay is named. A denial consumes
  nothing, leaves the refill in place and names a delay of at least one millisecond. The token
  count stays between zero and the burst.
\<close>

theorem take_decides_and_charges:
  assumes "bucket_ok (fpu_of a) b" "0 \<le> cost" "fl64 cost = cost"
    and "Take_bucket (fpu_of a) now cost b = (res, b')"
  shows "(Allowed res \<longleftrightarrow> cost \<le> tokens (refill (fpu_of a) now b))
    \<and> (Allowed res \<longrightarrow> b' = (refill (fpu_of a) now b)
        \<lparr>tokens := fl64 (tokens (refill (fpu_of a) now b) - cost)\<rparr> \<and> RetryAfterMs res = 0)
    \<and> (\<not> Allowed res \<longrightarrow> b' = refill (fpu_of a) now b \<and> 1 \<le> RetryAfterMs res)
    \<and> Remaining res = tokens b' \<and> bucket_ok (fpu_of a) b'"
  using assms go.Take_allowed_iff [of a b cost now] go.Take_granted [of cost a now b]
    go.Take_denied [of a now cost b] go.Take_retry_pos [of a b cost now] go.Take_ok [of a b now cost]
    go.Take_remaining [of a now cost b]
  by auto

theorem take_decides_and_charges_witness:
  "(let b = \<lparr>tokens = 5, lastRefill = 0, rate = 1, burst = 5\<rparr> in
      Take_bucket (fpu_of AMD64) 0 2 b
        = (\<lparr>Allowed = True, Remaining = 3, RetryAfterMs = 0\<rparr>, b\<lparr>tokens := 3\<rparr>)
      \<and> Allowed (fst (Take_bucket (fpu_of AMD64) 0 2 b)))"
proof -
  define b where "b = \<lparr>tokens = 5, lastRefill = 0, rate = 1, burst = 5\<rparr>"
  have ok: "bucket_ok (fpu_of AMD64) b" by (simp add: bucket_ok_def b_def)
  have rf: "refill (fpu_of AMD64) 0 b = b"
    by (simp add: refill_def Let_def b_def time_sub_def int64_defs dur_seconds_0)
  obtain res b' where t: "Take_bucket (fpu_of AMD64) 0 2 b = (res, b')" by force
  have "Allowed res \<and> b' = b\<lparr>tokens := 3\<rparr> \<and> RetryAfterMs res = 0 \<and> Remaining res = tokens b'"
    using take_decides_and_charges [OF ok _ _ t] by (simp add: rf) (simp add: b_def)
  then show ?thesis
    unfolding Let_def b_def [symmetric] by (simp add: t)
qed

text \<open>
  The token-bucket law of the formulas: served in exact arithmetic, requests up to
  time \<open>T\<close> are granted at most the tokens at hand plus the rate times the time since the
  last refill, however the clock readings are ordered.
\<close>

theorem token_bucket_law:
  assumes "bucket_ok ideal b" "0 \<le> rate b" "lastRefill b \<le> T" "\<forall>q \<in> set reqs. fst q \<le> T"
  shows "fst (take_run ideal reqs b)
    \<le> tokens b + rate b * (of_int (T - lastRefill b) / 1000000000)"
  using bounded_ideal.take_run_le [OF assms(1,4)] assms(2,3) by (simp add: budget_def)

theorem token_bucket_law_witness:
  "fst (take_run ideal [(0, 4), (500000000, 1), (1000000000, 3)]
      \<lparr>tokens = 5, lastRefill = 0, rate = 2, burst = 5\<rparr>) \<le> 7"
  using token_bucket_law [of "\<lparr>tokens = 5, lastRefill = 0, rate = 2, burst = 5\<rparr>" 1000000000
      "[(0, 4), (500000000, 1), (1000000000, 3)]"]
  by (simp add: bucket_ok_def)

text \<open>
  C21. The same law for the code as it runs, in binary64: the total granted exceeds the
  tokens at hand plus the rate times the elapsed time by at most three relative rounding
  errors of the refill and, per request, two of the burst and three least subnormals.
\<close>

theorem token_bucket_law_binary64:
  assumes "bucket_ok (fpu_of a) b" "0 \<le> rate b" "lastRefill b \<le> T" "\<forall>q \<in> set reqs. fst q \<le> T"
  shows "fst (take_run (fpu_of a) reqs b)
    \<le> tokens b + rate b * (1 + eps64) ^ 3 * (of_int (T - lastRefill b) / 1000000000)
      + of_nat (length reqs) * (2 * burst b * eps64 + 3 * eta64)"
proof -
  have "2 * (burst b * eps64 + eta64) + eta64 = 2 * burst b * eps64 + 3 * eta64" by simp
  then have "fst (take_run (fpu_of a) reqs b) \<le> budget ((1 + eps64) ^ 3) T b
      + of_nat (length reqs) * (2 * burst b * eps64 + 3 * eta64)"
    using bounded_go.take_run_le [OF assms(1,4)] by (simp only:)
  then show ?thesis using assms(2,3) by (simp add: budget_def)
qed

theorem token_bucket_law_binary64_witness:
  "fst (take_run (fpu_of ARM64) [(0, 4), (1000000000, 3)]
      \<lparr>tokens = 5, lastRefill = 0, rate = 2, burst = 5\<rparr>)
    \<le> 5 + 2 * (1 + eps64) ^ 3 + 2 * (10 * eps64 + 3 * eta64)"
  using token_bucket_law_binary64 [of ARM64 "\<lparr>tokens = 5, lastRefill = 0, rate = 2, burst = 5\<rparr>"
      1000000000 "[(0, 4), (1000000000, 3)]"]
  by (simp add: bucket_ok_def)

text \<open>
  In exact arithmetic \<open>RetryAfterMs\<close> keeps its promise: when a take whose cost fits the
  burst is denied and nothing else draws on the bucket, the same take is granted once
  the announced milliseconds have passed, for every delay that fits a duration.
\<close>

theorem retry_after_is_enough:
  assumes "bucket_ok ideal b" "0 < rate b" "lastRefill b \<le> now" "0 \<le> cost" "cost \<le> burst b"
    and "Take_bucket ideal now cost b = (res, b')" "\<not> Allowed res" "RetryAfterMs res \<le> 9223372036854"
  shows "Allowed (fst (Take_bucket ideal (now + RetryAfterMs res * 1000000) cost b'))"
  using assms by (rule ideal_retry_suffices)

theorem retry_after_is_enough_witness:
  "(let b = \<lparr>tokens = 1, lastRefill = 0, rate = 2, burst = 5\<rparr> in
      fst (Take_bucket ideal 0 4 b) = \<lparr>Allowed = False, Remaining = 1, RetryAfterMs = 1500\<rparr>
      \<and> Allowed (fst (Take_bucket ideal 1500000000 4 (snd (Take_bucket ideal 0 4 b)))))"
proof -
  define b where "b = \<lparr>tokens = 1, lastRefill = 0, rate = 2, burst = 5\<rparr>"
  have ok: "bucket_ok ideal b" by (simp add: bucket_ok_def b_def)
  have t: "Take_bucket ideal 0 4 b = (\<lparr>Allowed = False, Remaining = 1, RetryAfterMs = 1500\<rparr>, b)"
    by (simp add: b_def Take_bucket_def refill_def Let_def time_sub_def int64_defs
        dur_seconds_ideal retryAfterMs_def float_to_int64_def)
  have "Allowed (fst (Take_bucket ideal (0 + 1500 * 1000000) 4 b))"
    using retry_after_is_enough [OF ok _ _ _ _ t] by (simp add: b_def)
  then show ?thesis unfolding Let_def b_def [symmetric] by (simp add: t)
qed

text \<open>
  In binary64 it can fall short by a rounding: rate 22.5, burst 10, cost 7.875 on an
  empty bucket names 350 ms, and after exactly 350 ms the bucket holds
  \<open>7.874999999999999\<close> tokens, so the take is denied again.
\<close>

theorem retry_after_can_fall_short:
  "(let b = \<lparr>tokens = 0, lastRefill = 0, rate = 45 / 2, burst = 10\<rparr> in
      RetryAfterMs (fst (Take_bucket (fpu_of a) 0 (63 / 8) b)) = 350
      \<and> \<not> Allowed (fst (Take_bucket (fpu_of a) (350 * millisecond) (63 / 8) b)))"
proof -
  have f1: "fl64 (7 / 20) = 6305039478318694 / 2 ^ 54"
    by (subst fl64_near [where k = 54 and m = 6305039478318694]) simp_all
  have f2: "fl64 (6305039478318694 / 2 ^ 54 * (45 / 2)) = 8866461766385663 / 2 ^ 50"
    by (subst fl64_near [where k = 50 and m = 8866461766385663]) simp_all
  have f3: "fl64 (6305039478318694 / 2 ^ 54 * 1000) = 350"
    by (subst fl64_near [where k = 44 and m = "350 * 2 ^ 44"]) simp_all
  have f4: "fl64 (63 / 8) = 63 / 8"
    using fl64_rep [of 63 "- 3"] by (simp add: power_int_minus)
  have idem: "fl64 (6305039478318694 / 2 ^ 54) = 6305039478318694 / 2 ^ 54"
    by (subst f1 [symmetric])+ (rule b64.fl_idem)
  have idem2: "fl64 (8866461766385663 / 2 ^ 50) = 8866461766385663 / 2 ^ 50"
    by (subst f2 [symmetric])+ (rule b64.fl_idem)
  have s: "dur_seconds (fpu_of a) 350000000 = 6305039478318694 / 2 ^ 54"
    using dur_seconds_go [of 350000000 a] f1 idem by (simp add: max_int64_def)
  define b where "b = \<lparr>tokens = 0, lastRefill = 0, rate = 45 / 2, burst = 10\<rparr>"
  have "retryAfterMs (fpu_of a) 0 (63 / 8) (45 / 2) 10
      = (let ms = float_to_int64 (fpu_of a) (of_int \<lceil>350 :: rat\<rceil>) in if ms < 1 then 1 else ms)"
  proof (rule retry_eval)
    show "rnd (fpu_of a) (63 / 8 - 0) = 63 / 8" by (simp only: fpu_of_rnd diff_0_right f4)
    have "63 / 8 / (45 / 2) = (7 / 20 :: rat)" by simp
    then show "rnd (fpu_of a) (63 / 8 / (45 / 2)) = 6305039478318694 / 2 ^ 54"
      by (simp only: fpu_of_rnd f1)
    show "rnd (fpu_of a) (6305039478318694 / 2 ^ 54 * 1000) = 350" by (simp only: fpu_of_rnd f3)
  qed simp_all
  then have "RetryAfterMs (fst (Take_bucket (fpu_of a) 0 (63 / 8) b)) = 350"
    using refill_same_instant [of a b]
    by (simp add: b_def Take_bucket_def float_to_int64_def in_int64_def min_int64_def max_int64_def)
  moreover have "refill (fpu_of a) 350000000 b
      = b\<lparr>tokens := min (burst b) (8866461766385663 / 2 ^ 50), lastRefill := 350000000\<rparr>"
  proof (rule refill_eval)
    show "dur_seconds (fpu_of a) (time_sub 350000000 (lastRefill b)) = 6305039478318694 / 2 ^ 54"
      using s by (simp add: b_def time_sub_def int64_defs)
    show "mul_add (fpu_of a) (tokens b) (6305039478318694 / 2 ^ 54) (rate b) = 8866461766385663 / 2 ^ 50"
      using f2 idem2 by (simp only: b_def bucket.simps fpu_of_rnd mul_add_def add_0 if_cancel split: if_split) simp
  qed (simp_all add: b_def)
  then have "\<not> Allowed (fst (Take_bucket (fpu_of a) (350 * millisecond) (63 / 8) b))"
    by (simp add: Take_bucket_def Let_def millisecond_def b_def)
  ultimately show ?thesis by (simp add: b_def Let_def)
qed

text \<open>
  A delay that does not fit \<open>int64\<close> is announced as 1 ms on amd64, where the
  conversion yields the least integer and the guard \<open>ms < 1\<close> lifts it to 1, and as the
  greatest integer on arm64: an empty bucket of rate \<open>2^-70\<close>, burst 1.
\<close>

theorem retry_after_overflow_depends_on_the_target:
  "(let b = \<lparr>tokens = 0, lastRefill = 0, rate = 1 / 2 ^ 70, burst = 1\<rparr> in
      RetryAfterMs (fst (Take_bucket (fpu_of AMD64) 0 1 b)) = 1
      \<and> RetryAfterMs (fst (Take_bucket (fpu_of ARM64) 0 1 b)) = max_int64)"
proof -
  have r: "retryAfterMs (fpu_of a) 0 1 (1 / 2 ^ 70) 1
      = (let ms = float_to_int64 (fpu_of a) (of_int \<lceil>1000 * 2 ^ 70 :: rat\<rceil>) in if ms < 1 then 1 else ms)"
    for a
  proof (rule retry_eval)
    show "rnd (fpu_of a) (1 / (1 / 2 ^ 70)) = 2 ^ 70" using fl64_rep [of 1 70] by simp
    show "rnd (fpu_of a) (2 ^ 70 * 1000) = 1000 * 2 ^ 70" using fl64_rep [of 1000 70] by simp
  qed simp_all
  define b where "b = \<lparr>tokens = 0, lastRefill = 0, rate = 1 / 2 ^ 70, burst = 1\<rparr>"
  have t: "RetryAfterMs (fst (Take_bucket (fpu_of a) 0 1 b)) = retryAfterMs (fpu_of a) 0 1 (1 / 2 ^ 70) 1" for a
    using refill_same_instant [of a b] by (simp add: b_def Take_bucket_def)
  show ?thesis
    unfolding Let_def b_def [symmetric] t r
    by (simp add: float_to_int64_def int64_defs AMD64_def ARM64_def saturate_def fpu_of.simps del: fpu_of_rnd)
qed


section \<open>The keyed store\<close>

definition demo_req :: "time \<Rightarrow> string \<Rightarrow> rat \<Rightarrow> take_req" where
  "demo_req now key cost = \<lparr>tq_now = now, tq_key = key, tq_rate = 1, tq_burst = 5, tq_cost = cost\<rparr>"

definition demo_limiter1 :: rl_store where
  "demo_limiter1 = snd (Take_store (fpu_of AMD64) 0 ''x'' 1 5 2 (NewStore 2 0))"

definition demo_limiter :: rl_store where
  "demo_limiter = snd (Take_store (fpu_of AMD64) 1 ''y'' 1 5 1 demo_limiter1)"

lemma demo_req_ok: "req_ok (fpu_of a) (demo_req now key cost)"
  by (simp add: req_ok_def demo_req_def)

lemma demo_limiter1_reach: "rl_reach (fpu_of AMD64) 0 demo_limiter1"
  using rl_take [OF rl_start, where q = "demo_req 0 ''x'' 2" and t = 0] demo_req_ok [of AMD64 0 "''x''" 2]
  by (simp add: demo_req_def demo_limiter1_def)

lemma demo_limiter_reach: "rl_reach (fpu_of AMD64) 1 demo_limiter"
  using rl_take [OF demo_limiter1_reach, where q = "demo_req 1 ''y'' 1"] demo_req_ok [of AMD64 1 "''y''" 1]
  by (simp add: demo_req_def demo_limiter_def)

lemmas demo_limiter_inv = go.rl_reach_inv [OF demo_limiter_reach]
  and demo_limiter1_inv = go.rl_reach_inv [OF demo_limiter1_reach, THEN conjunct1]

lemma demo_limiter_capacity: "rl_capacity demo_limiter = 2"
  by (simp add: demo_limiter_def demo_limiter1_def Take_store_frame NewStore_def)

lemma demo_limiter1_order: "order demo_limiter1 = [''x'']"
  unfolding demo_limiter1_def Take_store_order [OF NewStore_inv]
  by (simp add: NewStore_def Len_rl_def gm_len_def gm_empty_def gm_get_def)

lemma absent_key: "rl_inv M s \<Longrightarrow> k \<notin> set (order s) \<Longrightarrow> gm_get (rl_items s) k = None"
  by (simp add: rl_inv_def domIff)

lemma demo_limiter_order: "order demo_limiter = [''x'', ''y'']"
proof -
  have "gm_get (rl_items demo_limiter1) ''y'' = None"
    by (rule absent_key [OF demo_limiter1_inv]) (simp add: demo_limiter1_order)
  moreover have "Len_rl demo_limiter1 = 1"
    by (simp add: rl_len [OF demo_limiter1_inv] demo_limiter1_order)
  moreover have "rl_capacity demo_limiter1 = 2" by (simp add: demo_limiter1_def Take_store_frame NewStore_def)
  ultimately show ?thesis
    by (simp add: demo_limiter_def Take_store_order [OF demo_limiter1_inv] demo_limiter1_order)
qed

text \<open>
  Under every sequence of takes and janitor ticks the store holds at most its capacity
  of buckets, \<open>order\<close> lists the keys of the map once each, and every bucket's tokens lie
  between zero and its burst; the recency order is the order of the last uses.
\<close>

theorem limiter_is_bounded:
  assumes "rl_reach (fpu_of a) t s"
  shows "int (Len_rl s) \<le> rl_capacity s \<and> distinct (order s) \<and> set (order s) = set (gm_keys (rl_items s))
    \<and> sorted (map (last_used s) (order s))
    \<and> (\<forall>k e. gm_get (rl_items s) k = Some e \<longrightarrow>
        0 \<le> tokens (rl_bucket e) \<and> tokens (rl_bucket e) \<le> burst (rl_bucket e))"
  using go.rl_reach_inv [OF assms] by (auto simp: rl_inv_def recency_ok_def bucket_ok_def gm.keys_set)

theorem limiter_is_bounded_witness:
  "int (Len_rl demo_limiter) \<le> rl_capacity demo_limiter \<and> distinct (order demo_limiter)"
  using limiter_is_bounded [OF demo_limiter_reach] by blast

text \<open>
  C19. Keys are isolated: as long as the keys in use fit the capacity, the answers one key
  gets in any interleaving of requests are those of a bucket of its own fed its requests
  alone; the other keys' traffic and limits cannot be told from them.
\<close>

theorem limiter_keys_are_isolated:
  assumes "rl_reach (fpu_of a) t s" "\<forall>q \<in> set qs. req_ok (fpu_of a) q"
    and "int (card (set (order s) \<union> tq_key ` set qs)) \<le> rl_capacity s"
  shows "answers key qs (fst (rl_takes (fpu_of a) qs s))
    = lone_takes (fpu_of a) (requests key qs) (rl_bucket_of key s)"
  using go.rl_reach_inv [OF assms(1)] assms(2,3) by (intro go.rl_takes_isolated) simp_all

theorem limiter_keys_are_isolated_witness:
  "(let qs = [demo_req 2 ''x'' 4, demo_req 3 ''y'' 5, demo_req 4 ''x'' 1] in
      answers ''x'' qs (fst (rl_takes (fpu_of AMD64) qs demo_limiter))
        = lone_takes (fpu_of AMD64) [demo_req 2 ''x'' 4, demo_req 4 ''x'' 1] (rl_bucket_of ''x'' demo_limiter))"
proof -
  define qs where "qs = [demo_req 2 ''x'' 4, demo_req 3 ''y'' 5, demo_req 4 ''x'' 1]"
  have "set (order demo_limiter) \<union> tq_key ` set qs = {''x'', ''y''}"
    by (auto simp: demo_limiter_order qs_def demo_req_def)
  then have "int (card (set (order demo_limiter) \<union> tq_key ` set qs)) \<le> rl_capacity demo_limiter"
    by (simp add: demo_limiter_capacity)
  from limiter_keys_are_isolated [OF demo_limiter_reach _ this, of "''x''"] show ?thesis
    unfolding Let_def qs_def [symmetric]
    by (simp add: qs_def demo_req_ok requests_def) (simp add: demo_req_def)
qed

text \<open>
  The rate limit holds per key across the keyed store: from a fresh store whose
  capacity fits the keys in use, the cost granted to a key that always asks with the
  same rate and burst between \<open>t0\<close> and \<open>T\<close> is at most the burst plus the rate times the
  elapsed time, plus the binary64 rounding.
\<close>

theorem limiter_enforces_the_rate:
  assumes "\<forall>q \<in> set qs. req_ok (fpu_of a) q" "int (card (tq_key ` set qs)) \<le> rl_capacity (NewStore cap idle)"
    and "\<forall>q \<in> set (requests key qs). tq_rate q = r \<and> tq_burst q = b \<and> t0 \<le> tq_now q \<and> tq_now q \<le> T"
    and "0 \<le> r" "requests key qs \<noteq> []"
  shows "granted (requests key qs) (answers key qs (fst (rl_takes (fpu_of a) qs (NewStore cap idle))))
    \<le> b + r * (1 + eps64) ^ 3 * (of_int (T - t0) / 1000000000)
      + of_nat (length (requests key qs)) * (2 * (b * eps64 + eta64) + eta64)"
proof -
  obtain q where "q \<in> set (requests key qs)" using assms(5) by (meson last_in_set)
  then have q: "q \<in> set qs" "tq_burst q = b" using assms(3) by (auto simp: requests_def)
  have b: "0 \<le> b" "rnd (fpu_of a) b = b" using assms(1) q by (auto simp: req_ok_def)
  have "answers key qs (fst (rl_takes (fpu_of a) qs (NewStore cap idle)))
      = lone_takes (fpu_of a) (requests key qs) (rl_bucket_of key (NewStore cap idle))"
    using assms(1,2) by (intro go.rl_takes_isolated NewStore_inv) (simp_all add: NewStore_def)
  moreover have "rl_bucket_of key (NewStore cap idle) = None" by (simp add: rl_bucket_of_def NewStore_def)
  ultimately show ?thesis
    using bounded_go.lone_takes_bound [OF assms(4) b assms(3,5)] by simp
qed

theorem limiter_enforces_the_rate_witness:
  "(let qs = [demo_req 0 ''x'' 4, demo_req 3 ''y'' 5, demo_req 1000000000 ''x'' 2] in
      granted (requests ''x'' qs) (answers ''x'' qs (fst (rl_takes (fpu_of ARM64) qs (NewStore 2 0))))
        \<le> 5 + (1 + eps64) ^ 3 + 2 * (2 * (5 * eps64 + eta64) + eta64))"
proof -
  define qs where "qs = [demo_req 0 ''x'' 4, demo_req 3 ''y'' 5, demo_req 1000000000 ''x'' 2]"
  have r: "requests ''x'' qs = [demo_req 0 ''x'' 4, demo_req 1000000000 ''x'' 2]"
    by (simp add: requests_def qs_def demo_req_def)
  have "tq_key ` set qs = {''x'', ''y''}" by (auto simp: qs_def demo_req_def)
  then have "int (card (tq_key ` set qs)) \<le> rl_capacity (NewStore 2 0)" by (simp add: NewStore_def)
  moreover have "\<forall>q \<in> set qs. req_ok (fpu_of ARM64) q" by (simp add: qs_def demo_req_ok)
  ultimately show ?thesis
    using limiter_enforces_the_rate [of qs ARM64 2 0 "''x''" 1 5 0 1000000000]
    unfolding Let_def qs_def [symmetric] r by (simp add: demo_req_def)
qed

text \<open>
  Overflow drops the key that has been unused longest: a take for a new key on a full
  store removes exactly the head of the recency order, no other key is changed, and no
  remaining key was last used before the dropped one.
\<close>

theorem limiter_drops_the_longest_unused:
  assumes "rl_reach (fpu_of a) t s" "int (Len_rl s) = rl_capacity s" "gm_get (rl_items s) key = None"
    and "k \<noteq> key" "k \<in> set (order s)"
  shows "gm_get (rl_items (snd (Take_store (fpu_of a) now key r b cost s))) k
      = (if k = hd (order s) then None else gm_get (rl_items s) k)
    \<and> last_used s (hd (order s)) \<le> last_used s k"
  using go.rl_reach_inv [OF assms(1)] assms(2-) recency_victim [of t s k]
    Take_store_other [of "fpu_of a" s k key now r b cost] by simp

theorem limiter_drops_the_longest_unused_witness:
  "gm_get (rl_items (snd (Take_store (fpu_of AMD64) 9 ''z'' 1 5 1 demo_limiter))) ''x'' = None
    \<and> last_used demo_limiter ''x'' \<le> last_used demo_limiter ''y''"
proof -
  note inv = demo_limiter_inv [THEN conjunct1]
  have full: "int (Len_rl demo_limiter) = rl_capacity demo_limiter"
    by (simp add: rl_len [OF inv] demo_limiter_order demo_limiter_capacity)
  have new: "gm_get (rl_items demo_limiter) ''z'' = None"
    by (rule absent_key [OF inv]) (simp add: demo_limiter_order)
  show ?thesis
    using limiter_drops_the_longest_unused [OF demo_limiter_reach full new, of "''x''" 9 1 5 1]
      limiter_drops_the_longest_unused [OF demo_limiter_reach full new, of "''y''" 9 1 5 1]
    by (simp add: demo_limiter_order)
qed

text \<open>
  The idle sweep is not observable when the idle timeout refills the bucket: for a key
  whose stored limits are the request's and whose burst the rate restores within the
  timeout (as computed in binary64), a take answers the same after a sweep as without.
\<close>

theorem idle_sweep_is_unobservable:
  assumes "rl_reach (fpu_of a) t s" "0 < idleTTL s" "now \<le> now'" "0 < r"
    and "\<forall>e. gm_get (rl_items s) key = Some e \<longrightarrow> rate (rl_bucket e) = r \<and> burst (rl_bucket e) = b"
    and "b \<le> fl64 (dur_seconds (fpu_of a) (idleTTL s) * r)" "0 < dur_seconds (fpu_of a) (idleTTL s)"
  shows "fst (Take_store (fpu_of a) now' key r b cost (sweep_rl now s))
    = fst (Take_store (fpu_of a) now' key r b cost s)"
  using go.rl_reach_inv [OF assms(1)] assms(2-)
  by (intro sweep_unobservable) (auto simp: refills_ok_def)

theorem idle_sweep_is_unobservable_witness:
  "fst (Take_store (fpu_of AMD64) 70000000001 ''x'' 1 5 2 (sweep_rl 60000000001 demo_limiter1))
    = fst (Take_store (fpu_of AMD64) 70000000001 ''x'' 1 5 2 demo_limiter1)"
proof (rule idle_sweep_is_unobservable [OF demo_limiter1_reach])
  have idle: "idleTTL demo_limiter1 = 60000000000"
    by (simp add: demo_limiter1_def Take_store_frame NewStore_def second_def)
  have sec: "dur_seconds (fpu_of AMD64) 60000000000 = 60"
    using dur_seconds_go [of 60000000000 AMD64] by (simp add: max_int64_def)
  show "0 < idleTTL demo_limiter1" "0 < dur_seconds (fpu_of AMD64) (idleTTL demo_limiter1)"
    "5 \<le> fl64 (dur_seconds (fpu_of AMD64) (idleTTL demo_limiter1) * 1)"
    by (simp_all add: idle sec)
  show "\<forall>e. gm_get (rl_items demo_limiter1) ''x'' = Some e
      \<longrightarrow> rate (rl_bucket e) = 1 \<and> burst (rl_bucket e) = 5"
    by (simp add: demo_limiter1_def Take_store_self go.Take_frame rl_bucket_of_def NewStore_def
        bucket_for_def) (simp add: NewBucket_def)
qed simp_all

text \<open>
  C32. The idle sweep gives a slow key its burst back. A bucket that its rate would not have
  refilled is dropped all the same once it has been idle for the timeout (\<open>ratelimit/store.go\<close>,
  line 136): a take that the bucket denies is then allowed, as from a fresh bucket, so that a
  client that pauses for a minute can exceed the rate without bound.
\<close>

theorem idle_sweep_refills_slow_buckets:
  assumes "rl_reach (fpu_of a) t s" "gm_get (rl_items s) key = Some e"
    and "idleTTL s < time_sub now (lastUsed e)"
    and "rate (rl_bucket e) = r" "burst (rl_bucket e) = b" "0 \<le> cost" "cost \<le> b"
    and "tokens (refill (fpu_of a) now' (rl_bucket e)) < cost"
  shows "\<not> Allowed (fst (Take_store (fpu_of a) now' key r b cost s))
    \<and> Allowed (fst (Take_store (fpu_of a) now' key r b cost (sweep_rl now s)))"
proof -
  have inv: "rl_inv (fpu_of a) s" using go.rl_reach_inv [OF assms(1)] by blast
  have "rl_bucket_of key s = Some (rl_bucket e)" "rl_bucket_of key (sweep_rl now s) = None"
    using assms(2,3) by (auto simp: rl_bucket_of_def sweep_rl_get [OF inv] keep_live_def live_entry_def)
  moreover have "b \<ge> 0" using assms(6,7) by linarith
  moreover have "burst (refill (fpu_of a) now' (rl_bucket e)) = b" using assms(5) by (simp add: refill_def Let_def)
  moreover have "tokens (refill (fpu_of a) now' (NewBucket r b now')) = b"
    "burst (refill (fpu_of a) now' (NewBucket r b now')) = b"
    unfolding refill_new using assms(6,7) by (simp_all add: NewBucket_def Let_def)
  ultimately show ?thesis
    using assms(4-8) by (simp add: Take_store_result bucket_for_def go.resize_same Take_bucket_def Let_def)
qed

text \<open>A bucket of five tokens and no rate, emptied at instant 1 and taken from again after a sweep.\<close>

theorem idle_sweep_refills_slow_buckets_witness:
  "(let s = snd (Take_store (fpu_of AMD64) 1 ''z'' 0 5 5 (NewStore 10 0)); now = 61000000002 in
    \<not> Allowed (fst (Take_store (fpu_of AMD64) now ''z'' 0 5 5 s))
    \<and> Allowed (fst (Take_store (fpu_of AMD64) now ''z'' 0 5 5 (sweep_rl now s))))"
proof -
  define s where "s = snd (Take_store (fpu_of AMD64) 1 ''z'' 0 5 5 (NewStore 10 0))"
  define bk where "bk = snd (Take_bucket (fpu_of AMD64) 1 5 (NewBucket 0 5 1))"
  have "rl_bucket_of ''z'' (NewStore 10 0) = None" by (simp add: rl_bucket_of_def NewStore_def)
  then have e: "gm_get (rl_items s) ''z'' = Some \<lparr>rl_bucket = bk, lastUsed = 1\<rparr>"
    by (simp add: s_def bk_def Take_store_self bucket_for_def)
  have reach: "rl_reach (fpu_of AMD64) 1 s"
    using rl_take [OF rl_start [of "fpu_of AMD64" 1 10 0], of "\<lparr>tq_now = 1, tq_key = ''z'', tq_rate = 0, tq_burst = 5, tq_cost = 5\<rparr>"]
    by (simp add: s_def req_ok_def)
  have idle: "idleTTL s = 60000000000" by (simp add: s_def Take_store_frame NewStore_def second_def)
  have b: "rate bk = 0" "burst bk = 5" "tokens bk = 0"
    by (simp_all add: bk_def Take_bucket_def refill_def NewBucket_def Let_def)
  have "tokens (refill (fpu_of AMD64) 61000000002 bk) < 5" using b by (simp add: refill_def)
  then show ?thesis
    unfolding Let_def s_def [symmetric]
    by (intro idle_sweep_refills_slow_buckets [OF reach e]) (simp_all add: b idle time_sub_def int64_defs)
qed

end
