(* ===== verification/Json.thy ===== *)
theory Json
  imports GoText Float64 GoTime
begin

text \<open>
  What the program uses of \<open>encoding/json\<close>: a value tree, the decoding of an object into
  a struct field by field, and the text an encoded value has. Strings are the bytes of
  valid UTF-8. A number literal is \<open>JInt\<close> without and \<open>JReal\<close> with a fraction or exponent.
  The shortest decimal form of a double (\<open>strconv\<close>) is the parameter \<open>ft\<close> of \<open>json_text\<close>.
\<close>

datatype json =
    JNull
  | JBool bool
  | JInt int
  | JReal rat
  | JStr string
  | JArr "json list"
  | JObj "(string \<times> json) list"

section \<open>Decoding\<close>

text \<open>
  A struct is decoded key by key, in the order of the object; a key selects the field
  whose name it equals up to case. The names are ASCII, so that besides the ASCII letters only
  U+017F (a long s) and U+212A (the Kelvin sign) fold to letters of a name. An unknown key is skipped, \<open>null\<close> leaves the
  field as it is, and a value of another type is an error.
\<close>

definition lower :: "char \<Rightarrow> char" where
  "lower c = (let n = of_char c :: nat in if 65 \<le> n \<and> n \<le> 90 then char_of (n + 32) else c)"

fun fold_name :: "string \<Rightarrow> string" where
  "fold_name [] = []"
| "fold_name (c # cs) =
    (case cs of
       [] \<Rightarrow> [lower c]
     | c2 # cs2 \<Rightarrow>
         if (of_char c :: nat) = 197 \<and> (of_char c2 :: nat) = 191 then CHR ''s'' # fold_name cs2
         else
           (case cs2 of
              [] \<Rightarrow> lower c # fold_name cs
            | c3 # cs3 \<Rightarrow>
                if (of_char c :: nat) = 226 \<and> (of_char c2 :: nat) = 132 \<and> (of_char c3 :: nat) = 170
                then CHR ''k'' # fold_name cs3
                else lower c # fold_name cs))"

declare fold_name.simps [simp del]

lemmas fold_defs = fold_name.simps lower_def

fun decode_fields :: "(string \<Rightarrow> json \<Rightarrow> 'a \<Rightarrow> 'a option) \<Rightarrow> (string \<times> json) list \<Rightarrow> 'a \<Rightarrow> 'a option" where
  "decode_fields f [] z = Some z"
| "decode_fields f ((k, v) # kvs) z =
    (case f (fold_name k) v z of None \<Rightarrow> None | Some z' \<Rightarrow> decode_fields f kvs z')"

definition decode_struct :: "(string \<Rightarrow> json \<Rightarrow> 'a \<Rightarrow> 'a option) \<Rightarrow> 'a \<Rightarrow> json \<Rightarrow> 'a option" where
  "decode_struct f z j = (case j of JNull \<Rightarrow> Some z | JObj kvs \<Rightarrow> decode_fields f kvs z | _ \<Rightarrow> None)"

fun dec_string :: "json \<Rightarrow> string \<Rightarrow> string option" where
  "dec_string (JStr s) cur = Some s"
| "dec_string JNull cur = Some cur"
| "dec_string _ cur = None"

fun dec_bool :: "json \<Rightarrow> bool \<Rightarrow> bool option" where
  "dec_bool (JBool b) cur = Some b"
| "dec_bool JNull cur = Some cur"
| "dec_bool _ cur = None"

fun dec_int64 :: "json \<Rightarrow> int \<Rightarrow> int option" where
  "dec_int64 (JInt n) cur = (if in_int64 n then Some n else None)"
| "dec_int64 JNull cur = Some cur"
| "dec_int64 _ cur = None"

text \<open>A pointer field: \<open>null\<close> sets it to nil.\<close>

fun dec_int64_ptr :: "json \<Rightarrow> int option option" where
  "dec_int64_ptr (JInt n) = (if in_int64 n then Some (Some n) else None)"
| "dec_int64_ptr JNull = Some None"
| "dec_int64_ptr _ = None"

text \<open>A \<open>float64\<close> field: the nearest double, an error beyond the range.\<close>

definition max_float64 :: rat where
  "max_float64 = (2 ^ 53 - 1) * 2 ^ 971"

definition parse_float :: "rat \<Rightarrow> rat option" where
  "parse_float x = (let y = fl64 x in if \<bar>y\<bar> \<le> max_float64 then Some y else None)"

fun dec_float :: "json \<Rightarrow> rat \<Rightarrow> rat option" where
  "dec_float (JInt n) cur = parse_float (of_int n)"
| "dec_float (JReal x) cur = parse_float x"
| "dec_float JNull cur = Some cur"
| "dec_float _ cur = None"

section \<open>The text of a value\<close>

definition int_text :: "int \<Rightarrow> string" where
  "int_text n = (if n < 0 then CHR ''-'' # itoa (nat (- n)) else itoa (nat n))"

definition hex_digit :: "nat \<Rightarrow> char" where
  "hex_digit n = (if n < 10 then char_of (48 + n) else char_of (87 + n))"

definition u_escape :: "nat \<Rightarrow> string" where
  "u_escape n = [CHR 0x5C, CHR ''u'', hex_digit (n div 4096 mod 16), hex_digit (n div 256 mod 16),
    hex_digit (n div 16 mod 16), hex_digit (n mod 16)]"

text \<open>
  The encoder escapes quotes, backslashes and control characters, and, to keep the text
  safe inside HTML, the characters less-than, greater-than and ampersand.
\<close>

definition escape_char :: "char \<Rightarrow> string" where
  "escape_char c =
    (let n = of_char c :: nat
     in if n = 34 \<or> n = 92 then [CHR 0x5C, c]
        else if n = 8 then [CHR 0x5C, CHR ''b'']
        else if n = 9 then [CHR 0x5C, CHR ''t'']
        else if n = 10 then [CHR 0x5C, CHR ''n'']
        else if n = 12 then [CHR 0x5C, CHR ''f'']
        else if n = 13 then [CHR 0x5C, CHR ''r'']
        else if n < 32 \<or> n = 60 \<or> n = 62 \<or> n = 38 then u_escape n
        else [c])"

text \<open>The two line separators U+2028 and U+2029, three bytes each, are escaped as well.\<close>

fun escape_string :: "string \<Rightarrow> string" where
  "escape_string [] = []"
| "escape_string (c # cs) =
    (case cs of
       c2 # c3 # cs' \<Rightarrow>
         if (of_char c :: nat) = 226 \<and> (of_char c2 :: nat) = 128
            \<and> ((of_char c3 :: nat) = 168 \<or> (of_char c3 :: nat) = 169)
         then u_escape (of_char c3 + 8064) @ escape_string cs'
         else escape_char c @ escape_string cs
     | _ \<Rightarrow> escape_char c @ escape_string cs)"

definition quoted :: "string \<Rightarrow> string" where
  "quoted s = CHR 0x22 # escape_string s @ [CHR 0x22]"

fun commas :: "string list \<Rightarrow> string" where
  "commas [] = []"
| "commas [t] = t"
| "commas (t # ts) = t @ CHR '','' # commas ts"

fun json_text :: "(rat \<Rightarrow> string) \<Rightarrow> json \<Rightarrow> string" where
  "json_text ft JNull = ''null''"
| "json_text ft (JBool b) = (if b then ''true'' else ''false'')"
| "json_text ft (JInt n) = int_text n"
| "json_text ft (JReal x) = ft x"
| "json_text ft (JStr s) = quoted s"
| "json_text ft (JArr js) = CHR ''['' # commas (map (json_text ft) js) @ '']''"
| "json_text ft (JObj kvs) =
    CHR ''{'' # commas (map (\<lambda>(k, v). quoted k @ CHR '':'' # json_text ft v) kvs) @ ''}''"

lemma escape_char_nonempty: "1 \<le> length (escape_char c)"
  by (simp add: escape_char_def u_escape_def Let_def)

text \<open>Each character the encoder escapes as six bytes counts six.\<close>

lemma escape_html: "c \<in> {CHR ''<'', CHR ''>'', CHR ''&''} \<Longrightarrow> length (escape_char c) = 6"
  by (auto simp: escape_char_def u_escape_def)

lemma escape_string_replicate:
  "c \<in> {CHR ''<'', CHR ''>'', CHR ''&''} \<Longrightarrow> length (escape_string (replicate n c)) = 6 * n"
proof (induction n)
  case (Suc n)
  have "(of_char c :: nat) \<noteq> 226" using Suc.prems by auto
  then have "escape_string (c # replicate n c) = escape_char c @ escape_string (replicate n c)"
    by (auto split: list.splits)
  with Suc show ?case by (simp add: escape_html)
qed simp

end
