(* ===== verification/Wire.thy ===== *)
theory Wire
  imports Json Store
begin

text \<open>
  The messages of \<open>internal/node/node.go\<close>: the structs with JSON tags, their encoding and
  decoding, HTTP requests and responses, and \<open>readJSON\<close>. A body travels as a \<open>payload\<close>:
  the value tree (None when the text is no JSON) and the number of bytes up to its end,
  which \<open>readJSON\<close> holds against its limit.
\<close>

section \<open>The structs\<close>

record kv_body =
  kb_key :: string
  kb_value :: string
  kb_ttl :: int
  kb_written :: int

record rl_body =
  rb_key :: string
  rb_rate :: rat
  rb_burst :: rat
  rb_cost :: rat

record member_body =
  mb_id :: string
  mb_url :: string

record get_resp =
  gr_key :: string
  gr_found :: bool
  gr_value :: string
  gr_served :: string
  gr_ttl :: "int option"
  gr_written :: int

record write_resp =
  wr_key :: string
  wr_acked :: nat
  wr_replicas :: "string list"
  wr_failed :: "string list"

record rl_resp =
  rr_allowed :: bool
  rr_remaining :: rat
  rr_retry :: int
  rr_primary :: string
  rr_served :: string

definition zero_kv :: kv_body where
  "zero_kv = \<lparr>kb_key = '''', kb_value = '''', kb_ttl = 0, kb_written = 0\<rparr>"

definition zero_rl :: rl_body where
  "zero_rl = \<lparr>rb_key = '''', rb_rate = 0, rb_burst = 0, rb_cost = 0\<rparr>"

definition zero_member :: member_body where
  "zero_member = \<lparr>mb_id = '''', mb_url = ''''\<rparr>"

definition zero_get :: get_resp where
  "zero_get = \<lparr>gr_key = '''', gr_found = False, gr_value = '''', gr_served = '''', gr_ttl = None,
    gr_written = 0\<rparr>"

section \<open>Encoding and decoding\<close>

text \<open>\<open>omitempty\<close> leaves out the zero value of a field.\<close>

definition omit_str :: "string \<Rightarrow> string \<Rightarrow> (string \<times> json) list" where
  "omit_str k s = (if s = '''' then [] else [(k, JStr s)])"

definition omit_int :: "string \<Rightarrow> int \<Rightarrow> (string \<times> json) list" where
  "omit_int k n = (if n = 0 then [] else [(k, JInt n)])"

definition encode_kv :: "kv_body \<Rightarrow> json" where
  "encode_kv b = JObj ([(''key'', JStr (kb_key b)), (''value'', JStr (kb_value b)),
    (''ttl_ms'', JInt (kb_ttl b))] @ omit_int ''written_at'' (kb_written b))"

definition kv_field :: "string \<Rightarrow> json \<Rightarrow> kv_body \<Rightarrow> kv_body option" where
  "kv_field k v b =
    (if k = ''key'' then map_option (\<lambda>s. b\<lparr>kb_key := s\<rparr>) (dec_string v (kb_key b))
     else if k = ''value'' then map_option (\<lambda>s. b\<lparr>kb_value := s\<rparr>) (dec_string v (kb_value b))
     else if k = ''ttl_ms'' then map_option (\<lambda>n. b\<lparr>kb_ttl := n\<rparr>) (dec_int64 v (kb_ttl b))
     else if k = ''written_at'' then map_option (\<lambda>n. b\<lparr>kb_written := n\<rparr>) (dec_int64 v (kb_written b))
     else Some b)"

definition decode_kv :: "json \<Rightarrow> kv_body option" where
  "decode_kv = decode_struct kv_field zero_kv"

definition encode_rl :: "rl_body \<Rightarrow> json" where
  "encode_rl b = JObj [(''key'', JStr (rb_key b)), (''rate'', JReal (rb_rate b)),
    (''burst'', JReal (rb_burst b)), (''cost'', JReal (rb_cost b))]"

definition rl_field :: "string \<Rightarrow> json \<Rightarrow> rl_body \<Rightarrow> rl_body option" where
  "rl_field k v b =
    (if k = ''key'' then map_option (\<lambda>s. b\<lparr>rb_key := s\<rparr>) (dec_string v (rb_key b))
     else if k = ''rate'' then map_option (\<lambda>x. b\<lparr>rb_rate := x\<rparr>) (dec_float v (rb_rate b))
     else if k = ''burst'' then map_option (\<lambda>x. b\<lparr>rb_burst := x\<rparr>) (dec_float v (rb_burst b))
     else if k = ''cost'' then map_option (\<lambda>x. b\<lparr>rb_cost := x\<rparr>) (dec_float v (rb_cost b))
     else Some b)"

definition decode_rl :: "json \<Rightarrow> rl_body option" where
  "decode_rl = decode_struct rl_field zero_rl"

definition member_field :: "string \<Rightarrow> json \<Rightarrow> member_body \<Rightarrow> member_body option" where
  "member_field k v b =
    (if k = ''id'' then map_option (\<lambda>s. b\<lparr>mb_id := s\<rparr>) (dec_string v (mb_id b))
     else if k = ''url'' then map_option (\<lambda>s. b\<lparr>mb_url := s\<rparr>) (dec_string v (mb_url b))
     else Some b)"

definition decode_member :: "json \<Rightarrow> member_body option" where
  "decode_member = decode_struct member_field zero_member"

definition encode_get :: "get_resp \<Rightarrow> json" where
  "encode_get g = JObj ([(''key'', JStr (gr_key g)), (''found'', JBool (gr_found g))]
    @ omit_str ''value'' (gr_value g) @ omit_str ''served_by'' (gr_served g)
    @ (case gr_ttl g of None \<Rightarrow> [] | Some ms \<Rightarrow> [(''ttl_remaining_ms'', JInt ms)])
    @ omit_int ''written_at'' (gr_written g))"

definition get_field :: "string \<Rightarrow> json \<Rightarrow> get_resp \<Rightarrow> get_resp option" where
  "get_field k v g =
    (if k = ''key'' then map_option (\<lambda>s. g\<lparr>gr_key := s\<rparr>) (dec_string v (gr_key g))
     else if k = ''found'' then map_option (\<lambda>b. g\<lparr>gr_found := b\<rparr>) (dec_bool v (gr_found g))
     else if k = ''value'' then map_option (\<lambda>s. g\<lparr>gr_value := s\<rparr>) (dec_string v (gr_value g))
     else if k = ''served_by'' then map_option (\<lambda>s. g\<lparr>gr_served := s\<rparr>) (dec_string v (gr_served g))
     else if k = ''ttl_remaining_ms'' then map_option (\<lambda>n. g\<lparr>gr_ttl := n\<rparr>) (dec_int64_ptr v)
     else if k = ''written_at'' then map_option (\<lambda>n. g\<lparr>gr_written := n\<rparr>) (dec_int64 v (gr_written g))
     else Some g)"

definition decode_get :: "json \<Rightarrow> get_resp option" where
  "decode_get = decode_struct get_field zero_get"

text \<open>A nil slice is encoded as \<open>null\<close>; the slices of \<open>Owners\<close> are nil exactly when empty.\<close>

definition string_list_json :: "string list \<Rightarrow> json" where
  "string_list_json xs = (if xs = [] then JNull else JArr (map JStr xs))"

definition encode_write :: "write_resp \<Rightarrow> json" where
  "encode_write r = JObj [(''key'', JStr (wr_key r)), (''acked'', JInt (int (wr_acked r))),
    (''replicas'', string_list_json (wr_replicas r)), (''failed'', JArr (map JStr (wr_failed r)))]"

definition encode_rlresp :: "rl_resp \<Rightarrow> json" where
  "encode_rlresp r = JObj ([(''allowed'', JBool (rr_allowed r)), (''remaining'', JReal (rr_remaining r)),
    (''retry_after_ms'', JInt (rr_retry r))] @ omit_str ''primary'' (rr_primary r)
    @ omit_str ''served_by'' (rr_served r))"

lemmas field_defs = kv_field_def rl_field_def member_field_def get_field_def
lemmas zero_defs = zero_kv_def zero_rl_def zero_member_def zero_get_def

text \<open>Every tag of the structs is lower case, so the encoder's keys are found again.\<close>

lemma tags_fold:
  "fold_name ''key'' = ''key''" "fold_name ''value'' = ''value''" "fold_name ''ttl_ms'' = ''ttl_ms''"
  "fold_name ''written_at'' = ''written_at''" "fold_name ''found'' = ''found''"
  "fold_name ''served_by'' = ''served_by''" "fold_name ''ttl_remaining_ms'' = ''ttl_remaining_ms''"
  "fold_name ''rate'' = ''rate''" "fold_name ''burst'' = ''burst''" "fold_name ''cost'' = ''cost''"
  by (simp_all add: fold_defs)

lemma decode_encode_kv:
  "in_int64 (kb_ttl b) \<Longrightarrow> in_int64 (kb_written b) \<Longrightarrow> decode_kv (encode_kv b) = Some b"
  by (simp add: decode_kv_def decode_struct_def encode_kv_def omit_int_def tags_fold field_defs zero_defs)

lemma decode_encode_get:
  "in_int64 (gr_written g) \<Longrightarrow> (\<And>ms. gr_ttl g = Some ms \<Longrightarrow> in_int64 ms)
    \<Longrightarrow> decode_get (encode_get g) = Some g"
  by (cases g, cases "gr_ttl g")
    (auto simp: decode_get_def decode_struct_def encode_get_def omit_int_def omit_str_def tags_fold
      field_defs zero_defs)

definition is_float :: "rat \<Rightarrow> bool" where
  "is_float x \<longleftrightarrow> fl64 x = x \<and> \<bar>x\<bar> \<le> max_float64"

lemma decode_encode_rl:
  "is_float (rb_rate b) \<Longrightarrow> is_float (rb_burst b) \<Longrightarrow> is_float (rb_cost b)
    \<Longrightarrow> decode_rl (encode_rl b) = Some b"
  by (simp add: decode_rl_def decode_struct_def encode_rl_def tags_fold field_defs zero_defs
      parse_float_def is_float_def)

section \<open>HTTP\<close>

record payload =
  pl_len :: nat
  pl_json :: "json option"

definition empty_payload :: payload where
  "empty_payload = \<lparr>pl_len = 0, pl_json = None\<rparr>"

record request =
  rPath :: string
  rMethod :: string
  rQuery :: "string \<Rightarrow> string"
  rBody :: payload

datatype body = BText string | BJson json

record response =
  rStatus :: int
  rReply :: body

definition http_error :: "string \<Rightarrow> int \<Rightarrow> response" where
  "http_error msg st = \<lparr>rStatus = st, rReply = BText msg\<rparr>"

definition writeJSON :: "int \<Rightarrow> json \<Rightarrow> response" where
  "writeJSON st v = \<lparr>rStatus = st, rReply = BJson v\<rparr>"

definition maxKeyBytes :: nat where
  "maxKeyBytes = 512"

definition maxValueBytes :: nat where
  "maxValueBytes = 1048576"

definition readJSON :: "payload \<Rightarrow> json option" where
  "readJSON p = (if pl_len p \<le> maxValueBytes + 4096 then pl_json p else None)"

text \<open>\<open>json.Marshal\<close> of a body that is sent on.\<close>

definition marshal :: "(rat \<Rightarrow> string) \<Rightarrow> json \<Rightarrow> payload" where
  "marshal ft j = \<lparr>pl_len = length (json_text ft j), pl_json = Some j\<rparr>"

end
