(* ===== verification/Node.thy ===== *)
theory Node
  imports Wire RingProps StoreCorrect RateCorrect
begin

text \<open>
  \<open>internal/node/node.go\<close>, one process: its configuration, its state (ring, store, bucket
  store, peer map and the breaker map \<open>downUntil\<close>), the constructor with its defaults, the
  membership operations, the breaker, validation and the response helpers. The handlers,
  which reach other processes, are in \<open>Cluster\<close>.
\<close>

section \<open>State\<close>

record config =
  cID :: string
  cListen :: string
  cPeers :: "(string, string) gomap"
  cReplicas :: int
  cCapacity :: int
  cVNodes :: int
  cReplicaTimeout :: duration
  cBreakFor :: duration
  cRateLimitCapacity :: int
  cRateLimitIdleTTL :: duration

record node =
  ncfg :: config
  nring :: ring_t
  nstore :: store
  nrl :: rl_store
  downUntil :: "(string, time) gomap"
  npeers :: "(string, string) gomap"

section \<open>The constructor\<close>

definition with_defaults :: "config \<Rightarrow> config" where
  "with_defaults c = c
    \<lparr>cListen := (if cListen c = '''' then '':8080'' else cListen c),
     cReplicas := (if cReplicas c < 1 then 1 else cReplicas c),
     cCapacity := (if cCapacity c < 1 then 1024 else cCapacity c),
     cVNodes := (if cVNodes c < 1 then 150 else cVNodes c),
     cReplicaTimeout := (if cReplicaTimeout c \<le> 0 then 200 * millisecond else cReplicaTimeout c),
     cBreakFor := (if cBreakFor c \<le> 0 then 2 * second else cBreakFor c),
     cRateLimitCapacity := (if cRateLimitCapacity c < 1 then 10000 else cRateLimitCapacity c),
     cRateLimitIdleTTL := (if cRateLimitIdleTTL c \<le> 0 then 60 * second else cRateLimitIdleTTL c)\<rparr>"

definition New_node :: "config \<Rightarrow> string + node" where
  "New_node c0 =
    (if cID c0 = '''' then Inl ''node id required''
     else
       (let c1 = with_defaults c0
        in if gm_get (cPeers c1) (cID c1) = None then Inl ''peers must include self''
           else
             (let n = int (gm_len (cPeers c1));
                  c = c1\<lparr>cReplicas := (if cReplicas c1 > n then n else cReplicas c1)\<rparr>;
                  ids = sort (gm_keys (cPeers c))
              in Inr \<lparr>ncfg = c, nring = fold Add ids (New_ring (cVNodes c)),
                      nstore = New_store (cCapacity c),
                      nrl = NewStore (cRateLimitCapacity c) (cRateLimitIdleTTL c),
                      downUntil = gm_empty, npeers = cPeers c\<rparr>)))"

section \<open>Membership\<close>

text \<open>\<open>url.ParseRequestURI\<close> is the parameter \<open>uri_ok\<close>: whether it accepts the text.\<close>

definition join :: "(string \<Rightarrow> bool) \<Rightarrow> string \<Rightarrow> string \<Rightarrow> node \<Rightarrow> string + node" where
  "join uri_ok nid0 url0 n =
    (let nid = trim_space nid0; rawURL = trim_space url0
     in if nid = '''' \<or> rawURL = '''' then Inl ''id and url required''
        else if \<not> uri_ok rawURL then Inl ''url''
        else Inr (n\<lparr>npeers := gm_put nid rawURL (npeers n), nring := Add nid (nring n)\<rparr>))"

definition leave :: "string \<Rightarrow> node \<Rightarrow> string + node" where
  "leave nid0 n =
    (let nid = trim_space nid0
     in if nid = '''' then Inl ''id required''
        else if nid = cID (ncfg n) then Inl ''cannot remove self''
        else Inr (n\<lparr>npeers := gm_del nid (npeers n), downUntil := gm_del nid (downUntil n),
                    nring := Remove nid (nring n)\<rparr>))"

definition peerURL :: "node \<Rightarrow> string \<Rightarrow> string" where
  "peerURL n nid = (case gm_get (npeers n) nid of None \<Rightarrow> '''' | Some u \<Rightarrow> u)"

definition snapshotPeers :: "node \<Rightarrow> json" where
  "snapshotPeers n = JObj (map (\<lambda>k. (k, JStr (peerURL n k))) (sort (gm_keys (npeers n))))"

section \<open>The breaker\<close>

definition markDown :: "time \<Rightarrow> string \<Rightarrow> node \<Rightarrow> node" where
  "markDown now nid n =
    (if nid = cID (ncfg n) then n
     else n\<lparr>downUntil := gm_put nid (time_add now (cBreakFor (ncfg n))) (downUntil n)\<rparr>)"

definition isDown :: "time \<Rightarrow> string \<Rightarrow> node \<Rightarrow> bool \<times> node" where
  "isDown now nid n =
    (case gm_get (downUntil n) nid of
       None \<Rightarrow> (False, n)
     | Some t \<Rightarrow>
         if time_before now t then (True, n)
         else (False, n\<lparr>downUntil := gm_del nid (downUntil n)\<rparr>))"

section \<open>Validation and responses\<close>

definition validateKey :: "string \<Rightarrow> string option" where
  "validateKey key =
    (if key = '''' then Some ''key required''
     else if length key > maxKeyBytes then Some ''key exceeds 512 bytes''
     else if CHR 0x00 \<in> set key then Some ''key must not contain NUL''
     else None)"

definition validateValue :: "string \<Rightarrow> string option" where
  "validateValue v = (if length v > maxValueBytes then Some ''value exceeds 1048576 bytes'' else None)"

definition preferLocal :: "string list \<Rightarrow> string \<Rightarrow> string list" where
  "preferLocal owners self = filter (\<lambda>x. x = self) owners @ filter (\<lambda>x. x \<noteq> self) owners"

text \<open>\<open>time.Until(t).Milliseconds()\<close>\<close>

definition until_ms :: "time \<Rightarrow> time \<Rightarrow> int" where
  "until_ms now t = milliseconds (time_sub t now)"

definition getPayload :: "time \<Rightarrow> string \<Rightarrow> string \<Rightarrow> entry \<Rightarrow> get_resp" where
  "getPayload now key servedBy ent =
    \<lparr>gr_key = key, gr_found = True, gr_value = Value ent, gr_served = servedBy,
     gr_ttl = (if is_zero (ExpiresAt ent) then None else Some (max 0 (until_ms now (ExpiresAt ent)))),
     gr_written = WrittenAt ent\<rparr>"

definition parseRateLimitBody :: "payload \<Rightarrow> string + rl_body" where
  "parseRateLimitBody p =
    (case Option.bind (readJSON p) decode_rl of
       None \<Rightarrow> Inl ''bad json''
     | Some b \<Rightarrow>
         (case validateKey (rb_key b) of
            Some e \<Rightarrow> Inl e
          | None \<Rightarrow>
              if rb_rate b < 0 \<or> rb_burst b < 0 then Inl ''rate and burst must be >= 0''
              else
                (let b' = (if rb_cost b = 0 then b\<lparr>rb_cost := 1\<rparr> else b)
                 in if rb_cost b' < 0 then Inl ''cost must be >= 0'' else Inr b')))"

section \<open>The invariant of a process\<close>

definition node_inv :: "fpu \<Rightarrow> node \<Rightarrow> bool" where
  "node_inv M n \<longleftrightarrow> ring_reachable (nring n) \<and> store_inv (nstore n) \<and> rl_inv M (nrl n)
    \<and> gm_ok (npeers n) \<and> set (Nodes (nring n)) = set (gm_keys (npeers n)) - {''''}
    \<and> cID (ncfg n) \<in> set (Nodes (nring n)) \<and> gm_get (downUntil n) (cID (ncfg n)) = None
    \<and> 1 \<le> cReplicas (ncfg n) \<and> 0 < cBreakFor (ncfg n)"

lemma Nodes_Add: "set (Nodes (Add x r)) = (if x = '''' then set (Nodes r) else insert x (set (Nodes r)))"
  by (auto simp: Nodes_def Add_def rebuildLocked_def gm.keys_set)

lemma Nodes_Remove: "set (Nodes (Remove x r)) = set (Nodes r) - {x}"
  by (auto simp: Nodes_def Remove_def rebuildLocked_def gm.keys_set domIff)

lemma fold_Add_reachable: "ring_reachable r \<Longrightarrow> ring_reachable (fold Add ids r)"
  by (induction ids arbitrary: r) (auto intro: ring_add)

lemma Nodes_fold_Add: "set (Nodes (fold Add ids r)) = set (Nodes r) \<union> (set ids - {''''})"
  by (induction ids arbitrary: r) (auto simp: Nodes_Add)

lemma Nodes_New [simp]: "Nodes (New_ring v) = []"
  by (simp add: Nodes_def New_ring_def gm_keys_def gm_empty_def)

lemma with_defaults_frame [simp]: "cID (with_defaults c) = cID c" "cPeers (with_defaults c) = cPeers c"
  by (simp_all add: with_defaults_def)

lemma with_defaults_pos: "1 \<le> cReplicas (with_defaults c)" "0 < cBreakFor (with_defaults c)"
  by (simp_all add: with_defaults_def second_def)

text \<open>The configuration a node runs with: defaults filled in, replicas capped at the cluster size.\<close>

definition effective :: "config \<Rightarrow> config" where
  "effective c = (with_defaults c)\<lparr>cReplicas := min (cReplicas (with_defaults c)) (int (gm_len (cPeers c)))\<rparr>"

lemma New_node_eq:
  "New_node c = Inr n \<longleftrightarrow> cID c \<noteq> '''' \<and> gm_get (cPeers c) (cID c) \<noteq> None
    \<and> n = \<lparr>ncfg = effective c, nring = fold Add (sort (gm_keys (cPeers c))) (New_ring (cVNodes (effective c))),
      nstore = New_store (cCapacity (effective c)),
      nrl = NewStore (cRateLimitCapacity (effective c)) (cRateLimitIdleTTL (effective c)),
      downUntil = gm_empty, npeers = cPeers c\<rparr>"
proof -
  have eff: "(with_defaults c)\<lparr>cReplicas := (if cReplicas (with_defaults c) > int (gm_len (cPeers c))
      then int (gm_len (cPeers c)) else cReplicas (with_defaults c))\<rparr> = effective c"
    by (simp add: effective_def min_def)
  have "cPeers (effective c) = cPeers c" by (simp add: effective_def)
  then show ?thesis
    unfolding New_node_def Let_def with_defaults_frame eff
    by (auto simp del: not_None_eq)
qed

lemma New_node_inv:
  assumes "New_node c = Inr n" "gm_ok (cPeers c)"
  shows "node_inv M n"
proof -
  note n = assms(1) [unfolded New_node_eq]
  have self: "cID c \<in> set (gm_keys (cPeers c))"
    using n gm.get_iff_keys [of "cPeers c" "cID c"] by blast
  then have "1 \<le> int (gm_len (cPeers c))"
    by (cases "gm_keys (cPeers c)") (auto simp: gm.len_keys)
  then have "1 \<le> cReplicas (effective c)" "0 < cBreakFor (effective c)" "cID (effective c) = cID c"
    using with_defaults_pos [of c] by (simp_all add: effective_def)
  then show ?thesis
    using n self assms(2) by (simp add: node_inv_def fold_Add_reachable ring_new New_refines
        NewStore_inv Nodes_fold_Add)
qed

lemma join_InrD: "join uok x u n = Inr n' \<Longrightarrow> trim_space x \<noteq> '''' \<and>
    n' = n\<lparr>npeers := gm_put (trim_space x) (trim_space u) (npeers n), nring := Add (trim_space x) (nring n)\<rparr>"
  by (simp add: join_def Let_def split: if_splits)

lemma leave_InrD: "leave x n = Inr n' \<Longrightarrow> trim_space x \<noteq> '''' \<and> trim_space x \<noteq> cID (ncfg n) \<and>
    n' = n\<lparr>npeers := gm_del (trim_space x) (npeers n), downUntil := gm_del (trim_space x) (downUntil n),
      nring := Remove (trim_space x) (nring n)\<rparr>"
  by (simp add: leave_def Let_def split: if_splits)

lemma add_member_inv:
  "node_inv M n \<Longrightarrow> k \<noteq> '''' \<Longrightarrow> node_inv M (n\<lparr>npeers := gm_put k u (npeers n), nring := Add k (nring n)\<rparr>)"
  by (simp add: node_inv_def ring_add Nodes_Add gm.keys_set del: fun_upd_apply) auto

lemma drop_member_inv:
  "node_inv M n \<Longrightarrow> k \<noteq> cID (ncfg n)
    \<Longrightarrow> node_inv M (n\<lparr>npeers := gm_del k (npeers n), downUntil := gm_del k (downUntil n), nring := Remove k (nring n)\<rparr>)"
  by (simp add: node_inv_def ring_remove Nodes_Remove gm.keys_set) auto

lemma join_inv: "node_inv M n \<Longrightarrow> join uok x u n = Inr n' \<Longrightarrow> node_inv M n'"
  using join_InrD add_member_inv by metis

lemma leave_inv: "node_inv M n \<Longrightarrow> leave x n = Inr n' \<Longrightarrow> node_inv M n'"
  using leave_InrD drop_member_inv by metis

lemma markDown_inv: "node_inv M n \<Longrightarrow> node_inv M (markDown now x n)"
  by (auto simp: markDown_def node_inv_def)

lemma isDown_inv: "node_inv M n \<Longrightarrow> node_inv M (snd (isDown now x n))"
  by (auto simp: isDown_def node_inv_def split: option.splits)

lemma isDown_frame:
  "nring (snd (isDown now x n)) = nring n" "nstore (snd (isDown now x n)) = nstore n"
  "nrl (snd (isDown now x n)) = nrl n" "npeers (snd (isDown now x n)) = npeers n"
  "ncfg (snd (isDown now x n)) = ncfg n"
  by (simp_all add: isDown_def split: option.splits)

lemma markDown_frame:
  "nring (markDown now x n) = nring n" "nstore (markDown now x n) = nstore n"
  "nrl (markDown now x n) = nrl n" "npeers (markDown now x n) = npeers n"
  "ncfg (markDown now x n) = ncfg n"
  by (simp_all add: markDown_def)

lemma preferLocal_set [simp]: "set (preferLocal owners self) = set owners"
  by (auto simp: preferLocal_def)

lemma preferLocal_distinct: "distinct owners \<Longrightarrow> distinct (preferLocal owners self)"
  by (auto simp: preferLocal_def)

lemma preferLocal_head: "distinct owners \<Longrightarrow> self \<in> set owners \<Longrightarrow>
    preferLocal owners self = self # filter (\<lambda>x. x \<noteq> self) owners"
  by (induction owners) (auto simp: preferLocal_def filter_empty_conv)

lemma preferLocal_foreign: "self \<notin> set owners \<Longrightarrow> preferLocal owners self = owners"
proof -
  assume "self \<notin> set owners"
  then have "filter (\<lambda>x. x = self) owners = []" "filter (\<lambda>x. x \<noteq> self) owners = owners"
    by (auto simp: filter_empty_conv filter_id_conv)
  then show ?thesis by (simp only: preferLocal_def append_Nil)
qed


section \<open>What decoding guarantees\<close>

lemma decode_fields_inv:
  assumes "\<And>k v z z'. f k v z = Some z' \<Longrightarrow> P z \<Longrightarrow> P z'"
  shows "decode_fields f kvs z = Some z' \<Longrightarrow> P z \<Longrightarrow> P z'"
proof (induction kvs arbitrary: z)
  case (Cons kv kvs)
  obtain k v where kv: "kv = (k, v)" by force
  with Cons.prems(1) obtain z1 where "f (fold_name k) v z = Some z1" "decode_fields f kvs z1 = Some z'"
    by (auto split: option.splits)
  with Cons.IH assms Cons.prems(2) show ?case by blast
qed simp

lemma decode_struct_inv:
  assumes "\<And>k v z z'. f k v z = Some z' \<Longrightarrow> P z \<Longrightarrow> P z'"
  shows "decode_struct f z j = Some z' \<Longrightarrow> P z \<Longrightarrow> P z'"
  using decode_fields_inv [of f P] assms by (auto simp: decode_struct_def split: json.splits)

lemma is_float_parse: "parse_float x = Some y \<Longrightarrow> is_float y"
  by (auto simp: parse_float_def is_float_def Let_def b64.fl_idem split: if_splits)

lemma dec_float_is_float: "dec_float v cur = Some y \<Longrightarrow> is_float cur \<Longrightarrow> is_float y"
  by (cases v) (auto simp: is_float_parse)

lemma dec_int64_range: "dec_int64 v cur = Some n \<Longrightarrow> in_int64 cur \<Longrightarrow> in_int64 n"
  by (cases v) (auto split: if_splits)

lemma is_float_0 [simp]: "is_float 0" and is_float_1 [simp]: "is_float 1"
  by (simp_all add: is_float_def max_float64_def)

lemma decode_rl_floats:
  assumes "decode_rl j = Some b"
  shows "is_float (rb_rate b) \<and> is_float (rb_burst b) \<and> is_float (rb_cost b)"
  using assms unfolding decode_rl_def
  by (rule decode_struct_inv [rotated])
    (auto simp: rl_field_def zero_rl_def dec_float_is_float split: if_splits)

lemma decode_kv_ints:
  assumes "decode_kv j = Some b"
  shows "in_int64 (kb_ttl b) \<and> in_int64 (kb_written b)"
  using assms unfolding decode_kv_def
  by (rule decode_struct_inv [rotated])
    (auto simp: kv_field_def zero_kv_def dec_int64_range in_int64_def min_int64_def max_int64_def
      split: if_splits dest: dec_int64_range)

text \<open>A rate-limit request that passed \<open>parseRateLimitBody\<close>.\<close>

definition rl_valid :: "rl_body \<Rightarrow> bool" where
  "rl_valid b \<longleftrightarrow> validateKey (rb_key b) = None \<and> 0 \<le> rb_rate b \<and> 0 \<le> rb_burst b \<and> 0 < rb_cost b
    \<and> is_float (rb_rate b) \<and> is_float (rb_burst b) \<and> is_float (rb_cost b)"

lemma parse_valid: "parseRateLimitBody p = Inr b \<Longrightarrow> rl_valid b"
proof -
  assume a: "parseRateLimitBody p = Inr b"
  then obtain j b0 where j: "readJSON p = Some j" "decode_rl j = Some b0" "validateKey (rb_key b0) = None"
      "\<not> (rb_rate b0 < 0 \<or> rb_burst b0 < 0)"
      "b = (if rb_cost b0 = 0 then b0\<lparr>rb_cost := 1\<rparr> else b0)" "\<not> rb_cost b < 0"
    by (auto simp: parseRateLimitBody_def Let_def split: option.splits if_splits Option.bind_splits)
  with decode_rl_floats [OF j(2)] show ?thesis by (auto simp: rl_valid_def)
qed

text \<open>Parsing again what was parsed and sent on changes nothing.\<close>

lemma parse_forwarded:
  assumes "rl_valid b" "length (json_text ft (encode_rl b)) \<le> maxValueBytes + 4096"
  shows "parseRateLimitBody (marshal ft (encode_rl b)) = Inr b"
  using assms decode_encode_rl [of b]
  by (simp add: parseRateLimitBody_def marshal_def readJSON_def rl_valid_def Let_def not_less)

end
