(* ===== verification/Query.thy ===== *)
theory Query
  imports GoText
begin

text \<open>
  Queries of URLs, as \<open>net/url\<close> writes and reads them: \<open>QueryEscape\<close>, which \<open>urlQuery\<close> of
  \<open>internal/node/node.go\<close> is, \<open>QueryUnescape\<close>, \<open>ParseQuery\<close> and \<open>Values.Get\<close>, on bytes. What a
  handler reads with \<open>r.URL.Query().Get\<close> is \<open>query_get\<close> of the raw query the client sent.
\<close>

section \<open>Escaping\<close>

definition hex_digit :: "nat \<Rightarrow> char" where
  "hex_digit n = (if n < 10 then char_of (48 + n) else char_of (55 + n))"

definition hex_val :: "char \<Rightarrow> nat option" where
  "hex_val c =
    (let n = of_char c :: nat
     in if 48 \<le> n \<and> n \<le> 57 then Some (n - 48)
        else if 97 \<le> n \<and> n \<le> 102 then Some (n - 87)
        else if 65 \<le> n \<and> n \<le> 70 then Some (n - 55)
        else None)"

text \<open>The bytes that stand for themselves: letters, digits and \<open>-\<close>, \<open>_\<close>, \<open>.\<close>, \<open>~\<close>.\<close>

definition unreserved :: "char \<Rightarrow> bool" where
  "unreserved c =
    (let n = of_char c :: nat
     in 97 \<le> n \<and> n \<le> 122 \<or> 65 \<le> n \<and> n \<le> 90 \<or> 48 \<le> n \<and> n \<le> 57
        \<or> c \<in> {CHR ''-'', CHR ''_'', CHR ''.'', CHR ''~''})"

definition escape_byte :: "char \<Rightarrow> string" where
  "escape_byte c =
    (if c = CHR '' '' then ''+''
     else if unreserved c then [c]
     else (let n = of_char c :: nat in [CHR ''%'', hex_digit (n div 16), hex_digit (n mod 16)]))"

definition QueryEscape :: "string \<Rightarrow> string" where
  "QueryEscape s = concat (map escape_byte s)"

text \<open>One byte and the rest of the text; \<open>None\<close> when a \<open>%\<close> is not followed by two digits.\<close>

definition unescape_byte :: "char \<Rightarrow> string \<Rightarrow> (char \<times> string) option" where
  "unescape_byte c cs =
    (if c = CHR ''%'' then
       (case cs of
          a # b # rest \<Rightarrow>
            Option.bind (hex_val a) (\<lambda>x. Option.bind (hex_val b) (\<lambda>y. Some (char_of (16 * x + y), rest)))
        | _ \<Rightarrow> None)
     else Some (if c = CHR ''+'' then CHR '' '' else c, cs))"

lemma unescape_byte_shorter: "unescape_byte c cs = Some (b, rest) \<Longrightarrow> length rest \<le> length cs"
  by (auto split: if_splits list.splits simp: unescape_byte_def bind_eq_Some_conv)

function QueryUnescape :: "string \<Rightarrow> string option" where
  "QueryUnescape [] = Some []"
| "QueryUnescape (c # cs) =
    (case unescape_byte c cs of None \<Rightarrow> None | Some (b, rest) \<Rightarrow> map_option ((#) b) (QueryUnescape rest))"
  by pat_completeness auto
termination
  by (relation "measure length") (auto dest!: unescape_byte_shorter)

section \<open>Reading a query\<close>

text \<open>A part with a semicolon or with a bad escape is skipped.\<close>

definition query_pair :: "string \<Rightarrow> (string \<times> string) list" where
  "query_pair p =
    (if CHR '';'' \<in> set p \<or> p = '''' then []
     else (case cut_at CHR ''='' p of
             (k, v, _) \<Rightarrow>
               (case (QueryUnescape k, QueryUnescape v) of
                  (Some k', Some v') \<Rightarrow> [(k', v')]
                | _ \<Rightarrow> [])))"

definition ParseQuery :: "string \<Rightarrow> (string \<times> string) list" where
  "ParseQuery q = concat (map query_pair (split_on CHR ''&'' q))"

definition query_get :: "string \<Rightarrow> string \<Rightarrow> string" where
  "query_get q name = (case find (\<lambda>(k, v). k = name) (ParseQuery q) of None \<Rightarrow> '''' | Some (k, v) \<Rightarrow> v)"

definition urlQuery :: "string \<Rightarrow> string" where
  "urlQuery key = QueryEscape key"

section \<open>Codes of bytes\<close>

text \<open>
  A code gives every byte a text that a reader splits off again, whatever follows; then texts
  are read back.
\<close>

locale byte_code =
  fixes enc :: "char \<Rightarrow> string" and split :: "char \<Rightarrow> string \<Rightarrow> (char \<times> string) option"
  assumes split_enc: "enc b = c # cs \<Longrightarrow> split c (cs @ rest) = Some (b, rest)"
    and enc_nonempty: "enc b \<noteq> []"
begin

lemma enc_cases: obtains c cs where "enc b = c # cs" "\<And>rest. split c (cs @ rest) = Some (b, rest)"
  using split_enc enc_nonempty by (metis list.exhaust)

lemma read_back:
  assumes "rd [] = Some []"
    and "\<And>c cs. rd (c # cs) = (case split c cs of None \<Rightarrow> None | Some (b, rest) \<Rightarrow> map_option ((#) b) (rd rest))"
  shows "rd (concat (map enc s)) = Some s"
proof (induction s)
  case (Cons b s)
  obtain c cs where "enc b = c # cs" "\<And>rest. split c (cs @ rest) = Some (b, rest)" using enc_cases by metis
  with Cons assms(2) show ?case by simp
qed (simp add: assms(1))

end

lemma hex_val_digit: "n < 16 \<Longrightarrow> hex_val (hex_digit n) = Some n"
  by (auto simp: hex_val_def hex_digit_def Let_def of_char_of)

lemma nibbles:
  "of_char b div 16 < (16 :: nat)" "of_char b mod 16 < (16 :: nat)"
  "char_of (16 * (of_char b div 16) + of_char b mod 16 :: nat) = (b :: char)"
  using nat_of_char_less_256 [of b] by (auto simp: div_less_iff_less_mult)

lemma hex_digit_text: "\<not> unreserved c \<Longrightarrow> n < 16 \<Longrightarrow> hex_digit n \<noteq> c"
  by (auto simp: unreserved_def hex_digit_def Let_def of_char_of)

interpretation query: byte_code escape_byte unescape_byte
proof
  fix b c :: char and cs rest :: string
  assume e: "escape_byte b = c # cs"
  then show "unescape_byte c (cs @ rest) = Some (b, rest)"
    using nibbles [of b]
    by (auto simp: escape_byte_def unescape_byte_def hex_val_digit Let_def unreserved_def split: if_splits)
qed (simp add: escape_byte_def Let_def)

lemma unescape_escape: "QueryUnescape (QueryEscape s) = Some s"
  unfolding QueryEscape_def by (rule query.read_back) simp_all

text \<open>No byte with a meaning in a query is left in an escaped text.\<close>

lemma escape_clean: "c \<in> set (QueryEscape s) \<Longrightarrow> \<not> unreserved c \<Longrightarrow> c = CHR ''+'' \<or> c = CHR ''%''"
proof -
  assume "c \<in> set (QueryEscape s)" "\<not> unreserved c"
  then obtain b where b: "c \<in> set (escape_byte b)" by (auto simp: QueryEscape_def)
  with \<open>\<not> unreserved c\<close> show ?thesis
    using hex_digit_text [OF _ nibbles(1), of c b] hex_digit_text [OF _ nibbles(2), of c b]
    by (auto simp: escape_byte_def Let_def split: if_splits)
qed

lemma escape_separators:
  "CHR ''&'' \<notin> set (QueryEscape s)" "CHR '';'' \<notin> set (QueryEscape s)" "CHR ''='' \<notin> set (QueryEscape s)"
  "CHR ''#'' \<notin> set (QueryEscape s)"
  by (auto dest!: escape_clean simp: unreserved_def)

section \<open>A key in a query\<close>

text \<open>The value of the only parameter, and what a query says in general of \<open>key=\<close> and a raw text.\<close>

lemma key_query:
  assumes "CHR ''&'' \<notin> set v" "CHR '';'' \<notin> set v"
  shows "query_get (''key='' @ v) = (\<lambda>q. if q = ''key'' then (case QueryUnescape v of None \<Rightarrow> '''' | Some k \<Rightarrow> k) else '''')"
proof -
  have "split_on CHR ''&'' (''key='' @ v) = [''key='' @ v]" using assms(1) by (intro split_on_none) auto
  then have "ParseQuery (''key='' @ v) = query_pair (''key='' @ v)" by (simp only: ParseQuery_def) simp
  also have "\<dots> = (case QueryUnescape v of None \<Rightarrow> [] | Some k \<Rightarrow> [(''key'', k)])"
    using assms(2) unfolding query_pair_def by (simp add: unescape_byte_def)
  finally show ?thesis
    by (simp only: query_get_def fun_eq_iff) (simp split: option.splits)
qed

lemma urlQuery_read: "query_get (''key='' @ urlQuery key) = (\<lambda>q. if q = ''key'' then key else '''')"
  unfolding urlQuery_def key_query [OF escape_separators(1,2)] unescape_escape option.case ..

lemma no_query [simp]: "query_get '''' = (\<lambda>q. '''')"
  by (simp add: query_get_def ParseQuery_def query_pair_def fun_eq_iff)

text \<open>A text of unreserved bytes needs no escape.\<close>

lemma escape_unreserved: "list_all unreserved s \<Longrightarrow> QueryEscape s = s"
  by (induction s) (auto simp: QueryEscape_def escape_byte_def unreserved_def Let_def)

lemma unreserved_query: "list_all unreserved key \<Longrightarrow> query_get (''key='' @ key) = (\<lambda>q. if q = ''key'' then key else '''')"
  using urlQuery_read [of key] by (simp only: urlQuery_def escape_unreserved)

text \<open>Of a raw query that goes on after a plain key, the key alone is read.\<close>

lemma unreserved_pair: "list_all unreserved a \<Longrightarrow> query_pair (''key='' @ a) = [(''key'', a)]"
proof -
  assume a: "list_all unreserved a"
  then have "CHR '';'' \<notin> set a" by (auto simp: list_all_iff unreserved_def)
  moreover have "QueryUnescape a = Some a" using unescape_escape [of a] by (simp only: escape_unreserved [OF a])
  ultimately show ?thesis unfolding query_pair_def by (simp add: unescape_byte_def)
qed

lemma first_pair:
  assumes "list_all unreserved a"
  shows "query_get (''key='' @ a @ CHR ''&'' # b) ''key'' = a"
proof -
  have "CHR ''&'' \<notin> set (''key='' @ a)" using assms by (auto simp: list_all_iff unreserved_def)
  then have "split_on CHR ''&'' ((''key='' @ a) @ CHR ''&'' # b) = (''key='' @ a) # split_on CHR ''&'' b"
    by (rule split_on_join)
  then have "ParseQuery (''key='' @ a @ CHR ''&'' # b) = (''key'', a) # ParseQuery b"
    unfolding ParseQuery_def append.assoc by (simp only: unreserved_pair [OF assms] list.map concat.simps) simp
  then show ?thesis by (simp only: query_get_def) simp
qed

end
