(* ===== verification/Cluster.thy ===== *)
theory Cluster
  imports Node Query "HOL-Library.Monad_Syntax"
begin

text \<open>
  \<open>internal/node/node.go\<close>, the handlers: every request of the HTTP interface as one
  function of the world, with the calls to other processes inside it. The world holds
  all processes, the read repairs in flight, and counts clock readings and network
  calls; \<open>env\<close> supplies what the program does not control: the clock readings, the fate
  of each network call, which process a URL leads to, the order in which the goroutines
  of a fan-out run and in which their results arrive. A handler is an \<open>option\<close> because
  the store's \<open>Set\<close> has a loop without a bound of its own.
\<close>

section \<open>Environment and world\<close>

datatype fault = Deliver | DropRequest | DropResponse

record env =
  arch :: goarch
  clock :: "nat \<Rightarrow> time"
  fault :: "nat \<Rightarrow> fault"
  route :: "string \<Rightarrow> string option"
  run_order :: "nat \<Rightarrow> string list \<Rightarrow> string list"
  arrival :: "nat \<Rightarrow> (string \<times> string option) list \<Rightarrow> (string \<times> string option) list"
  float_text :: "rat \<Rightarrow> string"
  uri_ok :: "string \<Rightarrow> bool"

record repair =
  rp_from :: string
  rp_to :: string
  rp_body :: kv_body

record world =
  procs :: "string \<Rightarrow> node"
  ticks :: nat
  calls :: nat
  pending :: "repair list"

definition tick :: "env \<Rightarrow> world \<Rightarrow> time \<times> world" where
  "tick E w = (clock E (ticks w), w\<lparr>ticks := ticks w + 1\<rparr>)"

definition upd :: "string \<Rightarrow> node \<Rightarrow> world \<Rightarrow> world" where
  "upd me n w = w\<lparr>procs := (procs w)(me := n)\<rparr>"

abbreviation self_id :: "string \<Rightarrow> world \<Rightarrow> string" where
  "self_id me w \<equiv> cID (ncfg (procs w me))"

section \<open>Local operations\<close>

definition local_get :: "env \<Rightarrow> string \<Rightarrow> string \<Rightarrow> world \<Rightarrow> (entry \<times> bool) \<times> world" where
  "local_get E me key w =
    (let (now, w1) = tick E w;
         (r, s) = Get now key (nstore (procs w1 me))
     in (r, upd me ((procs w1 me)\<lparr>nstore := s\<rparr>) w1))"

definition local_set :: "env \<Rightarrow> string \<Rightarrow> kv_body \<Rightarrow> world \<Rightarrow> (bool \<times> world) option" where
  "local_set E me b w =
    (let (now, w1) = tick E w; ttl = dur_mul (kb_ttl b) millisecond
     in case Set now (kb_key b) (kb_value b) ttl (kb_written b) (nstore (procs w1 me)) of
          None \<Rightarrow> None
        | Some (applied, s) \<Rightarrow> Some (applied, upd me ((procs w1 me)\<lparr>nstore := s\<rparr>) w1))"

text \<open>
  The write of \<open>handleInternalKV\<close>, which converts the lifetime on its own: a second piece of code
  that does the same.
\<close>

definition internal_set :: "env \<Rightarrow> string \<Rightarrow> kv_body \<Rightarrow> world \<Rightarrow> (bool \<times> world) option" where
  "internal_set E me b w =
    (let ttl = dur_mul (kb_ttl b) millisecond; (now, w1) = tick E w
     in case Set now (kb_key b) (kb_value b) ttl (kb_written b) (nstore (procs w1 me)) of
          None \<Rightarrow> None
        | Some (applied, s) \<Rightarrow> Some (applied, upd me ((procs w1 me)\<lparr>nstore := s\<rparr>) w1))"

lemma internal_set_eq [simp]: "internal_set = local_set"
  by (intro ext) (simp add: internal_set_def local_set_def Let_def split_beta)

definition local_delete :: "string \<Rightarrow> string \<Rightarrow> world \<Rightarrow> bool \<times> world" where
  "local_delete me key w =
    (let (ok, s) = Delete key (nstore (procs w me)) in (ok, upd me ((procs w me)\<lparr>nstore := s\<rparr>) w))"

definition local_take :: "env \<Rightarrow> string \<Rightarrow> rl_body \<Rightarrow> world \<Rightarrow> result \<times> world" where
  "local_take E me b w =
    (let (now, w1) = tick E w;
         (res, s) = Take_store (fpu_of (arch E)) now (rb_key b) (rb_rate b) (rb_burst b) (rb_cost b)
                      (nrl (procs w1 me))
     in (res, upd me ((procs w1 me)\<lparr>nrl := s\<rparr>) w1))"

definition mark_down :: "env \<Rightarrow> string \<Rightarrow> string \<Rightarrow> world \<Rightarrow> world" where
  "mark_down E me nid w =
    (let (now, w1) = tick E w in upd me (markDown now nid (procs w1 me)) w1)"

definition is_down :: "env \<Rightarrow> string \<Rightarrow> string \<Rightarrow> world \<Rightarrow> bool \<times> world" where
  "is_down E me nid w =
    (let (now, w1) = tick E w; (d, n) = isDown now nid (procs w1 me) in (d, upd me n w1))"

section \<open>The internal endpoints\<close>

definition miss_resp :: "string \<Rightarrow> response" where
  "miss_resp key = writeJSON 404 (encode_get (zero_get\<lparr>gr_key := key, gr_found := False\<rparr>))"

definition ok_resp :: "string \<Rightarrow> bool \<Rightarrow> string \<Rightarrow> response" where
  "ok_resp what b nid = writeJSON 200 (JObj [(what, JBool b), (''id'', JStr nid), (''ok'', JBool True)])"

definition handleInternalKV :: "env \<Rightarrow> string \<Rightarrow> request \<Rightarrow> world \<Rightarrow> (response \<times> world) option" where
  "handleInternalKV E me r w =
    (if rMethod r = ''GET'' then
       (let key = rQuery r ''key''
        in case validateKey key of
             Some e \<Rightarrow> Some (http_error e 400, w)
           | None \<Rightarrow>
               (let ((ent, ok), w1) = local_get E me key w
                in if \<not> ok then Some (miss_resp key, w1)
                   else (let (now, w2) = tick E w1
                         in Some (writeJSON 200 (encode_get (getPayload now key (self_id me w) ent)), w2))))
     else if rMethod r = ''PUT'' then
       (case Option.bind (readJSON (rBody r)) decode_kv of
          None \<Rightarrow> Some (http_error ''bad json'' 400, w)
        | Some b \<Rightarrow>
            (case validateKey (kb_key b) of
               Some e \<Rightarrow> Some (http_error e 400, w)
             | None \<Rightarrow>
                 (case internal_set E me b w of
                    None \<Rightarrow> None
                  | Some (applied, w1) \<Rightarrow> Some (ok_resp ''applied'' applied (self_id me w), w1))))
     else if rMethod r = ''DELETE'' then
       (let key = rQuery r ''key''
        in case validateKey key of
             Some e \<Rightarrow> Some (http_error e 400, w)
           | None \<Rightarrow>
               (let (ok, w1) = local_delete me key w
                in Some (ok_resp ''deleted'' ok (self_id me w), w1)))
     else Some (http_error ''method'' 405, w))"

definition take_resp :: "string \<Rightarrow> string \<Rightarrow> result \<Rightarrow> response" where
  "take_resp primary servedBy res = writeJSON 200 (encode_rlresp
    \<lparr>rr_allowed = Allowed res, rr_remaining = Remaining res, rr_retry = RetryAfterMs res,
     rr_primary = primary, rr_served = servedBy\<rparr>)"

definition handleInternalRateLimitTake :: "env \<Rightarrow> string \<Rightarrow> request \<Rightarrow> world \<Rightarrow> response \<times> world" where
  "handleInternalRateLimitTake E me r w =
    (if rMethod r \<noteq> ''POST'' \<and> rMethod r \<noteq> ''PUT'' then (http_error ''method'' 405, w)
     else
       (case parseRateLimitBody (rBody r) of
          Inl e \<Rightarrow> (http_error e 400, w)
        | Inr b \<Rightarrow>
            (let (res, w1) = local_take E me b w in (take_resp (self_id me w) (self_id me w) res, w1))))"

section \<open>One network call\<close>

text \<open>
  \<open>client.Do\<close>: the request may get lost, and so may the response of a request that was
  served. A base URL that leads to no process is an error.
\<close>

definition client_do :: "env \<Rightarrow> string \<Rightarrow> request \<Rightarrow> world \<Rightarrow> ((string + response) \<times> world) option" where
  "client_do E base r w =
    (let w1 = w\<lparr>calls := calls w + 1\<rparr>
     in case route E base of
          None \<Rightarrow> Some (Inl ''connection refused'', w1)
        | Some to_proc \<Rightarrow>
            (if fault E (calls w) = DropRequest then Some (Inl ''timeout'', w1)
             else
               (case (if rPath r = ''/internal/kv'' then handleInternalKV E to_proc r w1
                      else Some (handleInternalRateLimitTake E to_proc r w1)) of
                  None \<Rightarrow> None
                | Some (res, w2) \<Rightarrow>
                    Some (if fault E (calls w) = DropResponse then Inl ''timeout'' else Inr res, w2))))"

definition kv_request :: "string \<Rightarrow> string \<Rightarrow> payload \<Rightarrow> request" where
  "kv_request meth key p =
    \<lparr>rPath = ''/internal/kv'', rMethod = meth,
     rQuery = query_get (if meth = ''PUT'' then '''' else ''key='' @ urlQuery key), rBody = p\<rparr>"

text \<open>The handler reads the key that was escaped.\<close>

lemma kv_request_eq:
  "kv_request meth key p =
    \<lparr>rPath = ''/internal/kv'', rMethod = meth,
     rQuery = (\<lambda>q. if q = ''key'' \<and> meth \<noteq> ''PUT'' then key else ''''), rBody = p\<rparr>"
  by (cases "meth = ''PUT''") (simp_all only: kv_request_def urlQuery_read no_query if_True if_False, simp_all)


section \<open>Reading and writing one owner\<close>

definition readOwner ::
  "env \<Rightarrow> string \<Rightarrow> string \<Rightarrow> string \<Rightarrow> world \<Rightarrow> ((string + (entry \<times> bool)) \<times> world) option" where
  "readOwner E me nid key w =
    (if nid = self_id me w then (let (r, w1) = local_get E me key w in Some (Inr r, w1))
     else
       (let (down, w1) = is_down E me nid w; base = peerURL (procs w1 me) nid
        in if down then Some (Inl ''marked down'', w1)
           else if base = '''' then Some (Inl ''unknown peer'', w1)
           else
             (case client_do E (trim_right_char CHR ''/'' base) (kv_request ''GET'' key empty_payload) w1 of
                None \<Rightarrow> None
              | Some (Inl e, w2) \<Rightarrow> Some (Inl e, w2)
              | Some (Inr res, w2) \<Rightarrow>
                  if rStatus res = 404 then Some (Inr (zero_entry, False), w2)
                  else if rStatus res \<noteq> 200 then Some (Inl ''status'', w2)
                  else
                    (case (case rReply res of BText t \<Rightarrow> None | BJson j \<Rightarrow> decode_get j) of
                       None \<Rightarrow> Some (Inl ''bad json'', w2)
                     | Some g \<Rightarrow>
                         if \<not> gr_found g then Some (Inr (zero_entry, False), w2)
                         else
                           (let (now, w3) = tick E w2;
                                expires = (case gr_ttl g of
                                    None \<Rightarrow> zero_time
                                  | Some ms \<Rightarrow> if ms > 0 then time_add now (dur_mul ms millisecond) else zero_time)
                            in Some (Inr (\<lparr>Value = gr_value g, ExpiresAt = expires,
                                           WrittenAt = gr_written g\<rparr>, True), w3))))))"

definition writeOwner ::
  "env \<Rightarrow> string \<Rightarrow> string \<Rightarrow> string \<Rightarrow> kv_body \<Rightarrow> world \<Rightarrow> (string option \<times> world) option" where
  "writeOwner E me meth nid b w =
    (if nid = self_id me w then
       (if meth = ''PUT'' then
          (case local_set E me b w of None \<Rightarrow> None | Some (applied, w1) \<Rightarrow> Some (None, w1))
        else if meth = ''DELETE'' then
          (let (ok, w1) = local_delete me (kb_key b) w in Some (None, w1))
        else Some (Some ''bad method'', w))
     else
       (let base = trim_right_char CHR ''/'' (peerURL (procs w me) nid)
        in if base = '''' then Some (Some ''unknown peer'', w)
           else
             (let req = (if meth = ''DELETE'' then kv_request ''DELETE'' (kb_key b) empty_payload
                         else kv_request ''PUT'' '''' (marshal (float_text E) (encode_kv b)))
              in case client_do E base req w of
                   None \<Rightarrow> None
                 | Some (Inl e, w1) \<Rightarrow> Some (Some e, w1)
                 | Some (Inr res, w1) \<Rightarrow>
                     Some (if rStatus res \<ge> 300 then Some ''status'' else None, w1))))"

text \<open>
  \<open>fanout\<close>: one goroutine per owner, each a \<open>writeOwner\<close>, run in some order; their results
  are read from the channel in the order they arrive.
\<close>

fun run_writes ::
  "env \<Rightarrow> string \<Rightarrow> string \<Rightarrow> kv_body \<Rightarrow> string list \<Rightarrow> world
    \<Rightarrow> ((string \<times> string option) list \<times> world) option" where
  "run_writes E me meth b [] w = Some ([], w)"
| "run_writes E me meth b (nid # ids) w =
    (case writeOwner E me meth nid b w of
       None \<Rightarrow> None
     | Some (err, w1) \<Rightarrow>
         (case run_writes E me meth b ids w1 of
            None \<Rightarrow> None
          | Some (rs, w2) \<Rightarrow> Some ((nid, err) # rs, w2)))"

fun collect ::
  "env \<Rightarrow> string \<Rightarrow> (string \<times> string option) list \<Rightarrow> nat \<Rightarrow> string list \<Rightarrow> world
    \<Rightarrow> (nat \<times> string list) \<times> world" where
  "collect E me [] acked failed w = ((acked, failed), w)"
| "collect E me ((nid, err) # rs) acked failed w =
    (case err of
       Some e \<Rightarrow> collect E me rs acked (failed @ [nid]) (mark_down E me nid w)
     | None \<Rightarrow> collect E me rs (acked + 1) failed w)"

definition fanout ::
  "env \<Rightarrow> string \<Rightarrow> string \<Rightarrow> string list \<Rightarrow> kv_body \<Rightarrow> world \<Rightarrow> ((nat \<times> string list) \<times> world) option"
where
  "fanout E me meth owners b w =
    (case run_writes E me meth b (run_order E (calls w) owners) w of
       None \<Rightarrow> None
     | Some (rs, w1) \<Rightarrow>
         (let ((acked, failed), w2) = collect E me (arrival E (calls w) rs) 0 [] w1
          in Some ((acked, sort failed), w2)))"

text \<open>
  Read repair starts a goroutine per owner but the one that answered; they run at any
  later time (\<open>run_repair\<close>).
\<close>

definition readRepair ::
  "env \<Rightarrow> string \<Rightarrow> string \<Rightarrow> entry \<Rightarrow> string list \<Rightarrow> string \<Rightarrow> world \<Rightarrow> world" where
  "readRepair E me key ent owners servedBy w =
    (let (now, w1) = tick E w;
         rem = until_ms now (ExpiresAt ent);
         ttlMs = (if is_zero (ExpiresAt ent) then 0 else rem);
         b = \<lparr>kb_key = key, kb_value = Value ent, kb_ttl = ttlMs, kb_written = WrittenAt ent\<rparr>
     in if \<not> is_zero (ExpiresAt ent) \<and> rem \<le> 0 then w1
        else w1\<lparr>pending := pending w1 @
               map (\<lambda>nid. \<lparr>rp_from = me, rp_to = nid, rp_body = b\<rparr>)
                 (filter (\<lambda>nid. nid \<noteq> servedBy) owners)\<rparr>)"

definition run_repair :: "env \<Rightarrow> nat \<Rightarrow> world \<Rightarrow> world option" where
  "run_repair E i w =
    (if i < length (pending w) then
       (let p = pending w ! i; w1 = w\<lparr>pending := take i (pending w) @ drop (i + 1) (pending w)\<rparr>
        in map_option snd (writeOwner E (rp_from p) ''PUT'' (rp_to p) (rp_body p) w1))
     else Some w)"

section \<open>The public endpoints\<close>

fun get_loop ::
  "env \<Rightarrow> string \<Rightarrow> string \<Rightarrow> string list \<Rightarrow> string list \<Rightarrow> bool \<Rightarrow> world \<Rightarrow> (response \<times> world) option" where
  "get_loop E me key owners [] reached w =
    Some (if \<not> reached then http_error ''all replicas unreachable'' 503 else miss_resp key, w)"
| "get_loop E me key owners (nid # ids) reached w =
    (case readOwner E me nid key w of
       None \<Rightarrow> None
     | Some (Inl e, w1) \<Rightarrow> get_loop E me key owners ids reached (mark_down E me nid w1)
     | Some (Inr (ent, ok), w1) \<Rightarrow>
         if \<not> ok then get_loop E me key owners ids True w1
         else
           (let w2 = readRepair E me key ent owners nid w1; (now, w3) = tick E w2
            in Some (writeJSON 200 (encode_get (getPayload now key nid ent)), w3)))"

definition handleGet :: "env \<Rightarrow> string \<Rightarrow> request \<Rightarrow> world \<Rightarrow> (response \<times> world) option" where
  "handleGet E me r w =
    (if rMethod r \<noteq> ''GET'' then Some (http_error ''method'' 405, w)
     else
       (let key = rQuery r ''key'' in
        case validateKey key of
          Some e \<Rightarrow> Some (http_error e 400, w)
        | None \<Rightarrow>
            (let n = procs w me; owners = Owners (nring n) key (cReplicas (ncfg n))
             in if owners = [] then Some (http_error ''empty ring'' 503, w)
                else get_loop E me key owners (preferLocal owners (self_id me w)) False w)))"

text \<open>A write without a stamp gets the coordinator's clock.\<close>

definition stamp_body :: "env \<Rightarrow> kv_body \<Rightarrow> world \<Rightarrow> kv_body \<times> world" where
  "stamp_body E b w =
    (if kb_written b = 0 then (let (now, w1) = tick E w in (b\<lparr>kb_written := unix_nano now\<rparr>, w1))
     else (b, w))"

definition handleSet :: "env \<Rightarrow> string \<Rightarrow> request \<Rightarrow> world \<Rightarrow> (response \<times> world) option" where
  "handleSet E me r w =
    (if rMethod r \<noteq> ''PUT'' \<and> rMethod r \<noteq> ''POST'' then Some (http_error ''method'' 405, w)
     else
       (case Option.bind (readJSON (rBody r)) decode_kv of
          None \<Rightarrow> Some (http_error ''bad json'' 400, w)
        | Some b0 \<Rightarrow>
            (case validateKey (kb_key b0) of
               Some e \<Rightarrow> Some (http_error e 400, w)
             | None \<Rightarrow>
                 (case validateValue (kb_value b0) of
                    Some e \<Rightarrow> Some (http_error e 400, w)
                  | None \<Rightarrow>
                      if kb_ttl b0 < 0 then Some (http_error ''ttl_ms must be >= 0'' 400, w)
                      else
                        (let (b, w1) = stamp_body E b0 w;
                             n = procs w1 me;
                             owners = Owners (nring n) (kb_key b) (cReplicas (ncfg n))
                         in case fanout E me ''PUT'' owners b w1 of
                              None \<Rightarrow> None
                            | Some ((acked, failed), w2) \<Rightarrow>
                                Some (writeJSON (if acked = 0 then 503 else 200)
                                  (encode_write \<lparr>wr_key = kb_key b, wr_acked = acked,
                                     wr_replicas = owners, wr_failed = failed\<rparr>), w2))))))"

definition handleDelete :: "env \<Rightarrow> string \<Rightarrow> request \<Rightarrow> world \<Rightarrow> (response \<times> world) option" where
  "handleDelete E me r w =
    (if rMethod r \<noteq> ''DELETE'' then Some (http_error ''method'' 405, w)
     else
       (let key = rQuery r ''key'' in
        case validateKey key of
          Some e \<Rightarrow> Some (http_error e 400, w)
        | None \<Rightarrow>
            (let n = procs w me; owners = Owners (nring n) key (cReplicas (ncfg n))
             in case fanout E me ''DELETE'' owners (zero_kv\<lparr>kb_key := key\<rparr>) w of
                  None \<Rightarrow> None
                | Some ((acked, failed), w1) \<Rightarrow>
                    Some (writeJSON (if acked = 0 \<and> 0 < length owners then 503 else 200)
                      (encode_write \<lparr>wr_key = key, wr_acked = acked, wr_replicas = owners,
                         wr_failed = failed\<rparr>), w1))))"

text \<open>
  The coordinator relays the primary's answer: its status and at most 4096 bytes of body.
\<close>

definition limit_body :: "(rat \<Rightarrow> string) \<Rightarrow> body \<Rightarrow> body" where
  "limit_body ft b =
    (case b of
       BText t \<Rightarrow> BText (take 4096 t)
     | BJson j \<Rightarrow> if length (json_text ft j) \<le> 4096 then BJson j else BText (take 4096 (json_text ft j)))"

definition forwardRateLimit ::
  "env \<Rightarrow> string \<Rightarrow> string \<Rightarrow> rl_body \<Rightarrow> world \<Rightarrow> ((string + response) \<times> world) option" where
  "forwardRateLimit E me nid b w =
    (let base = trim_right_char CHR ''/'' (peerURL (procs w me) nid)
     in if base = '''' then Some (Inl ''unknown peer'', w)
        else
          (case client_do E base
             \<lparr>rPath = ''/internal/ratelimit/take'', rMethod = ''POST'', rQuery = (\<lambda>_. ''''),
              rBody = marshal (float_text E) (encode_rl b)\<rparr> w of
             None \<Rightarrow> None
           | Some (Inl e, w1) \<Rightarrow> Some (Inl e, w1)
           | Some (Inr res, w1) \<Rightarrow>
               Some (Inr \<lparr>rStatus = rStatus res, rReply = limit_body (float_text E) (rReply res)\<rparr>, w1)))"

definition handleRateLimitTake :: "env \<Rightarrow> string \<Rightarrow> request \<Rightarrow> world \<Rightarrow> (response \<times> world) option" where
  "handleRateLimitTake E me r w =
    (if rMethod r \<noteq> ''POST'' \<and> rMethod r \<noteq> ''PUT'' then Some (http_error ''method'' 405, w)
     else
       (case parseRateLimitBody (rBody r) of
          Inl e \<Rightarrow> Some (http_error e 400, w)
        | Inr b \<Rightarrow>
            (let primary = Primary (nring (procs w me)) (rb_key b)
             in if primary = '''' then Some (http_error ''empty ring'' 503, w)
                else if primary = self_id me w then
                  (let (res, w1) = local_take E me b w in Some (take_resp primary (self_id me w) res, w1))
                else
                  (case forwardRateLimit E me primary b w of
                     None \<Rightarrow> None
                   | Some (Inl e, w1) \<Rightarrow>
                       Some (http_error ''primary unreachable'' 503, mark_down E me primary w1)
                   | Some (Inr res, w1) \<Rightarrow> Some (res, w1)))))"


section \<open>Status and membership endpoints\<close>

definition handleHealth :: "string \<Rightarrow> request \<Rightarrow> world \<Rightarrow> response" where
  "handleHealth me r w =
    (if rMethod r \<noteq> ''GET'' then http_error ''method'' 405
     else writeJSON 200 (JObj [(''id'', JStr (self_id me w)), (''status'', JStr ''ok'')]))"

definition encode_stats :: "stats \<Rightarrow> json" where
  "encode_stats s = JObj [(''keys'', JInt (int (Keys s))), (''capacity'', JInt (stCapacity s)),
    (''hits'', JInt (uint (Hits s))), (''misses'', JInt (uint (Misses s))), (''sets'', JInt (uint (Sets s))),
    (''deletes'', JInt (uint (Deletes s))), (''evictions'', JInt (uint (Evictions s))),
    (''expired'', JInt (uint (Expired s))), (''skipped_stale_writes'', JInt (uint (Skipped s)))]"

text \<open>The answers of \<open>/stats\<close> and \<open>/ring\<close>.\<close>

record stats_resp =
  sr_id :: string
  sr_listen :: string
  sr_replicas :: int
  sr_vnodes :: int
  sr_store :: stats
  sr_buckets :: nat

record ring_resp =
  rg_id :: string
  rg_nodes :: "string list"
  rg_peers :: json
  rg_vnodes :: int
  rg_len :: nat
  rg_replicas :: int
  rg_key :: string
  rg_owners :: "string list"
  rg_formula :: string
  rg_hash :: string

definition encode_stats_resp :: "stats_resp \<Rightarrow> json" where
  "encode_stats_resp r = JObj [(''id'', JStr (sr_id r)), (''listen'', JStr (sr_listen r)),
    (''replicas'', JInt (sr_replicas r)), (''vnodes_per_node'', JInt (sr_vnodes r)),
    (''store'', encode_stats (sr_store r)), (''ratelimit_buckets'', JInt (int (sr_buckets r)))]"

definition encode_ring_resp :: "ring_resp \<Rightarrow> json" where
  "encode_ring_resp r = JObj ([(''id'', JStr (rg_id r)), (''nodes'', JArr (map JStr (rg_nodes r))),
    (''peers'', rg_peers r), (''vnodes_per_node'', JInt (rg_vnodes r)), (''ring_len'', JInt (int (rg_len r))),
    (''replicas'', JInt (rg_replicas r))]
    @ omit_str ''key'' (rg_key r)
    @ (if rg_owners r = [] then [] else [(''owners'', JArr (map JStr (rg_owners r)))])
    @ [(''vnode_formula'', JStr (rg_formula r)), (''hash'', JStr (rg_hash r))])"

definition handleStats :: "string \<Rightarrow> request \<Rightarrow> world \<Rightarrow> response" where
  "handleStats me r w =
    (if rMethod r \<noteq> ''GET'' then http_error ''method'' 405
     else
       (let n = procs w me; c = ncfg n
        in writeJSON 200 (encode_stats_resp
             \<lparr>sr_id = cID c, sr_listen = cListen c, sr_replicas = cReplicas c, sr_vnodes = cVNodes c,
              sr_store = Stats (nstore n), sr_buckets = Len_rl (nrl n)\<rparr>)))"

text \<open>What \<open>handleRing\<close> fills in before it looks at the key.\<close>

definition ring_resp_of :: "config \<Rightarrow> string list \<Rightarrow> json \<Rightarrow> nat \<Rightarrow> ring_resp" where
  "ring_resp_of c names peers points =
    \<lparr>rg_id = cID c, rg_nodes = names, rg_peers = peers, rg_vnodes = cVNodes c, rg_len = points,
     rg_replicas = cReplicas c, rg_key = '''', rg_owners = [],
     rg_formula = ''hash32(id + '' @ CHR 0x22 # CHR ''#'' # CHR 0x22 # '' + i)  // FNV-1a, i in [0, V)'',
     rg_hash = ''fnv-1a-32''\<rparr>"

definition handleRing :: "string \<Rightarrow> request \<Rightarrow> world \<Rightarrow> response" where
  "handleRing me r w =
    (if rMethod r \<noteq> ''GET'' then http_error ''method'' 405
     else
       (let n = procs w me; c = ncfg n; key = rQuery r ''key'';
            resp = ring_resp_of c (Nodes (nring n)) (snapshotPeers n) (Len_ring (nring n))
        in writeJSON 200 (encode_ring_resp
             (if key \<noteq> '''' then resp\<lparr>rg_key := key, rg_owners := Owners (nring n) key (cReplicas c)\<rparr> else resp))))"

lemmas status_defs = encode_stats_resp_def encode_ring_resp_def ring_resp_of_def

definition members_json :: "node \<Rightarrow> json" where
  "members_json n = JObj [(''id'', JStr (cID (ncfg n))), (''nodes'', JArr (map JStr (Nodes (nring n)))),
    (''ok'', JBool True), (''peers'', snapshotPeers n)]"

definition handleMembers :: "env \<Rightarrow> string \<Rightarrow> request \<Rightarrow> world \<Rightarrow> response \<times> world" where
  "handleMembers E me r w =
    (let n = procs w me in
     if rMethod r = ''GET'' then
       (writeJSON 200 (JObj [(''id'', JStr (cID (ncfg n))), (''nodes'', JArr (map JStr (Nodes (nring n)))),
          (''peers'', snapshotPeers n)]), w)
     else if rMethod r = ''PUT'' \<or> rMethod r = ''POST'' then
       (case Option.bind (readJSON (rBody r)) decode_member of
          None \<Rightarrow> (http_error ''bad json'' 400, w)
        | Some b \<Rightarrow>
            (case join (uri_ok E) (mb_id b) (mb_url b) n of
               Inl e \<Rightarrow> (http_error e 400, w)
             | Inr n' \<Rightarrow> (writeJSON 200 (members_json n'), upd me n' w)))
     else if rMethod r = ''DELETE'' then
       (case leave (rQuery r ''id'') n of
          Inl e \<Rightarrow> (http_error e 400, w)
        | Inr n' \<Rightarrow> (writeJSON 200 (members_json n'), upd me n' w))
     else (http_error ''method'' 405, w))"

section \<open>The mux\<close>

definition serve :: "env \<Rightarrow> string \<Rightarrow> request \<Rightarrow> world \<Rightarrow> (response \<times> world) option" where
  "serve E me r w =
    (let p = rPath r in
     if p = ''/health'' then Some (handleHealth me r w, w)
     else if p = ''/stats'' then Some (handleStats me r w, w)
     else if p = ''/ring'' then Some (handleRing me r w, w)
     else if p = ''/v1/get'' \<or> p = ''/get'' then handleGet E me r w
     else if p = ''/v1/set'' \<or> p = ''/set'' then handleSet E me r w
     else if p = ''/v1/delete'' \<or> p = ''/delete'' then handleDelete E me r w
     else if p = ''/internal/kv'' then handleInternalKV E me r w
     else if p = ''/v1/ratelimit/take'' then handleRateLimitTake E me r w
     else if p = ''/internal/ratelimit/take'' then Some (handleInternalRateLimitTake E me r w)
     else if p = ''/admin/members'' then Some (handleMembers E me r w)
     else Some (http_error ''404 page not found'' 404, w))"

end
