(* ===== verification/ClusterLogic.thy ===== *)
theory ClusterLogic
  imports Cluster
begin

text \<open>
  Reasoning about handlers once and for all. A handler composes a few primitives: local
  store and limiter operations, breaker updates, clock readings, network calls, repairs put
  in flight. The locale \<open>world_logic\<close> takes an invariant \<open>I\<close> of worlds, a reflexive and
  transitive relation \<open>R\<close> between worlds, and permissions (\<open>G\<close> for reads, \<open>M\<close> for breaker marks, \<open>B\<close> for the
  bodies that may be written, \<open>D\<close> for deletes, \<open>T\<close> for takes); if the permitted primitives
  return, keep \<open>I\<close> and move along \<open>R\<close>, then so does every handler that uses them.
\<close>

definition runs :: "(world \<Rightarrow> bool) \<Rightarrow> (world \<Rightarrow> world \<Rightarrow> bool) \<Rightarrow> world \<Rightarrow> ('a \<times> world) option \<Rightarrow> bool" where
  "runs I R w x \<longleftrightarrow> (\<exists>a w'. x = Some (a, w') \<and> I w' \<and> R w w')"

lemma runsI: "x = Some (a, w') \<Longrightarrow> I w' \<Longrightarrow> R w w' \<Longrightarrow> runs I R w x"
  by (auto simp: runs_def)

lemma runs_Some [simp]: "runs I R w (Some aw) \<longleftrightarrow> I (snd aw) \<and> R w (snd aw)"
  by (cases aw) (simp add: runs_def)

lemma runsE: "runs I R w x \<Longrightarrow> (\<And>a w'. x = Some (a, w') \<Longrightarrow> I w' \<Longrightarrow> R w w' \<Longrightarrow> P) \<Longrightarrow> P"
  by (auto simp: runs_def)

text \<open>A handler that only reads leaves the store operations' bodies unwritten.\<close>

definition body_of :: "payload \<Rightarrow> kv_body option" where
  "body_of p = Option.bind (readJSON p) decode_kv"

text \<open>A body that was sent on is read back as it was, or refused.\<close>

lemma decode_encode_kv_cases: "decode_kv (encode_kv b) \<in> {None, Some b}"
  by (simp add: decode_kv_def decode_struct_def encode_kv_def omit_int_def tags_fold field_defs zero_defs)

lemma marshal_body: "body_of (marshal ft (encode_kv b)) \<in> {None, Some b}"
  using decode_encode_kv_cases [of b] by (simp add: body_of_def readJSON_def marshal_def)

text \<open>The bodies \<open>handleSet\<close> may fan out: the decoded one, with a stamp when it has none.\<close>

definition set_bodies :: "request \<Rightarrow> kv_body set" where
  "set_bodies r = {b. \<exists>b0 wr. body_of (rBody r) = Some b0 \<and> b = b0\<lparr>kb_written := wr\<rparr>
    \<and> (kb_written b0 \<noteq> 0 \<longrightarrow> wr = kb_written b0)}"

locale world_logic =
  fixes E :: env
    and I :: "world \<Rightarrow> bool"
    and R :: "world \<Rightarrow> world \<Rightarrow> bool"
    and G M D T :: bool
    and B :: "kv_body \<Rightarrow> bool"
  assumes R_refl: "R w w"
    and R_trans: "R w w' \<Longrightarrow> R w' w'' \<Longrightarrow> R w w''"
    and tick_ok: "I w \<Longrightarrow> I (snd (tick E w)) \<and> R w (snd (tick E w))"
    and calls_ok: "I w \<Longrightarrow> I (w\<lparr>calls := c\<rparr>) \<and> R w (w\<lparr>calls := c\<rparr>)"
    and pending_ok: "I w \<Longrightarrow> I (w\<lparr>pending := ps\<rparr>) \<and> R w (w\<lparr>pending := ps\<rparr>)"
    and mark_ok: "M \<Longrightarrow> I w \<Longrightarrow> I (mark_down E me nid w) \<and> R w (mark_down E me nid w)"
    and down_ok: "G \<Longrightarrow> I w \<Longrightarrow> I (snd (is_down E me nid w)) \<and> R w (snd (is_down E me nid w))"
    and get_ok: "G \<Longrightarrow> I w \<Longrightarrow> I (snd (local_get E me key w)) \<and> R w (snd (local_get E me key w))"
    and set_ok: "B b \<Longrightarrow> I w \<Longrightarrow> runs I R w (local_set E me b w)"
    and delete_ok: "D \<Longrightarrow> I w \<Longrightarrow> I (snd (local_delete me key w)) \<and> R w (snd (local_delete me key w))"
    and take_ok: "T \<Longrightarrow> rl_valid rb \<Longrightarrow> I w \<Longrightarrow> I (snd (local_take E me rb w)) \<and> R w (snd (local_take E me rb w))"
begin

lemmas prim_ok = tick_ok calls_ok pending_ok mark_ok down_ok get_ok delete_ok take_ok

lemma runs_trans: "R w w' \<Longrightarrow> runs I R w' x \<Longrightarrow> runs I R w x"
  by (auto simp: runs_def intro: R_trans)

lemma internalKV_runs:
  assumes "I w"
    and "rMethod r = ''GET'' \<Longrightarrow> G" "rMethod r = ''DELETE'' \<Longrightarrow> D"
    and "\<And>b. rMethod r = ''PUT'' \<Longrightarrow> body_of (rBody r) = Some b \<Longrightarrow> B b"
  shows "runs I R w (handleInternalKV E me r w)"
proof -
  consider (get) "rMethod r = ''GET''" | (put) "rMethod r = ''PUT''" | (del) "rMethod r = ''DELETE''"
    | (other) "rMethod r \<noteq> ''GET''" "rMethod r \<noteq> ''PUT''" "rMethod r \<noteq> ''DELETE''" by blast
  then show ?thesis
  proof cases
    case get
    obtain ent ok w1 where g: "local_get E me (rQuery r ''key'') w = ((ent, ok), w1)"
      by (metis prod.exhaust)
    have w1: "I w1" "R w w1" using get_ok [OF assms(2) [OF get] assms(1), of me "rQuery r ''key''"] g by simp_all
    show ?thesis
      using get g w1 tick_ok [OF w1(1)] assms(1) R_refl R_trans [OF w1(2), of "snd (tick E w1)"]
      by (auto simp: handleInternalKV_def Let_def split_beta split: option.splits)
  next
    case put
    show ?thesis
    proof (cases "body_of (rBody r)")
      case None
      then show ?thesis using put assms(1) R_refl by (simp add: handleInternalKV_def body_of_def)
    next
      case (Some b)
      show ?thesis
      proof (cases "validateKey (kb_key b)")
        case (Some e)
        then show ?thesis using put assms(1) R_refl \<open>body_of (rBody r) = Some b\<close>
          by (simp add: handleInternalKV_def body_of_def)
      next
        case None
        obtain a w1 where s: "local_set E me b w = Some (a, w1)" "I w1" "R w w1"
          using set_ok [OF assms(4) [OF put Some] assms(1), of me] by (auto simp: runs_def)
        then show ?thesis using put None Some by (simp add: handleInternalKV_def body_of_def)
      qed
    qed
  next
    case del
    then show ?thesis
      using assms(1) R_refl delete_ok [OF assms(3) [OF del] assms(1), of me "rQuery r ''key''"]
      by (auto simp: handleInternalKV_def Let_def split_beta split: option.splits)
  next
    case other
    then show ?thesis using assms(1) R_refl by (simp add: handleInternalKV_def)
  qed
qed

lemma internalTake_ok:
  assumes "I w" "T"
  shows "I (snd (handleInternalRateLimitTake E me r w)) \<and> R w (snd (handleInternalRateLimitTake E me r w))"
  using assms take_ok R_refl
  by (auto simp: handleInternalRateLimitTake_def split_beta Let_def dest!: parse_valid split: sum.splits)

lemma client_runs:
  assumes "I w"
    and "rPath r = ''/internal/kv'' \<Longrightarrow> rMethod r = ''GET'' \<Longrightarrow> G"
    and "rPath r = ''/internal/kv'' \<Longrightarrow> rMethod r = ''DELETE'' \<Longrightarrow> D"
    and "\<And>b. rPath r = ''/internal/kv'' \<Longrightarrow> rMethod r = ''PUT'' \<Longrightarrow> body_of (rBody r) = Some b \<Longrightarrow> B b"
    and "rPath r \<noteq> ''/internal/kv'' \<Longrightarrow> T"
  shows "runs I R w (client_do E base r w)"
proof -
  define w1 where "w1 = w\<lparr>calls := calls w + 1\<rparr>"
  have w1: "I w1" "R w w1" using calls_ok [OF assms(1)] by (simp_all add: w1_def)
  define h where "h p = (if rPath r = ''/internal/kv'' then handleInternalKV E p r w1
      else Some (handleInternalRateLimitTake E p r w1))" for p
  have "runs I R w1 (h p)" for p
    using internalKV_runs [OF w1(1), of r p] internalTake_ok [OF w1(1), of p r] assms(2-)
    by (auto simp: h_def)
  then have "runs I R w (h p)" for p using runs_trans [OF w1(2)] by blast
  then obtain res w2 where h: "h p = Some (res p, w2 p)" "I (w2 p)" "R w (w2 p)" for p
    unfolding runs_def by metis
  show ?thesis
    using w1 h unfolding client_do_def Let_def w1_def [symmetric] h_def [symmetric]
    by (auto split: option.splits)
qed

lemma readOwner_runs: "G \<Longrightarrow> I w \<Longrightarrow> runs I R w (readOwner E me nid key w)"
proof -
  assume G and I: "I w"
  show ?thesis
  proof (cases "nid = self_id me w")
    case True
    then show ?thesis using get_ok [OF \<open>G\<close> I] by (simp add: readOwner_def split_beta Let_def)
  next
    case False
    obtain d w1 where d: "is_down E me nid w = (d, w1)" by force
    have w1: "I w1" "R w w1" using down_ok [OF \<open>G\<close> I, of me nid] d by simp_all
    let ?base = "trim_right_char CHR ''/'' (peerURL (procs w1 me) nid)"
    have "runs I R w1 (client_do E ?base (kv_request ''GET'' key empty_payload) w1)"
      using \<open>G\<close> by (intro client_runs [OF w1(1)]) (simp_all add: kv_request_eq)
    then obtain x w2 where c: "client_do E ?base (kv_request ''GET'' key empty_payload) w1 = Some (x, w2)"
        "I w2" "R w w2"
      using R_trans [OF w1(2)] by (auto elim!: runsE)
    have w3: "I (snd (tick E w2))" "R w (snd (tick E w2))"
      using tick_ok [OF c(2)] R_trans [OF c(3)] by blast+
    show ?thesis
      using False d w1 c w3
      by (auto simp: readOwner_def Let_def split_beta split: sum.splits option.splits)
  qed
qed

lemma writeOwner_runs:
  assumes "I w" "meth = ''PUT'' \<and> B b \<or> meth = ''DELETE'' \<and> D"
  shows "runs I R w (writeOwner E me meth nid b w)"
proof (cases "nid = self_id me w")
  case True
  then show ?thesis
    using assms set_ok [OF _ assms(1), of b me] delete_ok [OF _ assms(1), of me "kb_key b"]
    by (auto simp: writeOwner_def split_beta Let_def elim!: runsE)
next
  case False
  let ?base = "trim_right_char CHR ''/'' (peerURL (procs w me) nid)"
  let ?req = "if meth = ''DELETE'' then kv_request ''DELETE'' (kb_key b) empty_payload
    else kv_request ''PUT'' '''' (marshal (float_text E) (encode_kv b))"
  have "runs I R w (client_do E ?base ?req w)"
    using assms marshal_body [of "float_text E" b]
    by (intro client_runs) (auto simp: kv_request_eq split: if_splits)
  then obtain x w1 where "client_do E ?base ?req w = Some (x, w1)" "I w1" "R w w1"
    by (auto elim!: runsE)
  then show ?thesis
    using False assms(1) R_refl by (auto simp: writeOwner_def Let_def split: sum.splits)
qed

lemma run_writes_runs:
  assumes "meth = ''PUT'' \<and> B b \<or> meth = ''DELETE'' \<and> D"
  shows "I w \<Longrightarrow> runs I R w (run_writes E me meth b ids w)"
proof (induction ids arbitrary: w)
  case (Cons nid ids)
  obtain err w1 where w1: "writeOwner E me meth nid b w = Some (err, w1)" "I w1" "R w w1"
    using writeOwner_runs [OF Cons.prems assms, of me nid] by (auto elim!: runsE)
  have "runs I R w (run_writes E me meth b ids w1)"
    using Cons.IH [OF w1(2)] runs_trans [OF w1(3)] by blast
  then show ?case using w1(1) by (auto elim!: runsE)
qed (simp add: R_refl)

lemma collect_ok: "M \<Longrightarrow> I w \<Longrightarrow> I (snd (collect E me rs acked failed w)) \<and> R w (snd (collect E me rs acked failed w))"
proof (induction rs arbitrary: acked failed w)
  case (Cons r rs)
  obtain nid err where r: "r = (nid, err)" by force
  show ?case
  proof (cases err)
    case None
    then show ?thesis using Cons by (simp add: r)
  next
    case (Some e)
    have m: "I (mark_down E me nid w)" "R w (mark_down E me nid w)" using mark_ok [OF Cons.prems] by auto
    show ?thesis using Cons.IH [OF Cons.prems(1) m(1)] R_trans [OF m(2)] by (simp add: r Some)
  qed
qed (simp add: R_refl)

lemma fanout_runs:
  assumes "M" "I w" "meth = ''PUT'' \<and> B b \<or> meth = ''DELETE'' \<and> D"
  shows "runs I R w (fanout E me meth owners b w)"
proof -
  obtain rs w1 where w1: "run_writes E me meth b (run_order E (calls w) owners) w = Some (rs, w1)"
      "I w1" "R w w1"
    using run_writes_runs [OF assms(3,2), of me "run_order E (calls w) owners"] by (auto elim!: runsE)
  show ?thesis
    using w1 collect_ok [OF assms(1) w1(2)] R_trans [OF w1(3)]
    by (auto simp: fanout_def split_beta Let_def)
qed

lemma repair_ok: "I w \<Longrightarrow> I (readRepair E me key ent owners by_id w) \<and> R w (readRepair E me key ent owners by_id w)"
  using tick_ok [of w] pending_ok R_trans
  by (auto simp: readRepair_def Let_def split_beta)

lemma run_repair_ok:
  assumes "I w" "\<And>p. p \<in> set (pending w) \<Longrightarrow> B (rp_body p)"
  shows "\<exists>w'. run_repair E i w = Some w' \<and> I w' \<and> R w w'"
proof (cases "i < length (pending w)")
  case False
  then show ?thesis using assms(1) R_refl by (simp add: run_repair_def)
next
  case True
  define w1 where "w1 = w\<lparr>pending := take i (pending w) @ drop (i + 1) (pending w)\<rparr>"
  have w1: "I w1" "R w w1" using pending_ok [OF assms(1)] by (simp_all add: w1_def)
  have "B (rp_body (pending w ! i))" using assms(2) True by simp
  then have "runs I R w1 (writeOwner E (rp_from (pending w ! i)) ''PUT'' (rp_to (pending w ! i))
      (rp_body (pending w ! i)) w1)"
    by (intro writeOwner_runs [OF w1(1)]) simp
  then obtain a w' where w': "writeOwner E (rp_from (pending w ! i)) ''PUT'' (rp_to (pending w ! i))
      (rp_body (pending w ! i)) w1 = Some (a, w')" "I w'" "R w w'"
    using R_trans [OF w1(2)] by (auto elim!: runsE)
  moreover have "run_repair E i w = Some w'"
    using True w'(1) by (simp add: run_repair_def w1_def)
  ultimately show ?thesis by blast
qed

lemma get_loop_runs: "G \<Longrightarrow> M \<Longrightarrow> I w \<Longrightarrow> runs I R w (get_loop E me key owners ids reached w)"
proof (induction ids arbitrary: reached w)
  case (Cons nid ids)
  obtain x w1 where w1: "readOwner E me nid key w = Some (x, w1)" "I w1" "R w w1"
    using readOwner_runs [OF Cons.prems(1,3), of me nid key] by (auto elim!: runsE)
  have m: "runs I R w (get_loop E me key owners ids reached (mark_down E me nid w1))"
    using Cons.IH [OF Cons.prems(1,2)] mark_ok [OF Cons.prems(2) w1(2), of me nid] runs_trans R_trans [OF w1(3)] by blast
  have next_owner: "runs I R w (get_loop E me key owners ids True w1)"
    using Cons.IH [OF Cons.prems(1,2) w1(2)] runs_trans [OF w1(3)] by blast
  have r: "I (readRepair E me key ent owners nid w1)" "R w (readRepair E me key ent owners nid w1)" for ent
    using repair_ok [OF w1(2)] R_trans [OF w1(3)] by blast+
  have "I (snd (tick E (readRepair E me key ent owners nid w1)))"
    "R w (snd (tick E (readRepair E me key ent owners nid w1)))" for ent
    using tick_ok [OF r(1)] R_trans [OF r(2)] by blast+
  then show ?case using w1(1) m next_owner
    by (auto simp: Let_def split_beta split: sum.splits prod.splits)
qed (simp add: R_refl)

lemma handleGet_runs: "G \<Longrightarrow> M \<Longrightarrow> I w \<Longrightarrow> runs I R w (handleGet E me r w)"
  using get_loop_runs R_refl by (auto simp: handleGet_def Let_def split: option.splits)

lemma handleSet_runs:
  assumes "M" "I w" "\<And>b. b \<in> set_bodies r \<Longrightarrow> B b"
  shows "runs I R w (handleSet E me r w)"
proof (cases "body_of (rBody r)")
  case None
  then show ?thesis using assms(2) R_refl by (simp add: handleSet_def body_of_def)
next
  case (Some b0)
  obtain b w1 where bw1: "stamp_body E b0 w = (b, w1)" by force
  have w1: "I w1" "R w w1"
    using bw1 tick_ok [OF assms(2)] assms(2) R_refl
    by (auto simp: stamp_body_def split_beta split: if_splits)
  have "B b"
  proof (rule assms(3))
    show "b \<in> set_bodies r"
      using bw1 Some unfolding set_bodies_def stamp_body_def
      by (auto simp: split_beta split: if_splits intro: exI [of _ "kb_written b0"])
  qed
  then have "runs I R w1 (fanout E me ''PUT'' owners b w1)" for owners
    by (intro fanout_runs [OF assms(1) w1(1)]) simp
  then have "runs I R w (fanout E me ''PUT'' owners b w1)" for owners
    using runs_trans [OF w1(2)] by blast
  then obtain af w2 where f: "fanout E me ''PUT'' owners b w1 = Some (af owners, w2 owners)"
      "I (w2 owners)" "R w (w2 owners)" for owners
    unfolding runs_def by metis
  show ?thesis
    using Some assms(2) R_refl f bw1
    by (auto simp: handleSet_def body_of_def [symmetric] Let_def split: option.splits prod.splits)
qed

lemma handleDelete_runs:
  assumes "I w" "D" "M"
  shows "runs I R w (handleDelete E me r w)"
proof -
  have "runs I R w (fanout E me ''DELETE'' owners b w)" for owners b
    using assms by (intro fanout_runs) simp_all
  then obtain af w2 where f: "fanout E me ''DELETE'' owners b w = Some (af owners b, w2 owners b)"
      "I (w2 owners b)" "R w (w2 owners b)" for owners b
    unfolding runs_def by metis
  show ?thesis using assms(1) R_refl f
    by (auto simp: handleDelete_def Let_def split_beta split: option.splits)
qed

lemma forward_runs:
  assumes "I w" "T"
  shows "runs I R w (forwardRateLimit E me nid b w)"
proof -
  define rq where "rq = \<lparr>rPath = ''/internal/ratelimit/take'', rMethod = ''POST'',
    rQuery = (\<lambda>_. ''''), rBody = marshal (float_text E) (encode_rl b)\<rparr>"
  have "runs I R w (client_do E base rq w)" for base
    using assms by (intro client_runs) (simp_all add: rq_def)
  then obtain x w1 where "client_do E base rq w = Some (x base, w1 base)" "I (w1 base)" "R w (w1 base)" for base
    unfolding runs_def by metis
  then show ?thesis using assms(1) R_refl
    by (auto simp: forwardRateLimit_def rq_def [symmetric] Let_def split: sum.splits)
qed

lemma handleRateLimitTake_runs:
  assumes "I w" "T" "M"
  shows "runs I R w (handleRateLimitTake E me r w)"
proof -
  have m: "I (mark_down E me nid w1) \<and> R w (mark_down E me nid w1)" if w1: "I w1" "R w w1" for nid w1
    using mark_ok [OF assms(3) w1(1)] R_trans [OF w1(2)] by blast
  obtain x w1 where f: "forwardRateLimit E me nid b w = Some (x nid b, w1 nid b)"
      "I (w1 nid b)" "R w (w1 nid b)" for nid b
    using forward_runs [OF assms(1,2), of me] unfolding runs_def by metis
  show ?thesis
    using assms(1) R_refl take_ok [OF assms(2) _ assms(1)] f m [OF f(2,3)]
    by (auto simp: handleRateLimitTake_def Let_def split_beta dest!: parse_valid
        split: sum.splits option.splits)
qed

end

end
