(* ===== verification/ClusterInv.thy ===== *)
theory ClusterInv
  imports ClusterLogic
begin

text \<open>
  The invariant of the cluster, by interpretation of \<open>world_logic\<close>: every handler returns
  on every world whose processes are well-formed, keeps them well-formed, and leaves
  rings, peer maps and configurations alone unless it is a membership request. Further
  interpretations show that cache requests leave the rate limiter alone and the reverse.
\<close>

definition world_inv :: "env \<Rightarrow> world \<Rightarrow> bool" where
  "world_inv E w \<longleftrightarrow> (\<forall>p. node_inv (fpu_of (arch E)) (procs w p))"

definition same_members :: "world \<Rightarrow> world \<Rightarrow> bool" where
  "same_members w w' \<longleftrightarrow> (\<forall>p. ncfg (procs w' p) = ncfg (procs w p) \<and> nring (procs w' p) = nring (procs w p)
    \<and> npeers (procs w' p) = npeers (procs w p))"

definition same_limiters :: "world \<Rightarrow> world \<Rightarrow> bool" where
  "same_limiters w w' \<longleftrightarrow> (\<forall>p. nrl (procs w' p) = nrl (procs w p))"

definition same_caches :: "world \<Rightarrow> world \<Rightarrow> bool" where
  "same_caches w w' \<longleftrightarrow> (\<forall>p. nstore (procs w' p) = nstore (procs w p))"

lemmas same_defs = same_members_def same_limiters_def same_caches_def

section \<open>The primitives\<close>

lemma procs_tick [simp]: "procs (snd (tick E w)) = procs w"
  by (simp add: tick_def)

lemma pending_tick [simp]: "pending (snd (tick E w)) = pending w"
  by (simp add: tick_def)

lemma procs_upd [simp]: "procs (upd me n w) = (procs w)(me := n)"
  by (simp add: upd_def)

lemma procs_mark_down: "procs (mark_down E me nid w) = (procs w)(me := markDown (clock E (ticks w)) nid (procs w me))"
  by (simp add: mark_down_def tick_def)

lemma procs_is_down:
  "procs (snd (is_down E me nid w)) = (procs w)(me := snd (isDown (clock E (ticks w)) nid (procs w me)))"
  by (simp add: is_down_def tick_def split_beta)

lemma procs_local_get:
  "procs (snd (local_get E me key w))
    = (procs w)(me := (procs w me)\<lparr>nstore := snd (Get (clock E (ticks w)) key (nstore (procs w me)))\<rparr>)"
  by (simp add: local_get_def tick_def split_beta Let_def)

lemma procs_local_delete:
  "procs (snd (local_delete me key w))
    = (procs w)(me := (procs w me)\<lparr>nstore := snd (Delete key (nstore (procs w me)))\<rparr>)"
  by (simp add: local_delete_def split_beta)

lemma procs_local_take:
  "procs (snd (local_take E me b w)) = (procs w)(me := (procs w me)\<lparr>nrl :=
    snd (Take_store (fpu_of (arch E)) (clock E (ticks w)) (rb_key b) (rb_rate b) (rb_burst b) (rb_cost b)
      (nrl (procs w me)))\<rparr>)"
  by (simp add: local_take_def tick_def split_beta Let_def)

lemma local_set_eq:
  "local_set E me b w =
    (case Set (clock E (ticks w)) (kb_key b) (kb_value b) (dur_mul (kb_ttl b) millisecond) (kb_written b)
        (nstore (procs w me)) of
       None \<Rightarrow> None
     | Some (applied, s) \<Rightarrow> Some (applied, upd me ((procs w me)\<lparr>nstore := s\<rparr>) (w\<lparr>ticks := ticks w + 1\<rparr>)))"
  by (auto simp: local_set_def tick_def Let_def split: option.splits)

lemmas procs_prims = procs_mark_down procs_is_down procs_local_get procs_local_delete procs_local_take

lemma node_inv_store: "node_inv M n \<Longrightarrow> store_inv s \<Longrightarrow> node_inv M (n\<lparr>nstore := s\<rparr>)"
  by (auto simp: node_inv_def)

lemma node_inv_rl: "node_inv M n \<Longrightarrow> rl_inv M s \<Longrightarrow> node_inv M (n\<lparr>nrl := s\<rparr>)"
  by (auto simp: node_inv_def)

lemma node_invD: "node_inv M n \<Longrightarrow> store_inv (nstore n)" "node_inv M n \<Longrightarrow> rl_inv M (nrl n)"
  "node_inv M n \<Longrightarrow> ring_reachable (nring n)"
  by (simp_all add: node_inv_def)

lemma node_inv_get: "node_inv M n \<Longrightarrow> node_inv M (n\<lparr>nstore := snd (Get now key (nstore n))\<rparr>)"
  by (simp add: node_inv_store inv_ops node_invD)

lemma node_inv_delete: "node_inv M n \<Longrightarrow> node_inv M (n\<lparr>nstore := snd (Delete key (nstore n))\<rparr>)"
  by (simp add: node_inv_store inv_ops node_invD)

lemma node_inv_sweep: "node_inv M n \<Longrightarrow> node_inv M (n\<lparr>nstore := sweep now (nstore n)\<rparr>)"
  by (simp add: node_inv_store inv_ops node_invD)

lemma world_invD: "world_inv E w \<Longrightarrow> node_inv (fpu_of (arch E)) (procs w p)"
  by (simp add: world_inv_def)

lemma local_set_SomeE:
  assumes "world_inv E w"
  obtains b' s where "Set (clock E (ticks w)) (kb_key b) (kb_value b) (dur_mul (kb_ttl b) millisecond)
      (kb_written b) (nstore (procs w me)) = Some (b', s)" "store_inv s"
    "local_set E me b w = Some (b', upd me ((procs w me)\<lparr>nstore := s\<rparr>) (w\<lparr>ticks := ticks w + 1\<rparr>))"
proof -
  have inv: "store_inv (nstore (procs w me))" using world_invD [OF assms] by (rule node_invD)
  obtain b' s where s: "Set (clock E (ticks w)) (kb_key b) (kb_value b) (dur_mul (kb_ttl b) millisecond)
      (kb_written b) (nstore (procs w me)) = Some (b', s)" "store_inv s"
    using Set_refines [OF inv] by metis
  with that show thesis by (simp add: local_set_eq)
qed

lemma take_world_inv:
  assumes "rl_valid rb" "world_inv E w"
  shows "world_inv E (snd (local_take E me rb w))"
proof -
  have "rl_inv (fpu_of (arch E)) (snd (Take_store (fpu_of (arch E)) (clock E (ticks w)) (rb_key rb)
      (rb_rate rb) (rb_burst rb) (rb_cost rb) (nrl (procs w me))))"
    using assms node_invD(2) [OF world_invD [OF assms(2)]]
    by (intro go.Take_store_inv) (auto simp: rl_valid_def is_float_def)
  then show ?thesis
    using assms(2) by (auto simp: world_inv_def procs_prims node_inv_rl)
qed

section \<open>Interpretations\<close>

interpretation wf: world_logic E "world_inv E" same_members True True True True "\<lambda>_. True" for E
proof unfold_locales
  fix w :: world and me key nid :: string and b :: kv_body and rb :: rl_body
  show "runs (world_inv E) same_members w (local_set E me b w)" if w: "world_inv E w"
  proof -
    obtain b' s where s: "store_inv s"
        "local_set E me b w = Some (b', upd me ((procs w me)\<lparr>nstore := s\<rparr>) (w\<lparr>ticks := ticks w + 1\<rparr>))"
      using local_set_SomeE [OF w, of b me] by metis
    show ?thesis
      by (rule runsI [OF s(2)]) (use w s(1) in \<open>auto simp: world_inv_def same_defs node_inv_store\<close>)
  qed
  show "world_inv E w \<Longrightarrow> rl_valid rb
      \<Longrightarrow> world_inv E (snd (local_take E me rb w)) \<and> same_members w (snd (local_take E me rb w))"
    by (auto simp: take_world_inv same_defs procs_prims)
qed (auto simp: world_inv_def same_defs procs_prims node_inv_get node_inv_delete markDown_inv
    isDown_inv markDown_frame isDown_frame)

text \<open>Requests for values never touch a limiter, and takes never touch a cache.\<close>

interpretation kv: world_logic E "world_inv E" same_limiters True True True False "\<lambda>_. True" for E
proof unfold_locales
  fix w :: world and me :: string and b :: kv_body
  show "runs (world_inv E) same_limiters w (local_set E me b w)" if w: "world_inv E w"
  proof -
    obtain b' s where s: "store_inv s"
        "local_set E me b w = Some (b', upd me ((procs w me)\<lparr>nstore := s\<rparr>) (w\<lparr>ticks := ticks w + 1\<rparr>))"
      using local_set_SomeE [OF w, of b me] by metis
    show ?thesis
      by (rule runsI [OF s(2)]) (use w s(1) in \<open>auto simp: world_inv_def same_defs node_inv_store\<close>)
  qed
qed (auto simp: world_inv_def same_defs procs_prims node_inv_get node_inv_delete markDown_inv
    isDown_inv markDown_frame isDown_frame)

interpretation tk: world_logic E "world_inv E" same_caches False True False True "\<lambda>_. False" for E
proof unfold_locales
  fix w :: world and me :: string and rb :: rl_body
  show "world_inv E (snd (local_take E me rb w)) \<and> same_caches w (snd (local_take E me rb w))"
    if "world_inv E w" "rl_valid rb"
    using that by (auto simp: take_world_inv same_defs procs_prims)
qed (auto simp: world_inv_def same_defs procs_prims markDown_inv isDown_inv markDown_frame isDown_frame)

section \<open>Whole requests and runs of the cluster\<close>

lemma members_effect:
  "snd (handleMembers E me r w) = w
    \<or> (\<exists>n' x u. (join (uri_ok E) x u (procs w me) = Inr n' \<or> leave x (procs w me) = Inr n')
      \<and> snd (handleMembers E me r w) = upd me n' w)"
  unfolding handleMembers_def Let_def by (auto split: option.splits sum.splits)

lemma members_inv:
  assumes "world_inv E w"
  shows "world_inv E (snd (handleMembers E me r w))"
proof -
  have "node_inv (fpu_of (arch E)) n'"
    if "join (uri_ok E) x u (procs w me) = Inr n' \<or> leave x (procs w me) = Inr n'" for n' x u
    using that join_inv leave_inv world_invD [OF assms] by blast
  then have "world_inv E (upd me n' w)"
    if "join (uri_ok E) x u (procs w me) = Inr n' \<or> leave x (procs w me) = Inr n'" for n' x u
    using that assms by (simp add: world_inv_def)
  then show ?thesis using members_effect [of E me r w] assms by metis
qed

lemma serve_runs: "world_inv E w \<Longrightarrow> \<exists>res w'. serve E me r w = Some (res, w') \<and> world_inv E w'"
proof -
  assume w: "world_inv E w"
  have "runs (world_inv E) same_members w (handleGet E me r w)"
    "runs (world_inv E) same_members w (handleSet E me r w)"
    "runs (world_inv E) same_members w (handleDelete E me r w)"
    "runs (world_inv E) same_members w (handleInternalKV E me r w)"
    "runs (world_inv E) same_members w (handleRateLimitTake E me r w)"
    by (rule wf.handleGet_runs wf.handleSet_runs wf.handleDelete_runs wf.internalKV_runs
        wf.handleRateLimitTake_runs; simp add: w)+
  moreover obtain a1 w1 where "handleMembers E me r w = (a1, w1)" by force
  moreover obtain a2 w2 where "handleInternalRateLimitTake E me r w = (a2, w2)" by force
  ultimately show ?thesis
    using w members_inv [OF w, of me r] wf.internalTake_ok [OF w TrueI, of me r]
    unfolding serve_def Let_def by (auto simp: runs_def)
qed

text \<open>The janitors of one process: the store's and the limiter's.\<close>

definition store_tick :: "env \<Rightarrow> string \<Rightarrow> world \<Rightarrow> world" where
  "store_tick E p w = (let (now, w1) = tick E w; n = procs w1 p in upd p (n\<lparr>nstore := sweep now (nstore n)\<rparr>) w1)"

definition limiter_tick :: "env \<Rightarrow> string \<Rightarrow> world \<Rightarrow> world" where
  "limiter_tick E p w = (let (now, w1) = tick E w; n = procs w1 p in upd p (n\<lparr>nrl := sweep_rl now (nrl n)\<rparr>) w1)"

inductive cluster_step :: "env \<Rightarrow> world \<Rightarrow> world \<Rightarrow> bool" for E where
  step_serve: "serve E me r w = Some (res, w') \<Longrightarrow> cluster_step E w w'"
| step_repair: "run_repair E i w = Some w' \<Longrightarrow> cluster_step E w w'"
| step_store_tick: "cluster_step E w (store_tick E p w)"
| step_limiter_tick: "cluster_step E w (limiter_tick E p w)"

text \<open>A cluster starts with processes that \<open>New\<close> accepted and no repair in flight.\<close>

definition boot :: "world \<Rightarrow> bool" where
  "boot w \<longleftrightarrow> pending w = [] \<and> (\<forall>p. \<exists>c. gm_ok (cPeers c) \<and> New_node c = Inr (procs w p))"

inductive cluster_reach :: "env \<Rightarrow> world \<Rightarrow> bool" for E where
  reach_boot: "boot w \<Longrightarrow> cluster_reach E w"
| reach_step: "cluster_reach E w \<Longrightarrow> cluster_step E w w' \<Longrightarrow> cluster_reach E w'"

inductive_cases cluster_stepE: "cluster_step E w w'"

lemma cluster_step_inv: "world_inv E w \<Longrightarrow> cluster_step E w w' \<Longrightarrow> world_inv E w'"
proof (erule cluster_stepE)
  fix me r res assume "world_inv E w" "serve E me r w = Some (res, w')"
  then show "world_inv E w'" using serve_runs [of E w me r] by auto
next
  fix i assume "world_inv E w" "run_repair E i w = Some w'"
  then show "world_inv E w'" using wf.run_repair_ok [of E w i] by auto
next
  fix p assume "world_inv E w" "w' = store_tick E p w"
  then show "world_inv E w'"
    by (auto simp: store_tick_def tick_def Let_def world_inv_def node_inv_sweep)
next
  fix p assume "world_inv E w" "w' = limiter_tick E p w"
  then show "world_inv E w'"
    by (auto simp: limiter_tick_def tick_def Let_def world_inv_def node_inv_rl sweep_rl_inv node_invD)
qed

lemma cluster_reach_inv: "cluster_reach E w \<Longrightarrow> world_inv E w"
proof (induction rule: cluster_reach.induct)
  case (reach_boot w)
  then show ?case unfolding boot_def world_inv_def by (metis New_node_inv)
qed (rule cluster_step_inv)

end
