(* ===== verification/Replication.thy ===== *)
theory Replication
  imports ClusterInv
begin

text \<open>
  What a replicated write does to the caches of the cluster, under any loss of requests
  and responses: on every process the key keeps its value or takes the written one by the
  last-writer-wins rule, and an owner counted as acknowledged has done so. The theory then
  fixes a healthy, uniformly configured cluster and shows that writes reach every owner.
\<close>

section \<open>Last writer wins, on a process\<close>

definition lww_val :: "kv_body \<Rightarrow> (string \<times> int) option \<Rightarrow> (string \<times> int) option" where
  "lww_val b old =
    (case old of
       Some v \<Rightarrow> if snd v > kb_written b then Some v else Some (kb_value b, kb_written b)
     | None \<Rightarrow> Some (kb_value b, kb_written b))"

lemma lww_val_idem [simp]: "lww_val b (lww_val b old) = lww_val b old"
  by (auto simp: lww_val_def split: option.splits)

definition held :: "string \<Rightarrow> string \<Rightarrow> world \<Rightarrow> (string \<times> int) option" where
  "held key p w = stored key (nstore (procs w p))"

text \<open>
  The item a process stores for a key, and what a write without TTL leaves there. \<open>applied\<close>
  says that a process took part in the write of \<open>b\<close>: by value and stamp for every write,
  by the whole item for one that never expires.
\<close>

definition slot :: "string \<Rightarrow> string \<Rightarrow> world \<Rightarrow> item option" where
  "slot key p w = lookup key (entries (nstore (procs w p)))"

definition slot_item :: "kv_body \<Rightarrow> item" where
  "slot_item b = \<lparr>ikey = kb_key b, ivalue = kb_value b, iexpires = zero_time, iwritten = kb_written b\<rparr>"

definition lww_slot :: "kv_body \<Rightarrow> item option \<Rightarrow> item option" where
  "lww_slot b old =
    (case old of
       Some it \<Rightarrow> if iwritten it > kb_written b then Some it else Some (slot_item b)
     | None \<Rightarrow> Some (slot_item b))"

lemma lww_slot_idem [simp]: "lww_slot b (lww_slot b old) = lww_slot b old"
  by (auto simp: lww_slot_def slot_item_def split: option.splits)

lemma held_slot: "held key p w = map_option (\<lambda>it. (ivalue it, iwritten it)) (slot key p w)"
  by (simp add: held_def slot_def stored_def)

definition applied :: "kv_body \<Rightarrow> string \<Rightarrow> world \<Rightarrow> world \<Rightarrow> bool" where
  "applied b p w w' \<longleftrightarrow> held (kb_key b) p w' = lww_val b (held (kb_key b) p w)
    \<and> (kb_ttl b = 0 \<longrightarrow> slot (kb_key b) p w' = lww_slot b (slot (kb_key b) p w))"

text \<open>How a write of \<open>b\<close> may change the world.\<close>

definition rep_rel :: "kv_body \<Rightarrow> world \<Rightarrow> world \<Rightarrow> bool" where
  "rep_rel b w w' \<longleftrightarrow> same_members w w' \<and> same_limiters w w'
    \<and> (\<forall>p. downUntil (procs w' p) = downUntil (procs w p)
        \<and> (slot (kb_key b) p w' = slot (kb_key b) p w \<or> applied b p w w'))"

lemma Set_lookup:
  assumes "store_inv s" "Set now key v ttl wr s = Some (ok, s')"
  shows "lookup key (entries s') = (case lookup key (entries s) of
      Some it \<Rightarrow> if iwritten it > wr then Some it
        else Some \<lparr>ikey = key, ivalue = v, iexpires = expiry now ttl, iwritten = wr\<rparr>
    | None \<Rightarrow> Some \<lparr>ikey = key, ivalue = v, iexpires = expiry now ttl, iwritten = wr\<rparr>)"
  by (auto simp: Set_SomeD(3) [OF assms] lru_set_def Let_def split: option.splits)

lemma local_set_applied:
  assumes "world_inv E w"
  shows "\<exists>a w'. local_set E me b w = Some (a, w') \<and> world_inv E w' \<and> rep_rel b w w' \<and> applied b me w w'"
proof -
  obtain ok s where s: "Set (clock E (ticks w)) (kb_key b) (kb_value b) (dur_mul (kb_ttl b) millisecond)
      (kb_written b) (nstore (procs w me)) = Some (ok, s)" "store_inv s"
    "local_set E me b w = Some (ok, upd me ((procs w me)\<lparr>nstore := s\<rparr>) (w\<lparr>ticks := ticks w + 1\<rparr>))"
    using local_set_SomeE [OF assms] .
  define w' where "w' = upd me ((procs w me)\<lparr>nstore := s\<rparr>) (w\<lparr>ticks := ticks w + 1\<rparr>)"
  have inv: "store_inv (nstore (procs w me))" using world_invD [OF assms] by (rule node_invD)
  have w': "world_inv E w'" "slot k p w' = slot k p w \<or> p = me" "same_members w w'" "same_limiters w w'"
    "downUntil (procs w' p) = downUntil (procs w p)" for k p
    using s(2) assms by (auto simp: w'_def world_inv_def node_inv_store same_defs slot_def)
  have slot: "slot (kb_key b) me w' = lookup (kb_key b) (entries s)" by (simp add: slot_def w'_def)
  have "dur_mul 0 millisecond = 0" by (simp add: dur_mul_def wrap64_def)
  then have "applied b me w w'"
    unfolding applied_def held_slot slot Set_lookup [OF inv s(1)]
    by (auto simp: slot_def lww_val_def lww_slot_def slot_item_def expiry_def split: option.splits)
  with w' have "rep_rel b w w'" unfolding rep_rel_def by metis
  with \<open>applied b me w w'\<close> w'(1) s(3) show ?thesis unfolding w'_def [symmetric] by blast
qed

lemma applied_after:
  "slot (kb_key b) p w' = slot (kb_key b) p w \<or> applied b p w w' \<Longrightarrow> applied b p w' w'' \<Longrightarrow> applied b p w w''"
  by (elim disjE) (simp_all add: applied_def held_slot)

lemma applied_before:
  "applied b p w w' \<Longrightarrow> slot (kb_key b) p w'' = slot (kb_key b) p w' \<or> applied b p w' w'' \<Longrightarrow> applied b p w w''"
  by (elim disjE) (simp_all add: applied_def held_slot)

lemma applied_trans:
  "slot (kb_key b) p w' = slot (kb_key b) p w \<or> applied b p w w'
    \<Longrightarrow> slot (kb_key b) p w'' = slot (kb_key b) p w' \<or> applied b p w' w''
    \<Longrightarrow> slot (kb_key b) p w'' = slot (kb_key b) p w \<or> applied b p w w''"
  using applied_after applied_before by metis

lemma rep_rel_trans: "rep_rel b w w' \<Longrightarrow> rep_rel b w' w'' \<Longrightarrow> rep_rel b w w''"
  unfolding rep_rel_def using applied_trans [of b _ w' w w''] by (auto simp: same_defs)

interpretation wr: world_logic E "world_inv E" "rep_rel b" False False False False "\<lambda>b'. b' = b" for E b
proof unfold_locales
  fix w w' w'' :: world
  show "rep_rel b w w' \<Longrightarrow> rep_rel b w' w'' \<Longrightarrow> rep_rel b w w''" by (rule rep_rel_trans)
  show "runs (world_inv E) (rep_rel b) w (local_set E me b' w)" if "b' = b" "world_inv E w" for me b'
    using local_set_applied [OF that(2), of me b] that(1) by (auto simp: runs_def)
qed (auto simp: rep_rel_def same_defs slot_def world_inv_def)

section \<open>Acknowledged writes are applied\<close>

text \<open>The process an owner's name leads to from \<open>me\<close>.\<close>

definition target :: "env \<Rightarrow> string \<Rightarrow> string \<Rightarrow> world \<Rightarrow> string option" where
  "target E me nid w =
    (if nid = self_id me w then Some me
     else route E (trim_right_char CHR ''/'' (peerURL (procs w me) nid)))"

lemma target_same: "same_members w w' \<Longrightarrow> target E me nid w' = target E me nid w"
  by (simp add: target_def same_defs peerURL_def)

lemma internalPUT_ack:
  assumes "world_inv E w" "rMethod r = ''PUT''" "body_of (rBody r) \<in> {None, Some b}"
    and "handleInternalKV E p r w = Some (res, w')" "rStatus res < 300"
  shows "applied b p w w'"
proof (cases "body_of (rBody r)")
  case None
  then show ?thesis using assms(2,4,5) by (auto simp: handleInternalKV_def body_of_def http_error_def)
next
  case (Some b')
  then have b: "body_of (rBody r) = Some b" using assms(3) by simp
  show ?thesis
  proof (cases "validateKey (kb_key b)")
    case (Some e)
    then show ?thesis using assms(2,4,5) b
      by (auto simp: handleInternalKV_def body_of_def http_error_def)
  next
    case None
    obtain a w1 where "local_set E p b w = Some (a, w1)"
        "applied b p w w1"
      using local_set_applied [OF assms(1), of p b] by metis
    then show ?thesis using assms(2,4) b None by (simp add: handleInternalKV_def body_of_def)
  qed
qed

lemma slot_calls [simp]: "slot key p (w\<lparr>calls := c\<rparr>) = slot key p w"
  by (simp add: slot_def)

lemma applied_calls [simp]: "applied b p (w\<lparr>calls := c\<rparr>) w' = applied b p w w'"
  by (simp add: applied_def held_slot)

lemma world_inv_calls [simp]: "world_inv E (w\<lparr>calls := c\<rparr>) = world_inv E w"
  by (simp add: world_inv_def)

lemma writeOwner_ack:
  assumes "world_inv E w" "writeOwner E me ''PUT'' nid b w = Some (None, w')"
  shows "\<exists>p. target E me nid w = Some p \<and> applied b p w w'"
proof (cases "nid = self_id me w")
  case True
  obtain a w1 where "local_set E me b w = Some (a, w1)"
      "applied b me w w1"
    using local_set_applied [OF assms(1), of me b] by metis
  then show ?thesis using assms(2) True by (simp add: writeOwner_def target_def)
next
  case False
  define base where "base = trim_right_char CHR ''/'' (peerURL (procs w me) nid)"
  define req where "req = kv_request ''PUT'' '''' (marshal (float_text E) (encode_kv b))"
  obtain res where c: "client_do E base req w = Some (Inr res, w')" "rStatus res < 300"
    using assms(2) False
    by (auto simp: writeOwner_def Let_def base_def req_def split: option.splits if_splits sum.splits)
  then obtain p where p: "route E base = Some p"
      "handleInternalKV E p req (w\<lparr>calls := calls w + 1\<rparr>) = Some (res, w')"
    by (auto simp: client_do_def Let_def req_def kv_request_eq split: option.splits if_splits)
  have "applied b p (w\<lparr>calls := calls w + 1\<rparr>) w'"
    by (rule internalPUT_ack [OF _ _ _ p(2) c(2)])
      (use assms(1) marshal_body in \<open>simp_all add: req_def kv_request_eq\<close>)
  then show ?thesis using False p(1) by (simp add: target_def base_def)
qed

lemma run_writes_ack:
  "world_inv E w \<Longrightarrow> run_writes E me ''PUT'' b ids w = Some (rs, w')
    \<Longrightarrow> map fst rs = ids \<and> (\<forall>nid. (nid, None) \<in> set rs \<longrightarrow>
      (\<exists>p. target E me nid w = Some p \<and> applied b p w w'))"
proof (induction ids arbitrary: w rs)
  case (Cons x ids)
  obtain err w1 rs1 where e: "writeOwner E me ''PUT'' x b w = Some (err, w1)"
      "run_writes E me ''PUT'' b ids w1 = Some (rs1, w')" "rs = (x, err) # rs1"
    using Cons.prems(2) by (auto split: option.splits)
  have w1: "world_inv E w1" "rep_rel b w w1"
    using wr.writeOwner_runs [OF Cons.prems(1), of "''PUT''" b b me x] e(1) by (auto simp: runs_def)
  have w': "rep_rel b w1 w'"
    using wr.run_writes_runs [of "''PUT''" b b, OF _ w1(1), of me ids] e(2) by (auto simp: runs_def)
  have tgt: "target E me nid w1 = target E me nid w" for nid
    using w1(2) by (simp add: rep_rel_def target_same)
  have step: "applied b p w1 w' \<Longrightarrow> applied b p w w'" for p
    using w1(2) applied_after unfolding rep_rel_def by metis
  have "err = None \<Longrightarrow> \<exists>p. target E me x w = Some p \<and> applied b p w w'"
    using writeOwner_ack [OF Cons.prems(1), of me x b w1] e(1) w' applied_before unfolding rep_rel_def
    by metis
  then show ?case
    using Cons.IH [OF w1(1) e(2)] step by (auto simp: e(3) tgt)
qed simp

lemma collect_result:
  "fst (collect E me rs a f w) = (a + length (filter (\<lambda>r. snd r = None) rs),
    f @ map fst (filter (\<lambda>r. snd r \<noteq> None) rs))"
proof (induction rs arbitrary: a f w)
  case (Cons r rs)
  obtain x err where "r = (x, err)" by force
  then show ?case using Cons by (cases err) auto
qed simp

text \<open>The result of a fan-out is the same for every order in which its results arrive.\<close>

lemma collect_arrival:
  assumes "mset rs = mset rs'"
  shows "fst (fst (collect E me rs 0 [] w)) = fst (fst (collect E me rs' 0 [] w'))
    \<and> sort (snd (fst (collect E me rs 0 [] w))) = sort (snd (fst (collect E me rs' 0 [] w')))"
proof -
  have "mset (filter P rs) = mset (filter P rs')" for P using assms by simp
  then have "length (filter P rs) = length (filter P rs')"
    "mset (map fst (filter P rs)) = mset (map fst (filter P rs'))" for P
    by (metis size_mset, metis mset_map)
  then show ?thesis by (simp add: collect_result sort_perm_eq)
qed


section \<open>Fan-out and Set under arbitrary losses\<close>

text \<open>The goroutines and the channel deliver what was started: orders are permutations.\<close>

definition env_ok :: "env \<Rightarrow> bool" where
  "env_ok E \<longleftrightarrow> (\<forall>k xs. mset (run_order E k xs) = mset xs) \<and> (\<forall>k rs. mset (arrival E k rs) = mset rs)"

definition replicated :: "env \<Rightarrow> string \<Rightarrow> kv_body \<Rightarrow> string list \<Rightarrow> string list \<Rightarrow> world \<Rightarrow> world \<Rightarrow> bool" where
  "replicated E me b owners failed w w' \<longleftrightarrow> set failed \<subseteq> set owners \<and> sorted failed \<and> distinct failed
    \<and> (\<forall>nid \<in> set owners - set failed. \<exists>p. target E me nid w = Some p
        \<and> applied b p w w')
    \<and> (\<forall>p. slot (kb_key b) p w' = slot (kb_key b) p w
        \<or> applied b p w w')"

lemma same_caches_slot: "same_caches w w' \<Longrightarrow> slot key p w' = slot key p w"
  by (simp add: same_defs slot_def)

lemma same_caches_applied: "same_caches w1 w2 \<Longrightarrow> applied b p w w2 = applied b p w w1"
  by (simp add: applied_def held_slot same_caches_slot)

text \<open>The results of a fan-out, split into acknowledgements and failures.\<close>

lemma split_results:
  assumes "mset rs' = mset rs" "mset (map fst rs) = mset owners" "distinct owners"
  defines "bad \<equiv> map fst (filter (\<lambda>r. snd r \<noteq> None) rs')"
  shows "length (filter (\<lambda>r. snd r = None) rs') + length bad = length owners" "set bad \<subseteq> set owners"
    "distinct bad" "nid \<in> set owners - set bad \<Longrightarrow> (nid, None) \<in> set rs"
proof -
  have perm: "mset (map fst rs') = mset owners" using assms(1,2) by (metis mset_map)
  have "length rs' = length owners" using perm by (metis length_map size_mset)
  then show "length (filter (\<lambda>r. snd r = None) rs') + length bad = length owners"
    unfolding bad_def length_map by (metis sum_length_filter_compl)
  have set: "set (map fst rs') = set owners" using perm by (rule mset_eq_setD)
  then show "set bad \<subseteq> set owners" by (auto simp: bad_def)
  have "distinct (map fst rs')" using perm assms(3) by (metis mset_eq_imp_distinct_iff)
  then show "distinct bad" by (simp add: bad_def distinct_map_filter)
  assume nid: "nid \<in> set owners - set bad"
  then have "nid \<in> set (map fst rs')" using set by blast
  then obtain err where "(nid, err) \<in> set rs'" by auto
  moreover have "err = None"
  proof (rule ccontr)
    assume "err \<noteq> None"
    then have "(nid, err) \<in> set (filter (\<lambda>r. snd r \<noteq> None) rs')" using \<open>(nid, err) \<in> set rs'\<close> by simp
    then have "fst (nid, err) \<in> set bad" unfolding bad_def set_map by (rule imageI)
    then show False using nid by simp
  qed
  ultimately show "(nid, None) \<in> set rs" using mset_eq_setD [OF assms(1)] by simp
qed

lemma fanout_put:
  assumes w: "world_inv E w" and env: "env_ok E" and owners: "distinct owners"
  shows "\<exists>acked failed w'. fanout E me ''PUT'' owners b w = Some ((acked, failed), w') \<and> world_inv E w'
    \<and> acked + length failed = length owners \<and> replicated E me b owners failed w w'"
proof -
  define ids where "ids = run_order E (calls w) owners"
  have ids: "mset ids = mset owners" using env by (simp add: env_ok_def ids_def)
  obtain rs w1 where rw: "run_writes E me ''PUT'' b ids w = Some (rs, w1)" "world_inv E w1" "rep_rel b w w1"
    using wr.run_writes_runs [of "''PUT''" b b, OF _ w, of me ids] by (auto simp: runs_def)
  note ack = run_writes_ack [OF w rw(1)]
  define rs' where "rs' = arrival E (calls w) rs"
  have rs': "mset rs' = mset rs" using env by (simp add: env_ok_def rs'_def)
  then have set_rs': "set rs' = set rs" by (rule mset_eq_setD)
  have perm: "mset (map fst rs) = mset owners" using ack ids by simp
  define bad where "bad = map fst (filter (\<lambda>r. snd r \<noteq> None) rs')"
  define acked where "acked = length (filter (\<lambda>r. snd r = None) rs')"
  note split = split_results [OF rs' perm owners, folded bad_def acked_def]
  obtain w2 where c: "collect E me rs' 0 [] w1 = ((acked, bad), w2)"
    using collect_result [of E me rs' 0 "[]" w1] by (metis acked_def bad_def add_0 append_Nil prod.collapse)
  have w2: "world_inv E w2" "same_caches w1 w2" using tk.collect_ok [OF TrueI rw(2), of me rs' 0 "[]"] c by simp_all
  have "fanout E me ''PUT'' owners b w = Some ((acked, sort bad), w2)"
    using rw(1) c by (simp add: fanout_def ids_def rs'_def)
  moreover have "acked + length (sort bad) = length owners"
    using split(1) by simp
  moreover have "replicated E me b owners (sort bad) w w2"
    using split(2-4) ack rw(3) same_caches_slot [OF w2(2)] same_caches_applied [OF w2(2)]
    by (auto simp: replicated_def rep_rel_def)
  ultimately show ?thesis using w2(1) by blast
qed

text \<open>A write request the coordinator accepts.\<close>

definition put_ok :: "request \<Rightarrow> kv_body \<Rightarrow> bool" where
  "put_ok r b \<longleftrightarrow> (rMethod r = ''PUT'' \<or> rMethod r = ''POST'') \<and> body_of (rBody r) = Some b
    \<and> validateKey (kb_key b) = None \<and> validateValue (kb_value b) = None \<and> 0 \<le> kb_ttl b \<and> kb_written b \<noteq> 0"

lemma handleSet_eq:
  "put_ok r b \<Longrightarrow> handleSet E me r w =
    (let owners = Owners (nring (procs w me)) (kb_key b) (cReplicas (ncfg (procs w me)))
     in case fanout E me ''PUT'' owners b w of
          None \<Rightarrow> None
        | Some ((acked, failed), w2) \<Rightarrow>
            Some (writeJSON (if acked = 0 then 503 else 200)
              (encode_write \<lparr>wr_key = kb_key b, wr_acked = acked, wr_replicas = owners, wr_failed = failed\<rparr>), w2))"
  unfolding put_ok_def handleSet_def body_of_def stamp_body_def by (auto simp: Let_def)

text \<open>A write request the coordinator takes, with or without a stamp of its own.\<close>

definition accepts :: "request \<Rightarrow> kv_body \<Rightarrow> bool" where
  "accepts r b \<longleftrightarrow> (rMethod r = ''PUT'' \<or> rMethod r = ''POST'') \<and> body_of (rBody r) = Some b
    \<and> validateKey (kb_key b) = None \<and> validateValue (kb_value b) = None \<and> 0 \<le> kb_ttl b"

lemma accepted_set:
  assumes "accepts r b0" "stamp_body E b0 w = (b, w1)"
  shows "handleSet E me r w =
    (let owners = Owners (nring (procs w1 me)) (kb_key b) (cReplicas (ncfg (procs w1 me)))
     in case fanout E me ''PUT'' owners b w1 of
          None \<Rightarrow> None
        | Some ((acked, failed), w2) \<Rightarrow>
            Some (writeJSON (if acked = 0 then 503 else 200)
              (encode_write \<lparr>wr_key = kb_key b, wr_acked = acked, wr_replicas = owners, wr_failed = failed\<rparr>), w2))"
  using assms unfolding accepts_def handleSet_def body_of_def by (auto simp: Let_def)

lemma stamp_frame:
  assumes "stamp_body E b0 w = (b, w1)"
  shows "procs w1 = procs w" "kb_key b = kb_key b0" "kb_value b = kb_value b0" "kb_ttl b = kb_ttl b0"
    "kb_written b = (if kb_written b0 = 0 then unix_nano (clock E (ticks w)) else kb_written b0)"
  using assms by (auto simp: stamp_body_def tick_def split: if_splits)

lemma owners_distinct: "world_inv E w \<Longrightarrow> distinct (Owners (nring (procs w p)) key n)"
  using Owners_distinct ring_reachable_inv node_invD(3) world_invD by blast

text \<open>A process always owns something: the owner list of a process of the cluster is not empty.\<close>

lemma owners_nonempty:
  assumes "world_inv E w"
  shows "Owners (nring (procs w p)) key (cReplicas (ncfg (procs w p))) \<noteq> []"
proof -
  have n: "node_inv (fpu_of (arch E)) (procs w p)" using assms by (rule world_invD)
  have inv: "ring_inv (nring (procs w p))" using node_invD(3) [OF n] by (rule ring_reachable_inv)
  have "set (Nodes (nring (procs w p))) \<noteq> {}" using n by (auto simp: node_inv_def)
  then have "Size (nring (procs w p)) \<noteq> 0"
    by (metis Nodes_def Size_def gm.len_keys length_0_conv set_empty set_sort)
  moreover have "1 \<le> cReplicas (ncfg (procs w p))" using n by (simp add: node_inv_def)
  ultimately show ?thesis
    using Owners_length [OF inv, of key "cReplicas (ncfg (procs w p))"] by (auto simp flip: length_greater_0_conv)
qed

lemma owners_nonempty_length:
  "world_inv E w \<Longrightarrow> 0 < length (Owners (nring (procs w p)) key (cReplicas (ncfg (procs w p))))"
  using owners_nonempty by auto

lemma set_outcome:
  fixes me :: string
  assumes w: "world_inv E w" and env: "env_ok E" and r: "put_ok r b"
  defines "owners \<equiv> Owners (nring (procs w me)) (kb_key b) (cReplicas (ncfg (procs w me)))"
  shows "\<exists>acked failed w'. handleSet E me r w = Some (writeJSON (if acked = 0 then 503 else 200)
      (encode_write \<lparr>wr_key = kb_key b, wr_acked = acked, wr_replicas = owners, wr_failed = failed\<rparr>), w')
    \<and> world_inv E w' \<and> acked + length failed = length owners \<and> replicated E me b owners failed w w'"
proof -
  have "distinct owners" unfolding owners_def using owners_distinct [OF w] .
  from fanout_put [OF w env this, of me b] obtain acked failed w' where
    "fanout E me ''PUT'' owners b w = Some ((acked, failed), w')" "world_inv E w'"
    "acked + length failed = length owners" "replicated E me b owners failed w w'"
    by blast
  then show ?thesis
    by (intro exI [of _ acked] exI [of _ failed] exI [of _ w'])
      (simp add: handleSet_eq [OF r] owners_def [symmetric])
qed

end
