(* ===== verification/Healthy.thy ===== *)
theory Healthy
  imports Replication
begin

text \<open>
  A cluster without failures: every call is delivered, every process runs under its own
  name, and all processes know the same members by URLs that lead to them. Here a write
  reaches every owner, and a read through any process returns it.
\<close>

definition uniform :: "env \<Rightarrow> string set \<Rightarrow> world \<Rightarrow> bool" where
  "uniform E ps w \<longleftrightarrow> (\<forall>k. fault E k = Deliver)
    \<and> (\<forall>p \<in> ps. self_id p w = p \<and> set (Nodes (nring (procs w p))) = ps)
    \<and> (\<forall>p \<in> ps. \<forall>q \<in> ps. vnodesPerNode (nring (procs w p)) = vnodesPerNode (nring (procs w q))
        \<and> cReplicas (ncfg (procs w p)) = cReplicas (ncfg (procs w q))
        \<and> (p \<noteq> q \<longrightarrow> trim_right_char CHR ''/'' (peerURL (procs w p) q) \<noteq> ''''
             \<and> route E (trim_right_char CHR ''/'' (peerURL (procs w p) q)) = Some q))"

lemma uniform_same: "same_members w w' \<Longrightarrow> uniform E ps w \<Longrightarrow> uniform E ps w'"
proof -
  assume "same_members w w'"
  then have "ncfg (procs w' p) = ncfg (procs w p)" "nring (procs w' p) = nring (procs w p)"
    "npeers (procs w' p) = npeers (procs w p)" for p
    by (simp_all add: same_members_def)
  then have "uniform E ps w' = uniform E ps w" unfolding uniform_def peerURL_def by (simp only:)
  moreover assume "uniform E ps w"
  ultimately show ?thesis by simp
qed

lemma uniform_owners:
  assumes "world_inv E w" "uniform E ps w" "p \<in> ps" "q \<in> ps"
  shows "Owners (nring (procs w p)) key (cReplicas (ncfg (procs w p)))
      = Owners (nring (procs w q)) key (cReplicas (ncfg (procs w q)))"
    and "Primary (nring (procs w p)) key = Primary (nring (procs w q)) key"
proof -
  have inv: "ring_inv (nring (procs w p))" "ring_inv (nring (procs w q))"
    using world_invD [OF assms(1)] node_invD(3) ring_reachable_inv by blast+
  have "vnodesPerNode (nring (procs w p)) = vnodesPerNode (nring (procs w q))"
    "set (Nodes (nring (procs w p))) = set (Nodes (nring (procs w q)))"
    "cReplicas (ncfg (procs w p)) = cReplicas (ncfg (procs w q))"
    using assms(2-4) unfolding uniform_def by metis+
  with same_members_ring [OF inv] show
    "Owners (nring (procs w p)) key (cReplicas (ncfg (procs w p)))
      = Owners (nring (procs w q)) key (cReplicas (ncfg (procs w q)))"
    "Primary (nring (procs w p)) key = Primary (nring (procs w q)) key"
    by metis+
qed

lemma owners_in_cluster:
  assumes "world_inv E w" "uniform E ps w" "p \<in> ps"
  shows "set (Owners (nring (procs w p)) key n) \<subseteq> ps"
proof -
  have "ring_inv (nring (procs w p))" using world_invD [OF assms(1)] node_invD(3) ring_reachable_inv by blast
  from Owners_members [OF this, of key n] show ?thesis using assms(2,3) by (auto simp: uniform_def)
qed

section \<open>Delivered calls\<close>

lemma client_delivered:
  assumes "\<forall>k. fault E k = Deliver" "route E base = Some p" "rPath r = ''/internal/kv''"
    and "handleInternalKV E p r (w\<lparr>calls := calls w + 1\<rparr>) = Some (res, w')"
  shows "client_do E base r w = Some (Inr res, w')"
  using assms by (simp add: client_do_def)

definition fits :: "env \<Rightarrow> kv_body \<Rightarrow> bool" where
  "fits E b \<longleftrightarrow> in_int64 (kb_ttl b) \<and> in_int64 (kb_written b) \<and> validateKey (kb_key b) = None
    \<and> length (json_text (float_text E) (encode_kv b)) \<le> maxValueBytes + 4096"

lemma fits_body: "fits E b \<Longrightarrow> body_of (marshal (float_text E) (encode_kv b)) = Some b"
  by (simp add: fits_def body_of_def marshal_def readJSON_def decode_encode_kv)

text \<open>A write that is forwarded is performed by the internal endpoint of its owner.\<close>

lemma writeOwner_remote:
  assumes u: "uniform E ps w" and ps: "me \<in> ps" "nid \<in> ps" "nid \<noteq> me" and b: "fits E b"
    and s: "local_set E nid b (w\<lparr>calls := calls w + 1\<rparr>) = Some (a, w2)"
  shows "writeOwner E me ''PUT'' nid b w = Some (None, w2)"
proof -
  define base where "base = trim_right_char CHR ''/'' (peerURL (procs w me) nid)"
  define req where "req = kv_request ''PUT'' '''' (marshal (float_text E) (encode_kv b))"
  have base: "base \<noteq> ''''" "route E base = Some nid" "self_id me w = me" "\<forall>k. fault E k = Deliver"
    using u ps unfolding uniform_def base_def by metis+
  have "handleInternalKV E nid req (w\<lparr>calls := calls w + 1\<rparr>) = Some (ok_resp ''applied'' a (self_id nid w), w2)"
    using s b fits_body [OF b]
    by (simp add: handleInternalKV_def req_def kv_request_eq body_of_def [symmetric] fits_def)
  then have "client_do E base req w = Some (Inr (ok_resp ''applied'' a (self_id nid w)), w2)"
    by (rule client_delivered [OF base(4,2), rotated]) (simp add: req_def kv_request_eq)
  then show ?thesis
    using ps(3) base(1,3)
    by (simp add: writeOwner_def Let_def base_def [symmetric] req_def [symmetric] ok_resp_def writeJSON_def)
qed

lemma writeOwner_healthy:
  assumes w: "world_inv E w" and u: "uniform E ps w" and ps: "me \<in> ps" "nid \<in> ps" and b: "fits E b"
  shows "\<exists>w'. writeOwner E me ''PUT'' nid b w = Some (None, w') \<and> world_inv E w' \<and> rep_rel b w w'
    \<and> applied b nid w w'"
proof (cases "nid = me")
  case True
  moreover have "self_id me w = me" using u ps by (simp add: uniform_def)
  ultimately show ?thesis using local_set_applied [OF w, of me b] by (auto simp: writeOwner_def)
next
  case False
  define w1 where "w1 = w\<lparr>calls := calls w + 1\<rparr>"
  have "world_inv E w1" using w by (simp add: w1_def)
  from local_set_applied [OF this, of nid b] obtain a w2 where
    w2: "local_set E nid b w1 = Some (a, w2)" "world_inv E w2" "rep_rel b w1 w2" "applied b nid w1 w2"
    by blast
  have "rep_rel b w w2" "applied b nid w w2"
    using w2(3,4) by (simp_all add: w1_def rep_rel_def same_defs)
  then show ?thesis using w2(2) writeOwner_remote [OF u ps False b w2(1) [unfolded w1_def]] by blast
qed

lemma run_writes_healthy:
  assumes "uniform E ps w" "me \<in> ps" "fits E b" "world_inv E w" "set ids \<subseteq> ps"
  shows "\<exists>w'. run_writes E me ''PUT'' b ids w = Some (map (\<lambda>i. (i, None)) ids, w') \<and> world_inv E w'
    \<and> rep_rel b w w' \<and> (\<forall>p \<in> set ids. applied b p w w')"
  using assms
proof (induction ids arbitrary: w)
  case Nil
  then show ?case by (simp add: wr.R_refl)
next
  case (Cons i ids)
  obtain w1 where w1: "writeOwner E me ''PUT'' i b w = Some (None, w1)" "world_inv E w1" "rep_rel b w w1"
      "applied b i w w1"
    using writeOwner_healthy [OF Cons.prems(4,1,2) _ Cons.prems(3), of i] Cons.prems(5) by auto
  have u1: "uniform E ps w1" using uniform_same [OF _ Cons.prems(1)] w1(3) by (simp add: rep_rel_def)
  obtain w2 where w2: "run_writes E me ''PUT'' b ids w1 = Some (map (\<lambda>i. (i, None)) ids, w2)" "world_inv E w2"
      "rep_rel b w1 w2" "\<forall>p \<in> set ids. applied b p w1 w2"
    using Cons.IH [OF u1 Cons.prems(2,3) w1(2)] Cons.prems(5) by auto
  have "applied b i w w2" using applied_before [OF w1(4)] w2(3) by (simp add: rep_rel_def)
  moreover have "applied b p w w2" if "p \<in> set ids" for p
    using applied_after [of b p w1 w w2] w1(3) w2(4) that by (simp add: rep_rel_def)
  ultimately show ?case
    using w1(1) w2(1,2) rep_rel_trans [OF w1(3) w2(3)] by auto
qed

lemma fanout_healthy:
  assumes w: "world_inv E w" and env: "env_ok E" and u: "uniform E ps w" and me: "me \<in> ps" and b: "fits E b"
    and owners: "owners = Owners (nring (procs w me)) (kb_key b) (cReplicas (ncfg (procs w me)))"
  shows "\<exists>w'. fanout E me ''PUT'' owners b w = Some ((length owners, []), w')
    \<and> world_inv E w' \<and> rep_rel b w w' \<and> (\<forall>p \<in> set owners. applied b p w w')"
proof -
  define ids where "ids = run_order E (calls w) owners"
  have ids: "mset ids = mset owners" using env by (simp add: env_ok_def ids_def)
  then have set_ids: "set ids = set owners" "length ids = length owners" by (metis mset_eq_setD, metis size_mset)
  obtain w1 where w1: "run_writes E me ''PUT'' b ids w = Some (map (\<lambda>i. (i, None)) ids, w1)" "world_inv E w1"
      "rep_rel b w w1" "\<forall>p \<in> set owners. applied b p w w1"
    using run_writes_healthy [OF u me b w, of ids] owners_in_cluster [OF w u me] set_ids owners by auto
  define rs where "rs = arrival E (calls w) (map (\<lambda>i. (i, None :: string option)) ids)"
  have rs: "mset rs = mset (map (\<lambda>i. (i, None :: string option)) ids)" using env by (simp add: env_ok_def rs_def)
  then have none: "\<forall>r \<in> set rs. snd r = None" and len: "length rs = length owners"
    using mset_eq_setD [OF rs] mset_eq_length [OF rs] set_ids(2) by (auto simp del: mset_map)
  have coll: "\<forall>r \<in> set rs. snd r = None \<Longrightarrow> collect E me rs a f w1 = ((a + length rs, f), w1)" for a f rs
    by (induction rs arbitrary: a) auto
  have "fanout E me ''PUT'' owners b w = Some ((length owners, []), w1)"
    using w1(1) coll [OF none, of 0 "[]"] by (simp add: fanout_def ids_def [symmetric] rs_def [symmetric] len)
  then show ?thesis using w1(2-4) by blast
qed

text \<open>A SET, stamped by the client or by the coordinator.\<close>

lemma accepted_healthy:
  assumes w: "world_inv E w" and env: "env_ok E" and u: "uniform E ps w" and me: "me \<in> ps"
    and r: "accepts r b0" and s: "stamp_body E b0 w = (b, v)" and b: "fits E b"
    and owners: "owners = Owners (nring (procs w me)) (kb_key b) (cReplicas (ncfg (procs w me)))"
  shows "\<exists>w'. handleSet E me r w = Some (writeJSON 200 (encode_write \<lparr>wr_key = kb_key b,
      wr_acked = length owners, wr_replicas = owners, wr_failed = []\<rparr>), w')
    \<and> world_inv E w' \<and> rep_rel b w w' \<and> (\<forall>p \<in> set owners. applied b p w w')"
proof -
  note same = stamp_frame [OF s]
  have v: "world_inv E v" "uniform E ps v"
    using w uniform_same [OF _ u, of v] by (simp_all add: world_inv_def same_members_def same(1))
  obtain w' where f: "fanout E me ''PUT'' owners b v = Some ((length owners, []), w')"
      "world_inv E w'" "rep_rel b v w'" "\<forall>p \<in> set owners. applied b p v w'"
    using fanout_healthy [OF v(1) env v(2) me b] owners by (auto simp: same(1))
  have "rep_rel b w w'" "\<forall>p \<in> set owners. applied b p w w'"
    using f(3,4) by (simp_all add: rep_rel_def same_defs applied_def slot_def held_def same(1))
  moreover have "owners \<noteq> []" using owners_nonempty [OF w] owners by simp
  ultimately show ?thesis
    using f(1,2) accepted_set [OF r s, of me] by (simp add: same(1) owners [symmetric])
qed

lemma put_ok_accepts: "put_ok r b \<Longrightarrow> accepts r b"
  by (simp add: put_ok_def accepts_def)

lemma put_ok_stamp: "put_ok r b \<Longrightarrow> stamp_body E b w = (b, w)"
  by (simp add: put_ok_def stamp_body_def)

lemma set_healthy:
  assumes "world_inv E w" "env_ok E" "uniform E ps w" "me \<in> ps" "put_ok r b" "fits E b"
    and "owners = Owners (nring (procs w me)) (kb_key b) (cReplicas (ncfg (procs w me)))"
  shows "\<exists>w'. handleSet E me r w = Some (writeJSON 200 (encode_write \<lparr>wr_key = kb_key b,
      wr_acked = length owners, wr_replicas = owners, wr_failed = []\<rparr>), w')
    \<and> world_inv E w' \<and> rep_rel b w w' \<and> (\<forall>p \<in> set owners. applied b p w w')"
  using assms(1-4) put_ok_accepts [OF assms(5)] put_ok_stamp [OF assms(5)] assms(6,7) by (rule accepted_healthy)


section \<open>Reading\<close>

definition permanent :: "item \<Rightarrow> bool" where
  "permanent it \<longleftrightarrow> iexpires it = zero_time \<and> in_int64 (iwritten it)"

lemma permanent_live: "permanent it \<Longrightarrow> \<not> expired it t"
  by (simp add: permanent_def expired_def is_zero_def)

lemma local_get_hit:
  assumes "world_inv E w" "slot key p w = Some it" "permanent it"
  shows "\<exists>w'. local_get E p key w = ((entry_of it, True), w')"
proof -
  have inv: "store_inv (nstore (procs w p))" using world_invD [OF assms(1)] by (rule node_invD)
  have "fst (Get t key (nstore (procs w p))) = (entry_of it, True)" for t
    using assms(2,3) permanent_live [OF assms(3)]
    by (simp add: entries_ops(2) [OF inv] lru_get_def slot_def)
  then have "fst (local_get E p key w) = (entry_of it, True)"
    by (simp add: local_get_def tick_def split_beta Let_def)
  then show ?thesis by (metis prod.collapse)
qed

definition hit_resp :: "string \<Rightarrow> string \<Rightarrow> item \<Rightarrow> response" where
  "hit_resp key by_id it = writeJSON 200 (encode_get \<lparr>gr_key = key, gr_found = True, gr_value = ivalue it,
    gr_served = by_id, gr_ttl = None, gr_written = iwritten it\<rparr>)"

lemma payload_permanent:
  "permanent it \<Longrightarrow> writeJSON 200 (encode_get (getPayload now key by_id (entry_of it))) = hit_resp key by_id it"
  by (simp add: getPayload_def entry_of_def permanent_def is_zero_def hit_resp_def)

lemma internal_get_hit:
  assumes "world_inv E w" "slot key p w = Some it" "permanent it" "validateKey key = None"
  shows "\<exists>w'. handleInternalKV E p (kv_request ''GET'' key empty_payload) w
    = Some (hit_resp key (self_id p w) it, w')"
proof -
  obtain w1 where w1: "local_get E p key w = ((entry_of it, True), w1)"
    using local_get_hit [OF assms(1-3)] by blast
  show ?thesis
    using assms(4) w1 payload_permanent [OF assms(3)]
    by (simp add: handleInternalKV_def kv_request_eq Let_def tick_def)
qed

lemma readOwner_hit:
  assumes w: "world_inv E w" and u: "uniform E ps w" and ps: "me \<in> ps" "nid \<in> ps"
    and it: "slot key nid w = Some it" "permanent it" and key: "validateKey key = None"
    and up: "gm_get (downUntil (procs w me)) nid = None"
  shows "\<exists>w'. readOwner E me nid key w = Some (Inr (entry_of it, True), w')"
proof (cases "nid = me")
  case True
  moreover have "self_id me w = me" using u ps by (simp add: uniform_def)
  ultimately show ?thesis using local_get_hit [OF w it(1)] it(2)
    by (auto simp: readOwner_def)
next
  case False
  define base where "base = trim_right_char CHR ''/'' (peerURL (procs w me) nid)"
  have base: "base \<noteq> ''''" "route E base = Some nid" "self_id me w = me" "\<forall>k. fault E k = Deliver"
    using u ps False unfolding uniform_def base_def by metis+
  have raw: "peerURL (procs w me) nid \<noteq> ''''"
    using base(1) by (auto simp: base_def trim_right_char_def)
  define w1 where "w1 = snd (is_down E me nid w)"
  have d: "is_down E me nid w = (False, w1)" and p1: "procs w1 = procs w"
    using up by (simp_all add: w1_def is_down_def isDown_def tick_def)
  define w2 where "w2 = w1\<lparr>calls := calls w1 + 1\<rparr>"
  have "world_inv E w2" "slot key nid w2 = Some it" "self_id nid w2 = self_id nid w"
    using w it(1) p1 by (simp_all add: w2_def world_inv_def slot_def)
  then obtain w3 where "handleInternalKV E nid (kv_request ''GET'' key empty_payload) w2
      = Some (hit_resp key (self_id nid w) it, w3)"
    using internal_get_hit [OF _ _ it(2) key, of E w2 nid] by metis
  then have "client_do E base (kv_request ''GET'' key empty_payload) w1
      = Some (Inr (hit_resp key (self_id nid w) it), w3)"
    unfolding w2_def by (rule client_delivered [OF base(4,2), rotated]) (simp add: kv_request_eq)
  moreover have "decode_get (encode_get \<lparr>gr_key = key, gr_found = True, gr_value = ivalue it,
      gr_served = self_id nid w, gr_ttl = None, gr_written = iwritten it\<rparr>)
    = Some \<lparr>gr_key = key, gr_found = True, gr_value = ivalue it,
      gr_served = self_id nid w, gr_ttl = None, gr_written = iwritten it\<rparr>"
    using it(2) by (intro decode_encode_get) (simp_all add: permanent_def)
  moreover have "\<lparr>Value = ivalue it, ExpiresAt = zero_time, WrittenAt = iwritten it\<rparr> = entry_of it"
    using it(2) by (simp add: entry_of_def permanent_def)
  ultimately show ?thesis
    using False base(3) raw d
    by (simp add: readOwner_def Let_def p1 base_def [symmetric] hit_resp_def writeJSON_def tick_def)
qed

lemma get_healthy:
  assumes w: "world_inv E w" and u: "uniform E ps w" and me: "me \<in> ps"
    and r: "rMethod r = ''GET''" "validateKey (rQuery r ''key'') = None"
    and owners: "owners = Owners (nring (procs w me)) (rQuery r ''key'') (cReplicas (ncfg (procs w me)))"
    and it: "\<forall>p \<in> set owners. slot (rQuery r ''key'') p w = Some it" "permanent it"
    and up: "\<forall>p \<in> set owners. gm_get (downUntil (procs w me)) p = None"
  shows "\<exists>by_id w'. by_id \<in> set owners \<and> (me \<in> set owners \<longrightarrow> by_id = me)
    \<and> handleGet E me r w = Some (hit_resp (rQuery r ''key'') by_id it, w')"
proof -
  let ?key = "rQuery r ''key''"
  have self: "self_id me w = me" using u me by (simp add: uniform_def)
  have "owners \<noteq> []" using owners_nonempty [OF w] owners by simp
  then have "set (preferLocal owners me) \<noteq> {}" by simp
  then obtain h rest where h: "preferLocal owners me = h # rest" by (cases "preferLocal owners me") auto
  have in_owners: "h \<in> set owners" using preferLocal_set [of owners me] h by auto
  have first: "me \<in> set owners \<longrightarrow> h = me"
    using preferLocal_head [of owners me] owners_distinct [OF w, of me] owners h by auto
  have "h \<in> ps" using in_owners owners owners_in_cluster [OF w u me] by blast
  then obtain w1 where w1: "readOwner E me h ?key w = Some (Inr (entry_of it, True), w1)"
    using readOwner_hit [OF w u me _ _ it(2) r(2)] it(1) up in_owners by blast
  have "\<exists>w'. handleGet E me r w = Some (hit_resp ?key h it, w')"
    using r w1 h \<open>owners \<noteq> []\<close> payload_permanent [OF it(2)]
    by (simp add: handleGet_def Let_def owners [symmetric] self split_beta)
  then show ?thesis using in_owners first by blast
qed

text \<open>A write that every owner may take is read back through any process.\<close>

lemma write_then_read:
  assumes w: "world_inv E w" and env: "env_ok E" and u: "uniform E ps w" and ps: "me \<in> ps" "reader \<in> ps"
    and r: "accepts r b0" "stamp_body E b0 w = (b, v)" and b: "fits E b" "kb_ttl b = 0"
    and newest: "\<forall>p \<in> set owners. \<forall>it. slot (kb_key b) p w = Some it \<longrightarrow> iwritten it \<le> kb_written b"
    and up: "\<forall>p \<in> set owners. gm_get (downUntil (procs w reader)) p = None"
    and g: "rMethod g = ''GET''" "rQuery g ''key'' = kb_key b"
    and owners: "owners = Owners (nring (procs w me)) (kb_key b) (cReplicas (ncfg (procs w me)))"
  shows "\<exists>w1 by_id w2. handleSet E me r w = Some (writeJSON 200 (encode_write \<lparr>wr_key = kb_key b,
      wr_acked = length owners, wr_replicas = owners, wr_failed = []\<rparr>), w1)
    \<and> by_id \<in> set owners
    \<and> handleGet E reader g w1 = Some (hit_resp (kb_key b) by_id (slot_item b), w2)"
proof -
  obtain w1 where w1: "handleSet E me r w = Some (writeJSON 200 (encode_write \<lparr>wr_key = kb_key b,
      wr_acked = length owners, wr_replicas = owners, wr_failed = []\<rparr>), w1)"
    "world_inv E w1" "rep_rel b w w1" "\<forall>p \<in> set owners. applied b p w w1"
    using accepted_healthy [OF w env u ps(1) r b(1) owners] by blast
  have same: "same_members w w1" and down: "downUntil (procs w1 p) = downUntil (procs w p)" for p
    using w1(3) by (simp_all add: rep_rel_def)
  have u1: "uniform E ps w1" using uniform_same [OF same u] .
  have owners1: "owners = Owners (nring (procs w1 reader)) (kb_key b) (cReplicas (ncfg (procs w1 reader)))"
    using owners uniform_owners(1) [OF w u ps] same by (simp add: same_members_def)
  have "slot (kb_key b) p w1 = Some (slot_item b)" if "p \<in> set owners" for p
  proof -
    have "slot (kb_key b) p w1 = lww_slot b (slot (kb_key b) p w)"
      using w1(4) that b(2) by (simp add: applied_def)
    moreover have "slot (kb_key b) p w = Some it \<Longrightarrow> iwritten it \<le> kb_written b" for it
      using newest that by blast
    ultimately show ?thesis by (auto simp: lww_slot_def not_less split: option.splits)
  qed
  moreover have "permanent (slot_item b)" using b(1) by (simp add: permanent_def slot_item_def fits_def)
  moreover have "validateKey (rQuery g ''key'') = None" using b(1) g(2) by (simp add: fits_def)
  ultimately have "\<exists>by_id w'. by_id \<in> set owners \<and> (reader \<in> set owners \<longrightarrow> by_id = reader)
    \<and> handleGet E reader g w1 = Some (hit_resp (rQuery g ''key'') by_id (slot_item b), w')"
    using up down by (intro get_healthy [OF w1(2) u1 ps(2) g(1)]) (auto simp: g(2) owners1 [symmetric])
  with w1(1) show ?thesis by (auto simp: g(2))
qed

end
