(* ===== verification/ClusterTakes.thy ===== *)
theory ClusterTakes
  imports Healthy
begin

text \<open>
  Rate limiting across the cluster: wherever a take enters, it is decided by the bucket
  store of the key's primary and by no other, so that the takes of all processes form one
  run of one store, and the single-store laws hold for the cluster.
\<close>

definition same_limiters_but :: "string \<Rightarrow> world \<Rightarrow> world \<Rightarrow> bool" where
  "same_limiters_but q w w' \<longleftrightarrow> (\<forall>p. p \<noteq> q \<longrightarrow> nrl (procs w' p) = nrl (procs w p))"

text \<open>The request a limiter sees for a body at a clock reading.\<close>

definition req_at :: "time \<Rightarrow> rl_body \<Rightarrow> take_req" where
  "req_at t b = \<lparr>tq_now = t, tq_key = rb_key b, tq_rate = rb_rate b, tq_burst = rb_burst b, tq_cost = rb_cost b\<rparr>"

text \<open>The answer a client gets: the primary's, cut to 4096 bytes when it was relayed.\<close>

definition answers_take :: "env \<Rightarrow> string \<Rightarrow> result \<Rightarrow> response \<Rightarrow> bool" where
  "answers_take E q res resp \<longleftrightarrow> rStatus resp = 200
    \<and> (let body = rReply (take_resp q q res) in rReply resp \<in> {body, limit_body (float_text E) body})"

lemma local_take_effect:
  "local_take E q b w = (res, w') \<Longrightarrow>
    Take_store (fpu_of (arch E)) (clock E (ticks w)) (rb_key b) (rb_rate b) (rb_burst b) (rb_cost b)
      (nrl (procs w q)) = (res, nrl (procs w' q)) \<and> same_limiters_but q w w' \<and> same_members w w'"
  by (auto simp: local_take_def tick_def Let_def split_beta same_limiters_but_def same_members_def)

text \<open>The primary of a uniform cluster is one of its processes.\<close>

lemma primary_in_cluster:
  assumes w: "world_inv E w" and u: "uniform E ps w" and me: "me \<in> ps"
  shows "Primary (nring (procs w me)) key \<in> ps" "Primary (nring (procs w me)) key \<noteq> ''''"
proof -
  have inv: "ring_inv (nring (procs w me))"
    using world_invD [OF w] node_invD(3) ring_reachable_inv by blast
  have owners: "Owners (nring (procs w me)) key (cReplicas (ncfg (procs w me))) \<noteq> []"
    by (rule owners_nonempty [OF w])
  have "1 \<le> cReplicas (ncfg (procs w me))" using world_invD [OF w, of me] by (simp add: node_inv_def)
  then have "Primary (nring (procs w me)) key \<in> set (Owners (nring (procs w me)) key (cReplicas (ncfg (procs w me))))"
    using Primary_hd_Owners [OF inv _ owners] owners by (metis hd_in_set)
  then show "Primary (nring (procs w me)) key \<in> ps" using owners_in_cluster [OF w u me] by blast
  show "Primary (nring (procs w me)) key \<noteq> ''''"
    using Primary_empty_iff [OF inv, of key] owners Owners_length [OF inv] by auto
qed

lemma take_anywhere:
  assumes w: "world_inv E w" and u: "uniform E ps w" and me: "me \<in> ps"
    and m: "rMethod r = ''POST'' \<or> rMethod r = ''PUT''" and b: "parseRateLimitBody (rBody r) = Inr b"
    and len: "length (json_text (float_text E) (encode_rl b)) \<le> maxValueBytes + 4096"
    and q: "q = Primary (nring (procs w me)) (rb_key b)"
  shows "\<exists>resp w' res. handleRateLimitTake E me r w = Some (resp, w') \<and> answers_take E q res resp
    \<and> Take_store (fpu_of (arch E)) (clock E (ticks w)) (rb_key b) (rb_rate b) (rb_burst b) (rb_cost b)
        (nrl (procs w q)) = (res, nrl (procs w' q))
    \<and> same_limiters_but q w w' \<and> same_members w w' \<and> same_caches w w' \<and> world_inv E w'"
proof -
  have valid: "rl_valid b" using b by (rule parse_valid)
  have runs: "runs (world_inv E) same_caches w (handleRateLimitTake E me r w)"
    by (rule tk.handleRateLimitTake_runs [OF w]) simp_all
  have qps: "q \<in> ps" "q \<noteq> ''''" using primary_in_cluster [OF w u me] by (simp_all add: q)
  have self: "self_id me w = me" "self_id q w = q" using u me qps(1) by (simp_all add: uniform_def)
  show ?thesis
  proof (cases "q = me")
    case True
    obtain res w' where t: "local_take E me b w = (res, w')" by force
    have h: "handleRateLimitTake E me r w = Some (take_resp q q res, w')"
      using m b t True self qps(2) by (auto simp: handleRateLimitTake_def Let_def q [symmetric])
    have "answers_take E q res (take_resp q q res)" by (simp add: answers_take_def take_resp_def writeJSON_def)
    then show ?thesis using h local_take_effect [OF t] runs True by (auto simp: runs_def)
  next
    case False
    define base where "base = trim_right_char CHR ''/'' (peerURL (procs w me) q)"
    define req where "req = \<lparr>rPath = ''/internal/ratelimit/take'', rMethod = ''POST'', rQuery = (\<lambda>_. ''''),
      rBody = marshal (float_text E) (encode_rl b)\<rparr>"
    define w1 where "w1 = w\<lparr>calls := calls w + 1\<rparr>"
    have base: "base \<noteq> ''''" "route E base = Some q" "\<forall>k. fault E k = Deliver"
      using u me qps(1) False unfolding uniform_def base_def by metis+
    obtain res w' where t: "local_take E q b w1 = (res, w')" by force
    have "handleInternalRateLimitTake E q req w1 = (take_resp q q res, w')"
      using parse_forwarded [OF valid len] t self
      by (simp add: handleInternalRateLimitTake_def req_def w1_def)
    then have c: "client_do E base req w = Some (Inr (take_resp q q res), w')"
      using base by (simp add: client_do_def req_def w1_def)
    have h: "handleRateLimitTake E me r w = Some (\<lparr>rStatus = rStatus (take_resp q q res),
        rReply = limit_body (float_text E) (rReply (take_resp q q res))\<rparr>, w')"
      using m b c self False base(1) qps(2)
      by (auto simp: handleRateLimitTake_def forwardRateLimit_def Let_def q [symmetric]
          base_def [symmetric] req_def [symmetric])
    have "answers_take E q res \<lparr>rStatus = rStatus (take_resp q q res),
        rReply = limit_body (float_text E) (rReply (take_resp q q res))\<rparr>"
      by (simp add: answers_take_def take_resp_def writeJSON_def Let_def)
    moreover have "same_limiters_but q w w'" "same_members w w'"
      "Take_store (fpu_of (arch E)) (clock E (ticks w)) (rb_key b) (rb_rate b) (rb_burst b) (rb_cost b)
        (nrl (procs w q)) = (res, nrl (procs w' q))"
      using local_take_effect [OF t] by (simp_all add: w1_def same_limiters_but_def same_members_def)
    ultimately show ?thesis using h runs by (auto simp: runs_def)
  qed
qed

section \<open>Sequences of takes through any processes\<close>

fun cluster_takes :: "env \<Rightarrow> (string \<times> request) list \<Rightarrow> world \<Rightarrow> (response list \<times> world) option" where
  "cluster_takes E [] w = Some ([], w)"
| "cluster_takes E ((me, r) # rs) w =
    (case handleRateLimitTake E me r w of
       None \<Rightarrow> None
     | Some (resp, w1) \<Rightarrow>
         (case cluster_takes E rs w1 of
            None \<Rightarrow> None
          | Some (resps, w2) \<Rightarrow> Some (resp # resps, w2)))"

definition take_ok :: "env \<Rightarrow> string set \<Rightarrow> string \<times> request \<Rightarrow> rl_body \<Rightarrow> bool" where
  "take_ok E ps mr b \<longleftrightarrow> fst mr \<in> ps \<and> (rMethod (snd mr) = ''POST'' \<or> rMethod (snd mr) = ''PUT'')
    \<and> parseRateLimitBody (rBody (snd mr)) = Inr b
    \<and> length (json_text (float_text E) (encode_rl b)) \<le> maxValueBytes + 4096"

lemma takes_form_one_run:
  "world_inv E w \<Longrightarrow> uniform E ps w \<Longrightarrow> list_all2 (take_ok E ps) rs bs
    \<Longrightarrow> \<forall>b \<in> set bs. \<forall>p \<in> ps. Primary (nring (procs w p)) (rb_key b) = q
    \<Longrightarrow> \<exists>resps w' ts. cluster_takes E rs w = Some (resps, w') \<and> length ts = length bs
      \<and> set ts \<subseteq> range (clock E)
      \<and> snd (rl_takes (fpu_of (arch E)) (map2 req_at ts bs) (nrl (procs w q))) = nrl (procs w' q)
      \<and> list_all2 (answers_take E q) (fst (rl_takes (fpu_of (arch E)) (map2 req_at ts bs) (nrl (procs w q)))) resps
      \<and> same_limiters_but q w w' \<and> same_caches w w'"
proof (induction rs arbitrary: bs w)
  case Nil
  then show ?case by (simp add: same_limiters_but_def same_caches_def)
next
  case (Cons mr rs)
  obtain b bs' where bs: "bs = b # bs'" "take_ok E ps mr b" "list_all2 (take_ok E ps) rs bs'"
    using Cons.prems(3) by (auto simp: list_all2_Cons1)
  obtain me r where mr: "mr = (me, r)" by force
  have q: "q = Primary (nring (procs w me)) (rb_key b)"
    using Cons.prems(4) bs(1,2) by (auto simp: take_ok_def mr)
  obtain resp w1 res where w1: "handleRateLimitTake E me r w = Some (resp, w1)" "answers_take E q res resp"
      "Take_store (fpu_of (arch E)) (clock E (ticks w)) (rb_key b) (rb_rate b) (rb_burst b) (rb_cost b)
        (nrl (procs w q)) = (res, nrl (procs w1 q))"
      "same_limiters_but q w w1" "same_members w w1" "same_caches w w1" "world_inv E w1"
    using take_anywhere [OF Cons.prems(1,2) _ _ _ _ q] bs(2) by (fastforce simp: take_ok_def mr)
  have u1: "uniform E ps w1" using uniform_same [OF w1(5) Cons.prems(2)] .
  have q1: "\<forall>b \<in> set bs'. \<forall>p \<in> ps. Primary (nring (procs w1 p)) (rb_key b) = q"
    using Cons.prems(4) bs(1) w1(5) by (simp add: same_members_def)
  obtain resps w2 ts where w2: "cluster_takes E rs w1 = Some (resps, w2)" "length ts = length bs'"
      "set ts \<subseteq> range (clock E)"
      "snd (rl_takes (fpu_of (arch E)) (map2 req_at ts bs') (nrl (procs w1 q))) = nrl (procs w2 q)"
      "list_all2 (answers_take E q) (fst (rl_takes (fpu_of (arch E)) (map2 req_at ts bs') (nrl (procs w1 q)))) resps"
      "same_limiters_but q w1 w2" "same_caches w1 w2"
    using Cons.IH [OF w1(7) u1 bs(3) q1] by blast
  define ts' where "ts' = clock E (ticks w) # ts"
  have run: "rl_takes (fpu_of (arch E)) (map2 req_at ts' bs) (nrl (procs w q))
      = (res # fst (rl_takes (fpu_of (arch E)) (map2 req_at ts bs') (nrl (procs w1 q))), nrl (procs w2 q))"
    using w1(3) w2(4) by (simp add: ts'_def bs(1) req_at_def split_beta)
  have "cluster_takes E (mr # rs) w = Some (resp # resps, w2)" using w1(1) w2(1) by (simp add: mr)
  moreover have "same_limiters_but q w w2" "same_caches w w2"
    using w1(4,6) w2(6,7) by (simp_all add: same_limiters_but_def same_caches_def)
  moreover have "set ts' \<subseteq> range (clock E)" "length ts' = length bs"
    using w2(2,3) by (simp_all add: ts'_def bs(1))
  ultimately show ?case using run w1(2) w2(5) by (intro exI [of _ "resp # resps"] exI [of _ w2] exI [of _ ts']) simp
qed


section \<open>The rate holds for the cluster\<close>

lemma rl_takes_length: "length (fst (rl_takes M qs s)) = length qs"
  by (induction qs arbitrary: s) (auto simp: split_beta)

lemma answers_all:
  "\<forall>q \<in> set qs. tq_key q = key \<Longrightarrow> length rs = length qs \<Longrightarrow> answers key qs rs = rs"
  unfolding answers_def by (subst filter_True) (auto dest: set_zip_leftD)

lemma granted_bodies:
  "length ts = length bs \<Longrightarrow> granted (map2 req_at ts bs) rs
    = sum_list (map2 (\<lambda>b r. if Allowed r then max 0 (rb_cost b) else 0) bs rs)"
  unfolding granted_def
proof (induction ts bs arbitrary: rs rule: list_induct2)
  case (Cons t ts b bs)
  then show ?case by (cases rs) (simp_all add: req_at_def)
qed simp

lemma cluster_rate_bound:
  assumes w: "world_inv E w" and u: "uniform E ps w" and rs: "list_all2 (take_ok E ps) rs bs" "bs \<noteq> []"
    and same: "\<forall>b \<in> set bs. rb_key b = key \<and> rb_rate b = r \<and> rb_burst b = bb"
    and q: "\<forall>p \<in> ps. Primary (nring (procs w p)) key = q"
    and fresh: "rl_bucket_of key (nrl (procs w q)) = None"
    and room: "int (card (insert key (set (order (nrl (procs w q)))))) \<le> rl_capacity (nrl (procs w q))"
    and clock: "\<forall>k. t0 \<le> clock E k \<and> clock E k \<le> T"
  shows "\<exists>resps w' results. cluster_takes E rs w = Some (resps, w')
    \<and> list_all2 (answers_take E q) results resps
    \<and> sum_list (map2 (\<lambda>b res. if Allowed res then max 0 (rb_cost b) else 0) bs results)
      \<le> bb + r * (1 + eps64) ^ 3 * (of_int (T - t0) / 1000000000)
        + of_nat (length bs) * (2 * (bb * eps64 + eta64) + eta64)"
proof -
  let ?M = "fpu_of (arch E)"
  obtain resps w' ts where c: "cluster_takes E rs w = Some (resps, w')" "length ts = length bs"
      "set ts \<subseteq> range (clock E)"
      "list_all2 (answers_take E q) (fst (rl_takes ?M (map2 req_at ts bs) (nrl (procs w q)))) resps"
    using takes_form_one_run [OF w u rs(1), of q] same q by auto
  define qs where "qs = map2 req_at ts bs"
  define results where "results = fst (rl_takes ?M qs (nrl (procs w q)))"
  have qs_set: "x \<in> set qs \<Longrightarrow> \<exists>t \<in> set ts. \<exists>b \<in> set bs. x = req_at t b" for x
    using c(2) by (auto simp: qs_def dest: set_zip_leftD set_zip_rightD)
  have len: "length qs = length bs" using c(2) by (simp add: qs_def)
  have "list_all2 (take_ok E ps) rs bs \<Longrightarrow> \<forall>b \<in> set bs. rl_valid b"
    by (induction rule: list_all2_induct) (auto simp: take_ok_def dest: parse_valid)
  then have valid: "\<forall>b \<in> set bs. rl_valid b" using rs(1) by blast
  obtain b0 where b0: "b0 \<in> set bs" using rs(2) by (meson last_in_set)
  then have nonneg: "0 \<le> r" "0 \<le> bb" "rnd ?M bb = bb"
    using valid same by (auto simp: rl_valid_def is_float_def)
  have key: "\<forall>x \<in> set qs. tq_key x = key" using qs_set same by (fastforce simp: req_at_def)
  have ok: "\<forall>x \<in> set qs. req_ok ?M x"
    using qs_set valid by (fastforce simp: req_at_def req_ok_def rl_valid_def is_float_def)
  have keys: "tq_key ` set qs = {key}"
    using key len rs(2) by (auto simp: image_iff) (metis last_in_set length_0_conv)
  have "answers key qs results = lone_takes ?M (requests key qs) (rl_bucket_of key (nrl (procs w q)))"
    unfolding results_def
    by (rule go.rl_takes_isolated [OF node_invD(2) [OF world_invD [OF w]] ok]) (use room keys in simp)
  moreover have "requests key qs = qs" using key by (simp add: requests_def)
  moreover have "answers key qs results = results"
    by (rule answers_all [OF key]) (simp add: results_def rl_takes_length)
  ultimately have "results = lone_takes ?M qs None" using fresh by simp
  moreover have "granted qs (lone_takes ?M qs None)
      \<le> bb + r * (1 + eps64) ^ 3 * (of_int (T - t0) / 1000000000)
        + of_nat (length qs) * (2 * (bb * eps64 + eta64) + eta64)"
  proof (rule bounded_go.lone_takes_bound [OF nonneg])
    have "t0 \<le> t \<and> t \<le> T" if "t \<in> set ts" for t using that c(3) clock by auto
    then show "\<forall>x \<in> set qs. tq_rate x = r \<and> tq_burst x = bb \<and> t0 \<le> tq_now x \<and> tq_now x \<le> T"
      using qs_set same by (fastforce simp: req_at_def)
    show "qs \<noteq> []" using len rs(2) by auto
  qed
  ultimately show ?thesis
    using c(1,4) granted_bodies [OF c(2), of results] len
    by (intro exI [of _ resps] exI [of _ w'] exI [of _ results]) (simp add: qs_def [symmetric] results_def [symmetric])
qed

end
