(* ===== verification/ClusterEdges.thy ===== *)
theory ClusterEdges
  imports Healthy
begin

text \<open>
  Where the cluster's behaviour surprises: lifetimes that overflow, a repair that makes
  an expiring entry permanent, values whose JSON text outgrows the internal limit, reads
  that keep a breaker open, and the breaker's own law.
\<close>

section \<open>Lifetimes\<close>

text \<open>What a write leaves on its coordinator's own store when no newer value is there.\<close>

lemma local_set_slot:
  assumes "world_inv E w" "\<forall>it. slot (kb_key b) me w = Some it \<longrightarrow> iwritten it \<le> kb_written b"
  shows "\<exists>a w'. local_set E me b w = Some (a, w') \<and> slot (kb_key b) me w' = Some
    \<lparr>ikey = kb_key b, ivalue = kb_value b, iexpires = expiry (clock E (ticks w)) (dur_mul (kb_ttl b) millisecond),
     iwritten = kb_written b\<rparr>"
proof -
  obtain ok s where s: "Set (clock E (ticks w)) (kb_key b) (kb_value b) (dur_mul (kb_ttl b) millisecond)
      (kb_written b) (nstore (procs w me)) = Some (ok, s)"
    "local_set E me b w = Some (ok, upd me ((procs w me)\<lparr>nstore := s\<rparr>) (w\<lparr>ticks := ticks w + 1\<rparr>))"
    using local_set_SomeE [OF assms(1), of b me] by metis
  have inv: "store_inv (nstore (procs w me))" using world_invD [OF assms(1)] by (rule node_invD)
  show ?thesis
    using s(2) Set_lookup [OF inv s(1)] assms(2)
    by (auto simp: slot_def not_less split: option.splits)
qed

text \<open>Up to 292 years the lifetime is the requested one; beyond, the product wraps.\<close>

lemma ttl_exact:
  assumes "0 < ms" "ms \<le> 9223372036854"
  shows "expiry now (dur_mul ms millisecond) = now + ms * 1000000"
  using assms by (simp add: dur_mul_ms_exact expiry_def time_add_def)

lemma ttl_wraps:
  "dur_mul 18446744073710 millisecond = 448384"
  "expiry now (dur_mul 9223372036855 millisecond) = zero_time"
  by (simp_all add: expiry_def dur_mul_def millisecond_def wrap64_def)

section \<open>The breaker\<close>

lemma breaker_law:
  assumes "nid \<noteq> cID (ncfg n)"
  shows "fst (isDown t nid (markDown t0 nid n)) \<longleftrightarrow> t < t0 + cBreakFor (ncfg n)"
    and "t0 + cBreakFor (ncfg n) \<le> t \<Longrightarrow> gm_get (downUntil (snd (isDown t nid (markDown t0 nid n)))) nid = None"
    and "k \<noteq> nid \<Longrightarrow> gm_get (downUntil (markDown t0 nid n)) k = gm_get (downUntil n) k"
  using assms by (simp_all add: isDown_def markDown_def time_before_def time_add_def)

text \<open>
  A read all of whose owners are marked peers answers 503 without a call, and marks every
  one of them anew: the mark that made it skip an owner is itself counted as a failure.
\<close>

lemma marked_owner_skipped:
  assumes "q \<noteq> self_id me w" "gm_get (downUntil (procs w me)) q = Some t" "clock E (ticks w) < t"
  shows "get_loop E me key owners (q # ids) reached w = get_loop E me key owners ids reached
    (w\<lparr>ticks := ticks w + 2, procs := (procs w)(me := markDown (clock E (ticks w + 1)) q (procs w me))\<rparr>)"
proof -
  have "is_down E me q w = (True, w\<lparr>ticks := ticks w + 1, procs := (procs w)(me := procs w me)\<rparr>)"
    using assms(2,3) by (simp add: is_down_def tick_def isDown_def time_before_def upd_def)
  then have "readOwner E me q key w
      = Some (Inl ''marked down'', w\<lparr>ticks := ticks w + 1, procs := (procs w)(me := procs w me)\<rparr>)"
    using assms(1) by (simp add: readOwner_def)
  then show ?thesis by (simp add: mark_down_def tick_def upd_def)
qed

lemma markDown_get:
  "q \<noteq> cID (ncfg n) \<Longrightarrow> gm_get (downUntil (markDown now q n)) k
    = (if k = q then Some (now + cBreakFor (ncfg n)) else gm_get (downUntil n) k)"
  by (simp add: markDown_def time_add_def)

lemma marked_loop:
  assumes "distinct ids" "self_id me w \<notin> set ids"
    and "\<forall>q \<in> set ids. \<exists>t. gm_get (downUntil (procs w me)) q = Some t
      \<and> (\<forall>j < 2 * length ids. clock E (ticks w + j) < t)"
  shows "\<exists>w'. get_loop E me key owners ids False w = Some (http_error ''all replicas unreachable'' 503, w')
    \<and> calls w' = calls w \<and> ticks w' = ticks w + 2 * length ids \<and> same_members w w' \<and> same_caches w w'
    \<and> (\<forall>q. gm_get (downUntil (procs w' me)) q = gm_get (downUntil (procs w me)) q \<and> q \<notin> set ids
        \<or> (\<exists>j < 2 * length ids. gm_get (downUntil (procs w' me)) q
            = Some (clock E (ticks w + j) + cBreakFor (ncfg (procs w me)))))"
  using assms
proof (induction ids arbitrary: w)
  case Nil
  then show ?case by (simp add: same_defs)
next
  case (Cons q ids)
  define w1 where "w1 = w\<lparr>ticks := ticks w + 2,
    procs := (procs w)(me := markDown (clock E (ticks w + 1)) q (procs w me))\<rparr>"
  obtain t where t: "gm_get (downUntil (procs w me)) q = Some t" "clock E (ticks w) < t"
    using Cons.prems(3) by force
  have q: "q \<noteq> self_id me w" using Cons.prems(2) by auto
  have loop: "get_loop E me key owners (q # ids) False w = get_loop E me key owners ids False w1"
    unfolding w1_def by (rule marked_owner_skipped [OF q t])
  have w1: "ticks w1 = ticks w + 2" "calls w1 = calls w" "same_members w w1" "same_caches w w1"
    "ncfg (procs w1 me) = ncfg (procs w me)"
    by (simp_all add: w1_def same_defs markDown_frame)
  have marks: "gm_get (downUntil (procs w1 me)) k = (if k = q then Some (clock E (ticks w + 1)
      + cBreakFor (ncfg (procs w me))) else gm_get (downUntil (procs w me)) k)" for k
    using markDown_get [OF q] by (simp add: w1_def)
  have "\<exists>t. gm_get (downUntil (procs w1 me)) k = Some t \<and> (\<forall>j < 2 * length ids. clock E (ticks w1 + j) < t)"
    if k: "k \<in> set ids" for k
  proof -
    have "k \<noteq> q" using k Cons.prems(1) by auto
    obtain t where t: "gm_get (downUntil (procs w me)) k = Some t"
        "\<forall>j < 2 * length (q # ids). clock E (ticks w + j) < t"
      using k Cons.prems(3) by (meson list.set_intros(2))
    have "clock E (ticks w1 + j) < t" if "j < 2 * length ids" for j
      using t(2)[rule_format, of "j + 2"] that by (simp add: w1(1) add.commute add.left_commute)
    with t(1) marks \<open>k \<noteq> q\<close> show ?thesis by auto
  qed
  then obtain w' where w': "get_loop E me key owners ids False w1
      = Some (http_error ''all replicas unreachable'' 503, w')"
    "calls w' = calls w1" "ticks w' = ticks w1 + 2 * length ids" "same_members w1 w'" "same_caches w1 w'"
    "\<forall>q. gm_get (downUntil (procs w' me)) q = gm_get (downUntil (procs w1 me)) q \<and> q \<notin> set ids
        \<or> (\<exists>j < 2 * length ids. gm_get (downUntil (procs w' me)) q
            = Some (clock E (ticks w1 + j) + cBreakFor (ncfg (procs w1 me))))"
    using Cons.IH [of w1] Cons.prems(1,2) w1(5) by auto
  have "gm_get (downUntil (procs w' me)) k = gm_get (downUntil (procs w me)) k \<and> k \<notin> set (q # ids)
      \<or> (\<exists>j < 2 * length (q # ids). gm_get (downUntil (procs w' me)) k
          = Some (clock E (ticks w + j) + cBreakFor (ncfg (procs w me))))" for k
  proof -
    from w'(6)[rule_format, of k] show ?thesis
    proof
      assume "gm_get (downUntil (procs w' me)) k = gm_get (downUntil (procs w1 me)) k \<and> k \<notin> set ids"
      then show ?thesis using marks [of k] by (cases "k = q") (auto intro: exI [of _ 1])
    next
      assume "\<exists>j < 2 * length ids. gm_get (downUntil (procs w' me)) k
          = Some (clock E (ticks w1 + j) + cBreakFor (ncfg (procs w1 me)))"
      then obtain j where "j < 2 * length ids" "gm_get (downUntil (procs w' me)) k
          = Some (clock E (ticks w + (j + 2)) + cBreakFor (ncfg (procs w me)))"
        unfolding w1(1,5) by (auto simp: add.commute add.left_commute)
      then show ?thesis by (intro disjI2 exI [of _ "j + 2"]) simp
    qed
  qed
  then show ?case
    using loop w'(1-5) w1(1-4) by (intro exI [of _ w']) (simp add: same_defs)
qed

fun get_run :: "env \<Rightarrow> string \<Rightarrow> request \<Rightarrow> nat \<Rightarrow> world \<Rightarrow> (response list \<times> world) option" where
  "get_run E me r 0 w = Some ([], w)"
| "get_run E me r (Suc n) w =
    (case handleGet E me r w of
       None \<Rightarrow> None
     | Some (resp, w1) \<Rightarrow>
         (case get_run E me r n w1 of
            None \<Rightarrow> None
          | Some (resps, w2) \<Rightarrow> Some (resp # resps, w2)))"

lemma reads_keep_the_mark:
  assumes w: "world_inv E w"
    and owners: "owners = Owners (nring (procs w me)) key (cReplicas (ncfg (procs w me)))" "self_id me w \<notin> set owners"
    and marks: "\<forall>q \<in> set owners. \<exists>t. gm_get (downUntil (procs w me)) q = Some t
      \<and> (\<forall>j < 2 * length owners. clock E (ticks w + j) < t)"
    and key: "validateKey key = None" and r: "rMethod r = ''GET''" "rQuery r ''key'' = key"
    and often: "\<forall>k. \<forall>j \<le> 4 * length owners. clock E (k + j) < clock E k + cBreakFor (ncfg (procs w me))"
  shows "\<exists>w'. get_run E me r n w = Some (replicate n (http_error ''all replicas unreachable'' 503), w')
    \<and> calls w' = calls w"
  using w owners marks often
proof (induction n arbitrary: w)
  case 0
  then show ?case by simp
next
  case (Suc n)
  have ne: "owners \<noteq> []" using owners_nonempty [OF Suc.prems(1)] Suc.prems(2) by simp
  have order: "preferLocal owners (self_id me w) = owners" using Suc.prems(3) by (rule preferLocal_foreign)
  have dist: "distinct owners" using owners_distinct [OF Suc.prems(1), of me] Suc.prems(2) by metis
  obtain w1 where w1: "get_loop E me key owners owners False w = Some (http_error ''all replicas unreachable'' 503, w1)"
    "calls w1 = calls w" "ticks w1 = ticks w + 2 * length owners" "same_members w w1"
    "\<forall>q. gm_get (downUntil (procs w1 me)) q = gm_get (downUntil (procs w me)) q \<and> q \<notin> set owners
        \<or> (\<exists>j < 2 * length owners. gm_get (downUntil (procs w1 me)) q
            = Some (clock E (ticks w + j) + cBreakFor (ncfg (procs w me))))"
    using marked_loop [OF dist Suc.prems(3,4), of key owners] by blast
  have g: "handleGet E me r w = Some (http_error ''all replicas unreachable'' 503, w1)"
    using w1(1) order key r ne Suc.prems(2) by (simp add: handleGet_def Let_def)
  then have inv: "world_inv E w1" using wf.handleGet_runs [OF TrueI TrueI Suc.prems(1), of me r] by (simp add: runs_def)
  have same: "ncfg (procs w1 me) = ncfg (procs w me)" "nring (procs w1 me) = nring (procs w me)"
    using w1(4) by (simp_all add: same_members_def)
  have "\<exists>t. gm_get (downUntil (procs w1 me)) q = Some t \<and> (\<forall>j < 2 * length owners. clock E (ticks w1 + j) < t)"
    if q: "q \<in> set owners" for q
  proof -
    obtain i where i: "i < 2 * length owners" "gm_get (downUntil (procs w1 me)) q
        = Some (clock E (ticks w + i) + cBreakFor (ncfg (procs w me)))"
      using w1(5) q by blast
    have "clock E (ticks w1 + j) < clock E (ticks w + i) + cBreakFor (ncfg (procs w me))" if "j < 2 * length owners" for j
    proof -
      define d where "d = 2 * length owners + j - i"
      have "ticks w1 + j = ticks w + i + d" "d \<le> 4 * length owners" using i(1) that w1(3) by (auto simp: d_def)
      then show ?thesis using Suc.prems(5)[rule_format, of d "ticks w + i"] by simp
    qed
    with i(2) show ?thesis by blast
  qed
  then obtain w2 where "get_run E me r n w1 = Some (replicate n (http_error ''all replicas unreachable'' 503), w2)"
      "calls w2 = calls w1"
    using Suc.IH [OF inv] Suc.prems(2,3,5) same by auto
  then show ?case using g w1(2) by simp
qed


section \<open>Lifetimes across a read\<close>

text \<open>The expiry a reader reconstructs from the remaining milliseconds of a reply.\<close>

definition relayed_expiry :: "time \<Rightarrow> time \<Rightarrow> time \<Rightarrow> time" where
  "relayed_expiry sent received expires =
    (let ms = until_ms sent expires
     in if is_zero expires \<or> ms \<le> 0 then zero_time else time_add received (dur_mul ms millisecond))"

lemma until_ms_range: "in_int64 (max 0 (until_ms now t))"
proof -
  have d: "in_int64 (time_sub t now)" by (rule time_sub_range)
  have "until_ms now t \<le> max_int64"
  proof (cases "0 \<le> time_sub t now")
    case True
    then have "until_ms now t * 1000000 \<le> time_sub t now" unfolding until_ms_def by (rule milliseconds_floor)
    with d True show ?thesis by (simp add: in_int64_def max_int64_def)
  next
    case False
    then have "until_ms now t \<le> 0" unfolding until_ms_def by (intro milliseconds_le_0) simp
    then show ?thesis by (simp add: max_int64_def)
  qed
  then show ?thesis by (simp add: in_int64_def min_int64_def max_int64_def)
qed

lemma readOwner_remote:
  assumes w: "world_inv E w" and u: "uniform E ps w" and ps: "me \<in> ps" "nid \<in> ps" "me \<noteq> nid"
    and it: "slot key nid w = Some it" "\<not> expired it (clock E (ticks w + 1))" "in_int64 (iwritten it)"
    and key: "validateKey key = None" and up: "gm_get (downUntil (procs w me)) nid = None"
  shows "\<exists>w'. readOwner E me nid key w = Some (Inr (\<lparr>Value = ivalue it,
      ExpiresAt = relayed_expiry (clock E (ticks w + 2)) (clock E (ticks w + 3)) (iexpires it),
      WrittenAt = iwritten it\<rparr>, True), w') \<and> pending w' = pending w"
proof -
  define base where "base = trim_right_char CHR ''/'' (peerURL (procs w me) nid)"
  have base: "base \<noteq> ''''" "route E base = Some nid" "self_id me w = me" "self_id nid w = nid"
      "\<forall>k. fault E k = Deliver"
    using u ps unfolding uniform_def base_def by metis+
  have raw: "peerURL (procs w me) nid \<noteq> ''''"
    using base(1) by (auto simp: base_def trim_right_char_def)
  define w1 where "w1 = upd me (procs w me) (w\<lparr>ticks := ticks w + 1\<rparr>)"
  have d: "is_down E me nid w = (False, w1)"
    using up by (simp add: w1_def is_down_def isDown_def tick_def)
  define w2 where "w2 = w1\<lparr>calls := calls w1 + 1\<rparr>"
  have p2: "procs w2 = procs w" "ticks w2 = ticks w + 1" "pending w2 = pending w"
    by (simp_all add: w2_def w1_def upd_def)
  have inv: "store_inv (nstore (procs w nid))" using world_invD [OF w] by (rule node_invD)
  have "fst (Get (clock E (ticks w + 1)) key (nstore (procs w nid))) = (entry_of it, True)"
    using it(1,2) by (simp add: entries_ops(2) [OF inv] lru_get_def slot_def)
  then obtain s where s: "Get (clock E (ticks w + 1)) key (nstore (procs w nid)) = ((entry_of it, True), s)"
    by (metis prod.collapse)
  define w3 where "w3 = upd nid ((procs w nid)\<lparr>nstore := s\<rparr>) (w2\<lparr>ticks := ticks w + 2\<rparr>)"
  have g: "local_get E nid key w2 = ((entry_of it, True), w3)"
    using s p2 by (simp add: local_get_def tick_def w3_def)
  define pay where "pay = getPayload (clock E (ticks w + 2)) key nid (entry_of it)"
  define w4 where "w4 = w3\<lparr>ticks := ticks w + 3\<rparr>"
  have "handleInternalKV E nid (kv_request ''GET'' key empty_payload) w2
      = Some (writeJSON 200 (encode_get pay), w4)"
    using key g base(4) p2
    by (simp add: handleInternalKV_def kv_request_eq Let_def tick_def pay_def w4_def w3_def upd_def
        eval_nat_numeral)
  then have c: "client_do E base (kv_request ''GET'' key empty_payload) w1
      = Some (Inr (writeJSON 200 (encode_get pay)), w4)"
    unfolding w2_def by (rule client_delivered [OF base(5,2), rotated]) (simp add: kv_request_eq)
  have dec: "decode_get (encode_get pay) = Some pay"
    using it(3) until_ms_range
    by (intro decode_encode_get) (auto simp: pay_def getPayload_def entry_of_def split: if_splits)
  have exp: "(case gr_ttl pay of None \<Rightarrow> zero_time
      | Some ms \<Rightarrow> if ms > 0 then time_add t (dur_mul ms millisecond) else zero_time)
    = relayed_expiry (clock E (ticks w + 2)) t (iexpires it)" for t
    by (auto simp: pay_def getPayload_def entry_of_def relayed_expiry_def Let_def)
  have fields: "gr_found pay" "gr_value pay = ivalue it" "gr_written pay = iwritten it"
    by (simp_all add: pay_def getPayload_def entry_of_def)
  have p1: "procs w1 = procs w" by (simp add: w1_def)
  have "readOwner E me nid key w = Some (Inr (\<lparr>Value = ivalue it,
      ExpiresAt = relayed_expiry (clock E (ticks w + 2)) (clock E (ticks w + 3)) (iexpires it),
      WrittenAt = iwritten it\<rparr>, True), w4\<lparr>ticks := ticks w + 4\<rparr>)"
    using ps(3) base(1,3) raw d c dec fields
    by (simp add: readOwner_def Let_def p1 base_def [symmetric] writeJSON_def tick_def exp w4_def)
  moreover have "pending (w4\<lparr>ticks := ticks w + 4\<rparr>) = pending w"
    using p2(3) by (simp add: w4_def w3_def upd_def)
  ultimately show ?thesis by blast
qed

text \<open>
  A reader never extends a lifetime beyond the time the reply took, except that a remainder
  below one millisecond turns into no expiry at all.
\<close>

lemma relayed_expiry_le:
  assumes "\<not> is_zero expires" "0 < until_ms sent expires" "expires - sent \<le> 9223372036854000000"
  shows "relayed_expiry sent received expires \<le> expires + (received - sent)"
    and "expires + (received - sent) < relayed_expiry sent received expires + 1000000"
proof -
  have pos: "0 < time_sub expires sent"
  proof (rule ccontr)
    assume "\<not> 0 < time_sub expires sent"
    then have "until_ms sent expires \<le> 0" unfolding until_ms_def by (intro milliseconds_le_0) simp
    with assms(2) show False by simp
  qed
  then have sub: "time_sub expires sent = expires - sent"
    using assms(3) by (auto simp: time_sub_def min_int64_def max_int64_def max_def min_def split: if_splits)
  have ms: "until_ms sent expires * 1000000 \<le> expires - sent"
    "expires - sent < until_ms sent expires * 1000000 + 1000000"
    using milliseconds_floor [of "expires - sent"] pos sub by (simp_all add: until_ms_def)
  then have "until_ms sent expires \<le> 9223372036854" using assms(3) by linarith
  then have "dur_mul (until_ms sent expires) millisecond = until_ms sent expires * 1000000"
    using assms(2) by (intro dur_mul_ms_exact) simp_all
  then show "relayed_expiry sent received expires \<le> expires + (received - sent)"
    "expires + (received - sent) < relayed_expiry sent received expires + 1000000"
    using ms assms(1,2) by (simp_all add: relayed_expiry_def Let_def time_add_def)
qed

lemma repair_becomes_permanent:
  assumes w: "world_inv E w" and u: "uniform E ps w" and ps: "me \<in> ps"
    and owners: "Owners (nring (procs w me)) key (cReplicas (ncfg (procs w me))) = nid # rest" "me \<notin> set (nid # rest)"
    and it: "slot key nid w = Some it" "\<not> expired it (clock E (ticks w + 1))" "in_int64 (iwritten it)"
    and short: "\<not> is_zero (iexpires it)" "until_ms (clock E (ticks w + 2)) (iexpires it) \<le> 0"
    and key: "validateKey key = None" "rMethod r = ''GET''" "rQuery r ''key'' = key"
    and up: "gm_get (downUntil (procs w me)) nid = None"
  shows "\<exists>w'. handleGet E me r w = Some (hit_resp key nid (it\<lparr>iexpires := zero_time\<rparr>), w')
    \<and> pending w' = pending w @ map (\<lambda>x. \<lparr>rp_from = me, rp_to = x, rp_body =
        \<lparr>kb_key = key, kb_value = ivalue it, kb_ttl = 0, kb_written = iwritten it\<rparr>\<rparr>) rest"
proof -
  have nid: "nid \<in> ps"
    using owners_in_cluster [OF w u ps, of key "cReplicas (ncfg (procs w me))"] owners(1) by auto
  have self: "self_id me w = me" using u ps by (simp add: uniform_def)
  have "relayed_expiry (clock E (ticks w + 2)) t (iexpires it) = zero_time" for t
    using short by (simp add: relayed_expiry_def)
  then obtain w1 where w1: "readOwner E me nid key w = Some (Inr (\<lparr>Value = ivalue it, ExpiresAt = zero_time,
      WrittenAt = iwritten it\<rparr>, True), w1)" "pending w1 = pending w"
    using readOwner_remote [OF w u ps nid _ it key(1) up] owners(2) by auto
  have pref: "preferLocal (nid # rest) me = nid # rest" using owners(2) by (rule preferLocal_foreign)
  have "distinct (nid # rest)" using owners_distinct [OF w, of me] owners(1) by metis
  then have others: "filter (\<lambda>x. x \<noteq> nid) (nid # rest) = rest" by (auto simp: filter_id_conv)
  show ?thesis
    using key owners(1) self pref w1 others
    by (simp add: handleGet_def Let_def readRepair_def tick_def getPayload_def hit_resp_def is_zero_def)
qed

section \<open>Values that outgrow the internal limit\<close>

lemma escaped_body_length:
  assumes "kb_value b = replicate n c" "c \<in> {CHR ''<'', CHR ''>'', CHR ''&''}"
  shows "6 * n \<le> length (json_text ft (encode_kv b))"
proof -
  have "length (quoted (kb_value b)) = 6 * n + 2"
    using assms by (simp add: quoted_def escape_string_replicate)
  then show ?thesis by (simp add: encode_kv_def omit_int_def)
qed

text \<open>Conversely, a body is at most six bytes per byte of key and value longer than its frame.\<close>

lemma escape_string_step:
  "escape_string (c # cs) = escape_char c @ escape_string cs
    \<or> (\<exists>c2 c3 cs' t. cs = c2 # c3 # cs' \<and> length t = 6 \<and> escape_string (c # cs) = t @ escape_string cs')"
proof (cases cs)
  case (Cons c2 cs2)
  then show ?thesis by (cases cs2) (auto simp: u_escape_def simp del: escape_string.simps(2) simp: escape_string.simps(2) [of c])
qed simp

lemma escape_string_length: "length (escape_string s) \<le> 6 * length s"
proof (induction s rule: length_induct)
  case (1 s)
  show ?case
  proof (cases s)
    case (Cons c cs)
    have c: "length (escape_char c) \<le> 6" by (simp add: escape_char_def u_escape_def Let_def)
    from escape_string_step [of c cs] show ?thesis
    proof
      assume "escape_string (c # cs) = escape_char c @ escape_string cs"
      moreover have "length (escape_string cs) \<le> 6 * length cs" using 1 Cons by simp
      ultimately show ?thesis using c Cons by (simp del: escape_string.simps)
    next
      assume "\<exists>c2 c3 cs' t. cs = c2 # c3 # cs' \<and> length t = 6 \<and> escape_string (c # cs) = t @ escape_string cs'"
      then obtain c2 c3 cs' t where t: "cs = c2 # c3 # cs'" "length t = 6" "escape_string (c # cs) = t @ escape_string cs'"
        by blast
      moreover have "length (escape_string cs') \<le> 6 * length cs'" using 1 Cons t(1) by simp
      ultimately show ?thesis using Cons by (simp del: escape_string.simps)
    qed
  qed simp
qed

lemma quoted_length: "length (quoted s) \<le> 6 * length s + 2"
  using escape_string_length [of s] by (simp add: quoted_def)

lemma itoa_length: "0 < k \<Longrightarrow> n < 10 ^ k \<Longrightarrow> length (itoa n) \<le> k"
proof (induction n arbitrary: k rule: itoa.induct)
  case (1 n)
  show ?case
  proof (cases "n < 10")
    case True
    then show ?thesis using 1(2) by (simp add: itoa.simps)
  next
    case False
    then obtain k' where k': "k = Suc k'" "0 < k'" using 1(2,3) by (cases k; cases "k - 1") auto
    then have "length (itoa (n div 10)) \<le> k'" using 1(1) [OF False, of k'] 1(3) by auto
    then show ?thesis using False k' by (subst itoa.simps) simp
  qed
qed

lemma int_text_length: "in_int64 n \<Longrightarrow> length (int_text n) \<le> 20"
proof -
  assume "in_int64 n"
  then have "\<bar>n\<bar> < 10 ^ 19" by (simp add: in_int64_def min_int64_def max_int64_def abs_less_iff)
  then have "nat \<bar>n\<bar> < 10 ^ 19" by (simp add: nat_less_iff)
  then have "length (itoa (nat \<bar>n\<bar>)) \<le> 19" by (intro itoa_length) simp_all
  then show ?thesis by (auto simp: int_text_def)
qed

lemma encode_kv_length:
  assumes "in_int64 (kb_ttl b)" "in_int64 (kb_written b)"
  shows "length (json_text ft (encode_kv b)) \<le> 6 * (length (kb_key b) + length (kb_value b)) + 100"
proof -
  have tags: "length (quoted ''key'') = 5" "length (quoted ''value'') = 7" "length (quoted ''ttl_ms'') = 8"
    "length (quoted ''written_at'') = 12"
    by (simp_all add: quoted_def escape_char_def)
  show ?thesis
    using quoted_length [of "kb_key b"] quoted_length [of "kb_value b"] int_text_length [OF assms(1)]
      int_text_length [OF assms(2)]
    by (simp add: encode_kv_def omit_int_def tags)
qed

text \<open>Values of up to 174,000 bytes reach the replicas whatever they contain.\<close>

lemma fits_small:
  assumes "in_int64 (kb_ttl b)" "in_int64 (kb_written b)" "validateKey (kb_key b) = None"
    "length (kb_value b) \<le> 174000"
  shows "fits E b"
proof -
  have "length (kb_key b) \<le> 512"
    using assms(3) by (simp add: validateKey_def maxKeyBytes_def not_less split: if_splits)
  then show ?thesis
    using encode_kv_length [OF assms(1,2), of "float_text E"] assms
    by (simp add: fits_def maxValueBytes_def)
qed

lemma oversized_write_fails:
  assumes u: "uniform E ps w" and ps: "me \<in> ps" "nid \<in> ps" "me \<noteq> nid"
    and big: "maxValueBytes + 4096 < length (json_text (float_text E) (encode_kv b))"
  shows "writeOwner E me ''PUT'' nid b w = Some (Some ''status'', w\<lparr>calls := calls w + 1\<rparr>)"
proof -
  define base where "base = trim_right_char CHR ''/'' (peerURL (procs w me) nid)"
  define req where "req = kv_request ''PUT'' '''' (marshal (float_text E) (encode_kv b))"
  have base: "base \<noteq> ''''" "route E base = Some nid" "self_id me w = me" "\<forall>k. fault E k = Deliver"
    using u ps unfolding uniform_def base_def by metis+
  have "handleInternalKV E nid req w1 = Some (http_error ''bad json'' 400, w1)" for w1
    using big by (simp add: handleInternalKV_def req_def kv_request_eq readJSON_def marshal_def)
  then have "client_do E base req w = Some (Inr (http_error ''bad json'' 400), w\<lparr>calls := calls w + 1\<rparr>)"
    by (intro client_delivered [OF base(4,2)]) (simp_all add: req_def kv_request_eq)
  then show ?thesis
    using ps(3) base(1,3)
    by (simp add: writeOwner_def Let_def base_def [symmetric] req_def [symmetric] http_error_def)
qed

end
