(* ===== verification/Deletes.thy ===== *)
theory Deletes
  imports Replication
begin

text \<open>
  What a DELETE does to the caches of the cluster, under any loss of requests and
  responses: on every process the key keeps its item or loses it, other keys stay, and an
  owner counted as acknowledged has lost it.
\<close>

definition del_rel :: "string \<Rightarrow> world \<Rightarrow> world \<Rightarrow> bool" where
  "del_rel key w w' \<longleftrightarrow> same_members w w' \<and> same_limiters w w'
    \<and> (\<forall>p k. slot k p w' = slot k p w \<or> k = key \<and> slot k p w' = None)"

lemma del_rel_refl: "del_rel key w w"
  by (simp add: del_rel_def same_defs)

lemma del_rel_trans: "del_rel key w w' \<Longrightarrow> del_rel key w' w'' \<Longrightarrow> del_rel key w w''"
  unfolding del_rel_def by (auto simp: same_defs) metis+

lemma del_rel_calls: "del_rel key (w\<lparr>calls := c\<rparr>) w' = del_rel key w w'"
  by (simp add: del_rel_def same_defs)

lemma local_delete_effect:
  assumes "world_inv E w" "local_delete p key w = (ok, w')"
  shows "world_inv E w' \<and> del_rel key w w' \<and> slot key p w' = None"
proof -
  have inv: "store_inv (nstore (procs w p))" using world_invD [OF assms(1)] by (rule node_invD)
  have w': "w' = upd p ((procs w p)\<lparr>nstore := snd (Delete key (nstore (procs w p)))\<rparr>) w"
    using assms(2) by (simp add: local_delete_def split_beta)
  have gone: "lookup k (without key l) = (if k = key then None else lookup k l)" for k l
    unfolding lookup_def without_def by (induction l) auto
  have "slot k q w' = (if q = p \<and> k = key then None else slot k q w)" for k q
    by (simp add: w' slot_def entries_ops(3) [OF inv] lru_delete_def gone)
  moreover have "world_inv E w'"
    using assms(1) by (simp add: w' world_inv_def node_inv_delete)
  ultimately show ?thesis by (simp add: del_rel_def same_defs w')
qed

text \<open>A DELETE at the owner's side, and the call that carries it there.\<close>

lemma internal_delete:
  assumes w: "world_inv E w"
  shows "\<exists>res w'. handleInternalKV E p (kv_request ''DELETE'' key empty_payload) w = Some (res, w') \<and> world_inv E w'
    \<and> del_rel key w w' \<and> (rStatus res < 300 \<longrightarrow> slot key p w' = None)"
proof (cases "validateKey key")
  case None
  obtain ok w' where d: "local_delete p key w = (ok, w')" by force
  show ?thesis
    using None local_delete_effect [OF w d] by (simp add: handleInternalKV_def kv_request_eq d)
next
  case (Some e)
  then show ?thesis using w by (simp add: handleInternalKV_def kv_request_eq http_error_def del_rel_refl)
qed

lemma delete_call:
  assumes w: "world_inv E w"
  shows "\<exists>x w'. client_do E base (kv_request ''DELETE'' key empty_payload) w = Some (x, w') \<and> world_inv E w' \<and> del_rel key w w'
    \<and> (\<forall>res. x = Inr res \<and> rStatus res < 300 \<longrightarrow> (\<exists>p. route E base = Some p \<and> slot key p w' = None))"
proof -
  define w1 where "w1 = w\<lparr>calls := calls w + 1\<rparr>"
  have w1: "world_inv E w1" "del_rel key w w1"
    using w by (simp_all add: w1_def del_rel_def same_defs)
  have path: "rPath (kv_request ''DELETE'' key empty_payload) = ''/internal/kv''" by (simp add: kv_request_eq)
  show ?thesis
  proof (cases "route E base")
    case None
    then show ?thesis using w1 by (simp add: client_do_def w1_def Let_def)
  next
    case (Some p)
    obtain res w' where h: "handleInternalKV E p (kv_request ''DELETE'' key empty_payload) w1 = Some (res, w')" "world_inv E w'"
        "del_rel key w w'" "rStatus res < 300 \<longrightarrow> slot key p w' = None"
      using internal_delete [OF w1(1), of p key] del_rel_trans [OF w1(2)] by blast
    show ?thesis
      using Some h w1 path unfolding w1_def
      by (cases "fault E (calls w)") (auto simp: client_do_def Let_def)
  qed
qed

lemma writeOwner_delete:
  assumes w: "world_inv E w"
  shows "\<exists>err w'. writeOwner E me ''DELETE'' nid b w = Some (err, w') \<and> world_inv E w' \<and> del_rel (kb_key b) w w'
    \<and> (err = None \<longrightarrow> (\<exists>p. target E me nid w = Some p \<and> slot (kb_key b) p w' = None))"
proof (cases "nid = self_id me w")
  case True
  obtain ok w' where "local_delete me (kb_key b) w = (ok, w')" by force
  with local_delete_effect [OF w this] True show ?thesis by (simp add: writeOwner_def target_def)
next
  case False
  define base where "base = trim_right_char CHR ''/'' (peerURL (procs w me) nid)"
  obtain x w' where x: "client_do E base (kv_request ''DELETE'' (kb_key b) empty_payload) w = Some (x, w')" "world_inv E w'"
      "del_rel (kb_key b) w w'"
      "\<forall>res. x = Inr res \<and> rStatus res < 300 \<longrightarrow> (\<exists>p. route E base = Some p \<and> slot (kb_key b) p w' = None)"
    using delete_call [OF w] by blast
  have tgt: "target E me nid w = route E base" using False by (simp add: target_def base_def)
  show ?thesis
  proof (cases "base = ''''")
    case True
    then show ?thesis using False w by (simp add: writeOwner_def Let_def base_def [symmetric] del_rel_refl)
  next
    case ne: False
    have "writeOwner E me ''DELETE'' nid b w = Some (case x of Inl e \<Rightarrow> Some e
        | Inr res \<Rightarrow> if rStatus res \<ge> 300 then Some ''status'' else None, w')"
      using False ne x(1) by (cases x) (simp_all add: writeOwner_def Let_def base_def [symmetric])
    then show ?thesis using x(2-4) by (auto simp: tgt not_le split: sum.splits if_splits)
  qed
qed

lemma run_writes_delete:
  "world_inv E w \<Longrightarrow> \<exists>rs w'. run_writes E me ''DELETE'' b ids w = Some (rs, w') \<and> world_inv E w'
    \<and> del_rel (kb_key b) w w' \<and> map fst rs = ids
    \<and> (\<forall>nid. (nid, None) \<in> set rs \<longrightarrow> (\<exists>p. target E me nid w = Some p \<and> slot (kb_key b) p w' = None))"
proof (induction ids arbitrary: w)
  case Nil
  then show ?case by (simp add: del_rel_refl)
next
  case (Cons x ids)
  obtain err w1 where w1: "writeOwner E me ''DELETE'' x b w = Some (err, w1)" "world_inv E w1"
      "del_rel (kb_key b) w w1"
      "err = None \<longrightarrow> (\<exists>p. target E me x w = Some p \<and> slot (kb_key b) p w1 = None)"
    using writeOwner_delete [OF Cons.prems, of me x b] by blast
  obtain rs w2 where w2: "run_writes E me ''DELETE'' b ids w1 = Some (rs, w2)" "world_inv E w2"
      "del_rel (kb_key b) w1 w2" "map fst rs = ids"
      "\<forall>nid. (nid, None) \<in> set rs \<longrightarrow> (\<exists>p. target E me nid w1 = Some p \<and> slot (kb_key b) p w2 = None)"
    using Cons.IH [OF w1(2)] by blast
  have "target E me nid w1 = target E me nid w" for nid
    using w1(3) by (simp add: del_rel_def target_same)
  moreover have "slot (kb_key b) p w1 = None \<Longrightarrow> slot (kb_key b) p w2 = None" for p
    using w2(3) unfolding del_rel_def by metis
  ultimately show ?case
    using w1(1,4) w2 del_rel_trans [OF w1(3) w2(3)]
    by (intro exI [of _ "(x, err) # rs"] exI [of _ w2]) auto
qed

lemma delete_outcome:
  fixes me :: string
  assumes w: "world_inv E w" and env: "env_ok E"
    and r: "rMethod r = ''DELETE''" "rQuery r ''key'' = key" "validateKey key = None"
  defines "owners \<equiv> Owners (nring (procs w me)) key (cReplicas (ncfg (procs w me)))"
  shows "\<exists>acked failed w'. handleDelete E me r w = Some (writeJSON (if acked = 0 then 503 else 200)
      (encode_write \<lparr>wr_key = key, wr_acked = acked, wr_replicas = owners, wr_failed = failed\<rparr>), w')
    \<and> acked + length failed = length owners \<and> set failed \<subseteq> set owners \<and> sorted failed
    \<and> (\<forall>nid \<in> set owners - set failed. \<exists>p. target E me nid w = Some p \<and> slot key p w' = None)
    \<and> (\<forall>p k. slot k p w' = slot k p w \<or> k = key \<and> slot k p w' = None)"
proof -
  have ne: "0 < length owners" using owners_nonempty_length [OF w] by (simp add: owners_def)
  have dist: "distinct owners" unfolding owners_def using owners_distinct [OF w] .
  define b where "b = zero_kv\<lparr>kb_key := key\<rparr>"
  have key: "kb_key b = key" by (simp add: b_def)
  obtain rs w1 where rw: "run_writes E me ''DELETE'' b (run_order E (calls w) owners) w = Some (rs, w1)"
      "world_inv E w1" "del_rel key w w1" "map fst rs = run_order E (calls w) owners"
      "\<forall>nid. (nid, None) \<in> set rs \<longrightarrow> (\<exists>p. target E me nid w = Some p \<and> slot key p w1 = None)"
    using run_writes_delete [OF w, of me b] unfolding key by blast
  define rs' where "rs' = arrival E (calls w) rs"
  have perm: "mset rs' = mset rs" "mset (map fst rs) = mset owners"
    using env rw(4) by (simp_all add: env_ok_def rs'_def del: mset_map)
  define bad where "bad = map fst (filter (\<lambda>r. snd r \<noteq> None) rs')"
  define acked where "acked = length (filter (\<lambda>r. snd r = None) rs')"
  note split = split_results [OF perm dist, folded bad_def acked_def]
  obtain w2 where c: "collect E me rs' 0 [] w1 = ((acked, bad), w2)"
    using collect_result [of E me rs' 0 "[]" w1] by (metis acked_def bad_def add_0 append_Nil prod.collapse)
  have w2: "same_caches w1 w2" using tk.collect_ok [OF TrueI rw(2), of me rs' 0 "[]"] c by simp
  have f: "fanout E me ''DELETE'' owners b w = Some ((acked, sort bad), w2)"
    using rw(1) c by (simp add: fanout_def rs'_def)
  have "handleDelete E me r w = Some (writeJSON (if acked = 0 then 503 else 200)
      (encode_write \<lparr>wr_key = key, wr_acked = acked, wr_replicas = owners, wr_failed = sort bad\<rparr>), w2)"
    using r f ne by (simp add: handleDelete_def Let_def owners_def [symmetric] b_def)
  moreover have "acked + length (sort bad) = length owners" "set (sort bad) \<subseteq> set owners"
    using split(1,2) by simp_all
  moreover have "\<forall>nid \<in> set owners - set (sort bad). \<exists>p. target E me nid w = Some p \<and> slot key p w2 = None"
    using split(4) rw(5) same_caches_slot [OF w2] by (metis set_sort)
  moreover have "\<forall>p k. slot k p w2 = slot k p w \<or> k = key \<and> slot k p w2 = None"
    using rw(3) same_caches_slot [OF w2] by (simp add: del_rel_def)
  ultimately show ?thesis
    by (intro exI [of _ acked] exI [of _ "sort bad"] exI [of _ w2] conjI sorted_sort)
qed

end
