(* ===== verification/ClusterDemo.thy ===== *)
theory ClusterDemo
  imports ClusterTakes ClusterEdges Deletes
begin

text \<open>
  A cluster of three processes on which the properties of \<open>ClusterTheorems\<close> are applied:
  two replicas per key, two virtual nodes per process, every call delivered, a clock that
  advances one nanosecond per reading. Every other process name runs a copy of the first.
\<close>

definition demo_peers :: "(string, string) gomap" where
  "demo_peers = [(''a'', ''http://a''), (''b'', ''http://b/''), (''c'', ''http://c'')]"

definition demo_config :: "string \<Rightarrow> config" where
  "demo_config x = \<lparr>cID = (if x = ''b'' \<or> x = ''c'' then x else ''a''), cListen = '''', cPeers = demo_peers,
    cReplicas = 2, cCapacity = 4, cVNodes = 2, cReplicaTimeout = 0, cBreakFor = 0, cRateLimitCapacity = 0,
    cRateLimitIdleTTL = 0\<rparr>"

definition demo_node :: "string \<Rightarrow> node" where
  "demo_node x = \<lparr>ncfg = effective (demo_config x), nring = fold Add [''a'', ''b'', ''c''] (New_ring 2),
    nstore = New_store 4, nrl = NewStore 10000 (60 * second), downUntil = gm_empty, npeers = demo_peers\<rparr>"

definition demo_env :: env where
  "demo_env = \<lparr>arch = AMD64, clock = int, fault = (\<lambda>_. Deliver),
    route = (\<lambda>u. if u = ''http://a'' then Some ''a'' else if u = ''http://b'' then Some ''b''
      else if u = ''http://c'' then Some ''c'' else None),
    run_order = (\<lambda>_ xs. xs), arrival = (\<lambda>_ rs. rs), float_text = (\<lambda>_. ''1''), uri_ok = (\<lambda>_. True)\<rparr>"

definition demo_world :: world where
  "demo_world = \<lparr>procs = demo_node, ticks = 1, calls = 0, pending = []\<rparr>"

lemma demo_env_simps [simp]:
  "arch demo_env = AMD64" "clock demo_env k = int k" "fault demo_env k = Deliver"
  "run_order demo_env k xs = xs" "arrival demo_env k rs = rs" "float_text demo_env x = ''1''"
  by (simp_all add: demo_env_def)

lemma demo_env_ok: "env_ok demo_env"
  by (simp add: env_ok_def)

lemma demo_sorted: "sort (gm_keys demo_peers) = [''a'', ''b'', ''c'']"
  by code_simp

lemma demo_url [simp]:
  "gm_get demo_peers ''a'' = Some ''http://a''" "gm_get demo_peers ''b'' = Some ''http://b/''"
  "gm_get demo_peers ''c'' = Some ''http://c''"
  by code_simp+

lemma demo_effective [simp]:
  "cID (effective (demo_config x)) = (if x = ''b'' \<or> x = ''c'' then x else ''a'')"
  "cReplicas (effective (demo_config x)) = 2" "cCapacity (effective (demo_config x)) = 4"
  "cVNodes (effective (demo_config x)) = 2" "cRateLimitCapacity (effective (demo_config x)) = 10000"
  "cRateLimitIdleTTL (effective (demo_config x)) = 60 * second"
  "cBreakFor (effective (demo_config x)) = 2 * second"
  "cListen (effective (demo_config x)) = '':8080''" "cPeers (effective (demo_config x)) = demo_peers"
  by (simp_all add: effective_def with_defaults_def demo_config_def demo_peers_def gm_len_def)

lemma demo_New: "New_node (demo_config x) = Inr (demo_node x)"
proof -
  have "cPeers (demo_config x) = demo_peers" "cID (demo_config x) \<in> {''a'', ''b'', ''c''}"
    by (simp_all add: demo_config_def)
  then show ?thesis
    using demo_url unfolding New_node_eq demo_node_def by (auto simp: demo_sorted)
qed

lemma demo_peers_ok: "gm_ok (cPeers (demo_config x))"
  by (simp add: gm_ok_def demo_config_def demo_peers_def)

lemma demo_boot: "boot demo_world"
  unfolding boot_def using demo_New demo_peers_ok by (auto simp: demo_world_def)

lemma demo_reach: "cluster_reach demo_env demo_world"
  by (rule reach_boot) (rule demo_boot)

lemma demo_inv: "world_inv demo_env demo_world"
  by (rule cluster_reach_inv) (rule demo_reach)

lemma demo_procs [simp]: "procs demo_world = demo_node" "ticks demo_world = 1" "calls demo_world = 0"
  "pending demo_world = []"
  by (simp_all add: demo_world_def)

lemma demo_Nodes: "set (Nodes (fold Add [''a'', ''b'', ''c''] (New_ring 2))) = {''a'', ''b'', ''c''}"
  unfolding Nodes_fold_Add by simp

lemma demo_node_simps [simp]:
  "ncfg (demo_node x) = effective (demo_config x)" "nstore (demo_node x) = New_store 4"
  "nrl (demo_node x) = NewStore 10000 (60 * second)" "downUntil (demo_node x) = gm_empty"
  "npeers (demo_node x) = demo_peers"
  "nring (demo_node x) = fold Add [''a'', ''b'', ''c''] (New_ring 2)"
  by (simp_all add: demo_node_def)

lemma demo_trim:
  "trim_right_char CHR ''/'' ''http://a'' = ''http://a''" "trim_right_char CHR ''/'' ''http://b/'' = ''http://b''"
  "trim_right_char CHR ''/'' ''http://c'' = ''http://c''"
  by code_simp+

lemma demo_route [simp]: "route demo_env ''http://a'' = Some ''a''" "route demo_env ''http://b'' = Some ''b''"
  "route demo_env ''http://c'' = Some ''c''"
  by (simp_all add: demo_env_def)

lemma demo_uniform: "uniform demo_env {''a'', ''b'', ''c''} demo_world"
  unfolding uniform_def demo_procs demo_node_simps demo_Nodes
  by (simp add: peerURL_def demo_trim)

lemma demo_owners:
  "Owners (fold Add [''a'', ''b'', ''c''] (New_ring 2)) ''k'' 2 = [''a'', ''b'']"
  by code_simp

section \<open>Requests\<close>

definition demo_body :: kv_body where
  "demo_body = \<lparr>kb_key = ''k'', kb_value = ''v'', kb_ttl = 0, kb_written = 7\<rparr>"

definition demo_put :: request where
  "demo_put = \<lparr>rPath = ''/v1/set'', rMethod = ''PUT'', rQuery = (\<lambda>_. ''''),
    rBody = marshal (\<lambda>_. ''1'') (encode_kv demo_body)\<rparr>"

definition demo_get :: request where
  "demo_get = \<lparr>rPath = ''/v1/get'', rMethod = ''GET'', rQuery = (\<lambda>q. if q = ''key'' then ''k'' else ''''),
    rBody = empty_payload\<rparr>"

definition demo_rl :: rl_body where
  "demo_rl = \<lparr>rb_key = ''k'', rb_rate = 1, rb_burst = 2, rb_cost = 1\<rparr>"

definition demo_take :: request where
  "demo_take = \<lparr>rPath = ''/v1/ratelimit/take'', rMethod = ''POST'', rQuery = (\<lambda>_. ''''),
    rBody = marshal (\<lambda>_. ''1'') (encode_rl demo_rl)\<rparr>"

lemma demo_body_simps [simp]:
  "kb_key demo_body = ''k''" "kb_value demo_body = ''v''" "kb_ttl demo_body = 0" "kb_written demo_body = 7"
  by (simp_all add: demo_body_def)

lemma demo_key [simp]: "validateKey ''k'' = None"
  by code_simp

lemma demo_fits: "fits demo_env demo_body"
  by (rule fits_small) (simp_all add: in_int64_def min_int64_def max_int64_def)

lemma demo_put_body: "body_of (rBody demo_put) = Some demo_body"
  using fits_body [OF demo_fits] by (simp add: demo_put_def demo_env_def)

lemma demo_put_ok: "put_ok demo_put demo_body"
  unfolding put_ok_def demo_put_body by (simp add: demo_put_def validateValue_def maxValueBytes_def)

lemma demo_get_simps [simp]: "rMethod demo_get = ''GET''" "rQuery demo_get ''key'' = ''k''"
  by (simp_all add: demo_get_def)

lemma demo_take_ok: "p \<in> {''a'', ''b'', ''c''} \<Longrightarrow> take_ok demo_env {''a'', ''b'', ''c''} (p, demo_take) demo_rl"
proof -
  have "length (json_text (\<lambda>_. ''1'') (encode_rl demo_rl)) \<le> 99"
    by (simp add: encode_rl_def demo_rl_def quoted_def escape_char_def)
  then have len: "length (json_text (\<lambda>_. ''1'') (encode_rl demo_rl)) \<le> maxValueBytes + 4096"
    by (simp add: maxValueBytes_def)
  have "rl_valid demo_rl"
    by (simp add: rl_valid_def demo_rl_def is_float_def max_float64_def)
  from parse_forwarded [OF this len] len
  show "p \<in> {''a'', ''b'', ''c''} \<Longrightarrow> take_ok demo_env {''a'', ''b'', ''c''} (p, demo_take) demo_rl"
    by (simp add: take_ok_def demo_take_def demo_env_def)
qed

lemma demo_empty: "slot key p demo_world = None"
  by (simp add: slot_def New_refines)

lemma demo_owners_at: "Owners (nring (procs demo_world p)) ''k'' (cReplicas (ncfg (procs demo_world p))) = [''a'', ''b'']"
  using demo_owners by simp

lemma demo_primary: "Primary (fold Add [''a'', ''b'', ''c''] (New_ring 2)) ''k'' = ''a''"
  by code_simp

text \<open>The same cluster on a clock that stands still.\<close>

definition still_env :: env where
  "still_env = demo_env\<lparr>clock := (\<lambda>_. 5)\<rparr>"

section \<open>A world with an entry\<close>

text \<open>The demo cluster after process \<open>a\<close> took a write through the internal endpoint.\<close>

definition demo_with :: "kv_body \<Rightarrow> world" where
  "demo_with b = snd (the (local_set demo_env ''a'' b demo_world))"

lemma demo_with_set:
  "\<exists>ok. local_set demo_env ''a'' b demo_world = Some (ok, demo_with b) \<and> world_inv demo_env (demo_with b)
    \<and> rep_rel b demo_world (demo_with b)"
  using local_set_applied [OF demo_inv, of "''a''" b] by (auto simp: demo_with_def)

lemma demo_with_inv: "world_inv demo_env (demo_with b)"
  using demo_with_set by blast

lemma demo_with_members: "same_members demo_world (demo_with b)"
  and demo_with_down [simp]: "downUntil (procs (demo_with b) p) = gm_empty"
  using demo_with_set [of b] by (auto simp: rep_rel_def)

lemma demo_with_uniform: "uniform demo_env {''a'', ''b'', ''c''} (demo_with b)"
  using uniform_same [OF demo_with_members demo_uniform] .

lemma demo_with_owners: "Owners (nring (procs (demo_with b) p)) ''k'' (cReplicas (ncfg (procs (demo_with b) p))) = [''a'', ''b'']"
  using demo_with_members [of b] demo_owners_at [of p] by (simp add: same_members_def)

lemma demo_with_ticks [simp]: "ticks (demo_with b) = 2"
proof -
  obtain ok s where "local_set demo_env ''a'' b demo_world
      = Some (ok, upd ''a'' ((procs demo_world ''a'')\<lparr>nstore := s\<rparr>) (demo_world\<lparr>ticks := ticks demo_world + 1\<rparr>))"
    using local_set_SomeE [OF demo_inv, of b "''a''"] by metis
  then show ?thesis by (simp add: demo_with_def upd_def)
qed

lemma demo_with_slot: "slot (kb_key b) ''a'' (demo_with b) = Some
    \<lparr>ikey = kb_key b, ivalue = kb_value b, iexpires = expiry 1 (dur_mul (kb_ttl b) millisecond),
     iwritten = kb_written b\<rparr>"
proof -
  obtain ok w' where "local_set demo_env ''a'' b demo_world = Some (ok, w')"
      "slot (kb_key b) ''a'' w' = Some
    \<lparr>ikey = kb_key b, ivalue = kb_value b, iexpires = expiry 1 (dur_mul (kb_ttl b) millisecond),
     iwritten = kb_written b\<rparr>"
    using local_set_slot [OF demo_inv, of b "''a''"] by (auto simp: demo_empty)
  then show ?thesis by (simp add: demo_with_def)
qed

lemma demo_with_reach_at:
  assumes "fits demo_env b" "clock E 1 = 1"
  shows "cluster_reach E (demo_with b)"
proof -
  have same: "local_set E ''a'' b demo_world = local_set demo_env ''a'' b demo_world"
    unfolding local_set_eq demo_procs assms(2) demo_env_simps by simp
  obtain ok where ok: "local_set E ''a'' b demo_world = Some (ok, demo_with b)"
    unfolding same using demo_with_set by blast
  have "serve E ''a'' (kv_request ''PUT'' '''' (marshal (float_text demo_env) (encode_kv b))) demo_world
      = Some (ok_resp ''applied'' ok (self_id ''a'' demo_world), demo_with b)"
    using fits_body [OF assms(1)] assms(1) ok
    by (simp add: serve_def kv_request_eq handleInternalKV_def body_of_def [symmetric] fits_def del: demo_procs)
  with reach_boot [OF demo_boot] show ?thesis by (rule reach_step [OF _ step_serve])
qed

lemma demo_with_reach: "fits demo_env b \<Longrightarrow> cluster_reach demo_env (demo_with b)"
  by (rule demo_with_reach_at) simp_all

text \<open>The demo cluster on a clock that jumps to 999992 nanoseconds after the write.\<close>

definition late_env :: env where
  "late_env = demo_env\<lparr>clock := (\<lambda>k. if k = 1 then 1 else 999990 + int k)\<rparr>"

lemma late_env_simps [simp]: "clock late_env k = (if k = 1 then 1 else 999990 + int k)"
  by (simp add: late_env_def)

lemma late_reach: "fits demo_env b \<Longrightarrow> cluster_reach late_env (demo_with b)"
  by (rule demo_with_reach_at) simp_all

lemma late_uniform: "uniform late_env {''a'', ''b'', ''c''} (demo_with b)"
proof -
  have "route late_env = route demo_env" "fault late_env = fault demo_env" by (simp_all add: late_env_def)
  then have "uniform late_env {''a'', ''b'', ''c''} (demo_with b) = uniform demo_env {''a'', ''b'', ''c''} (demo_with b)"
    unfolding uniform_def by (simp only:)
  with demo_with_uniform show ?thesis by simp
qed

text \<open>The demo cluster in which process \<open>c\<close> has marked the owners of \<open>k\<close>.\<close>

definition marked_world :: world where
  "marked_world = mark_down demo_env ''c'' ''b'' (mark_down demo_env ''c'' ''a'' demo_world)"

lemma marked_world_inv: "world_inv demo_env marked_world"
  unfolding marked_world_def by (intro wf.mark_ok [THEN conjunct1] demo_inv TrueI)

lemma marked_world_simps [simp]: "ticks marked_world = 3" "ncfg (procs marked_world p) = effective (demo_config p)"
  "nring (procs marked_world p) = fold Add [''a'', ''b'', ''c''] (New_ring 2)"
  by (simp_all add: marked_world_def mark_down_def tick_def upd_def markDown_frame)

lemma marked_world_marks:
  "gm_get (downUntil (procs marked_world ''c'')) ''a'' = Some 2000000001"
  "gm_get (downUntil (procs marked_world ''c'')) ''b'' = Some 2000000002"
  by (simp_all add: marked_world_def mark_down_def tick_def upd_def markDown_get markDown_frame second_def
      gm_empty_def)

lemma marked_world_members: "same_members demo_world marked_world"
  by (simp add: same_members_def marked_world_def mark_down_def tick_def upd_def markDown_frame)

end
