(* ===== verification/ClusterTheorems.thy ===== *)
theory ClusterTheorems
  imports ClusterDemo
begin

text \<open>
  What the cluster of processes promises: requests always end, acknowledged writes are
  applied, takes are decided by one process, and the places where the behaviour differs
  from what the comments and documents say.
\<close>

section \<open>Every request ends\<close>

text \<open>
  Every request to any process of any reachable cluster is answered, whatever the
  network loses: no handler diverges, no read repair diverges, and the cluster they leave
  is reachable again.
\<close>

theorem every_request_is_answered:
  assumes "cluster_reach E w"
  shows "(\<exists>resp w'. serve E me r w = Some (resp, w') \<and> cluster_reach E w')
    \<and> (\<exists>w'. run_repair E i w = Some w' \<and> cluster_reach E w')"
proof -
  have w: "world_inv E w" using assms by (rule cluster_reach_inv)
  obtain resp w1 where "serve E me r w = Some (resp, w1)" using serve_runs [OF w] by blast
  moreover obtain w2 where "run_repair E i w = Some w2" using wf.run_repair_ok [OF w, of i] by auto
  ultimately show ?thesis using assms reach_step step_serve step_repair by metis
qed

theorem every_request_is_answered_witness:
  "\<exists>resp w'. serve demo_env ''a'' demo_put demo_world = Some (resp, w') \<and> cluster_reach demo_env w'"
  using every_request_is_answered [OF demo_reach, of "''a''" demo_put] by blast

text \<open>
  In every reachable cluster each process is well-formed: it is on its own ring, the
  ring's members are the ids of its peer map (the empty id aside), it never marks itself
  down, its store is within its capacity and it finds an owner for every key.
\<close>

theorem processes_stay_well_formed:
  assumes "cluster_reach E w"
  shows "self_id p w \<in> set (Nodes (nring (procs w p)))
    \<and> set (Nodes (nring (procs w p))) = set (gm_keys (npeers (procs w p))) - {''''}
    \<and> gm_get (downUntil (procs w p)) (self_id p w) = None
    \<and> int (Len_store (nstore (procs w p))) \<le> capacity (nstore (procs w p))
    \<and> Owners (nring (procs w p)) key (cReplicas (ncfg (procs w p))) \<noteq> []"
proof -
  have w: "world_inv E w" using assms by (rule cluster_reach_inv)
  have n: "node_inv (fpu_of (arch E)) (procs w p)" using w by (rule world_invD)
  show ?thesis
    using n owners_nonempty [OF w, of p key] len_items [OF node_invD(1) [OF n]] store_invD(6) [OF node_invD(1) [OF n]]
    unfolding node_inv_def by (auto simp: Len_store_def)
qed

theorem processes_stay_well_formed_witness:
  "''b'' \<in> set (Nodes (nring (procs demo_world ''b'')))"
  using processes_stay_well_formed [OF demo_reach, of "''b''", THEN conjunct1] by simp

section \<open>Replicated writes\<close>

lemma replicated_held:
  "replicated E me b owners failed w w' \<Longrightarrow>
    held (kb_key b) p w' \<in> {held (kb_key b) p w, lww_val b (held (kb_key b) p w)}"
  unfolding replicated_def applied_def by (metis held_slot insertCI)

lemma acked_outcome:
  fixes me :: string
  assumes "world_inv E w" "env_ok E" "accepts r b0"
  defines "b \<equiv> fst (stamp_body E b0 w)"
    and "owners \<equiv> Owners (nring (procs w me)) (kb_key b0) (cReplicas (ncfg (procs w me)))"
  shows "\<exists>acked failed w'. handleSet E me r w = Some (writeJSON (if acked = 0 then 503 else 200)
      (encode_write \<lparr>wr_key = kb_key b0, wr_acked = acked, wr_replicas = owners, wr_failed = failed\<rparr>), w')
    \<and> acked + length failed = length owners \<and> set failed \<subseteq> set owners \<and> sorted failed
    \<and> (\<forall>nid \<in> set owners - set failed. \<exists>p. target E me nid w = Some p
        \<and> held (kb_key b0) p w' = lww_val b (held (kb_key b0) p w))
    \<and> (\<forall>p. held (kb_key b0) p w' \<in> {held (kb_key b0) p w, lww_val b (held (kb_key b0) p w)})"
proof -
  obtain w1 where s: "stamp_body E b0 w = (b, w1)" by (metis b_def prod.collapse)
  note same = stamp_frame [OF s]
  note w = assms(1)
  then have w1: "world_inv E w1" by (simp add: world_inv_def same(1))
  have held: "held key p w1 = held key p w" "target E me nid w1 = target E me nid w" for key p nid
    by (simp_all add: held_def target_def same(1))
  have "distinct owners" unfolding owners_def using owners_distinct [OF w] .
  from fanout_put [OF w1 assms(2) this, of me b] obtain acked failed w' where
    f: "fanout E me ''PUT'' owners b w1 = Some ((acked, failed), w')"
      "acked + length failed = length owners" "replicated E me b owners failed w1 w'"
    by blast
  have "handleSet E me r w = Some (writeJSON (if acked = 0 then 503 else 200)
      (encode_write \<lparr>wr_key = kb_key b0, wr_acked = acked, wr_replicas = owners, wr_failed = failed\<rparr>), w')"
    using accepted_set [OF assms(3) s, of me] f(1) by (simp add: same(1,2) owners_def)
  moreover have "held (kb_key b0) p w' \<in> {held (kb_key b0) p w, lww_val b (held (kb_key b0) p w)}" for p
    using replicated_held [OF f(3), of p] held by (simp add: same(2))
  moreover have "\<forall>nid \<in> set owners - set failed. \<exists>p. target E me nid w = Some p
      \<and> held (kb_key b0) p w' = lww_val b (held (kb_key b0) p w)"
    using f(3) held unfolding replicated_def applied_def same(2) by metis
  ultimately show ?thesis using f(2,3) unfolding replicated_def by blast
qed

text \<open>
  C5. A SET answers 200 exactly when at least one owner acknowledged it, and 503 otherwise;
  it reports the owners and, sorted, those that failed. Whatever requests and responses the
  network loses and in whatever order the goroutines run and report: the process behind
  every owner that is not reported as failed holds the result of the last-writer-wins rule,
  and no process holds anything but its old value or that result.
\<close>

theorem acked_writes_are_applied:
  fixes me :: string
  assumes "cluster_reach E w" "env_ok E" "accepts r b0"
  defines "b \<equiv> fst (stamp_body E b0 w)"
    and "owners \<equiv> Owners (nring (procs w me)) (kb_key b0) (cReplicas (ncfg (procs w me)))"
  shows "\<exists>acked failed w'. handleSet E me r w = Some (writeJSON (if acked = 0 then 503 else 200)
      (encode_write \<lparr>wr_key = kb_key b0, wr_acked = acked, wr_replicas = owners, wr_failed = failed\<rparr>), w')
    \<and> acked + length failed = length owners \<and> set failed \<subseteq> set owners \<and> sorted failed
    \<and> (\<forall>nid \<in> set owners - set failed. \<exists>p. target E me nid w = Some p
        \<and> held (kb_key b0) p w' = lww_val b (held (kb_key b0) p w))
    \<and> (\<forall>p. held (kb_key b0) p w' \<in> {held (kb_key b0) p w, lww_val b (held (kb_key b0) p w)})"
  using acked_outcome [OF cluster_reach_inv [OF assms(1)] assms(2,3)] unfolding b_def owners_def .

theorem acked_writes_are_applied_witness:
  "\<exists>acked failed w'. handleSet demo_env ''c'' demo_put demo_world = Some (writeJSON (if acked = 0 then 503 else 200)
      (encode_write \<lparr>wr_key = ''k'', wr_acked = acked, wr_replicas = [''a'', ''b''], wr_failed = failed\<rparr>), w')
    \<and> acked + length failed = 2"
proof -
  from acked_writes_are_applied [OF demo_reach demo_env_ok put_ok_accepts [OF demo_put_ok], of "''c''", unfolded demo_owners_at demo_body_simps]
  show ?thesis by (elim exE conjE) (intro exI conjI, assumption, simp)
qed

text \<open>
  C6. In a cluster without failures, all of whose processes know the same members: take a SET
  without lifetime that the coordinator accepts, stamped by the client or, without a stamp, by
  the coordinator's clock, such that no owner of its key holds a newer value and the write fits,
  as it is forwarded, into the body limit of 1 MiB and 4096 bytes. It is acknowledged by every
  owner, and a GET right after it, through any process that has none of the owners marked,
  returns exactly that value and stamp from one of the owners.
\<close>

theorem write_is_read_everywhere:
  assumes "cluster_reach E w" "env_ok E" "uniform E ps w" "me \<in> ps" "reader \<in> ps"
    and "accepts r b0" "stamp_body E b0 w = (b, v)" "fits E b" "kb_ttl b = 0"
    and "\<forall>p \<in> set owners. \<forall>it. slot (kb_key b) p w = Some it \<longrightarrow> iwritten it \<le> kb_written b"
    and "\<forall>p \<in> set owners. gm_get (downUntil (procs w reader)) p = None"
    and "rMethod g = ''GET''" "rQuery g ''key'' = kb_key b"
    and "owners = Owners (nring (procs w me)) (kb_key b) (cReplicas (ncfg (procs w me)))"
  shows "\<exists>w1 by_id w2. handleSet E me r w = Some (writeJSON 200 (encode_write \<lparr>wr_key = kb_key b,
      wr_acked = length owners, wr_replicas = owners, wr_failed = []\<rparr>), w1)
    \<and> by_id \<in> set owners
    \<and> handleGet E reader g w1 = Some (hit_resp (kb_key b) by_id (slot_item b), w2)"
  by (rule write_then_read [OF cluster_reach_inv]) (fact assms)+

theorem write_is_read_everywhere_witness:
  "\<exists>w1 by_id w2. handleSet demo_env ''c'' demo_put demo_world = Some (writeJSON 200 (encode_write
      \<lparr>wr_key = ''k'', wr_acked = 2, wr_replicas = [''a'', ''b''], wr_failed = []\<rparr>), w1)
    \<and> by_id \<in> {''a'', ''b''}
    \<and> handleGet demo_env ''c'' demo_get w1 = Some (hit_resp ''k'' by_id (slot_item demo_body), w2)"
  using write_is_read_everywhere [OF demo_reach demo_env_ok demo_uniform _ _ put_ok_accepts [OF demo_put_ok]
      put_ok_stamp [OF demo_put_ok] demo_fits, of "''c''" "''c''" "[''a'', ''b'']" demo_get] demo_owners
  by (simp add: demo_empty numeral_2_eq_2)

section \<open>Cluster-wide rate limits\<close>

text \<open>
  C17. In a cluster without failures whose processes know the same members, takes for keys
  with the same primary, entering through any processes, form one run of the primary's
  bucket store: its answers are the answers the clients get, its final state is the
  primary's, and no other process's limiter and no cache changes.
\<close>

theorem takes_are_decided_by_the_primary:
  assumes "cluster_reach E w" "uniform E ps w" "list_all2 (take_ok E ps) rs bs"
    and "\<forall>b \<in> set bs. \<forall>p \<in> ps. Primary (nring (procs w p)) (rb_key b) = q"
  shows "\<exists>resps w' ts. cluster_takes E rs w = Some (resps, w') \<and> length ts = length bs
    \<and> set ts \<subseteq> range (clock E)
    \<and> snd (rl_takes (fpu_of (arch E)) (map2 req_at ts bs) (nrl (procs w q))) = nrl (procs w' q)
    \<and> list_all2 (answers_take E q) (fst (rl_takes (fpu_of (arch E)) (map2 req_at ts bs) (nrl (procs w q)))) resps
    \<and> same_limiters_but q w w' \<and> same_caches w w'"
  using cluster_reach_inv [OF assms(1)] assms(2-) by (rule takes_form_one_run)

theorem takes_are_decided_by_the_primary_witness:
  "\<exists>resps w'. cluster_takes demo_env [(''b'', demo_take), (''c'', demo_take)] demo_world = Some (resps, w')
    \<and> same_limiters_but ''a'' demo_world w' \<and> same_caches demo_world w'"
proof -
  have ok: "list_all2 (take_ok demo_env {''a'', ''b'', ''c''}) [(''b'', demo_take), (''c'', demo_take)] [demo_rl, demo_rl]"
    using demo_take_ok by simp
  have "\<forall>b \<in> set [demo_rl, demo_rl]. \<forall>p \<in> {''a'', ''b'', ''c''}.
      Primary (nring (procs demo_world p)) (rb_key b) = ''a''"
    using demo_primary by (simp add: demo_rl_def)
  from takes_are_decided_by_the_primary [OF demo_reach demo_uniform ok this] show ?thesis by blast
qed

text \<open>
  C10. While nothing disturbs it, the cluster as a whole enforces a key's rate. In a cluster without
  failures whose processes know the same members, let takes for a key with rate \<open>r\<close> and burst \<open>bb\<close>
  enter one after the other through any processes, with all clock readings between \<open>t0\<close> and \<open>T\<close>;
  let the key's primary have no bucket for it at the start and room for one more key; and let no
  other request and no idle sweep come in between (a sweep can grant the burst again, as
  \<open>LimiterTheorems\<close> shows). Then all the takes are answered with the primary's decisions, which
  together grant at most \<open>bb + r (T - t0)\<close> tokens, up to the rounding of binary64.
\<close>

theorem cluster_enforces_the_rate:
  assumes "cluster_reach E w" "uniform E ps w" "list_all2 (take_ok E ps) rs bs" "bs \<noteq> []"
    and "\<forall>b \<in> set bs. rb_key b = key \<and> rb_rate b = r \<and> rb_burst b = bb"
    and "\<forall>p \<in> ps. Primary (nring (procs w p)) key = q"
    and "rl_bucket_of key (nrl (procs w q)) = None"
    and "int (card (insert key (set (order (nrl (procs w q)))))) \<le> rl_capacity (nrl (procs w q))"
    and "\<forall>k. t0 \<le> clock E k \<and> clock E k \<le> T"
  shows "\<exists>resps w' results. cluster_takes E rs w = Some (resps, w')
    \<and> list_all2 (answers_take E q) results resps
    \<and> sum_list (map2 (\<lambda>b res. if Allowed res then max 0 (rb_cost b) else 0) bs results)
      \<le> bb + r * (1 + eps64) ^ 3 * (of_int (T - t0) / 1000000000)
        + of_nat (length bs) * (2 * (bb * eps64 + eta64) + eta64)"
  using cluster_reach_inv [OF assms(1)] assms(2-) by (rule cluster_rate_bound)

theorem cluster_enforces_the_rate_witness:
  "\<exists>resps w' results. cluster_takes still_env [(''b'', demo_take), (''c'', demo_take)] demo_world = Some (resps, w')
    \<and> list_all2 (answers_take still_env ''a'') results resps
    \<and> sum_list (map2 (\<lambda>b res. if Allowed res then max 0 (rb_cost b) else 0) [demo_rl, demo_rl] results)
      \<le> 2 + 2 * (2 * (2 * eps64 + eta64) + eta64)"
proof -
  have reach: "cluster_reach still_env demo_world" by (rule reach_boot) (rule demo_boot)
  have uni: "uniform still_env {''a'', ''b'', ''c''} demo_world"
    using demo_uniform by (simp add: uniform_def still_env_def)
  have "list_all2 (take_ok still_env {''a'', ''b'', ''c''}) [(''b'', demo_take), (''c'', demo_take)] [demo_rl, demo_rl]"
    using demo_take_ok [of "''b''"] by (simp add: take_ok_def still_env_def)
  from cluster_enforces_the_rate [OF reach uni this, of "''k''" 1 2 "''a''" 5 5] show ?thesis
    using demo_primary by (simp add: demo_rl_def still_env_def rl_bucket_of_def NewStore_def)
qed

section \<open>Separation\<close>

text \<open>
  Caching and rate limiting do not interfere: GET, SET, DELETE and the internal cache
  endpoint never change a bucket store of any process, and takes never change a cache. None
  of them changes a ring, a peer map or a configuration.
\<close>

theorem caches_and_limiters_are_separate:
  assumes "cluster_reach E w"
  shows "(\<exists>resp w'. handleGet E me r w = Some (resp, w') \<and> same_limiters w w' \<and> same_members w w')
    \<and> (\<exists>resp w'. handleSet E me r w = Some (resp, w') \<and> same_limiters w w' \<and> same_members w w')
    \<and> (\<exists>resp w'. handleDelete E me r w = Some (resp, w') \<and> same_limiters w w' \<and> same_members w w')
    \<and> (\<exists>resp w'. handleInternalKV E me r w = Some (resp, w') \<and> same_limiters w w' \<and> same_members w w')
    \<and> (\<exists>resp w'. handleRateLimitTake E me r w = Some (resp, w') \<and> same_caches w w' \<and> same_members w w')
    \<and> (\<exists>resp w'. handleInternalRateLimitTake E me r w = (resp, w') \<and> same_caches w w' \<and> same_members w w')"
proof -
  have w: "world_inv E w" using assms by (rule cluster_reach_inv)
  have "runs (world_inv E) same_limiters w x \<and> runs (world_inv E) same_members w x"
    if "x \<in> {handleGet E me r w, handleSet E me r w, handleDelete E me r w, handleInternalKV E me r w}" for x
    using that w by (auto intro!: wf.handleGet_runs wf.handleSet_runs wf.handleDelete_runs wf.internalKV_runs
        kv.handleGet_runs kv.handleSet_runs kv.handleDelete_runs kv.internalKV_runs)
  then have "\<exists>resp w'. x = Some (resp, w') \<and> same_limiters w w' \<and> same_members w w'"
    if "x \<in> {handleGet E me r w, handleSet E me r w, handleDelete E me r w, handleInternalKV E me r w}" for x
    using that unfolding runs_def by fastforce
  moreover have "runs (world_inv E) same_caches w (handleRateLimitTake E me r w)"
    "runs (world_inv E) same_members w (handleRateLimitTake E me r w)"
    by (rule tk.handleRateLimitTake_runs wf.handleRateLimitTake_runs; simp add: w)+
  then have "\<exists>resp w'. handleRateLimitTake E me r w = Some (resp, w') \<and> same_caches w w' \<and> same_members w w'"
    by (auto simp: runs_def)
  moreover have "\<exists>resp w'. handleInternalRateLimitTake E me r w = (resp, w') \<and> same_caches w w' \<and> same_members w w'"
    using tk.internalTake_ok [OF w TrueI, of me r] wf.internalTake_ok [OF w TrueI, of me r]
    by (metis prod.collapse)
  ultimately show ?thesis by blast
qed

theorem caches_and_limiters_are_separate_witness:
  "\<exists>resp w'. handleSet demo_env ''c'' demo_put demo_world = Some (resp, w') \<and> same_limiters demo_world w'
    \<and> same_members demo_world w'"
  using caches_and_limiters_are_separate [OF demo_reach, of "''c''" demo_put] by blast
section \<open>Construction and membership\<close>

text \<open>
  C38. \<open>New\<close> accepts exactly the configurations with an id that is among the peers. The node
  it builds has an empty cache of at least one key, an empty limiter and no peer marked, as ring
  members the peers with a name that is not empty, and a replica count between one and the number
  of peers. Every owner list has as many entries as the replica count says, or one for each ring
  member when there are fewer. The order in which the peer map is iterated does not matter.
\<close>

theorem new_node_is_ready:
  assumes "gm_ok (cPeers c)"
  shows "(\<exists>n. New_node c = Inr n) = (cID c \<noteq> '''' \<and> gm_get (cPeers c) (cID c) \<noteq> None)
    \<and> (\<forall>n. New_node c = Inr n \<longrightarrow>
        set (Nodes (nring n)) = set (gm_keys (cPeers c)) - {''''}
        \<and> entries (nstore n) = [] \<and> order (nrl n) = [] \<and> downUntil n = gm_empty
        \<and> capacity (nstore n) = (if cCapacity c < 1 then 1024 else cCapacity c)
        \<and> 1 \<le> cReplicas (ncfg n) \<and> cReplicas (ncfg n) \<le> int (gm_len (cPeers c))
        \<and> length (Owners (nring n) key (cReplicas (ncfg n))) = min (nat (cReplicas (ncfg n))) (Size (nring n))
        \<and> (\<forall>ps. mset ps = mset (cPeers c) \<longrightarrow>
            (\<exists>n'. New_node (c\<lparr>cPeers := ps\<rparr>) = Inr n' \<and> nring n' = nring n)))"
proof (intro conjI allI impI)
  show "(\<exists>n. New_node c = Inr n) = (cID c \<noteq> '''' \<and> gm_get (cPeers c) (cID c) \<noteq> None)"
    unfolding New_node_eq by blast
next
  fix n assume n: "New_node c = Inr n"
  note n' = n [unfolded New_node_eq]
  have inv: "node_inv (fpu_of AMD64) n" using n assms by (rule New_node_inv)
  show "set (Nodes (nring n)) = set (gm_keys (cPeers c)) - {''''}" "1 \<le> cReplicas (ncfg n)"
    using inv n' by (simp_all add: node_inv_def)
  show "entries (nstore n) = []" "order (nrl n) = []" "downUntil n = gm_empty"
    using n' by (simp_all add: New_refines NewStore_def)
  show "capacity (nstore n) = (if cCapacity c < 1 then 1024 else cCapacity c)"
    "cReplicas (ncfg n) \<le> int (gm_len (cPeers c))"
    using n' by (simp_all add: New_refines effective_def with_defaults_def)
  show "length (Owners (nring n) key (cReplicas (ncfg n))) = min (nat (cReplicas (ncfg n))) (Size (nring n))"
    using node_invD(3) [OF inv] by (intro Owners_length ring_reachable_inv)
next
  fix n ps assume n: "New_node c = Inr n" and ps: "mset ps = mset (cPeers c)"
  have keys: "mset (gm_keys ps) = mset (gm_keys (cPeers c))" "gm_len ps = gm_len (cPeers c)"
    using ps mset_eq_length by (auto simp: gm_keys_def gm_len_def)
  have "set (gm_keys ps) = set (gm_keys (cPeers c))" using keys(1) by (rule mset_eq_setD)
  then have self: "gm_get ps (cID c) \<noteq> None \<longleftrightarrow> gm_get (cPeers c) (cID c) \<noteq> None"
    unfolding gm.get_iff_keys by simp
  have "cVNodes (effective (c\<lparr>cPeers := ps\<rparr>)) = cVNodes (effective c)"
    by (simp add: effective_def with_defaults_def)
  then show "\<exists>n'. New_node (c\<lparr>cPeers := ps\<rparr>) = Inr n' \<and> nring n' = nring n"
    using n self sort_perm_eq [OF keys(1)] unfolding New_node_eq by (auto simp del: not_None_eq)
qed

theorem new_node_is_ready_witness:
  "set (Nodes (nring (demo_node ''b''))) = set (gm_keys demo_peers) - {''''}
    \<and> length (Owners (nring (demo_node ''b'')) ''x'' 2) = min 2 (Size (nring (demo_node ''b'')))"
proof -
  have "cPeers (demo_config ''b'') = demo_peers" by (simp add: demo_config_def)
  then show ?thesis
    using new_node_is_ready [OF demo_peers_ok, THEN conjunct2, THEN spec, THEN mp, OF demo_New, of "''b''" "''x''"]
    by simp
qed

text \<open>
  Joining a new member and removing it again restores every placement and every peer
  URL; a process never removes itself, and a member that leaves is forgotten by the breaker.
\<close>

theorem join_then_leave_restores:
  assumes "cluster_reach E w" "rMethod r1 = ''POST'' \<or> rMethod r1 = ''PUT''"
    and "Option.bind (readJSON (rBody r1)) decode_member = Some \<lparr>mb_id = x, mb_url = u\<rparr>"
    and "trim_space x \<noteq> ''''" "trim_space u \<noteq> ''''" "uri_ok E (trim_space u)"
    and "trim_space x \<notin> set (Nodes (nring (procs w me)))"
    and "rMethod r2 = ''DELETE''" "rQuery r2 ''id'' = x"
  shows "\<exists>resp1 w1 resp2 w2. handleMembers E me r1 w = (resp1, w1) \<and> rStatus resp1 = 200
    \<and> set (Nodes (nring (procs w1 me))) = insert (trim_space x) (set (Nodes (nring (procs w me))))
    \<and> peerURL (procs w1 me) (trim_space x) = trim_space u
    \<and> handleMembers E me r2 w1 = (resp2, w2) \<and> rStatus resp2 = 200
    \<and> Owners (nring (procs w2 me)) key k = Owners (nring (procs w me)) key k
    \<and> peerURL (procs w2 me) p = peerURL (procs w me) p
    \<and> gm_get (downUntil (procs w2 me)) (trim_space x) = None
    \<and> (\<forall>q. q \<noteq> me \<longrightarrow> procs w2 q = procs w q)"
proof -
  define y where "y = trim_space x"
  define n where "n = procs w me"
  define n1 where "n1 = n\<lparr>npeers := gm_put y (trim_space u) (npeers n), nring := Add y (nring n)\<rparr>"
  define n2 where "n2 = n1\<lparr>npeers := gm_del y (npeers n1), downUntil := gm_del y (downUntil n1), nring := Remove y (nring n1)\<rparr>"
  have inv: "node_inv (fpu_of (arch E)) n"
    unfolding n_def by (rule world_invD [OF cluster_reach_inv [OF assms(1)]])
  have ring: "ring_inv (nring n)" using node_invD(3) [OF inv] by (rule ring_reachable_inv)
  have y: "y \<noteq> ''''" "y \<notin> set (Nodes (nring n))" unfolding y_def n_def by (fact assms(4), fact assms(7))
  then have self: "y \<noteq> cID (ncfg n)" using inv by (auto simp: node_inv_def)
  have "set (Nodes (nring n)) = set (gm_keys (npeers n)) - {''''}" using inv by (simp add: node_inv_def)
  then have "y \<notin> set (gm_keys (npeers n))" using y(1,2) by simp
  then have fresh: "gm_get (npeers n) y = None" "gm_get (nodes (nring n)) y = None"
    using y(2) not_member_iff [of y "nring n"] gm.get_iff_keys [of "npeers n" y] by simp_all
  have "join (uri_ok E) x u n = Inr n1"
    using assms(4,5,6) by (simp add: join_def n1_def y_def Let_def)
  then have h1: "handleMembers E me r1 w = (writeJSON 200 (members_json n1), upd me n1 w)"
    using assms(2,3) by (auto simp: handleMembers_def Let_def n_def)
  have "leave x n1 = Inr n2"
    using y(1) self by (simp add: leave_def n2_def n1_def y_def [symmetric])
  then have h2: "handleMembers E me r2 (upd me n1 w) = (writeJSON 200 (members_json n2), upd me n2 (upd me n1 w))"
    using assms(8,9) by (simp add: handleMembers_def Let_def)
  have "ring (nring n2) = ring (nring n)"
    using Remove_Add_ring [OF ring fresh(2)] by (simp add: n2_def n1_def)
  then have owners: "Owners (nring n2) key k = Owners (nring n) key k"
    using ring by (simp add: Owners_eq ring_inv_Remove ring_inv_Add n2_def n1_def)
  have "peerURL n2 p = peerURL n p"
    using fresh(1) by (simp add: peerURL_def n2_def n1_def)
  then show ?thesis
    using h1 h2 owners y(1) unfolding y_def [symmetric] n_def [symmetric]
    by (simp add: writeJSON_def Nodes_Add n1_def n2_def peerURL_def)
qed

definition demo_join :: request where
  "demo_join = \<lparr>rPath = ''/admin/members'', rMethod = ''POST'', rQuery = (\<lambda>_. ''''),
    rBody = \<lparr>pl_len = 30, pl_json = Some (JObj [(''id'', JStr '' d''), (''url'', JStr ''http://d'')])\<rparr>\<rparr>"

definition demo_leave :: request where
  "demo_leave = \<lparr>rPath = ''/admin/members'', rMethod = ''DELETE'', rQuery = (\<lambda>_. '' d''), rBody = empty_payload\<rparr>"

theorem join_then_leave_restores_witness:
  "\<exists>resp1 w1 resp2 w2. handleMembers demo_env ''a'' demo_join demo_world = (resp1, w1)
    \<and> peerURL (procs w1 ''a'') ''d'' = ''http://d''
    \<and> handleMembers demo_env ''a'' demo_leave w1 = (resp2, w2)
    \<and> Owners (nring (procs w2 ''a'')) ''k'' 2 = [''a'', ''b'']"
proof -
  have trim: "trim_space '' d'' = ''d''" "trim_space ''http://d'' = ''http://d''" by code_simp+
  have body: "Option.bind (readJSON (rBody demo_join)) decode_member = Some \<lparr>mb_id = '' d'', mb_url = ''http://d''\<rparr>"
    by (simp add: demo_join_def readJSON_def maxValueBytes_def) code_simp
  have fresh: "trim_space '' d'' \<notin> set (Nodes (nring (procs demo_world ''a'')))"
    unfolding trim demo_procs demo_node_simps demo_Nodes by simp
  have req: "rMethod demo_join = ''POST'' \<or> rMethod demo_join = ''PUT''" "rMethod demo_leave = ''DELETE''"
    "rQuery demo_leave ''id'' = '' d''" "uri_ok demo_env (trim_space ''http://d'')"
    by (simp_all add: demo_join_def demo_leave_def demo_env_def)
  have nonempty: "trim_space '' d'' \<noteq> ''''" "trim_space ''http://d'' \<noteq> ''''" by (simp_all add: trim)
  have owners: "Owners (nring (procs demo_world ''a'')) ''k'' 2 = [''a'', ''b'']" using demo_owners by simp
  from join_then_leave_restores [OF demo_reach req(1) body nonempty req(4) fresh req(2,3), of "''k''" 2 "''a''",
      unfolded trim owners]
  show ?thesis by (elim exE conjE) (intro exI conjI, assumption+)
qed
section \<open>Rejected requests\<close>

lemma get_loop_status:
  "get_loop E me key owners ids reached w = Some (resp, w') \<Longrightarrow> rStatus resp \<in> {200, 404, 503}"
proof (induction ids arbitrary: reached w)
  case Nil
  then show ?case by (auto simp: http_error_def miss_resp_def writeJSON_def split: if_splits)
next
  case (Cons x ids)
  then show ?case
    by (auto simp: writeJSON_def Let_def split: option.splits prod.splits sum.splits if_splits)
qed

lemma handleGet_status:
  "handleGet E me r w = Some (resp, w') \<Longrightarrow> rMethod r = ''GET'' \<and> validateKey (rQuery r ''key'') = None
    \<Longrightarrow> rStatus resp \<in> {200, 404, 503}"
  by (auto simp: handleGet_def http_error_def Let_def dest: get_loop_status split: if_splits)

text \<open>
  C37. A SET is either accepted and answered 200 or 503, or rejected with 400 or 405 and then
  leaves every process, the clock and the network untouched; a GET is rejected, without any
  effect, exactly when its method or key is invalid.
\<close>

theorem rejected_requests_change_nothing:
  assumes "cluster_reach E w" "env_ok E"
  shows "(if \<exists>b. accepts r b
      then \<exists>resp w'. handleSet E me r w = Some (resp, w') \<and> rStatus resp \<in> {200, 503}
      else \<exists>resp. handleSet E me r w = Some (resp, w) \<and> rStatus resp \<in> {400, 405})
    \<and> (if rMethod r = ''GET'' \<and> validateKey (rQuery r ''key'') = None
      then \<exists>resp w'. handleGet E me r w = Some (resp, w') \<and> rStatus resp \<in> {200, 404, 503}
      else \<exists>resp. handleGet E me r w = Some (resp, w) \<and> rStatus resp \<in> {400, 405})"
proof -
  have w: "world_inv E w" using assms(1) by (rule cluster_reach_inv)
  have "if \<exists>b. accepts r b
      then \<exists>resp w'. handleSet E me r w = Some (resp, w') \<and> rStatus resp \<in> {200, 503}
      else \<exists>resp. handleSet E me r w = Some (resp, w) \<and> rStatus resp \<in> {400, 405}"
  proof (cases "\<exists>b. accepts r b")
    case True
    then obtain b0 where b0: "accepts r b0" by blast
    have "rStatus (writeJSON (if a = (0 :: nat) then 503 else 200) j) \<in> {200, 503}" for a j
      by (simp add: writeJSON_def)
    then show ?thesis using acked_outcome [OF w assms(2) b0, of me] True by auto
  next
    case False
    then have "\<exists>resp. handleSet E me r w = Some (resp, w) \<and> rStatus resp \<in> {400, 405}"
      unfolding accepts_def body_of_def handleSet_def
      by (auto simp: http_error_def not_le split: option.splits)
    then show ?thesis unfolding if_not_P [OF False] .
  qed
  moreover have "if rMethod r = ''GET'' \<and> validateKey (rQuery r ''key'') = None
      then \<exists>resp w'. handleGet E me r w = Some (resp, w') \<and> rStatus resp \<in> {200, 404, 503}
      else \<exists>resp. handleGet E me r w = Some (resp, w) \<and> rStatus resp \<in> {400, 405}"
  proof (cases "rMethod r = ''GET'' \<and> validateKey (rQuery r ''key'') = None")
    case True
    obtain resp w' where g: "handleGet E me r w = Some (resp, w')"
      using wf.handleGet_runs [OF TrueI TrueI w, of me r] by (auto simp: runs_def)
    then have "rStatus resp \<in> {200, 404, 503}" using True by (rule handleGet_status)
    with g True show ?thesis by simp
  next
    case False
    then have "\<exists>resp. handleGet E me r w = Some (resp, w) \<and> rStatus resp \<in> {400, 405}"
      by (auto simp: handleGet_def http_error_def Let_def split: option.splits)
    then show ?thesis unfolding if_not_P [OF False] .
  qed
  ultimately show ?thesis by blast
qed

theorem rejected_requests_change_nothing_witness:
  "\<exists>resp. handleGet demo_env ''a'' demo_put demo_world = Some (resp, demo_world) \<and> rStatus resp \<in> {400, 405}"
  using rejected_requests_change_nothing [OF demo_reach demo_env_ok, of demo_put "''a''"]
  by (simp add: demo_put_def)

section \<open>Deletes\<close>

text \<open>
  C33. A DELETE answers 200 exactly when at least one owner acknowledged it. Whatever the
  network loses, the process behind every owner that is not reported as failed has lost the
  key, and no process has lost or gained anything else.
\<close>

theorem acked_deletes_are_applied:
  fixes me :: string
  assumes "cluster_reach E w" "env_ok E"
    and "rMethod r = ''DELETE''" "rQuery r ''key'' = key" "validateKey key = None"
  defines "owners \<equiv> Owners (nring (procs w me)) key (cReplicas (ncfg (procs w me)))"
  shows "\<exists>acked failed w'. handleDelete E me r w = Some (writeJSON (if acked = 0 then 503 else 200)
      (encode_write \<lparr>wr_key = key, wr_acked = acked, wr_replicas = owners, wr_failed = failed\<rparr>), w')
    \<and> acked + length failed = length owners \<and> set failed \<subseteq> set owners \<and> sorted failed
    \<and> (\<forall>nid \<in> set owners - set failed. \<exists>p. target E me nid w = Some p \<and> slot key p w' = None)
    \<and> (\<forall>p k. slot k p w' = slot k p w \<or> k = key \<and> slot k p w' = None)"
  unfolding owners_def by (rule delete_outcome [OF cluster_reach_inv [OF assms(1)] assms(2-5)])

theorem acked_deletes_are_applied_witness:
  "\<exists>acked failed w'. handleDelete demo_env ''c'' (demo_get\<lparr>rMethod := ''DELETE''\<rparr>) (demo_with demo_body)
      = Some (writeJSON (if acked = 0 then 503 else 200) (encode_write
        \<lparr>wr_key = ''k'', wr_acked = acked, wr_replicas = [''a'', ''b''], wr_failed = failed\<rparr>), w')
    \<and> acked + length failed = length [''a'', ''b'']"
proof -
  let ?r = "demo_get\<lparr>rMethod := ''DELETE''\<rparr>"
  have r: "rMethod ?r = ''DELETE''" "rQuery ?r ''key'' = ''k''" by (simp_all add: demo_get_def)
  from acked_deletes_are_applied [OF demo_with_reach [OF demo_fits] demo_env_ok r demo_key, of "''c''",
      unfolded demo_with_owners]
  show ?thesis by (elim exE conjE) (intro exI conjI, assumption+)
qed

section \<open>Lifetimes\<close>

text \<open>
  C36. A write stores its lifetime exactly for up to 9223372036854 milliseconds, on every path: on
  a process that holds no newer value the entry expires at the clock reading of the write plus
  the requested milliseconds, and a zero lifetime never expires. This holds for a coordinator's
  write to its own store, for a PUT with a valid key to the internal endpoint of any process, and,
  in a cluster without failures, for a write within the body limit that is forwarded to another
  owner.
\<close>

theorem lifetimes_are_exact:
  assumes "cluster_reach E w" "\<forall>it. slot (kb_key b) p w = Some it \<longrightarrow> iwritten it \<le> kb_written b"
    and "0 \<le> kb_ttl b" "kb_ttl b \<le> 9223372036854"
  defines "stored_at w' \<equiv> slot (kb_key b) p w' = Some
    \<lparr>ikey = kb_key b, ivalue = kb_value b,
     iexpires = (if kb_ttl b = 0 then zero_time else clock E (ticks w) + kb_ttl b * 1000000),
     iwritten = kb_written b\<rparr>"
  shows "(\<exists>w'. writeOwner E p ''PUT'' (self_id p w) b w = Some (None, w') \<and> stored_at w')
    \<and> (\<forall>r. rMethod r = ''PUT'' \<and> body_of (rBody r) = Some b \<and> validateKey (kb_key b) = None \<longrightarrow>
        (\<exists>ok w'. handleInternalKV E p r w = Some (ok_resp ''applied'' ok (self_id p w), w') \<and> stored_at w'))
    \<and> (\<forall>ps me. uniform E ps w \<and> me \<in> ps \<and> p \<in> ps \<and> p \<noteq> me \<and> fits E b \<longrightarrow>
        (\<exists>w'. writeOwner E me ''PUT'' p b w = Some (None, w') \<and> stored_at w'))"
proof -
  have inv: "world_inv E w" by (rule cluster_reach_inv [OF assms(1)])
  have e: "expiry (clock E (ticks w)) (dur_mul (kb_ttl b) millisecond)
      = (if kb_ttl b = 0 then zero_time else clock E (ticks w) + kb_ttl b * 1000000)"
    using ttl_exact [of "kb_ttl b"] assms(3,4) by (auto simp: expiry_def dur_mul_def wrap64_def)
  have set: "\<exists>a w'. local_set E p b v = Some (a, w') \<and> stored_at w'"
    if "v = w \<or> v = w\<lparr>calls := calls w + 1\<rparr>" for v
    using local_set_slot [of E v b p] inv assms(2) that e by (auto simp: slot_def stored_at_def)
  show ?thesis
  proof (intro conjI allI impI)
    show "\<exists>w'. writeOwner E p ''PUT'' (self_id p w) b w = Some (None, w') \<and> stored_at w'"
      using set [of w] by (auto simp: writeOwner_def)
    show "\<exists>ok w'. handleInternalKV E p r w = Some (ok_resp ''applied'' ok (self_id p w), w') \<and> stored_at w'"
      if "rMethod r = ''PUT'' \<and> body_of (rBody r) = Some b \<and> validateKey (kb_key b) = None" for r
      using set [of w] that by (auto simp: handleInternalKV_def body_of_def)
    show "\<exists>w'. writeOwner E me ''PUT'' p b w = Some (None, w') \<and> stored_at w'"
      if "uniform E ps w \<and> me \<in> ps \<and> p \<in> ps \<and> p \<noteq> me \<and> fits E b" for ps me
      using set [of "w\<lparr>calls := calls w + 1\<rparr>"] writeOwner_remote [of E ps w me p b] that by blast
  qed
qed

theorem lifetimes_are_exact_witness:
  "(\<exists>w'. writeOwner demo_env ''a'' ''PUT'' ''a'' (demo_body\<lparr>kb_ttl := 5\<rparr>) demo_world = Some (None, w')
      \<and> slot ''k'' ''a'' w' = Some \<lparr>ikey = ''k'', ivalue = ''v'', iexpires = 5000001, iwritten = 7\<rparr>)
    \<and> (\<exists>w'. writeOwner demo_env ''c'' ''PUT'' ''a'' (demo_body\<lparr>kb_ttl := 5\<rparr>) demo_world = Some (None, w')
      \<and> slot ''k'' ''a'' w' = Some \<lparr>ikey = ''k'', ivalue = ''v'', iexpires = 5000001, iwritten = 7\<rparr>)"
proof -
  have "fits demo_env (demo_body\<lparr>kb_ttl := 5\<rparr>)"
    by (rule fits_small) (simp_all add: in_int64_def min_int64_def max_int64_def)
  then show ?thesis
    using lifetimes_are_exact [OF demo_reach, of "demo_body\<lparr>kb_ttl := 5\<rparr>" "''a''"]
      demo_uniform by (auto simp: demo_empty)
qed

text \<open>
  Beyond that bound the product of milliseconds and nanoseconds wraps around: a SET is
  accepted with any non-negative lifetime, but 9223372036855 milliseconds (292 years) are
  stored as no expiry at all and 18446744073710 milliseconds (584 years) as 448 microseconds.
\<close>

theorem long_lifetimes_wrap:
  assumes "cluster_reach E w" "\<forall>it. slot (kb_key b) me w = Some it \<longrightarrow> iwritten it \<le> kb_written b"
    and "kb_ttl b \<in> {9223372036855, 18446744073710}"
  shows "\<exists>w' it. writeOwner E me ''PUT'' (self_id me w) b w = Some (None, w') \<and> slot (kb_key b) me w' = Some it
    \<and> iexpires it = (if kb_ttl b = 9223372036855 then zero_time else clock E (ticks w) + 448384)"
proof -
  have "expiry (clock E (ticks w)) (dur_mul (kb_ttl b) millisecond)
      = (if kb_ttl b = 9223372036855 then zero_time else clock E (ticks w) + 448384)"
    using assms(3) ttl_wraps by (auto simp: expiry_def time_add_def)
  then show ?thesis
    using local_set_slot [OF cluster_reach_inv [OF assms(1)] assms(2)] by (auto simp: writeOwner_def)
qed

theorem long_lifetimes_wrap_witness:
  "\<exists>w' it. writeOwner demo_env ''a'' ''PUT'' ''a'' (demo_body\<lparr>kb_ttl := 9223372036855\<rparr>) demo_world = Some (None, w')
    \<and> slot ''k'' ''a'' w' = Some it \<and> iexpires it = zero_time"
  using long_lifetimes_wrap [OF demo_reach, of "demo_body\<lparr>kb_ttl := 9223372036855\<rparr>" "''a''"]
  by (simp add: demo_empty)

text \<open>
  A read from another process neither shortens nor extends a lifetime by more than the
  time the reply travelled and one millisecond: the expiry the reader reconstructs from the
  remaining milliseconds is the owner's, shifted by the time between the two clock readings
  and rounded down to the millisecond.
\<close>

theorem remote_reads_keep_lifetimes:
  assumes "cluster_reach E w" "uniform E ps w" "me \<in> ps" "nid \<in> ps" "me \<noteq> nid"
    and "slot key nid w = Some it" "\<not> expired it (clock E (ticks w + 1))" "in_int64 (iwritten it)"
    and "validateKey key = None" "gm_get (downUntil (procs w me)) nid = None"
    and "\<not> is_zero (iexpires it)" "0 < until_ms (clock E (ticks w + 2)) (iexpires it)"
    and "iexpires it - clock E (ticks w + 2) \<le> 9223372036854000000"
  shows "\<exists>ent w'. readOwner E me nid key w = Some (Inr (ent, True), w')
    \<and> Value ent = ivalue it \<and> WrittenAt ent = iwritten it
    \<and> ExpiresAt ent \<le> iexpires it + (clock E (ticks w + 3) - clock E (ticks w + 2))
    \<and> iexpires it + (clock E (ticks w + 3) - clock E (ticks w + 2)) < ExpiresAt ent + 1000000"
proof -
  note le = relayed_expiry_le [OF assms(11-13), of "clock E (ticks w + 3)"]
  show ?thesis
    using readOwner_remote [OF cluster_reach_inv [OF assms(1)] assms(2-10)] le
    by (elim exE conjE) (intro exI conjI, assumption, simp_all)
qed

theorem remote_reads_keep_lifetimes_witness:
  "\<exists>ent w'. readOwner demo_env ''c'' ''a'' ''k'' (demo_with (demo_body\<lparr>kb_ttl := 5\<rparr>)) = Some (Inr (ent, True), w')
    \<and> Value ent = ''v'' \<and> ExpiresAt ent \<le> 5000002"
proof -
  let ?b = "demo_body\<lparr>kb_ttl := 5\<rparr>"
  have fits: "fits demo_env ?b" by (rule fits_small) (simp_all add: in_int64_def min_int64_def max_int64_def)
  have slot: "slot ''k'' ''a'' (demo_with ?b) = Some \<lparr>ikey = ''k'', ivalue = ''v'', iexpires = 5000001, iwritten = 7\<rparr>"
    using demo_with_slot [of ?b] by (simp add: ttl_exact)
  have ms: "until_ms 4 5000001 = 4"
    by (simp add: until_ms_def time_sub_exact in_int64_def min_int64_def max_int64_def milliseconds_pos)
  show ?thesis
    using remote_reads_keep_lifetimes [OF demo_with_reach [OF fits] demo_with_uniform _ _ _ slot, of "''c''"] ms
    by (simp add: expired_def is_zero_def zero_time_def time_before_def in_int64_def min_int64_def max_int64_def)
      blast
qed

text \<open>
  C35. In the last millisecond of an entry's life a read through a process that does not own
  the key answers the value with no expiry, and puts repairs in flight that write it to the
  other owners with lifetime zero, that is for ever.
\<close>

theorem expiring_entry_repaired_for_ever:
  assumes "cluster_reach E w" "uniform E ps w" "me \<in> ps"
    and "Owners (nring (procs w me)) key (cReplicas (ncfg (procs w me))) = nid # rest" "me \<notin> set (nid # rest)"
    and "slot key nid w = Some it" "\<not> expired it (clock E (ticks w + 1))" "in_int64 (iwritten it)"
    and "\<not> is_zero (iexpires it)" "until_ms (clock E (ticks w + 2)) (iexpires it) \<le> 0"
    and "validateKey key = None" "rMethod r = ''GET''" "rQuery r ''key'' = key"
    and "gm_get (downUntil (procs w me)) nid = None"
  shows "\<exists>w'. handleGet E me r w = Some (hit_resp key nid (it\<lparr>iexpires := zero_time\<rparr>), w')
    \<and> pending w' = pending w @ map (\<lambda>x. \<lparr>rp_from = me, rp_to = x, rp_body =
        \<lparr>kb_key = key, kb_value = ivalue it, kb_ttl = 0, kb_written = iwritten it\<rparr>\<rparr>) rest"
  by (rule repair_becomes_permanent [OF cluster_reach_inv [OF assms(1)] assms(2-14)])

theorem expiring_entry_repaired_for_ever_witness:
  "\<exists>w'. handleGet late_env ''c'' demo_get (demo_with (demo_body\<lparr>kb_ttl := 1\<rparr>))
      = Some (hit_resp ''k'' ''a'' \<lparr>ikey = ''k'', ivalue = ''v'', iexpires = zero_time, iwritten = 7\<rparr>, w')
    \<and> pending w' = pending (demo_with (demo_body\<lparr>kb_ttl := 1\<rparr>))
        @ [\<lparr>rp_from = ''c'', rp_to = ''b'', rp_body = demo_body\<rparr>]"
proof -
  let ?b = "demo_body\<lparr>kb_ttl := 1\<rparr>"
  have fits: "fits demo_env ?b" by (rule fits_small) (simp_all add: in_int64_def min_int64_def max_int64_def)
  have slot: "slot ''k'' ''a'' (demo_with ?b) = Some \<lparr>ikey = ''k'', ivalue = ''v'', iexpires = 1000001, iwritten = 7\<rparr>"
    using demo_with_slot [of ?b] by (simp add: ttl_exact)
  have ms: "until_ms 999994 1000001 = 0"
    by (simp add: until_ms_def time_sub_exact in_int64_def min_int64_def max_int64_def milliseconds_pos)
  have body: "demo_body = \<lparr>kb_key = ''k'', kb_value = ''v'', kb_ttl = 0, kb_written = 7\<rparr>" by (simp add: demo_body_def)
  show ?thesis
    using expiring_entry_repaired_for_ever [OF late_reach [OF fits] late_uniform _ demo_with_owners _ slot,
        of "''c''" demo_get] ms
    by (simp add: expired_def is_zero_def zero_time_def time_before_def in_int64_def min_int64_def max_int64_def
        flip: body)
qed

section \<open>The breaker\<close>

text \<open>
  A marked peer is skipped exactly until the break has passed, counted from the mark, and
  is then forgotten; marking a peer touches no other mark, and a process cannot mark itself.
\<close>

theorem breaker_skips_for_the_break:
  assumes "nid \<noteq> cID (ncfg n)"
  shows "(fst (isDown t nid (markDown t0 nid n)) \<longleftrightarrow> t < t0 + cBreakFor (ncfg n))
    \<and> gm_get (downUntil (snd (isDown t nid (markDown t0 nid n)))) nid
        = (if t < t0 + cBreakFor (ncfg n) then Some (t0 + cBreakFor (ncfg n)) else None)
    \<and> (\<forall>k. k \<noteq> nid \<longrightarrow> gm_get (downUntil (snd (isDown t nid (markDown t0 nid n)))) k = gm_get (downUntil n) k)
    \<and> markDown t0 (cID (ncfg n)) n = n"
  using assms by (simp add: isDown_def markDown_def time_before_def time_add_def)

theorem breaker_skips_for_the_break_witness:
  "fst (isDown 2000000004 ''b'' (markDown 5 ''b'' (demo_node ''a'')))
    \<and> \<not> fst (isDown 2000000005 ''b'' (markDown 5 ''b'' (demo_node ''a'')))"
  using breaker_skips_for_the_break [of "''b''" "demo_node ''a''" 2000000004 5]
    breaker_skips_for_the_break [of "''b''" "demo_node ''a''" 2000000005 5]
  by (simp add: second_def)

text \<open>
  C34. Reads keep their own breaker shut: once a process has marked every owner of a key that
  it does not own itself, each of its reads of that key answers 503 without a single call and
  marks the owners anew, so as long as reads come in faster than the break, no number of them
  ever tries an owner again.
\<close>

theorem reads_keep_the_breaker_shut:
  assumes "world_inv E w"
    and "owners = Owners (nring (procs w me)) key (cReplicas (ncfg (procs w me)))" "self_id me w \<notin> set owners"
    and "\<forall>q \<in> set owners. \<exists>t. gm_get (downUntil (procs w me)) q = Some t
      \<and> (\<forall>j < 2 * length owners. clock E (ticks w + j) < t)"
    and "validateKey key = None" "rMethod r = ''GET''" "rQuery r ''key'' = key"
    and "\<forall>k. \<forall>j \<le> 4 * length owners. clock E (k + j) < clock E k + cBreakFor (ncfg (procs w me))"
  shows "\<exists>w'. get_run E me r n w = Some (replicate n (http_error ''all replicas unreachable'' 503), w')
    \<and> calls w' = calls w"
  using assms by (rule reads_keep_the_mark)

theorem reads_keep_the_breaker_shut_witness:
  "\<exists>w'. get_run demo_env ''c'' demo_get 5000000000 marked_world
      = Some (replicate 5000000000 (http_error ''all replicas unreachable'' 503), w')
    \<and> calls w' = calls marked_world"
proof (rule reads_keep_the_breaker_shut [OF marked_world_inv, of "[''a'', ''b'']" "''c''" "''k''"])
  show "[''a'', ''b''] = Owners (nring (procs marked_world ''c'')) ''k'' (cReplicas (ncfg (procs marked_world ''c'')))"
    using demo_owners by simp
  have "int (3 + j) < 2000000001" if "j < 4" for j using that by simp
  then show "\<forall>q \<in> set [''a'', ''b'']. \<exists>t. gm_get (downUntil (procs marked_world ''c'')) q = Some t
      \<and> (\<forall>j < 2 * length [''a'', ''b'']. clock demo_env (ticks marked_world + j) < t)"
    using marked_world_marks by simp
  show "\<forall>k. \<forall>j \<le> 4 * length [''a'', ''b'']. clock demo_env (k + j)
      < clock demo_env k + cBreakFor (ncfg (procs marked_world ''c''))"
    by (simp add: second_def)
qed simp_all

section \<open>Limits of replication\<close>

text \<open>
  A write of a newer stamp elsewhere makes a SET a no-op that is still acknowledged: when
  every owner holds a newer value, the SET answers 200 with all owners acknowledged and no
  process changes the value it holds.
\<close>

theorem stale_write_is_acknowledged:
  assumes "cluster_reach E w" "env_ok E" "uniform E ps w" "me \<in> ps" "put_ok r b" "fits E b"
    and "owners = Owners (nring (procs w me)) (kb_key b) (cReplicas (ncfg (procs w me)))"
    and "\<forall>p \<in> set owners. \<exists>v. held (kb_key b) p w = Some v \<and> kb_written b < snd v"
  shows "\<exists>w'. handleSet E me r w = Some (writeJSON 200 (encode_write \<lparr>wr_key = kb_key b,
      wr_acked = length owners, wr_replicas = owners, wr_failed = []\<rparr>), w')
    \<and> (\<forall>p \<in> set owners. held (kb_key b) p w' = held (kb_key b) p w)"
proof -
  obtain w' where w': "handleSet E me r w = Some (writeJSON 200 (encode_write \<lparr>wr_key = kb_key b,
      wr_acked = length owners, wr_replicas = owners, wr_failed = []\<rparr>), w')" "\<forall>p \<in> set owners. applied b p w w'"
    using set_healthy [OF cluster_reach_inv [OF assms(1)] assms(2-7)] by blast
  have "held (kb_key b) p w' = held (kb_key b) p w" if p: "p \<in> set owners" for p
  proof -
    obtain v where "held (kb_key b) p w = Some v" "kb_written b < snd v" using assms(8) p by blast
    moreover have "held (kb_key b) p w' = lww_val b (held (kb_key b) p w)"
      using w'(2) p by (simp add: applied_def)
    ultimately show ?thesis by (simp add: lww_val_def)
  qed
  with w'(1) show ?thesis by blast
qed

theorem stale_write_is_acknowledged_witness:
  "\<exists>w w'. held ''k'' ''a'' w = Some (''new'', 9)
    \<and> handleSet demo_env ''c'' demo_put w = Some (writeJSON 200 (encode_write
        \<lparr>wr_key = ''k'', wr_acked = 2, wr_replicas = [''a'', ''b''], wr_failed = []\<rparr>), w')
    \<and> held ''k'' ''a'' w' = Some (''new'', 9)"
proof -
  let ?b = "demo_body\<lparr>kb_value := ''new'', kb_written := 9\<rparr>"
  let ?r = "demo_put\<lparr>rBody := marshal (float_text demo_env) (encode_kv ?b)\<rparr>"
  have fits: "fits demo_env ?b" by (rule fits_small) (simp_all add: in_int64_def min_int64_def max_int64_def)
  have ok: "put_ok ?r ?b"
    unfolding put_ok_def using fits_body [OF fits] by (simp add: demo_put_def validateValue_def maxValueBytes_def)
  obtain w resp where w: "handleSet demo_env ''c'' ?r demo_world = Some (resp, w)"
      "rep_rel ?b demo_world w" "\<forall>p \<in> {''a'', ''b''}. applied ?b p demo_world w"
    using set_healthy [OF demo_inv demo_env_ok demo_uniform _ ok fits, of "''c''" "[''a'', ''b'']"] demo_owners by auto
  have "serve demo_env ''c'' ?r demo_world = Some (resp, w)"
    using w(1) by (simp add: serve_def demo_put_def)
  then have reach: "cluster_reach demo_env w" by (rule reach_step [OF demo_reach step_serve])
  have same: "same_members demo_world w" using w(2) by (simp add: rep_rel_def)
  have owners: "[''a'', ''b''] = Owners (nring (procs w ''c'')) (kb_key demo_body) (cReplicas (ncfg (procs w ''c'')))"
    using demo_owners_at [of "''c''"] same by (simp add: same_members_def)
  have held: "held ''k'' p w = Some (''new'', 9)" if "p \<in> {''a'', ''b''}" for p
    using w(3) that by (auto simp: applied_def lww_val_def held_slot demo_empty)
  have "\<exists>w'. handleSet demo_env ''c'' demo_put w = Some (writeJSON 200 (encode_write \<lparr>wr_key = kb_key demo_body,
      wr_acked = length [''a'', ''b''], wr_replicas = [''a'', ''b''], wr_failed = []\<rparr>), w')
    \<and> (\<forall>p \<in> set [''a'', ''b'']. held (kb_key demo_body) p w' = held (kb_key demo_body) p w)"
    by (rule stale_write_is_acknowledged [OF reach demo_env_ok uniform_same [OF same demo_uniform] _ demo_put_ok
          demo_fits owners]) (use held in auto)
  then show ?thesis using held by (auto simp: numeral_2_eq_2)
qed

text \<open>
  Values of up to 174,000 bytes reach every owner, whatever they contain. A larger value
  may be accepted and yet reach no other process: the JSON encoder writes a less-than,
  greater-than or ampersand as six bytes, so that a value of \<open>n\<close> of them, with six times
  \<open>n\<close> above the body limit of 1 MiB and 4096 bytes, is refused by every owner the coordinator
  forwards it to.
\<close>

theorem escaped_values_are_not_replicated:
  assumes "uniform E ps w" "me \<in> ps" "nid \<in> ps" "me \<noteq> nid"
    and "in_int64 (kb_ttl b)" "in_int64 (kb_written b)" "validateKey (kb_key b) = None"
  shows "(length (kb_value b) \<le> 174000 \<longrightarrow> world_inv E w
      \<longrightarrow> (\<exists>w'. writeOwner E me ''PUT'' nid b w = Some (None, w') \<and> applied b nid w w'))
    \<and> (kb_value b = replicate n c \<longrightarrow> c \<in> {CHR ''<'', CHR ''>'', CHR ''&''} \<longrightarrow> maxValueBytes + 4096 < 6 * n
      \<longrightarrow> writeOwner E me ''PUT'' nid b w = Some (Some ''status'', w\<lparr>calls := calls w + 1\<rparr>))"
proof (intro conjI impI)
  assume "length (kb_value b) \<le> 174000" "world_inv E w"
  then show "\<exists>w'. writeOwner E me ''PUT'' nid b w = Some (None, w') \<and> applied b nid w w'"
    using writeOwner_healthy [OF _ assms(1-3) fits_small [OF assms(5-7)]] by blast
next
  assume c: "kb_value b = replicate n c" "c \<in> {CHR ''<'', CHR ''>'', CHR ''&''}" "maxValueBytes + 4096 < 6 * n"
  have "maxValueBytes + 4096 < length (json_text (float_text E) (encode_kv b))"
    using escaped_body_length [OF c(1,2)] c(3) by (rule less_le_trans [rotated])
  then show "writeOwner E me ''PUT'' nid b w = Some (Some ''status'', w\<lparr>calls := calls w + 1\<rparr>)"
    by (rule oversized_write_fails [OF assms(1-4)])
qed

theorem escaped_values_are_not_replicated_witness:
  "validateValue (replicate 200000 CHR ''&'') = None
    \<and> writeOwner demo_env ''a'' ''PUT'' ''b'' (demo_body\<lparr>kb_value := replicate 200000 CHR ''&''\<rparr>) demo_world
      = Some (Some ''status'', demo_world\<lparr>calls := 1\<rparr>)"
proof -
  let ?b = "demo_body\<lparr>kb_value := replicate 200000 CHR ''&''\<rparr>"
  have "writeOwner demo_env ''a'' ''PUT'' ''b'' ?b demo_world
      = Some (Some ''status'', demo_world\<lparr>calls := calls demo_world + 1\<rparr>)"
    by (rule escaped_values_are_not_replicated [OF demo_uniform, THEN conjunct2, rule_format, of _ _ ?b 200000 "CHR ''&''"])
      (simp_all add: in_int64_def min_int64_def max_int64_def maxValueBytes_def)
  then show ?thesis by (simp add: validateValue_def maxValueBytes_def)
qed

section \<open>Messages\<close>

text \<open>
  C30. What one process sends another arrives unchanged: a write body, a read reply and a
  rate-limit request with numbers in range are decoded to what was encoded, the fields left
  out by \<open>omitempty\<close> included, and a parsed rate-limit request that is forwarded within the
  body limit is parsed to itself. A key of any bytes survives the query of the URL: its escaped
  form has no byte with a meaning in a URL, differs for different keys, and the handlers of a
  GET and of a DELETE read the key itself from it.
\<close>

theorem messages_round_trip:
  assumes "in_int64 (kb_ttl b)" "in_int64 (kb_written b)"
    and "in_int64 (gr_written g)" "\<forall>ms. gr_ttl g = Some ms \<longrightarrow> in_int64 ms"
    and "parseRateLimitBody p = Inr q" "length (json_text ft (encode_rl q)) \<le> maxValueBytes + 4096"
  shows "decode_kv (encode_kv b) = Some b \<and> decode_get (encode_get g) = Some g
    \<and> parseRateLimitBody (marshal ft (encode_rl q)) = Inr q
    \<and> set (urlQuery key) \<subseteq> Collect unreserved \<union> {CHR ''+'', CHR ''%''} \<and> inj urlQuery
    \<and> rQuery (kv_request ''GET'' key pl) ''key'' = key \<and> rQuery (kv_request ''DELETE'' key pl) ''key'' = key"
proof -
  have "set (urlQuery key) \<subseteq> Collect unreserved \<union> {CHR ''+'', CHR ''%''}"
    using escape_clean unfolding urlQuery_def by blast
  moreover have "inj urlQuery" unfolding urlQuery_def by (rule injI) (metis option.inject unescape_escape)
  ultimately show ?thesis
    using assms by (simp add: decode_encode_kv decode_encode_get parse_forwarded parse_valid kv_request_eq)
qed

theorem messages_round_trip_witness:
  "decode_kv (encode_kv demo_body) = Some demo_body
    \<and> decode_get (encode_get (zero_get\<lparr>gr_found := True\<rparr>)) = Some (zero_get\<lparr>gr_found := True\<rparr>)
    \<and> rQuery (kv_request ''GET'' ''a&b=%c'' empty_payload) ''key'' = ''a&b=%c''"
  using messages_round_trip [of demo_body "zero_get\<lparr>gr_found := True\<rparr>" "rBody demo_take" demo_rl "float_text demo_env"]
    demo_take_ok [of "''a''"]
  by (simp add: take_ok_def zero_get_def in_int64_def min_int64_def max_int64_def)
end
