(* ===== verification/RateClient.thy ===== *)
theory RateClient
  imports ClusterTakes ClusterEdges
begin

text \<open>
  \<open>pkg/ratelimit/middleware.go\<close>, the client: it asks the coordinators one after the other
  for a take and returns the first decision it can read. What may go wrong between the
  client and a coordinator is the parameter \<open>lost\<close>: the request does not arrive, the answer
  does not, or only its body is cut off (the client cancels the request's context before it
  reads the body, so a body that is not yet buffered is lost). The coordinators are the
  processes of \<open>Cluster\<close>, reached by \<open>route\<close>.
\<close>

section \<open>Decisions\<close>

record decision =
  d_allowed :: bool
  d_remaining :: rat
  d_retry :: int
  d_primary :: string
  d_served :: string

definition zero_decision :: decision where
  "zero_decision = \<lparr>d_allowed = False, d_remaining = 0, d_retry = 0, d_primary = '''', d_served = ''''\<rparr>"

definition decision_field :: "string \<Rightarrow> json \<Rightarrow> decision \<Rightarrow> decision option" where
  "decision_field k v d =
    (if k = ''allowed'' then map_option (\<lambda>b. d\<lparr>d_allowed := b\<rparr>) (dec_bool v (d_allowed d))
     else if k = ''remaining'' then map_option (\<lambda>x. d\<lparr>d_remaining := x\<rparr>) (dec_float v (d_remaining d))
     else if k = ''retry_after_ms'' then map_option (\<lambda>n. d\<lparr>d_retry := n\<rparr>) (dec_int64 v (d_retry d))
     else if k = ''primary'' then map_option (\<lambda>s. d\<lparr>d_primary := s\<rparr>) (dec_string v (d_primary d))
     else if k = ''served_by'' then map_option (\<lambda>s. d\<lparr>d_served := s\<rparr>) (dec_string v (d_served d))
     else Some d)"

definition decode_decision :: "json \<Rightarrow> decision option" where
  "decode_decision = decode_struct decision_field zero_decision"

lemma decision_tags:
  "fold_name ''allowed'' = ''allowed''" "fold_name ''remaining'' = ''remaining''"
  "fold_name ''retry_after_ms'' = ''retry_after_ms''" "fold_name ''primary'' = ''primary''"
  by (simp_all add: fold_defs)

text \<open>The client reads what the server writes.\<close>

lemma decode_decision_rlresp:
  "is_float (rr_remaining r) \<Longrightarrow> in_int64 (rr_retry r) \<Longrightarrow> decode_decision (encode_rlresp r) = Some
    \<lparr>d_allowed = rr_allowed r, d_remaining = rr_remaining r, d_retry = rr_retry r,
     d_primary = rr_primary r, d_served = rr_served r\<rparr>"
  by (simp add: decode_decision_def decode_struct_def encode_rlresp_def omit_str_def decision_tags tags_fold
      decision_field_def zero_decision_def parse_float_def is_float_def)

section \<open>One attempt\<close>

datatype loss = Arrives | RequestLost | AnswerLost | BodyLost

definition take_body :: "string \<Rightarrow> rat \<Rightarrow> rat \<Rightarrow> rat \<Rightarrow> json" where
  "take_body key r b cost = JObj [(''burst'', JReal b), (''cost'', JReal cost), (''key'', JStr key), (''rate'', JReal r)]"

definition take_request :: "env \<Rightarrow> string \<Rightarrow> rat \<Rightarrow> rat \<Rightarrow> rat \<Rightarrow> request" where
  "take_request E key r b cost = \<lparr>rPath = ''/v1/ratelimit/take'', rMethod = ''POST'', rQuery = (\<lambda>_. ''''),
    rBody = marshal (float_text E) (take_body key r b cost)\<rparr>"

definition attempt ::
  "env \<Rightarrow> (nat \<Rightarrow> loss) \<Rightarrow> string \<Rightarrow> request \<Rightarrow> world \<Rightarrow> ((string + response) \<times> world) option" where
  "attempt E lost base r w =
    (let w1 = w\<lparr>calls := calls w + 1\<rparr>; l = lost (calls w)
     in case route E base of
          None \<Rightarrow> Some (Inl ''connection refused'', w1)
        | Some p \<Rightarrow>
            (if l = RequestLost then Some (Inl ''timeout'', w1)
             else
               (case serve E p r w1 of
                  None \<Rightarrow> None
                | Some (res, w2) \<Rightarrow>
                    Some (if l = AnswerLost then Inl ''timeout''
                          else if l = BodyLost then Inr (res\<lparr>rReply := BText ''''\<rparr>)
                          else Inr (res\<lparr>rReply := limit_body (float_text E) (rReply res)\<rparr>), w2))))"

section \<open>Client.Take\<close>

fun try_addrs ::
  "env \<Rightarrow> (nat \<Rightarrow> loss) \<Rightarrow> request \<Rightarrow> string list \<Rightarrow> string option \<Rightarrow> world
    \<Rightarrow> ((string + decision) \<times> world) option" where
  "try_addrs E lost r [] lastErr w =
    Some (Inl (case lastErr of None \<Rightarrow> ''all ringcache addrs failed'' | Some e \<Rightarrow> e), w)"
| "try_addrs E lost r (addr # addrs) lastErr w =
    (case attempt E lost (trim_right_char CHR ''/'' addr) r w of
       None \<Rightarrow> None
     | Some (Inl e, w1) \<Rightarrow> try_addrs E lost r addrs (Some e) w1
     | Some (Inr res, w1) \<Rightarrow>
         if rStatus res \<noteq> 200 then try_addrs E lost r addrs (Some ''status'') w1
         else
           (case (case rReply res of BText t \<Rightarrow> None | BJson j \<Rightarrow> decode_decision j) of
              None \<Rightarrow> try_addrs E lost r addrs (Some ''bad json'') w1
            | Some d \<Rightarrow> Some (Inr d, w1)))"

definition client_Take ::
  "env \<Rightarrow> (nat \<Rightarrow> loss) \<Rightarrow> string list \<Rightarrow> string \<Rightarrow> rat \<Rightarrow> rat \<Rightarrow> rat \<Rightarrow> world
    \<Rightarrow> ((string + decision) \<times> world) option" where
  "client_Take E lost addrs key r b cost w =
    (if addrs = [] then Some (Inl ''no ringcache addrs'', w)
     else try_addrs E lost (take_request E key r b cost) addrs None w)"

section \<open>The client always returns\<close>

lemma attempt_runs:
  assumes "world_inv E w"
  shows "\<exists>x w'. attempt E lost base r w = Some (x, w') \<and> world_inv E w'"
proof -
  define w1 where "w1 = w\<lparr>calls := calls w + 1\<rparr>"
  have w1: "world_inv E w1" using assms by (simp add: w1_def)
  show ?thesis
  proof (cases "route E base")
    case None
    then show ?thesis using w1 by (simp add: attempt_def w1_def Let_def)
  next
    case (Some p)
    obtain res w2 where "serve E p r w1 = Some (res, w2)" "world_inv E w2" using serve_runs [OF w1] by blast
    with Some w1 show ?thesis by (auto simp: attempt_def w1_def Let_def)
  qed
qed

lemma try_addrs_runs: "world_inv E w \<Longrightarrow> \<exists>x w'. try_addrs E lost r addrs e w = Some (x, w') \<and> world_inv E w'"
proof (induction addrs arbitrary: e w)
  case (Cons a addrs)
  obtain x w1 where a: "attempt E lost (trim_right_char CHR ''/'' a) r w = Some (x, w1)" "world_inv E w1"
    using attempt_runs [OF Cons.prems] by blast
  show ?case
  proof (cases x)
    case (Inl e')
    then show ?thesis using a Cons.IH [OF a(2)] by simp
  next
    case (Inr res)
    then show ?thesis using a Cons.IH [OF a(2)]
      by (cases "rStatus res = 200"; cases "case rReply res of BText t \<Rightarrow> None | BJson j \<Rightarrow> decode_decision j") auto
  qed
qed simp

lemma client_Take_runs:
  "world_inv E w \<Longrightarrow> \<exists>x w'. client_Take E lost addrs key r b cost w = Some (x, w') \<and> world_inv E w'"
  using try_addrs_runs by (simp add: client_Take_def)

text \<open>
  An attempt fails: nobody listens on the address, the call or its answer is lost, the
  coordinator answers another status than 200 (it refused the request, or could not reach the
  primary), or what it answers is not JSON that can be read as a decision.
\<close>

definition attempt_fails :: "env \<Rightarrow> (nat \<Rightarrow> loss) \<Rightarrow> string \<Rightarrow> request \<Rightarrow> world \<Rightarrow> bool" where
  "attempt_fails E lost base r w \<longleftrightarrow>
    (case route E base of
       None \<Rightarrow> True
     | Some p \<Rightarrow> lost (calls w) \<noteq> Arrives
         \<or> (\<exists>res w'. serve E p r (w\<lparr>calls := calls w + 1\<rparr>) = Some (res, w')
             \<and> (rStatus res \<noteq> 200
                \<or> (case limit_body (float_text E) (rReply res) of
                     BText t \<Rightarrow> True
                   | BJson j \<Rightarrow> decode_decision j = None))))"

fun unanswered :: "env \<Rightarrow> (nat \<Rightarrow> loss) \<Rightarrow> request \<Rightarrow> string list \<Rightarrow> world \<Rightarrow> bool" where
  "unanswered E lost r [] w = True"
| "unanswered E lost r (addr # addrs) w =
    (attempt_fails E lost (trim_right_char CHR ''/'' addr) r w
      \<and> (\<exists>x w1. attempt E lost (trim_right_char CHR ''/'' addr) r w = Some (x, w1) \<and> unanswered E lost r addrs w1))"

text \<open>The client gets an error exactly when every attempt fails.\<close>

lemma attempt_fails_iff:
  assumes "attempt E lost base r w = Some (x, w1)"
  shows "attempt_fails E lost base r w \<longleftrightarrow> (case x of Inl e \<Rightarrow> True | Inr res \<Rightarrow> rStatus res \<noteq> 200
    \<or> (case rReply res of BText t \<Rightarrow> None | BJson j \<Rightarrow> decode_decision j) = None)"
proof (cases "route E base")
  case None
  then show ?thesis using assms by (auto simp: attempt_def attempt_fails_def Let_def)
next
  case (Some p)
  show ?thesis
  proof (cases "serve E p r (w\<lparr>calls := calls w + 1\<rparr>)")
    case None
    then show ?thesis using assms Some by (cases "lost (calls w)") (auto simp: attempt_def attempt_fails_def Let_def)
  next
    case (Some a)
    then show ?thesis using assms \<open>route E base = Some p\<close>
      by (cases a; cases "lost (calls w)") (auto simp: attempt_def attempt_fails_def Let_def split: body.splits)
  qed
qed

lemma try_addrs_fails:
  "world_inv E w \<Longrightarrow> (\<exists>e' w'. try_addrs E lost r addrs e w = Some (Inl e', w')) \<longleftrightarrow> unanswered E lost r addrs w"
proof (induction addrs arbitrary: e w)
  case (Cons a addrs)
  obtain x w1 where a: "attempt E lost (trim_right_char CHR ''/'' a) r w = Some (x, w1)" "world_inv E w1"
    using attempt_runs [OF Cons.prems] by blast
  note fails = attempt_fails_iff [OF a(1)] and IH = Cons.IH [OF a(2)]
  show ?case
  proof (cases x)
    case (Inl e')
    then show ?thesis using a(1) fails IH by simp
  next
    case (Inr res)
    then show ?thesis using a(1) fails IH
      by (cases "rStatus res = 200"; cases "case rReply res of BText t \<Rightarrow> None | BJson j \<Rightarrow> decode_decision j") simp_all
  qed
qed simp

lemma client_Take_fails:
  "world_inv E w \<Longrightarrow> (\<exists>e w'. client_Take E lost addrs key r b cost w = Some (Inl e, w'))
    \<longleftrightarrow> unanswered E lost (take_request E key r b cost) addrs w"
  using try_addrs_fails by (simp add: client_Take_def)

section \<open>A reachable coordinator answers with the primary's decision\<close>

lemma retry_range: "in_int64 (retryAfterMs (fpu_of a) t c r b)"
proof -
  have "in_int64 (float_to_int64 (fpu_of a) x)" for x
    using f2i_range by (simp add: float_to_int64_def Let_def)
  then have le: "float_to_int64 (fpu_of a) x \<le> 9223372036854775807" for x
    by (simp add: in_int64_def max_int64_def)
  show ?thesis
    by (auto simp: retryAfterMs_def Let_def le in_int64_def min_int64_def max_int64_def max_int32_def not_less)
qed

lemma Take_bucket_answer:
  "Remaining (fst (Take_bucket M now cost bk)) = tokens (snd (Take_bucket M now cost bk))"
  "RetryAfterMs (fst (Take_bucket M now cost bk)) = 0
    \<or> (\<exists>t c r b. RetryAfterMs (fst (Take_bucket M now cost bk)) = retryAfterMs M t c r b)"
  by (auto simp: Take_bucket_def Let_def)

text \<open>What a limiter answers can be sent: the tokens are a double, the wait is an \<open>int64\<close>.\<close>

lemma answer_sendable:
  assumes "rl_inv (fpu_of a) s" "0 \<le> b" "is_float b"
    and "fst (Take_store (fpu_of a) now key r b cost s) = res"
  shows "is_float (Remaining res) \<and> in_int64 (RetryAfterMs res)"
proof -
  let ?bk = "bucket_for (fpu_of a) now r b (rl_bucket_of key s)"
  have res: "res = fst (Take_bucket (fpu_of a) now cost ?bk)"
    using assms(4) by (simp add: Take_store_eq Let_def split_beta)
  have "bucket_ok (fpu_of a) bk" if "rl_bucket_of key s = Some bk" for bk
    using that assms(1) by (auto simp: rl_bucket_of_def rl_inv_def)
  moreover have rnd: "rnd (fpu_of a) = fl64" by simp
  ultimately have "bucket_ok (fpu_of a) ?bk"
    using assms(2,3) by (intro go.bucket_for_ok) (auto simp: is_float_def)
  then have ok: "bucket_ok (fpu_of a) (snd (Take_bucket (fpu_of a) now cost ?bk))" by (rule go.Take_ok)
  have "burst ?bk = b"
    using assms(2) by (auto simp: bucket_for_def resize_def NewBucket_def Let_def go.refill_frame split: option.splits)
  then have "0 \<le> Remaining res" "Remaining res \<le> b" "fl64 (Remaining res) = Remaining res"
    using ok Take_bucket_answer(1) [of "fpu_of a" now cost ?bk] rnd
    by (simp_all add: res bucket_ok_def go.Take_frame)
  moreover have "in_int64 (RetryAfterMs res)"
    using Take_bucket_answer(2) [of "fpu_of a" now cost ?bk] retry_range
    by (auto simp: res) (simp add: in_int64_def min_int64_def max_int64_def)
  ultimately show ?thesis using assms(2,3) by (simp add: is_float_def)
qed

definition decision_of :: "string \<Rightarrow> result \<Rightarrow> decision" where
  "decision_of q res = \<lparr>d_allowed = Allowed res, d_remaining = Remaining res, d_retry = RetryAfterMs res,
    d_primary = q, d_served = q\<rparr>"

text \<open>The body the client sends is read by the coordinator as the limits it was made of.\<close>

lemma parse_take_body:
  assumes "rl_valid \<lparr>rb_key = key, rb_rate = r, rb_burst = bb, rb_cost = cost\<rparr>"
    and "length (json_text ft (take_body key r bb cost)) \<le> maxValueBytes + 4096"
  shows "parseRateLimitBody (marshal ft (take_body key r bb cost))
    = Inr \<lparr>rb_key = key, rb_rate = r, rb_burst = bb, rb_cost = cost\<rparr>"
proof -
  have "decode_rl (take_body key r bb cost) = Some \<lparr>rb_key = key, rb_rate = r, rb_burst = bb, rb_cost = cost\<rparr>"
    using assms(1) by (simp add: rl_valid_def decode_rl_def decode_struct_def take_body_def tags_fold field_defs
        zero_defs parse_float_def is_float_def abs_le_iff)
  then show ?thesis
    using assms by (simp add: parseRateLimitBody_def marshal_def readJSON_def rl_valid_def Let_def not_less)
qed


text \<open>A text without anything to escape is encoded as it is.\<close>

definition plain_char :: "char \<Rightarrow> bool" where
  "plain_char c = (let n = of_char c :: nat in 32 \<le> n \<and> n \<noteq> 34 \<and> n \<noteq> 38 \<and> n \<noteq> 60 \<and> n \<noteq> 62 \<and> n \<noteq> 92 \<and> n < 128)"

lemma escape_plain: "list_all plain_char s \<Longrightarrow> escape_string s = s"
proof (induction s)
  case (Cons c s)
  then have "(of_char c :: nat) \<noteq> 226" "escape_char c = [c]"
    by (auto simp: plain_char_def escape_char_def Let_def)
  then have "escape_string (c # s) = c # escape_string s" by (auto split: list.splits)
  with Cons show ?case by simp
qed simp

lemma commas_append: "xs \<noteq> [] \<Longrightarrow> ys \<noteq> [] \<Longrightarrow> commas (xs @ ys) = commas xs @ CHR '','' # commas ys"
proof (induction xs rule: commas.induct)
  case (2 t)
  then show ?case by (cases ys) simp_all
qed simp_all

text \<open>The messages of a take are small: a key has at most 512 bytes.\<close>

lemma take_texts_fit:
  assumes "validateKey key = None" "\<forall>x. length (ft x) \<le> 32"
  shows "length (json_text ft (take_body key r b c)) \<le> maxValueBytes + 4096"
    and "length (json_text ft (encode_rl \<lparr>rb_key = key, rb_rate = r, rb_burst = b, rb_cost = c\<rparr>)) \<le> maxValueBytes + 4096"
proof -
  have tags: "length (quoted ''burst'') = 7" "length (quoted ''cost'') = 6" "length (quoted ''key'') = 5" "length (quoted ''rate'') = 6"
    by (simp_all add: quoted_def escape_plain plain_char_def del: escape_string.simps)
  have key: "length (quoted key) \<le> 3074"
    using assms(1) quoted_length [of key] by (simp add: validateKey_def maxKeyBytes_def split: if_splits)
  have ft: "length (ft x) \<le> 32" for x using assms(2) by blast
  show "length (json_text ft (take_body key r b c)) \<le> maxValueBytes + 4096"
    using key ft [of r] ft [of b] ft [of c] by (simp add: take_body_def tags maxValueBytes_def)
  show "length (json_text ft (encode_rl \<lparr>rb_key = key, rb_rate = r, rb_burst = b, rb_cost = c\<rparr>)) \<le> maxValueBytes + 4096"
    using key ft [of r] ft [of b] ft [of c] by (simp add: encode_rl_def tags maxValueBytes_def)
qed

text \<open>The answer of a coordinator, relayed or its own, fits into the 4096 bytes the client reads.\<close>

lemma take_resp_length:
  assumes "length q \<le> 300" "\<forall>x. length (float_text E x) \<le> 32" "in_int64 (RetryAfterMs res)"
  shows "limit_body (float_text E) (rReply (take_resp q q res)) = rReply (take_resp q q res)"
proof -
  have tags: "length (quoted ''allowed'') = 9" "length (quoted ''remaining'') = 11" "length (quoted ''retry_after_ms'') = 16"
    "length (quoted ''primary'') = 9" "length (quoted ''served_by'') = 11"
    by (simp_all add: quoted_def escape_plain plain_char_def del: escape_string.simps)
  have pairs: "length (json_text (float_text E) (JObj (omit @ omit_str ''primary'' q @ omit_str ''served_by'' q)))
      \<le> length (json_text (float_text E) (JObj omit)) + 2 * length (quoted q) + 24" if "omit \<noteq> []" for omit
    using that by (cases "q = ''''") (simp_all add: omit_str_def commas_append tags)
  have "length (quoted q) \<le> 1802" using quoted_length [of q] assms(1) by simp
  moreover have "length (json_text (float_text E) (JObj [(''allowed'', JBool (Allowed res)), (''remaining'', JReal (Remaining res)),
      (''retry_after_ms'', JInt (RetryAfterMs res))])) \<le> 200"
    using int_text_length [OF assms(3)] spec [OF assms(2), of "Remaining res"] by (simp add: tags)
  ultimately have "length (json_text (float_text E) (encode_rlresp \<lparr>rr_allowed = Allowed res, rr_remaining = Remaining res,
      rr_retry = RetryAfterMs res, rr_primary = q, rr_served = q\<rparr>)) \<le> 4096"
    using pairs [OF list.distinct(2), of "(''allowed'', JBool (Allowed res))" "[(''remaining'', JReal (Remaining res)),
      (''retry_after_ms'', JInt (RetryAfterMs res))]"] by (simp only: encode_rlresp_def rl_resp.simps)
  then show ?thesis by (simp add: take_resp_def writeJSON_def limit_body_def)
qed

lemma client_gets_the_decision:
  assumes w: "world_inv E w" and u: "uniform E ps w" and p: "p \<in> ps" "route E (trim_right_char CHR ''/'' addr) = Some p"
    and lost: "lost (calls w) = Arrives"
    and valid: "rl_valid \<lparr>rb_key = key, rb_rate = r, rb_burst = bb, rb_cost = cost\<rparr>"
    and len: "length (json_text (float_text E) (take_body key r bb cost)) \<le> maxValueBytes + 4096"
      "length (json_text (float_text E) (encode_rl \<lparr>rb_key = key, rb_rate = r, rb_burst = bb, rb_cost = cost\<rparr>))
        \<le> maxValueBytes + 4096"
    and q: "q = Primary (nring (procs w p)) key" "length q \<le> 300" and ft: "\<forall>x. length (float_text E x) \<le> 32"
  shows "\<exists>res w'. client_Take E lost (addr # addrs) key r bb cost w = Some (Inr (decision_of q res), w')
    \<and> Take_store (fpu_of (arch E)) (clock E (ticks w)) key r bb cost (nrl (procs w q)) = (res, nrl (procs w' q))
    \<and> same_limiters_but q w w' \<and> same_members w w' \<and> same_caches w w' \<and> world_inv E w'"
proof -
  define w1 where "w1 = w\<lparr>calls := calls w + 1\<rparr>"
  define b where "b = \<lparr>rb_key = key, rb_rate = r, rb_burst = bb, rb_cost = cost\<rparr>"
  define req where "req = take_request E key r bb cost"
  have w1: "world_inv E w1" "uniform E ps w1" "ticks w1 = ticks w" "procs w1 = procs w"
    using w uniform_same [OF _ u, of w1] by (simp_all add: w1_def same_members_def)
  have req: "rMethod req = ''POST''" "rPath req = ''/v1/ratelimit/take''" "parseRateLimitBody (rBody req) = Inr b"
    using parse_take_body [OF valid len(1)] by (simp_all add: req_def take_request_def b_def)
  have q1: "q = Primary (nring (procs w1 p)) (rb_key b)" using q(1) by (simp add: w1(4) b_def)
  have len1: "length (json_text (float_text E) (encode_rl b)) \<le> maxValueBytes + 4096" using len(2) by (simp add: b_def)
  obtain resp w2 res where h: "handleRateLimitTake E p req w1 = Some (resp, w2)" "answers_take E q res resp"
      "Take_store (fpu_of (arch E)) (clock E (ticks w1)) (rb_key b) (rb_rate b) (rb_burst b) (rb_cost b)
        (nrl (procs w1 q)) = (res, nrl (procs w2 q))"
      "same_limiters_but q w1 w2" "same_members w1 w2" "same_caches w1 w2" "world_inv E w2"
    using take_anywhere [OF w1(1,2) p(1) _ req(3) len1 q1] req(1) by blast
  have rl: "rl_inv (fpu_of (arch E)) (nrl (procs w1 q))" using world_invD [OF w1(1)] by (rule node_invD)
  have sendable: "is_float (Remaining res) \<and> in_int64 (RetryAfterMs res)"
    by (rule answer_sendable [OF rl, of "rb_burst b" "clock E (ticks w1)" "rb_key b" "rb_rate b" "rb_cost b"])
      (use valid h(3) in \<open>simp_all add: rl_valid_def b_def\<close>)
  have fixed: "limit_body (float_text E) (rReply (take_resp q q res)) = rReply (take_resp q q res)"
    using take_resp_length [OF q(2) ft] sendable by simp
  have resp: "rStatus resp = 200" "rReply resp = rReply (take_resp q q res)"
    using h(2) fixed by (auto simp: answers_take_def Let_def)
  have reply: "rReply (take_resp q q res) = BJson (encode_rlresp \<lparr>rr_allowed = Allowed res,
      rr_remaining = Remaining res, rr_retry = RetryAfterMs res, rr_primary = q, rr_served = q\<rparr>)"
    by (simp add: take_resp_def writeJSON_def)
  have "serve E p req w1 = Some (resp, w2)" using h(1) req(2) by (simp add: serve_def)
  then have "attempt E lost (trim_right_char CHR ''/'' addr) req w = Some (Inr (resp\<lparr>rReply := rReply (take_resp q q res)\<rparr>), w2)"
    using p(2) lost fixed resp(2) by (simp add: attempt_def Let_def w1_def)
  then have "client_Take E lost (addr # addrs) key r bb cost w = Some (Inr (decision_of q res), w2)"
    using resp(1) sendable
    by (simp add: client_Take_def req_def [symmetric] reply decode_decision_rlresp decision_of_def)
  then show ?thesis
    using h(3-7) by (auto simp: w1_def b_def same_limiters_but_def same_members_def same_caches_def)
qed

end
