(* ===== verification/Middleware.thy ===== *)
theory Middleware
  imports RateClient
begin

text \<open>
  \<open>pkg/ratelimit/middleware.go\<close>, the middleware, with its concurrent requests. A request is
  a thread with a program counter, and a step is what the code does atomically: one access
  to the shared in-flight map or to a counter in it, one \<open>Take\<close>, one call of the next
  handler. The compare-and-swap loop of \<open>acquireInflight\<close> is its two accesses, so that
  requests interleave between them. \<open>held\<close> says that the deferred release is registered.
\<close>

section \<open>Configuration\<close>

record api_request =
  aHeader :: "string \<Rightarrow> string"

record mw_config =
  mAddrs :: "string list option"
  mRate :: rat
  mBurst :: rat
  mCost :: rat
  mAPIKeyHeader :: string
  mMaxInFlight :: int
  mDisabled :: bool
  mDryRun :: bool
  mKeyFunc :: "(api_request \<Rightarrow> string) option"

definition mw_defaults :: "(string \<Rightarrow> string) \<Rightarrow> mw_config \<Rightarrow> mw_config" where
  "mw_defaults getenv c = c
    \<lparr>mAPIKeyHeader := (if mAPIKeyHeader c = '''' then ''X-API-Key'' else mAPIKeyHeader c),
     mCost := (if mCost c \<le> 0 then 1 else mCost c),
     mRate := (if mRate c \<le> 0 then 100 else mRate c),
     mBurst := (if mBurst c \<le> 0 then 20 else mBurst c),
     mKeyFunc := (case mKeyFunc c of
        None \<Rightarrow> Some (\<lambda>r. trim_space (aHeader r (if mAPIKeyHeader c = '''' then ''X-API-Key'' else mAPIKeyHeader c)))
      | Some f \<Rightarrow> Some f),
     mDisabled := (if getenv ''RATELIMIT_DISABLED'' = ''1'' then True else mDisabled c)\<rparr>"

definition mw_key :: "mw_config \<Rightarrow> api_request \<Rightarrow> string" where
  "mw_key c r = (let key = (case mKeyFunc c of None \<Rightarrow> '''' | Some f \<Rightarrow> f r)
    in if key = '''' then ''anonymous'' else key)"

text \<open>\<open>int(math.Ceil(float64(ms) / 1000.0))\<close>, at least one second.\<close>

definition retry_sec :: "int \<Rightarrow> int" where
  "retry_sec ms = (let s = \<lceil>fl64 (fl64 (of_int ms) / 1000)\<rceil> in if s < 1 then 1 else s)"

section \<open>Requests and the shared state\<close>

datatype verdict = Served | TooManyConcurrent | RateLimited int decision

datatype mpc =
    Arrived
  | Looking
  | Loaded int
  | Asking (held: bool)
  | Handling (held: bool)
  | Leaving (held: bool) verdict
  | Done verdict

type_synonym mthread = "api_request \<times> mpc"

record mw_state =
  inflight :: "string \<Rightarrow> int option"
  threads :: "mthread list"
  fail_open :: int
  mworld :: world

definition inflight_get :: "string \<Rightarrow> mw_state \<Rightarrow> int" where
  "inflight_get k s = (case inflight s k of None \<Rightarrow> 0 | Some n \<Rightarrow> n)"

definition goto :: "nat \<Rightarrow> mpc \<Rightarrow> mw_state \<Rightarrow> mw_state" where
  "goto i pc s = s\<lparr>threads := (threads s)[i := (fst (threads s ! i), pc)]\<rparr>"

definition set_inflight :: "string \<Rightarrow> int \<Rightarrow> mw_state \<Rightarrow> mw_state" where
  "set_inflight k n s = s\<lparr>inflight := (inflight s)(k \<mapsto> n)\<rparr>"

section \<open>The steps of a request\<close>

definition step_arrived :: "mw_config \<Rightarrow> nat \<Rightarrow> string \<Rightarrow> mw_state \<Rightarrow> mw_state" where
  "step_arrived c i key s =
    (if mDisabled c then goto i (Handling False) s
     else if mMaxInFlight c > 0 then
       goto i Looking (if inflight s key = None then set_inflight key 0 s else s)
     else goto i (Asking False) s)"

text \<open>The two halves of the loop of \<open>acquireInflight\<close>: load the counter, and compare and swap.\<close>

definition step_looking :: "mw_config \<Rightarrow> nat \<Rightarrow> string \<Rightarrow> mw_state \<Rightarrow> mw_state" where
  "step_looking c i key s =
    (let cur = inflight_get key s
     in if cur \<ge> mMaxInFlight c then
          (if mDryRun c then goto i (Asking False) s else goto i (Leaving False TooManyConcurrent) s)
        else goto i (Loaded cur) s)"

definition step_loaded :: "nat \<Rightarrow> string \<Rightarrow> int \<Rightarrow> mw_state \<Rightarrow> mw_state" where
  "step_loaded i key cur s =
    (if inflight_get key s = cur then goto i (Asking True) (set_inflight key (cur + 1) s)
     else goto i Looking s)"

definition step_asking ::
  "env \<Rightarrow> (nat \<Rightarrow> loss) \<Rightarrow> mw_config \<Rightarrow> nat \<Rightarrow> string \<Rightarrow> bool \<Rightarrow> mw_state \<Rightarrow> mw_state option" where
  "step_asking E lost c i key h s =
    (case mAddrs c of
       None \<Rightarrow> Some (goto i (Handling h) s)
     | Some addrs \<Rightarrow>
         (case client_Take E lost addrs key (mRate c) (mBurst c) (mCost c) (mworld s) of
            None \<Rightarrow> None
          | Some (Inl e, w) \<Rightarrow> Some (goto i (Handling h) (s\<lparr>mworld := w, fail_open := fail_open s + 1\<rparr>))
          | Some (Inr d, w) \<Rightarrow>
              Some (goto i
                (if d_allowed d then Handling h
                 else if mDryRun c then Handling h
                 else Leaving h (RateLimited (retry_sec (d_retry d)) d)) (s\<lparr>mworld := w\<rparr>))))"

definition step_leaving :: "nat \<Rightarrow> string \<Rightarrow> bool \<Rightarrow> verdict \<Rightarrow> mw_state \<Rightarrow> mw_state" where
  "step_leaving i key h v s =
    goto i (Done v) (if h then set_inflight key (inflight_get key s - 1) s else s)"

definition mw_exec :: "env \<Rightarrow> (nat \<Rightarrow> loss) \<Rightarrow> mw_config \<Rightarrow> nat \<Rightarrow> mw_state \<Rightarrow> mw_state option" where
  "mw_exec E lost c i s =
    (if i < length (threads s) then
       (let (r, pc) = threads s ! i; key = mw_key c r
        in case pc of
             Arrived \<Rightarrow> Some (step_arrived c i key s)
           | Looking \<Rightarrow> Some (step_looking c i key s)
           | Loaded cur \<Rightarrow> Some (step_loaded i key cur s)
           | Asking h \<Rightarrow> step_asking E lost c i key h s
           | Handling h \<Rightarrow> Some (goto i (Leaving h Served) s)
           | Leaving h v \<Rightarrow> Some (step_leaving i key h v s)
           | Done v \<Rightarrow> None)
     else None)"

text \<open>Requests arrive at any time, and any of them may take the next step.\<close>

inductive mw_step :: "env \<Rightarrow> (nat \<Rightarrow> loss) \<Rightarrow> mw_config \<Rightarrow> mw_state \<Rightarrow> mw_state \<Rightarrow> bool" for E lost c where
  mw_move: "mw_exec E lost c i s = Some s' \<Longrightarrow> mw_step E lost c s s'"
| mw_arrive: "mw_step E lost c s (s\<lparr>threads := threads s @ [(r, Arrived)]\<rparr>)"

definition mw_start :: "world \<Rightarrow> mw_state" where
  "mw_start w = \<lparr>inflight = (\<lambda>_. None), threads = [], fail_open = 0, mworld = w\<rparr>"

inductive mw_reach :: "env \<Rightarrow> (nat \<Rightarrow> loss) \<Rightarrow> mw_config \<Rightarrow> mw_state \<Rightarrow> bool" for E lost c where
  mw_reach_start: "world_inv E w \<Longrightarrow> mw_reach E lost c (mw_start w)"
| mw_reach_step: "mw_reach E lost c s \<Longrightarrow> mw_step E lost c s s' \<Longrightarrow> mw_reach E lost c s'"

inductive_cases mw_stepE: "mw_step E lost c s s'"

lemmas step_defs = step_arrived_def step_looking_def step_loaded_def step_asking_def step_leaving_def

end
