(* ===== verification/MiddlewareProps.thy ===== *)
theory MiddlewareProps
  imports Middleware
begin

text \<open>
  The in-flight counters count the requests that hold a slot, whatever the interleaving;
  no interleaving runs for ever; and what a verdict says about the answer of the cluster.
\<close>

section \<open>Sums over the threads\<close>

fun holds :: "mpc \<Rightarrow> bool" where
  "holds (Asking h) = h"
| "holds (Handling h) = h"
| "holds (Leaving h v) = h"
| "holds pc = False"

definition holder :: "mw_config \<Rightarrow> string \<Rightarrow> mthread \<Rightarrow> nat" where
  "holder c k t = (if mw_key c (fst t) = k \<and> holds (snd t) then 1 else 0)"

definition holders :: "mw_config \<Rightarrow> string \<Rightarrow> mw_state \<Rightarrow> nat" where
  "holders c k s = sum_list (map (holder c k) (threads s))"

lemma goto_simps [simp]: "inflight (goto i pc s) = inflight s" "fail_open (goto i pc s) = fail_open s"
  "mworld (goto i pc s) = mworld s" "length (threads (goto i pc s)) = length (threads s)"
  by (simp_all add: goto_def)

lemma set_inflight_simps [simp]: "threads (set_inflight k n s) = threads s" "mworld (set_inflight k n s) = mworld s"
  "fail_open (set_inflight k n s) = fail_open s" "inflight (set_inflight k n s) = (inflight s)(k \<mapsto> n)"
  by (simp_all add: set_inflight_def)

lemma inflight_get_simps [simp]:
  "inflight_get k (goto i pc s) = inflight_get k s"
  "inflight_get k (set_inflight k' n s) = (if k = k' then n else inflight_get k s)"
  "inflight_get k (s\<lparr>mworld := w\<rparr>) = inflight_get k s"
  "inflight_get k (s\<lparr>fail_open := n\<rparr>) = inflight_get k s"
  "inflight_get k (s\<lparr>threads := ts\<rparr>) = inflight_get k s"
  by (simp_all add: inflight_get_def)

lemma holders_goto:
  assumes "i < length (threads s)"
  shows "holders c k (goto i pc s) + holder c k (threads s ! i)
    = holders c k s + holder c k (fst (threads s ! i), pc)"
  using sum_list_swap [OF assms] by (simp add: holders_def goto_def)

lemma holders_cong: "threads s' = threads s \<Longrightarrow> holders c k s' = holders c k s"
  by (simp add: holders_def)

lemma holders_set_inflight [simp]: "holders c k (set_inflight k' n s) = holders c k s"
  by (rule holders_cong) simp

section \<open>The invariant\<close>

definition mw_inv :: "env \<Rightarrow> mw_config \<Rightarrow> mw_state \<Rightarrow> bool" where
  "mw_inv E c s \<longleftrightarrow> world_inv E (mworld s)
    \<and> (\<forall>k. inflight_get k s = int (holders c k s) \<and> inflight_get k s \<le> max 0 (mMaxInFlight c))
    \<and> (\<forall>t \<in> set (threads s). \<forall>cur. snd t = Loaded cur \<longrightarrow> cur < mMaxInFlight c)"

text \<open>One step of thread \<open>i\<close>, as a case distinction the proofs share.\<close>

lemma mw_exec_cases:
  assumes "mw_exec E lost c i s = Some s'"
  obtains (arrived) r where "i < length (threads s)" "threads s ! i = (r, Arrived)" "s' = step_arrived c i (mw_key c r) s"
  | (looking) r where "i < length (threads s)" "threads s ! i = (r, Looking)" "s' = step_looking c i (mw_key c r) s"
  | (loaded) r cur where "i < length (threads s)" "threads s ! i = (r, Loaded cur)" "s' = step_loaded i (mw_key c r) cur s"
  | (asking) r h pc w f where "i < length (threads s)" "threads s ! i = (r, Asking h)"
      "step_asking E lost c i (mw_key c r) h s = Some s'"
      "s' = goto i pc (s\<lparr>mworld := w, fail_open := f\<rparr>)" "pc = Handling h \<or> (\<exists>v. pc = Leaving h v)"
      "world_inv E (mworld s) \<Longrightarrow> world_inv E w"
  | (handling) r h where "i < length (threads s)" "threads s ! i = (r, Handling h)" "s' = goto i (Leaving h Served) s"
  | (leaving) r h v where "i < length (threads s)" "threads s ! i = (r, Leaving h v)" "s' = step_leaving i (mw_key c r) h v s"
proof -
  obtain r pc where t: "threads s ! i = (r, pc)" by force
  have i: "i < length (threads s)" using assms by (auto simp: mw_exec_def split: if_splits)
  show thesis
  proof (cases pc)
    case (Asking h)
    have st: "step_asking E lost c i (mw_key c r) h s = Some s'" using assms i t Asking by (simp add: mw_exec_def)
    show thesis
    proof (cases "mAddrs c")
      case None
      then have "s' = goto i (Handling h) (s\<lparr>mworld := mworld s, fail_open := fail_open s\<rparr>)"
        using st by (simp add: step_asking_def)
      then show thesis using asking [OF i _ st] t Asking by blast
    next
      case (Some addrs)
      then obtain x w where x: "client_Take E lost addrs (mw_key c r) (mRate c) (mBurst c) (mCost c) (mworld s) = Some (x, w)"
        using st by (auto simp: step_asking_def split: option.splits)
      have inv: "world_inv E (mworld s) \<Longrightarrow> world_inv E w"
        using client_Take_runs [of E "mworld s" lost addrs "mw_key c r" "mRate c" "mBurst c" "mCost c"] x by auto
      show thesis
      proof (cases x)
        case (Inl e)
        then show thesis using asking [OF i _ st _ _ inv, of "Handling h" "fail_open s + 1"] st Some x t Asking
          by (simp add: step_asking_def)
      next
        case (Inr d)
        then have "s' = goto i (if d_allowed d \<or> mDryRun c then Handling h else Leaving h (RateLimited (retry_sec (d_retry d)) d))
            (s\<lparr>mworld := w, fail_open := fail_open s\<rparr>)"
          using st Some x by (cases "d_allowed d"; cases "mDryRun c") (simp_all add: step_asking_def)
        from asking [OF i _ st this _ inv] show thesis using t Asking by auto
      qed
    qed
  qed (use assms i t arrived looking loaded handling leaving in \<open>auto simp: mw_exec_def\<close>)
qed

lemma loaded_goto:
  "t \<in> set (threads (goto i pc s)) \<Longrightarrow> t \<in> set (threads s) \<or> snd t = pc"
  by (auto simp: goto_def dest: set_update_subset_insert [THEN subsetD])

lemma mw_invD:
  assumes "mw_inv E c s"
  shows "world_inv E (mworld s)" "inflight_get k s = int (holders c k s)" "inflight_get k s \<le> max 0 (mMaxInFlight c)"
    "t \<in> set (threads s) \<Longrightarrow> snd t = Loaded cur \<Longrightarrow> cur < mMaxInFlight c"
  using assms unfolding mw_inv_def by blast+

lemma mw_invI:
  assumes "world_inv E (mworld s)" "\<And>k. inflight_get k s = int (holders c k s)"
    "\<And>k. inflight_get k s \<le> max 0 (mMaxInFlight c)"
    "\<And>t cur. t \<in> set (threads s) \<Longrightarrow> snd t = Loaded cur \<Longrightarrow> cur < mMaxInFlight c"
  shows "mw_inv E c s"
  using assms unfolding mw_inv_def by blast

lemma mw_inv_goto:
  assumes inv: "mw_inv E c s" and i: "i < length (threads s)" "threads s ! i = (r, old)"
    and s1: "threads s1 = threads s" "world_inv E (mworld s1)"
    and cnt: "\<And>k. inflight_get k s1 = inflight_get k s
      + (if k = mw_key c r then (if holds pc then 1 else 0) - (if holds old then 1 else 0) else 0)"
    and le: "\<And>k. inflight_get k s1 \<le> max 0 (mMaxInFlight c)"
    and ld: "\<And>cur. pc = Loaded cur \<Longrightarrow> cur < mMaxInFlight c"
  shows "mw_inv E c (goto i pc s1)"
proof -
  have i1: "i < length (threads s1)" "threads s1 ! i = (r, old)" using i s1(1) by simp_all
  have same: "holders c k s1 = holders c k s" for k using s1(1) by (rule holders_cong)
  have "inflight_get k (goto i pc s1) = int (holders c k (goto i pc s1))" for k
    using holders_goto [OF i1(1), of c k pc] cnt [of k] inv i1(2)
    by (auto simp: mw_inv_def holder_def same split: if_splits)
  moreover have "\<forall>t \<in> set (threads (goto i pc s1)). \<forall>cur. snd t = Loaded cur \<longrightarrow> cur < mMaxInFlight c"
    using loaded_goto [of _ i pc s1] inv ld s1(1) by (fastforce simp: mw_inv_def)
  ultimately show ?thesis using s1(2) le by (simp add: mw_inv_def)
qed

lemma mw_exec_inv:
  assumes "mw_inv E c s" "mw_exec E lost c i s = Some s'"
  shows "mw_inv E c s'"
proof -
  have w: "world_inv E (mworld s)" and cnt: "\<And>k. inflight_get k s = int (holders c k s)"
    and le: "\<And>k. inflight_get k s \<le> max 0 (mMaxInFlight c)"
    and ld: "\<And>t cur. t \<in> set (threads s) \<Longrightarrow> snd t = Loaded cur \<Longrightarrow> cur < mMaxInFlight c"
    using assms(1) unfolding mw_inv_def by blast+
  note go = mw_inv_goto [OF assms(1)]
  from assms(2) show ?thesis
  proof (cases rule: mw_exec_cases)
    case (arrived r)
    have "inflight_get k (set_inflight (mw_key c r) 0 s) = inflight_get k s" if "inflight s (mw_key c r) = None" for k
      using that by (auto simp: inflight_get_def)
    then show ?thesis
      unfolding arrived(3) step_arrived_def using w le by (auto intro!: go [OF arrived(1,2)])
  next
    case (looking r)
    then show ?thesis
      unfolding looking(3) step_looking_def Let_def using w le by (auto intro!: go [OF looking(1,2)])
  next
    case (loaded r cur)
    have "cur < mMaxInFlight c" using ld [OF nth_mem [OF loaded(1)]] loaded(2) by simp
    then show ?thesis
      unfolding loaded(3) step_loaded_def using w le by (auto intro!: go [OF loaded(1,2)])
  next
    case (asking r h pc w' f)
    then show ?thesis using w le by (auto intro!: go [OF asking(1,2)])
  next
    case (handling r h)
    then show ?thesis using w le by (auto intro!: go [OF handling(1,2)])
  next
    case (leaving r h v)
    have "inflight_get (mw_key c r) s - 1 \<le> max 0 (mMaxInFlight c)" using le [of "mw_key c r"] by simp
    then show ?thesis
      unfolding leaving(3) step_leaving_def using w le by (auto intro!: go [OF leaving(1,2)])
  qed
qed

lemma mw_inv_arrive:
  assumes "mw_inv E c s"
  shows "mw_inv E c (s\<lparr>threads := threads s @ [(r, Arrived)]\<rparr>)" (is "mw_inv E c ?s")
proof (rule mw_invI)
  have "holders c k ?s = holders c k s" for k by (simp add: holders_def holder_def)
  then show "inflight_get k ?s = int (holders c k ?s)" for k using mw_invD(2) [OF assms] by simp
  show "inflight_get k ?s \<le> max 0 (mMaxInFlight c)" for k using mw_invD(3) [OF assms, of k] by simp
  show "t \<in> set (threads ?s) \<Longrightarrow> snd t = Loaded cur \<Longrightarrow> cur < mMaxInFlight c" for t cur
    using mw_invD(4) [OF assms, of t cur] by auto
qed (simp add: mw_invD(1) [OF assms])

lemma mw_step_inv: "mw_inv E c s \<Longrightarrow> mw_step E lost c s s' \<Longrightarrow> mw_inv E c s'"
  by (erule mw_stepE) (auto intro: mw_exec_inv mw_inv_arrive)

lemma mw_start_inv: "world_inv E w \<Longrightarrow> mw_inv E c (mw_start w)"
  by (rule mw_invI) (simp_all add: mw_start_def holders_def inflight_get_def)

lemma mw_reach_inv: "mw_reach E lost c s \<Longrightarrow> mw_inv E c s"
  by (induction rule: mw_reach.induct) (rule mw_start_inv, assumption, rule mw_step_inv)

section \<open>Termination\<close>

text \<open>
  What a request has left to do, and how far it is in the compare-and-swap loop: a loaded
  value that is no longer the counter's sends the request back.
\<close>

fun left :: "mpc \<Rightarrow> nat" where
  "left Arrived = 5"
| "left Looking = 4"
| "left (Loaded cur) = 4"
| "left (Asking h) = 3"
| "left (Handling h) = 2"
| "left (Leaving h v) = 1"
| "left (Done v) = 0"

definition spin :: "mw_config \<Rightarrow> mw_state \<Rightarrow> mthread \<Rightarrow> nat" where
  "spin c s t = (case snd t of Looking \<Rightarrow> 1
    | Loaded cur \<Rightarrow> if inflight_get (mw_key c (fst t)) s = cur then 0 else 2 | _ \<Rightarrow> 0)"

definition work :: "mw_state \<Rightarrow> nat" where
  "work s = sum_list (map (left \<circ> snd) (threads s))"

definition spins :: "mw_config \<Rightarrow> mw_state \<Rightarrow> nat" where
  "spins c s = sum_list (map (spin c s) (threads s))"

lemma work_goto:
  "i < length (threads s) \<Longrightarrow> work (goto i pc s) + left (snd (threads s ! i)) = work s + left pc"
  using sum_list_swap [of i "threads s" "left \<circ> snd"] by (simp add: work_def goto_def)

lemma work_cong: "threads s' = threads s \<Longrightarrow> work s' = work s"
  by (simp add: work_def)

lemma spins_goto:
  assumes "i < length (threads s)"
  shows "spins c (goto i pc s) + spin c s (threads s ! i) = spins c s + spin c s (fst (threads s ! i), pc)"
proof -
  have "spin c (goto i pc s) = spin c s" by (rule ext) (simp add: spin_def split: mpc.splits)
  then show ?thesis using sum_list_swap [OF assms, of "spin c s"] by (simp add: spins_def goto_def)
qed

definition mw_rank :: "mw_config \<Rightarrow> (mw_state \<times> mw_state) set" where
  "mw_rank c = measures [work, spins c]"

lemma goto_work_less:
  "i < length (threads s) \<Longrightarrow> threads s1 = threads s \<Longrightarrow> left pc < left (snd (threads s ! i))
    \<Longrightarrow> (goto i pc s1, s) \<in> mw_rank c"
  using work_goto [of i s1 pc] work_cong [of s1 s] by (simp add: mw_rank_def)

lemma goto_spin_less:
  "i < length (threads s) \<Longrightarrow> left pc = left (snd (threads s ! i))
    \<Longrightarrow> spin c s (fst (threads s ! i), pc) < spin c s (threads s ! i) \<Longrightarrow> (goto i pc s, s) \<in> mw_rank c"
  using work_goto [of i s pc] spins_goto [of i s c pc] by (simp add: mw_rank_def)

lemma mw_exec_rank:
  assumes "mw_exec E lost c i s = Some s'"
  shows "(s', s) \<in> mw_rank c"
  using assms
proof (cases rule: mw_exec_cases)
  case (arrived r)
  then show ?thesis by (auto simp: step_arrived_def intro: goto_work_less)
next
  case (looking r)
  have spin: "(goto i (Loaded (inflight_get (mw_key c r) s)) s, s) \<in> mw_rank c"
    using looking(1,2) by (intro goto_spin_less) (simp_all add: spin_def)
  then show ?thesis using looking by (auto simp: step_looking_def Let_def intro: goto_work_less)
next
  case (loaded r cur)
  have "(goto i Looking s, s) \<in> mw_rank c" if "inflight_get (mw_key c r) s \<noteq> cur"
    using loaded(1,2) that by (intro goto_spin_less) (simp_all add: spin_def)
  then show ?thesis using loaded by (auto simp: step_loaded_def intro: goto_work_less)
next
  case (asking r h pc w f)
  then show ?thesis by (auto intro: goto_work_less)
next
  case (handling r h)
  then show ?thesis by (auto intro: goto_work_less)
next
  case (leaving r h v)
  then show ?thesis by (auto simp: step_leaving_def intro: goto_work_less)
qed

lemma wf_mw_rank: "wf (mw_rank c)"
  by (simp add: mw_rank_def)

text \<open>While a request is not done, it can take a step.\<close>

lemma mw_exec_progress:
  assumes "world_inv E (mworld s)" "i < length (threads s)" "\<forall>v. snd (threads s ! i) \<noteq> Done v"
  shows "\<exists>s'. mw_exec E lost c i s = Some s'"
proof -
  obtain r pc where t: "threads s ! i = (r, pc)" by force
  show ?thesis
  proof (cases pc)
    case (Asking h)
    have "\<exists>s'. step_asking E lost c i (mw_key c r) h s = Some s'"
    proof (cases "mAddrs c")
      case (Some addrs)
      obtain x w where "client_Take E lost addrs (mw_key c r) (mRate c) (mBurst c) (mCost c) (mworld s) = Some (x, w)"
        using client_Take_runs [OF assms(1)] by blast
      with Some show ?thesis by (cases x) (simp_all add: step_asking_def)
    qed (simp add: step_asking_def)
    then show ?thesis using assms(2) t Asking by (simp add: mw_exec_def)
  qed (use assms(2,3) t in \<open>auto simp: mw_exec_def\<close>)
qed

section \<open>Who is refused\<close>

text \<open>
  Where a request can be when the instance is lenient: not refused, and past the limiter
  altogether when it is disabled.
\<close>

fun lenient_pc :: "bool \<Rightarrow> mpc \<Rightarrow> bool" where
  "lenient_pc dis Arrived = True"
| "lenient_pc dis Looking = (\<not> dis)"
| "lenient_pc dis (Loaded cur) = (\<not> dis)"
| "lenient_pc dis (Asking h) = (\<not> dis)"
| "lenient_pc dis (Handling h) = True"
| "lenient_pc dis (Leaving h v) = (v = Served)"
| "lenient_pc dis (Done v) = (v = Served)"

definition lenient :: "mw_config \<Rightarrow> mw_state \<Rightarrow> bool" where
  "lenient c s \<longleftrightarrow> (\<forall>t \<in> set (threads s). lenient_pc (mDisabled c) (snd t))"

lemma lenient_goto:
  assumes "lenient c s" "threads s1 = threads s" "lenient_pc (mDisabled c) pc"
  shows "lenient c (goto i pc s1)"
  using assms loaded_goto [of _ i pc s1] unfolding lenient_def by metis

lemma mw_exec_lenient:
  assumes "lenient c s" "mDisabled c \<or> mDryRun c" "mw_exec E lost c i s = Some s'"
  shows "lenient c s'"
proof -
  have t: "i < length (threads s) \<Longrightarrow> lenient_pc (mDisabled c) (snd (threads s ! i))"
    using assms(1) nth_mem unfolding lenient_def by blast
  note go = lenient_goto [OF assms(1)]
  from assms(3) show ?thesis
  proof (cases rule: mw_exec_cases)
    case (arrived r)
    then show ?thesis by (auto simp: step_arrived_def intro!: go)
  next
    case (looking r)
    then show ?thesis using t assms(2) by (auto simp: step_looking_def Let_def intro!: go)
  next
    case (loaded r cur)
    then show ?thesis using t by (auto simp: step_loaded_def intro!: go)
  next
    case (asking r h pc w f)
    then have "mDryRun c" using t assms(2) by auto
    then show ?thesis
      using asking(3) by (auto simp: step_asking_def split: option.splits sum.splits if_splits intro!: go)
  next
    case (handling r h)
    then show ?thesis by (auto intro!: go)
  next
    case (leaving r h v)
    then show ?thesis using t by (auto simp: step_leaving_def intro!: go)
  qed
qed

lemma never_refused:
  assumes "mw_reach E lost c s" "mDisabled c \<or> mDryRun c" "t \<in> set (threads s)" "snd t = Done v"
  shows "v = Served"
proof -
  have "lenient c s" using assms(1)
  proof (induction rule: mw_reach.induct)
    case (mw_reach_step s s')
    from mw_reach_step(2) show ?case
    proof (cases rule: mw_step.cases)
      case (mw_move i)
      then show ?thesis using mw_exec_lenient [OF mw_reach_step(3) assms(2)] by blast
    next
      case (mw_arrive r)
      then show ?thesis using mw_reach_step(3) by (auto simp: lenient_def)
    qed
  qed (simp add: lenient_def mw_start_def)
  then show ?thesis using assms(3,4) unfolding lenient_def by fastforce
qed

section \<open>The Retry-After header\<close>

lemma retry_sec_exact:
  assumes "1 \<le> ms" "ms \<le> 2 ^ 52"
  shows "retry_sec ms = \<lceil>of_int ms / (1000 :: rat)\<rceil>"
proof -
  define x where "x = (of_int ms / 1000 :: rat)"
  define k where "k = \<lceil>x\<rceil>"
  have x: "0 < x" "x \<le> 2 ^ 52 / 1000" using assms by (simp_all add: x_def)
  have k: "of_int k - 1 < x" "x \<le> of_int k" unfolding k_def by linarith+
  have ms: "fl64 (of_int ms) = of_int ms" using assms by (intro fl64_of_int) simp_all
  have k0: "1 \<le> k" using x(1) k(2) by (simp add: k_def)
  have "of_int k < (2 ^ 53 :: rat)" using k(1) x(2) by simp
  then have "of_int k < (of_int (2 ^ 53) :: rat)" by simp
  then have "k \<le> 2 ^ 53" by (simp only: of_int_less_iff)
  then have up: "fl64 x \<le> of_int k" using fl64_mono [OF k(2)] fl64_of_int [of k] k0 by simp
  have "of_int (1000 * (k - 1)) < (of_int ms :: rat)" using k(1) by (simp add: x_def)
  then have "1000 * (k - 1) + 1 \<le> ms" by linarith
  then have "of_int (1000 * (k - 1) + 1) \<le> (of_int ms :: rat)" by (simp only: of_int_le_iff)
  then have gap: "of_int (k - 1) + 1 / 1000 \<le> x" by (simp add: x_def field_simps)
  have "(2 powi (- 1022) :: rat) \<le> 2 powi (- 10)" by (rule power_int_increasing) simp_all
  also have "\<dots> \<le> 1 / 1000" by (simp add: power_int_minus)
  also have "\<dots> \<le> x" using assms(1) by (simp add: x_def)
  finally have "\<bar>fl64 x - x\<bar> \<le> x * eps64" by (rule fl64_error_ge)
  moreover have "x * eps64 \<le> 2 ^ 52 / 1000 * eps64" using x(2) by (intro mult_right_mono) (simp_all add: less_imp_le)
  moreover have "2 ^ 52 / 1000 * eps64 < 1 / 1000" by (simp add: eps64_def power_int_minus)
  ultimately have "of_int (k - 1) < fl64 x" using gap by linarith
  with up have "\<lceil>fl64 x\<rceil> = k" by (simp add: ceiling_eq_iff)
  then show ?thesis using k0 ms by (simp add: retry_sec_def x_def [symmetric] k_def [symmetric])
qed

end
