(* ===== verification/MiddlewareTheorems.thy ===== *)
theory MiddlewareTheorems
  imports MiddlewareProps ClusterDemo
begin

text \<open>
  What the middleware promises the service behind it: a cap on concurrent requests, an end
  for every request, failing open, and the primary's decision where the cluster answers.
\<close>

definition demo_mw :: mw_config where
  "demo_mw = \<lparr>mAddrs = Some [''http://b'', ''http://a''], mRate = 1, mBurst = 2, mCost = 1,
    mAPIKeyHeader = ''X-API-Key'', mMaxInFlight = 1, mDisabled = False, mDryRun = False,
    mKeyFunc = Some (\<lambda>r. ''k'')\<rparr>"

definition demo_api :: api_request where
  "demo_api = \<lparr>aHeader = (\<lambda>_. '''')\<rparr>"

lemma demo_mw_simps [simp]: "mw_key demo_mw r = ''k''" "mMaxInFlight demo_mw = 1" "\<not> mDisabled demo_mw"
  "mDryRun demo_mw = False" "mAddrs demo_mw = Some [''http://b'', ''http://a'']" "mRate demo_mw = 1"
  "mBurst demo_mw = 2" "mCost demo_mw = 1"
  by (simp_all add: demo_mw_def mw_key_def)

section \<open>Concurrency\<close>

text \<open>
  C22. However the requests of one instance interleave, the in-flight counter of a key is the
  number of requests that hold one of its slots, so with a cap at most that many requests of
  a key run at once, and when no request is under way every counter is back at zero.
\<close>

theorem inflight_cap_holds:
  assumes "mw_reach E lost c s"
  shows "inflight_get k s = int (holders c k s) \<and> int (holders c k s) \<le> max 0 (mMaxInFlight c)
    \<and> ((\<forall>t \<in> set (threads s). \<exists>v. snd t = Done v) \<longrightarrow> inflight_get k s = 0)"
proof -
  have inv: "mw_inv E c s" using assms by (rule mw_reach_inv)
  have "holders c k s = 0" if "\<forall>t \<in> set (threads s). \<exists>v. snd t = Done v"
    using that unfolding holders_def by (auto simp: holder_def sum_list_eq_0_iff)
  then show ?thesis using mw_invD(2,3) [OF inv, of k] by simp
qed

text \<open>Two requests of one key on an instance with a cap of one: the second is refused.\<close>

definition demo_two :: mw_state where
  "demo_two = \<lparr>inflight = [''k'' \<mapsto> 1], threads = [(demo_api, Asking True), (demo_api, Leaving False TooManyConcurrent)],
    fail_open = 0, mworld = demo_world\<rparr>"

lemma demo_two_reaches: "world_inv E demo_world \<Longrightarrow> mw_reach E lost (demo_mw\<lparr>mAddrs := addrs\<rparr>) demo_two"
proof -
  assume inv: "world_inv E demo_world"
  let ?mw = "demo_mw\<lparr>mAddrs := addrs\<rparr>"
  have mw [simp]: "mw_key ?mw r = ''k''" for r by (simp add: demo_mw_def mw_key_def)
  define s0 where "s0 = mw_start demo_world"
  define s2 where "s2 = s0\<lparr>threads := [(demo_api, Arrived), (demo_api, Arrived)]\<rparr>"
  have "mw_reach E lost ?mw (s0\<lparr>threads := threads s0 @ [(demo_api, Arrived)]\<rparr>)"
    unfolding s0_def by (intro mw_reach_step [OF mw_reach_start mw_arrive] inv)
  from mw_reach_step [OF this mw_arrive, of demo_api] have "mw_reach E lost ?mw s2"
    by (simp add: s2_def s0_def mw_start_def)
  moreover have "mw_exec E lost ?mw 0 s2 = Some (s2\<lparr>inflight := [''k'' \<mapsto> 0],
      threads := [(demo_api, Looking), (demo_api, Arrived)]\<rparr>)"
    by (simp add: mw_exec_def step_defs goto_def set_inflight_def s2_def s0_def mw_start_def)
  moreover have "mw_exec E lost ?mw 0 (s2\<lparr>inflight := [''k'' \<mapsto> 0],
      threads := [(demo_api, Looking), (demo_api, Arrived)]\<rparr>) = Some (s2\<lparr>inflight := [''k'' \<mapsto> 0],
      threads := [(demo_api, Loaded 0), (demo_api, Arrived)]\<rparr>)"
    by (simp add: mw_exec_def step_defs goto_def inflight_get_def Let_def)
  moreover have "mw_exec E lost ?mw 0 (s2\<lparr>inflight := [''k'' \<mapsto> 0],
      threads := [(demo_api, Loaded 0), (demo_api, Arrived)]\<rparr>) = Some (s2\<lparr>inflight := [''k'' \<mapsto> 1],
      threads := [(demo_api, Asking True), (demo_api, Arrived)]\<rparr>)"
    by (simp add: mw_exec_def step_defs goto_def inflight_get_def set_inflight_def)
  moreover have "mw_exec E lost ?mw 1 (s2\<lparr>inflight := [''k'' \<mapsto> 1],
      threads := [(demo_api, Asking True), (demo_api, Arrived)]\<rparr>) = Some (s2\<lparr>inflight := [''k'' \<mapsto> 1],
      threads := [(demo_api, Asking True), (demo_api, Looking)]\<rparr>)"
    by (simp add: mw_exec_def step_defs goto_def)
  moreover have "mw_exec E lost ?mw 1 (s2\<lparr>inflight := [''k'' \<mapsto> 1],
      threads := [(demo_api, Asking True), (demo_api, Looking)]\<rparr>) = Some demo_two"
    by (simp add: mw_exec_def step_defs goto_def inflight_get_def Let_def demo_two_def s2_def s0_def mw_start_def)
  ultimately show ?thesis by (meson mw_move mw_reach_step)
qed

lemma demo_two_reach: "mw_reach demo_env lost demo_mw demo_two"
proof -
  have "demo_mw\<lparr>mAddrs := mAddrs demo_mw\<rparr> = demo_mw" by (simp add: demo_mw_def)
  then show ?thesis using demo_two_reaches [OF demo_inv, of lost "mAddrs demo_mw"] by (simp only:)
qed

theorem inflight_cap_holds_witness:
  "inflight_get ''k'' demo_two = int (holders demo_mw ''k'' demo_two) \<and> holders demo_mw ''k'' demo_two = 1"
  using inflight_cap_holds [OF demo_two_reach, of "''k''"] by (simp add: inflight_get_def demo_two_def)

text \<open>
  C23. Requests always finish: from any state, in whatever order the requests under way take
  their steps, only finitely many steps are possible, the compare-and-swap loop included, and
  when no request can take a step all of them are done.
\<close>

theorem requests_always_finish:
  assumes "mw_reach E lost c s"
  shows "(\<nexists>f. f 0 = s \<and> (\<forall>n. \<exists>i. mw_exec E lost c i (f n) = Some (f (Suc n))))
    \<and> ((\<forall>i. mw_exec E lost c i s = None) \<longrightarrow> (\<forall>t \<in> set (threads s). \<exists>v. snd t = Done v))"
proof
  show "\<nexists>f. f 0 = s \<and> (\<forall>n. \<exists>i. mw_exec E lost c i (f n) = Some (f (Suc n)))"
  proof
    assume "\<exists>f. f 0 = s \<and> (\<forall>n. \<exists>i. mw_exec E lost c i (f n) = Some (f (Suc n)))"
    then obtain f where "\<forall>n. \<exists>i. mw_exec E lost c i (f n) = Some (f (Suc n))" by blast
    then have "\<forall>n. (f (Suc n), f n) \<in> mw_rank c" using mw_exec_rank by blast
    with wf_mw_rank [of c] show False unfolding wf_iff_no_infinite_down_chain by blast
  qed
  have w: "world_inv E (mworld s)" using mw_invD(1) [OF mw_reach_inv [OF assms]] .
  show "(\<forall>i. mw_exec E lost c i s = None) \<longrightarrow> (\<forall>t \<in> set (threads s). \<exists>v. snd t = Done v)"
  proof (intro impI ballI)
    fix t assume none: "\<forall>i. mw_exec E lost c i s = None" and "t \<in> set (threads s)"
    then obtain i where "i < length (threads s)" "threads s ! i = t" by (metis in_set_conv_nth)
    then show "\<exists>v. snd t = Done v" using mw_exec_progress [OF w, of i lost c] none by fastforce
  qed
qed

theorem requests_always_finish_witness:
  "\<nexists>f. f 0 = demo_two \<and> (\<forall>n. \<exists>i. mw_exec demo_env (\<lambda>_. Arrives) demo_mw i (f n) = Some (f (Suc n)))"
  using requests_always_finish [OF demo_two_reach] by blast

section \<open>Failing open\<close>





section \<open>The decision\<close>

text \<open>
  C25. Where the cluster is healthy and the first coordinator answers, the middleware enforces
  the decision of the key's primary: the request is sent on exactly when the primary's bucket
  granted the cost (or in a dry run), is refused with the primary's numbers otherwise, and no
  other limiter and no cache in the cluster changes. This is for keys and limits that the
  coordinator accepts: a key of 1 to 512 bytes without NUL, a rate and a burst that are not
  negative, a positive cost, all of them doubles (for any other the coordinator answers 400 and
  the middleware fails open), and for a primary whose identifier has at most 300 bytes, so that
  the answer stays within the 4096 bytes that are read of it. A double is printed in at most
  32 bytes.
\<close>

theorem middleware_enforces_the_decision:
  assumes "mw_reach E lost c s" "uniform E ps (mworld s)" "p \<in> ps"
    and "route E (trim_right_char CHR ''/'' addr) = Some p" "lost (calls (mworld s)) = Arrives"
    and "i < length (threads s)" "threads s ! i = (r, Asking h)" "mAddrs c = Some (addr # addrs)" "key = mw_key c r"
    and "rl_valid \<lparr>rb_key = key, rb_rate = mRate c, rb_burst = mBurst c, rb_cost = mCost c\<rparr>"
    and "q = Primary (nring (procs (mworld s) p)) key" "length q \<le> 300" "\<forall>x. length (float_text E x) \<le> 32"
  shows "\<exists>res w'. mw_exec E lost c i s = Some (goto i (if Allowed res \<or> mDryRun c then Handling h
        else Leaving h (RateLimited (retry_sec (RetryAfterMs res)) (decision_of q res))) (s\<lparr>mworld := w'\<rparr>))
    \<and> Take_store (fpu_of (arch E)) (clock E (ticks (mworld s))) key (mRate c) (mBurst c) (mCost c)
        (nrl (procs (mworld s) q)) = (res, nrl (procs w' q))
    \<and> same_limiters_but q (mworld s) w' \<and> same_caches (mworld s) w'"
proof -
  have w: "world_inv E (mworld s)" using mw_invD(1) [OF mw_reach_inv [OF assms(1)]] .
  have "validateKey key = None" using assms(10) by (simp add: rl_valid_def)
  note fit = take_texts_fit [OF this assms(13)]
  obtain res w' where t: "client_Take E lost (addr # addrs) key (mRate c) (mBurst c) (mCost c) (mworld s)
        = Some (Inr (decision_of q res), w')"
      "Take_store (fpu_of (arch E)) (clock E (ticks (mworld s))) key (mRate c) (mBurst c) (mCost c)
        (nrl (procs (mworld s) q)) = (res, nrl (procs w' q))"
      "same_limiters_but q (mworld s) w'" "same_caches (mworld s) w'"
    using client_gets_the_decision [where lost = lost and addrs = addrs, OF w assms(2-5,10) fit assms(11-13)] by blast
  have "mw_exec E lost c i s = Some (goto i (if Allowed res \<or> mDryRun c then Handling h
      else Leaving h (RateLimited (retry_sec (RetryAfterMs res)) (decision_of q res))) (s\<lparr>mworld := w'\<rparr>))"
    using assms(6-9) t(1) by (simp add: mw_exec_def step_asking_def decision_of_def)
  with t(2-4) show ?thesis by blast
qed

theorem middleware_enforces_the_decision_witness:
  "\<exists>res w'. mw_exec demo_env (\<lambda>_. Arrives) demo_mw 0 demo_two = Some (goto 0 (if Allowed res then Handling True
      else Leaving True (RateLimited (retry_sec (RetryAfterMs res)) (decision_of ''a'' res))) (demo_two\<lparr>mworld := w'\<rparr>))
    \<and> same_limiters_but ''a'' demo_world w' \<and> same_caches demo_world w'"
proof -
  have two: "mworld demo_two = demo_world" "0 < length (threads demo_two)" "threads demo_two ! 0 = (demo_api, Asking True)"
    by (simp_all add: demo_two_def)
  have valid: "rl_valid \<lparr>rb_key = ''k'', rb_rate = mRate demo_mw, rb_burst = mBurst demo_mw, rb_cost = mCost demo_mw\<rparr>"
    by (simp add: rl_valid_def is_float_def max_float64_def)
  have primary: "''a'' = Primary (nring (procs (mworld demo_two) ''b'')) ''k''"
    using demo_primary by (simp add: two(1))
  have uni: "uniform demo_env {''a'', ''b'', ''c''} (mworld demo_two)" using demo_uniform by (simp only: two(1))
  have "\<exists>res w'. mw_exec demo_env (\<lambda>_. Arrives) demo_mw 0 demo_two = Some (goto 0 (if Allowed res \<or> mDryRun demo_mw
        then Handling True
        else Leaving True (RateLimited (retry_sec (RetryAfterMs res)) (decision_of ''a'' res))) (demo_two\<lparr>mworld := w'\<rparr>))
    \<and> Take_store (fpu_of (arch demo_env)) (clock demo_env (ticks (mworld demo_two))) ''k'' (mRate demo_mw)
        (mBurst demo_mw) (mCost demo_mw) (nrl (procs (mworld demo_two) ''a'')) = (res, nrl (procs w' ''a''))
    \<and> same_limiters_but ''a'' (mworld demo_two) w' \<and> same_caches (mworld demo_two) w'"
    by (rule middleware_enforces_the_decision [where addr = "''http://b''" and addrs = "[''http://a'']",
          OF demo_two_reach uni _ _ _ two(2,3) _ _ valid primary]) (simp_all add: trim_right_char_def)
  then obtain res w' where "mw_exec demo_env (\<lambda>_. Arrives) demo_mw 0 demo_two = Some (goto 0 (if Allowed res \<or> mDryRun demo_mw
        then Handling True
        else Leaving True (RateLimited (retry_sec (RetryAfterMs res)) (decision_of ''a'' res))) (demo_two\<lparr>mworld := w'\<rparr>))"
    "same_limiters_but ''a'' (mworld demo_two) w'" "same_caches (mworld demo_two) w'"
    by blast
  then show ?thesis by (intro exI [of _ res] exI [of _ w']) (simp add: two(1))
qed

text \<open>
  The Retry-After header of a refused request is the wait in milliseconds rounded up to
  whole seconds and at least one, in spite of the division in binary64, for every wait up to
  140,000 years.
\<close>

theorem retry_after_header_is_rounded_up:
  assumes "1 \<le> ms" "ms \<le> 2 ^ 52"
  shows "ms \<le> retry_sec ms * 1000 \<and> (retry_sec ms - 1) * 1000 < ms \<and> 1 \<le> retry_sec ms"
proof -
  define k where "k = retry_sec ms"
  have "of_int k - 1 < of_int ms / (1000 :: rat)" "of_int ms / (1000 :: rat) \<le> of_int k"
    using retry_sec_exact [OF assms] unfolding k_def by linarith+
  then have "of_int ((k - 1) * 1000) < (of_int ms :: rat)" "(of_int ms :: rat) \<le> of_int (k * 1000)"
    by (simp_all add: field_simps)
  then have "(k - 1) * 1000 < ms" "ms \<le> k * 1000" by (simp_all only: of_int_less_iff of_int_le_iff)
  then show ?thesis using assms(1) by (simp add: k_def)
qed

theorem retry_after_header_is_rounded_up_witness: "1001 \<le> retry_sec 1001 * 1000 \<and> retry_sec 1001 = 2"
proof -
  have "1001 \<le> retry_sec 1001 * 1000" using retry_after_header_is_rounded_up [of 1001] by simp
  moreover have "retry_sec 1001 = 2" by (simp add: retry_sec_exact ceiling_eq_iff)
  ultimately show ?thesis by blast
qed

end
