(* ===== verification/ServerConfig.thy ===== *)
theory ServerConfig
  imports Node
begin

text \<open>
  \<open>cmd/ringcache/main.go\<close>: the configuration a server starts with, from the command line, the
  environment and the defaults, the health check, and what \<open>main\<close> does with them. The
  environment is a function (the empty text when a variable is unset), the command line the
  values \<open>flag.Parse\<close> read from it, and \<open>http_get\<close> the answer to a GET: an error or a status.
\<close>

section \<open>strconv.Atoi\<close>

definition is_digit :: "char \<Rightarrow> bool" where
  "is_digit c \<longleftrightarrow> 48 \<le> (of_char c :: nat) \<and> (of_char c :: nat) \<le> 57"

definition atoi :: "string \<Rightarrow> int option" where
  "atoi s =
    (let neg = (s \<noteq> [] \<and> hd s = CHR ''-'');
         ds = (if s \<noteq> [] \<and> (hd s = CHR ''-'' \<or> hd s = CHR ''+'') then tl s else s);
         n = (if neg then - int (parse_digits ds) else int (parse_digits ds))
     in if ds \<noteq> [] \<and> list_all is_digit ds \<and> in_int64 n then Some n else None)"

section \<open>Environment and flags\<close>

definition env_or :: "(string \<Rightarrow> string) \<Rightarrow> string \<Rightarrow> string \<Rightarrow> string" where
  "env_or getenv key def = (if getenv key \<noteq> '''' then getenv key else def)"

definition envInt :: "(string \<Rightarrow> string) \<Rightarrow> string \<Rightarrow> int \<Rightarrow> int" where
  "envInt getenv key def =
    (if getenv key \<noteq> '''' then (case atoi (getenv key) of Some n \<Rightarrow> n | None \<Rightarrow> def) else def)"

record flags =
  fId :: "string option"
  fListen :: "string option"
  fPeers :: "string option"
  fReplicas :: "int option"
  fCapacity :: "int option"
  fVNodes :: "int option"
  fTimeout :: "int option"
  fHealthcheck :: bool

definition flag_value :: "'a option \<Rightarrow> 'a \<Rightarrow> 'a" where
  "flag_value given def = (case given of None \<Rightarrow> def | Some v \<Rightarrow> v)"

section \<open>The peer list\<close>

datatype start_error = BadPeer string | BadNode string

definition parse_part :: "string \<Rightarrow> (string \<times> string) option" where
  "parse_part part =
    (case cut_at CHR ''='' part of
       (pid, url, ok) \<Rightarrow>
         if \<not> ok \<or> trim_space pid = '''' \<or> trim_space url = '''' then None
         else Some (trim_space pid, trim_space url))"

fun peers_loop :: "string list \<Rightarrow> (string, string) gomap \<Rightarrow> start_error + (string, string) gomap" where
  "peers_loop [] out = Inr out"
| "peers_loop (p # ps) out =
    (let part = trim_space p
     in if part = '''' then peers_loop ps out
        else
          (case parse_part part of
             None \<Rightarrow> Inl (BadPeer part)
           | Some (pid, url) \<Rightarrow> peers_loop ps (gm_put pid url out)))"

definition parsePeers :: "string \<Rightarrow> start_error + (string, string) gomap" where
  "parsePeers s0 =
    (let s = trim_space s0
     in if s = '''' then Inr gm_empty else peers_loop (split_on CHR '','' s) gm_empty)"

section \<open>The listen address\<close>

definition colon_suffix :: "string \<Rightarrow> string option" where
  "colon_suffix listen = map_option (\<lambda>i. drop i listen) (last_index CHR '':'' listen)"

definition normalizeListen :: "string \<Rightarrow> string" where
  "normalizeListen listen =
    (if has_prefix listen '':'' then listen
     else (case colon_suffix listen of Some port \<Rightarrow> port | None \<Rightarrow> '':8080''))"

definition health_url :: "string \<Rightarrow> string" where
  "health_url listen =
    (let port0 = (case colon_suffix listen of Some p \<Rightarrow> p | None \<Rightarrow> listen);
         port = (if \<not> has_prefix port0 '':'' then '':8080'' else port0)
     in ''http://127.0.0.1'' @ port @ ''/health'')"

definition runHealthcheck :: "(string \<Rightarrow> string + int) \<Rightarrow> string \<Rightarrow> string option" where
  "runHealthcheck http_get listen =
    (case http_get (health_url listen) of
       Inl e \<Rightarrow> Some e
     | Inr status \<Rightarrow> if status \<noteq> 200 then Some ''status'' else None)"

section \<open>The configuration\<close>

definition parseConfig :: "(string \<Rightarrow> string) \<Rightarrow> flags \<Rightarrow> start_error + config" where
  "parseConfig getenv f =
    (let nid = flag_value (fId f) (env_or getenv ''RINGCACHE_ID'' ''node-a'');
         listen = flag_value (fListen f) (env_or getenv ''RINGCACHE_LISTEN'' '':8080'');
         peers = flag_value (fPeers f) (env_or getenv ''RINGCACHE_PEERS'' '''');
         replicas = flag_value (fReplicas f) (envInt getenv ''RINGCACHE_REPLICAS'' 2);
         capacity = flag_value (fCapacity f) (envInt getenv ''RINGCACHE_CAPACITY'' 10000);
         vnodes = flag_value (fVNodes f) (envInt getenv ''RINGCACHE_VNODES'' 150);
         timeout = flag_value (fTimeout f) (envInt getenv ''RINGCACHE_REPLICA_TIMEOUT_MS'' 200)
     in case parsePeers peers of
          Inl e \<Rightarrow> Inl e
        | Inr m \<Rightarrow>
            (let peerMap = (if gm_len m = 0
                            then gm_put nid (''http://127.0.0.1'' @ normalizeListen listen) gm_empty else m)
             in Inr \<lparr>cID = nid, cListen = listen, cPeers = peerMap, cReplicas = replicas,
                     cCapacity = capacity, cVNodes = vnodes,
                     cReplicaTimeout = wrap64 (timeout * millisecond), cBreakFor = 0,
                     cRateLimitCapacity = 0, cRateLimitIdleTTL = 0\<rparr>))"

section \<open>main\<close>

text \<open>
  A start ends in a fatal error (exit code 1), in the health check's exit, or in a node that
  serves on an address; \<open>http.Server\<close> listens on port 80 for an empty one. Then the first of a
  returning \<open>ListenAndServe\<close> and a signal ends the process; \<open>log.Fatalf\<close> exits without the
  deferred \<open>n.Close\<close>.
\<close>

datatype started = Fatal start_error | HealthFatal string | HealthOk | Serving node string

definition main_start :: "(string \<Rightarrow> string) \<Rightarrow> flags \<Rightarrow> (string \<Rightarrow> string + int) \<Rightarrow> started" where
  "main_start getenv f http_get =
    (case parseConfig getenv f of
       Inl e \<Rightarrow> Fatal e
     | Inr cfg \<Rightarrow>
         if fHealthcheck f then
           (case runHealthcheck http_get (cListen cfg) of Some e \<Rightarrow> HealthFatal e | None \<Rightarrow> HealthOk)
         else
           (case New_node cfg of
              Inl e \<Rightarrow> Fatal (BadNode e)
            | Inr n \<Rightarrow> Serving n (if cListen cfg = '''' then '':http'' else cListen cfg)))"

datatype main_event = ServerReturned "string option" | Signalled

record main_exit = exit_code :: nat  node_closed :: bool  server_shut :: bool

definition main_wait :: "main_event \<Rightarrow> main_exit" where
  "main_wait ev =
    (case ev of
       ServerReturned err \<Rightarrow>
         if err \<noteq> None \<and> err \<noteq> Some ''http: Server closed'' then
           \<lparr>exit_code = 1, node_closed = False, server_shut = False\<rparr>
         else \<lparr>exit_code = 0, node_closed = True, server_shut = False\<rparr>
     | Signalled \<Rightarrow> \<lparr>exit_code = 0, node_closed = True, server_shut = True\<rparr>)"

end
