(* ===== verification/ServerProps.thy ===== *)
theory ServerProps
  imports ServerConfig
begin

text \<open>
  Facts about the start of a server: what trimming leaves alone, which peer lists are read and
  what they give, decimal numbers in the environment, and the part of a listen address after
  its last colon.
\<close>

section \<open>Trimmed text\<close>

definition rune_free :: "string list \<Rightarrow> string \<Rightarrow> bool" where
  "rune_free rs s \<longleftrightarrow> find (\<lambda>r. r \<noteq> [] \<and> has_prefix s r) rs = None"

lemma rune_free_iff: "rune_free rs s \<longleftrightarrow> (\<forall>r \<in> set rs. r \<noteq> [] \<longrightarrow> (\<forall>t. s \<noteq> r @ t))"
  by (auto simp: rune_free_def find_None_iff has_prefix_iff)

lemma trim_left_id: "trim_left_runes rs s = s \<longleftrightarrow> rune_free rs s"
  using trim_left_runes_stop [of rs s] by (auto simp: rune_free_def trim_left_runes.simps)

lemma trim_left_free: "rune_free rs (trim_left_runes rs s)"
  using trim_left_runes_stop [of rs s] by (simp add: rune_free_def)

lemma trim_left_length: "length (trim_left_runes rs s) \<le> length s"
  using trim_left_runes_suffix [of s rs] by (metis length_append le_add2)

lemma trim_left_full: "length (trim_left_runes rs s) = length s \<Longrightarrow> trim_left_runes rs s = s"
  using trim_left_runes_suffix [of s rs] by (metis append_Nil append_eq_append_conv)

lemma rune_free_prefix: "rune_free rs (s @ t) \<Longrightarrow> rune_free rs s"
  by (auto simp: rune_free_iff)

lemma trimmed_iff:
  "trim_space s = s \<longleftrightarrow> rune_free space_runes s \<and> rune_free (map rev space_runes) (rev s)"
proof
  let ?a = "trim_left_runes space_runes s"
  assume t: "trim_space s = s"
  have "length s \<le> length ?a"
    using t trim_left_length [of "map rev space_runes" "rev ?a"] unfolding trim_space_def
    by (metis length_rev)
  then have a: "?a = s" using trim_left_length trim_left_full by (metis le_antisym)
  then have "trim_left_runes (map rev space_runes) (rev s) = rev s"
    using t unfolding trim_space_def by (metis rev_rev_ident)
  with a show "rune_free space_runes s \<and> rune_free (map rev space_runes) (rev s)"
    by (simp only: trim_left_id)
next
  assume "rune_free space_runes s \<and> rune_free (map rev space_runes) (rev s)"
  then show "trim_space s = s" unfolding trim_space_def by (simp only: flip: trim_left_id) simp
qed

lemma trim_space_trimmed: "trim_space (trim_space s) = trim_space s"
proof -
  let ?a = "trim_left_runes space_runes s"
  let ?b = "trim_left_runes (map rev space_runes) (rev ?a)"
  obtain p where "rev ?a = p @ ?b" using trim_left_runes_suffix by blast
  then have "?a = rev ?b @ rev p" by (metis rev_append rev_rev_ident)
  then have "rune_free space_runes (rev ?b)" using trim_left_free rune_free_prefix by metis
  then show ?thesis unfolding trimmed_iff unfolding trim_space_def using trim_left_free by simp
qed

text \<open>Two trimmed texts around a separator that occurs in no space.\<close>

lemma rune_free_join:
  assumes "rune_free rs a" "a \<noteq> []" "\<forall>r \<in> set rs. c \<notin> set r"
  shows "rune_free rs (a @ c # b)"
  unfolding rune_free_iff
proof (intro ballI impI allI notI)
  fix r t assume r: "r \<in> set rs" "r \<noteq> []" and eq: "a @ c # b = r @ t"
  then obtain u where "a = r @ u \<or> r = a @ u \<and> c # b = u @ t" by (auto simp: append_eq_append_conv2)
  then show False
    using assms r by (cases u) (auto simp: rune_free_iff)
qed

definition spaceless :: "char \<Rightarrow> bool" where
  "spaceless c \<longleftrightarrow> list_all (\<lambda>r. c \<notin> set r) space_runes"

lemma trimmed_join:
  assumes "trim_space a = a" "a \<noteq> []" "trim_space b = b" "b \<noteq> []" "spaceless c"
  shows "trim_space (a @ c # b) = a @ c # b"
proof -
  have c: "\<forall>r \<in> set space_runes. c \<notin> set r" "\<forall>r \<in> set (map rev space_runes). c \<notin> set r"
    using assms(5) by (auto simp: spaceless_def list_all_iff)
  have "rune_free (map rev space_runes) (rev b @ c # rev a)"
    using assms c(2) unfolding trimmed_iff by (intro rune_free_join) auto
  moreover have "rune_free space_runes (a @ c # b)"
    using assms c(1) unfolding trimmed_iff by (intro rune_free_join) auto
  ultimately show ?thesis unfolding trimmed_iff by simp
qed

lemma spaceless_separators: "spaceless CHR ''=''" "spaceless CHR '',''"
  by (simp_all add: spaceless_def space_runes_def)

lemma trim_space_Nil [simp]: "trim_space [] = []"
proof -
  have "rune_free rs []" for rs by (simp add: rune_free_iff)
  then show ?thesis unfolding trimmed_iff by simp
qed

section \<open>The peer list\<close>

definition bad_parts :: "string list \<Rightarrow> string list" where
  "bad_parts ps = filter (\<lambda>p. p \<noteq> '''' \<and> parse_part p = None) (map trim_space ps)"

definition good_peers :: "string list \<Rightarrow> (string \<times> string) list" where
  "good_peers ps = List.map_filter parse_part (map trim_space ps)"

definition put_all :: "(string \<times> string) list \<Rightarrow> (string, string) gomap \<Rightarrow> (string, string) gomap" where
  "put_all kvs m = fold (\<lambda>(k, v). gm_put k v) kvs m"

lemma parse_part_Nil [simp]: "parse_part [] = None"
  by (simp add: parse_part_def)

lemma parse_part_SomeD:
  "parse_part p = Some (k, u) \<Longrightarrow> k \<noteq> '''' \<and> u \<noteq> '''' \<and> trim_space k = k \<and> trim_space u = u"
  unfolding parse_part_def by (simp split: prod.splits if_splits) (metis trim_space_trimmed)

lemma peers_loop_eq:
  "peers_loop ps m = (case bad_parts ps of [] \<Rightarrow> Inr (put_all (good_peers ps) m) | p # _ \<Rightarrow> Inl (BadPeer p))"
proof (induction ps arbitrary: m)
  case (Cons p ps)
  show ?case
    by (cases "trim_space p = ''''"; cases "parse_part (trim_space p)")
      (auto simp: Let_def Cons.IH bad_parts_def good_peers_def put_all_def map_filter_simps split: list.splits)
qed (simp add: bad_parts_def good_peers_def put_all_def map_filter_simps)

text \<open>A blank text is one blank part, so \<open>parsePeers\<close> needs no case of its own for it.\<close>

lemma parsePeers_eq:
  "parsePeers s = (let ps = split_on CHR '','' (trim_space s)
    in case bad_parts ps of [] \<Rightarrow> Inr (put_all (good_peers ps) gm_empty) | p # _ \<Rightarrow> Inl (BadPeer p))"
  by (cases "trim_space s = ''''")
    (simp_all add: parsePeers_def Let_def peers_loop_eq bad_parts_def good_peers_def put_all_def map_filter_simps)

lemma put_all_ok: "gm_ok m \<Longrightarrow> gm_ok (put_all kvs m)"
  by (induction kvs arbitrary: m) (auto simp: put_all_def gm.ok_put)

lemma put_all_get: "gm_get (put_all kvs m) k = (case map_of (rev kvs) k of None \<Rightarrow> gm_get m k | Some v \<Rightarrow> Some v)"
  by (induction kvs arbitrary: m) (auto simp: put_all_def gm.get_put map_add_def split: option.splits)

lemma gm_put_new: "k \<notin> set (gm_keys m) \<Longrightarrow> gm_put k v m = m @ [(k, v)]"
  by (induction m) (auto simp: gm_put_def gm_keys_def)

lemma put_all_distinct: "distinct (map fst kvs) \<Longrightarrow> set (gm_keys m) \<inter> fst ` set kvs = {} \<Longrightarrow> put_all kvs m = m @ kvs"
proof (induction kvs arbitrary: m)
  case (Cons kv kvs)
  obtain k v where kv: "kv = (k, v)" by force
  have "put_all (kv # kvs) m = put_all kvs (m @ [(k, v)])"
    using Cons.prems by (simp add: kv put_all_def gm_put_new)
  also have "\<dots> = m @ kv # kvs" using Cons.prems by (subst Cons.IH) (auto simp: kv gm_keys_def)
  finally show ?case .
qed (simp add: put_all_def)

text \<open>The peer list as an operator writes it.\<close>

definition valid_peer :: "string \<times> string \<Rightarrow> bool" where
  "valid_peer kv \<longleftrightarrow> (case kv of (k, u) \<Rightarrow>
    k \<noteq> '''' \<and> trim_space k = k \<and> CHR ''='' \<notin> set k \<and> CHR '','' \<notin> set k
    \<and> u \<noteq> '''' \<and> trim_space u = u \<and> CHR '','' \<notin> set u)"

definition print_peer :: "string \<times> string \<Rightarrow> string" where
  "print_peer kv = fst kv @ CHR ''='' # snd kv"

fun print_peers :: "(string \<times> string) list \<Rightarrow> string" where
  "print_peers [] = ''''"
| "print_peers [kv] = print_peer kv"
| "print_peers (kv # kvs) = print_peer kv @ CHR '','' # print_peers kvs"

lemma cut_at_join: "c \<notin> set a \<Longrightarrow> cut_at c (a @ c # b) = (a, b, True)"
  by (induction a) auto

lemma parse_print: "valid_peer kv \<Longrightarrow> parse_part (print_peer kv) = Some kv"
  by (cases kv) (simp add: valid_peer_def print_peer_def parse_part_def cut_at_join)

lemma print_peer_trimmed: "valid_peer kv \<Longrightarrow> trim_space (print_peer kv) = print_peer kv \<and> print_peer kv \<noteq> ''''"
  by (cases kv) (simp add: valid_peer_def print_peer_def trimmed_join spaceless_separators)

lemma print_peer_no_comma: "valid_peer kv \<Longrightarrow> CHR '','' \<notin> set (print_peer kv)"
  by (cases kv) (simp add: valid_peer_def print_peer_def)

lemma print_peers_trimmed: "\<forall>kv \<in> set kvs. valid_peer kv \<Longrightarrow>
    trim_space (print_peers kvs) = print_peers kvs \<and> (kvs \<noteq> [] \<longrightarrow> print_peers kvs \<noteq> '''')"
proof (induction kvs rule: print_peers.induct)
  case (3 kv kv' kvs)
  then show ?case using print_peer_trimmed [of kv] by (simp add: trimmed_join spaceless_separators)
qed (simp_all add: print_peer_trimmed)

lemma split_print: "\<forall>kv \<in> set kvs. valid_peer kv \<Longrightarrow> kvs \<noteq> [] \<Longrightarrow>
    split_on CHR '','' (print_peers kvs) = map print_peer kvs"
  by (induction kvs rule: print_peers.induct)
    (simp_all add: split_on_none split_on_join print_peer_no_comma del: split_on.simps)

lemma good_print: "\<forall>kv \<in> set kvs. valid_peer kv \<Longrightarrow>
    bad_parts (map print_peer kvs) = [] \<and> good_peers (map print_peer kvs) = kvs"
  by (induction kvs) (auto simp: bad_parts_def good_peers_def map_filter_simps print_peer_trimmed parse_print)

lemma parse_print_peers:
  assumes "\<forall>kv \<in> set kvs. valid_peer kv" "distinct (map fst kvs)"
  shows "parsePeers (print_peers kvs) = Inr kvs"
proof (cases "kvs = []")
  case True
  then show ?thesis by (simp add: parsePeers_def gm_empty_def)
next
  case False
  with assms have "split_on CHR '','' (trim_space (print_peers kvs)) = map print_peer kvs"
    by (simp add: print_peers_trimmed split_print)
  then show ?thesis
    using good_print [OF assms(1)] put_all_distinct [OF assms(2), of gm_empty]
    by (simp add: parsePeers_eq Let_def gm_keys_def gm_empty_def)
qed

section \<open>Numbers in the environment\<close>

lemma itoa_is_digits: "list_all is_digit (itoa n)"
  by (auto simp: list_all_iff is_digit_def dest: itoa_digits)

lemma itoa_hd: "hd (itoa n) \<noteq> CHR ''-''" "hd (itoa n) \<noteq> CHR ''+''"
  using itoa_digits [of "hd (itoa n)" n] itoa_nonempty [of n] by auto

lemma atoi_int_text: "in_int64 n \<Longrightarrow> atoi (int_text n) = Some n"
  using itoa_nonempty itoa_is_digits itoa_hd
  by (simp add: atoi_def int_text_def parse_itoa Let_def)

lemma atoi_range: "atoi s = Some n \<Longrightarrow> in_int64 n"
  by (auto simp: atoi_def Let_def split: if_splits)

lemma int_text_nonempty: "int_text n \<noteq> ''''"
  by (simp add: int_text_def itoa_nonempty)

section \<open>Listen addresses\<close>

lemma last_index_from_some:
  "CHR '':'' \<in> set s \<Longrightarrow> \<exists>p q. s = p @ CHR '':'' # q \<and> CHR '':'' \<notin> set q \<and> last_index_from i CHR '':'' s = Some (i + length p)"
proof (induction s arbitrary: i)
  case (Cons c s)
  show ?case
  proof (cases "CHR '':'' \<in> set s")
    case True
    then obtain p q where "s = p @ CHR '':'' # q" "CHR '':'' \<notin> set q"
        "last_index_from (Suc i) CHR '':'' s = Some (Suc i + length p)"
      using Cons.IH by blast
    then show ?thesis by (intro exI [of _ "c # p"] exI [of _ q]) simp
  next
    case False
    moreover have "last_index_from j CHR '':'' s = None" for j
      using False by (induction s arbitrary: j) auto
    ultimately show ?thesis using Cons.prems by (intro exI [of _ "[]"] exI [of _ s]) auto
  qed
qed simp

lemma colon_suffix_none: "CHR '':'' \<notin> set s \<Longrightarrow> colon_suffix s = None"
proof -
  assume a: "CHR '':'' \<notin> set s"
  have "last_index_from i CHR '':'' s = None" for i
    using a by (induction s arbitrary: i) auto
  then show ?thesis by (simp add: colon_suffix_def last_index_def)
qed

lemma colon_suffix_some:
  "CHR '':'' \<notin> set q \<Longrightarrow> colon_suffix (p @ CHR '':'' # q) = Some (CHR '':'' # q)"
proof -
  assume q: "CHR '':'' \<notin> set q"
  obtain p' q' where "p @ CHR '':'' # q = p' @ CHR '':'' # q'" "CHR '':'' \<notin> set q'"
      "last_index CHR '':'' (p @ CHR '':'' # q) = Some (length p')"
    using last_index_from_some [of "p @ CHR '':'' # q" 0] by (auto simp: last_index_def)
  moreover from this q have "p' = p" "q' = q"
    by (auto simp: append_eq_append_conv2 Cons_eq_append_conv append_eq_Cons_conv)
  ultimately show ?thesis by (simp add: colon_suffix_def)
qed

text \<open>The health check and the peer URL of a lone server ask the same port.\<close>

lemma health_is_own_url:
  assumes "listen = [] \<or> CHR '':'' \<notin> set (tl listen) \<or> hd listen \<noteq> CHR '':''"
  shows "health_url listen = ''http://127.0.0.1'' @ normalizeListen listen @ ''/health''"
proof (cases "CHR '':'' \<in> set listen")
  case True
  then obtain p q where s: "listen = p @ CHR '':'' # q" "CHR '':'' \<notin> set q"
    using last_index_from_some by blast
  then have c: "colon_suffix listen = Some (CHR '':'' # q)" using colon_suffix_some by simp
  have "has_prefix listen '':'' \<Longrightarrow> listen = CHR '':'' # q"
    using assms s by (cases p) auto
  then show ?thesis using c by (simp add: health_url_def normalizeListen_def)
next
  case False
  then have "\<not> has_prefix listen '':''" by (auto simp: has_prefix_iff)
  then show ?thesis using colon_suffix_none [OF False] by (simp add: health_url_def normalizeListen_def)
qed

section \<open>The configuration a server starts with\<close>

definition server_id :: "(string \<Rightarrow> string) \<Rightarrow> flags \<Rightarrow> string" where
  "server_id getenv f = flag_value (fId f) (env_or getenv ''RINGCACHE_ID'' ''node-a'')"

definition server_listen :: "(string \<Rightarrow> string) \<Rightarrow> flags \<Rightarrow> string" where
  "server_listen getenv f = flag_value (fListen f) (env_or getenv ''RINGCACHE_LISTEN'' '':8080'')"

definition peer_text :: "(string \<Rightarrow> string) \<Rightarrow> flags \<Rightarrow> string" where
  "peer_text getenv f = flag_value (fPeers f) (env_or getenv ''RINGCACHE_PEERS'' '''')"

definition vnode_count :: "(string \<Rightarrow> string) \<Rightarrow> flags \<Rightarrow> int" where
  "vnode_count getenv f = flag_value (fVNodes f) (envInt getenv ''RINGCACHE_VNODES'' 150)"

definition peer_parts :: "(string \<Rightarrow> string) \<Rightarrow> flags \<Rightarrow> string list" where
  "peer_parts getenv f = split_on CHR '','' (trim_space (peer_text getenv f))"

definition own_url :: "(string \<Rightarrow> string) \<Rightarrow> flags \<Rightarrow> string" where
  "own_url getenv f = ''http://127.0.0.1'' @ normalizeListen (server_listen getenv f)"

definition start_peers :: "(string \<Rightarrow> string) \<Rightarrow> flags \<Rightarrow> (string, string) gomap" where
  "start_peers getenv f =
    (let m = put_all (good_peers (peer_parts getenv f)) gm_empty
     in if m = [] then [(server_id getenv f, own_url getenv f)] else m)"

lemma gm_single: "gm_put k v gm_empty = [(k, v)]"
  by (simp add: gm_put_def gm_empty_def)

lemma parseConfig_eq:
  "parseConfig getenv f =
    (case bad_parts (peer_parts getenv f) of
       p # _ \<Rightarrow> Inl (BadPeer p)
     | [] \<Rightarrow> Inr \<lparr>cID = server_id getenv f, cListen = server_listen getenv f, cPeers = start_peers getenv f,
         cReplicas = flag_value (fReplicas f) (envInt getenv ''RINGCACHE_REPLICAS'' 2),
         cCapacity = flag_value (fCapacity f) (envInt getenv ''RINGCACHE_CAPACITY'' 10000),
         cVNodes = vnode_count getenv f,
         cReplicaTimeout = wrap64 (flag_value (fTimeout f) (envInt getenv ''RINGCACHE_REPLICA_TIMEOUT_MS'' 200) * millisecond),
         cBreakFor = 0, cRateLimitCapacity = 0, cRateLimitIdleTTL = 0\<rparr>)"
  unfolding parseConfig_def Let_def parsePeers_eq peer_parts_def peer_text_def start_peers_def own_url_def
    server_id_def server_listen_def vnode_count_def gm_len_def gm_single
  by (simp split: list.split)

lemma start_peers_ok: "gm_ok (start_peers getenv f)"
  using put_all_ok [of gm_empty] by (simp add: start_peers_def Let_def gm_ok_def gm_empty_def)


end
