(* ===== verification/ServerTheorems.thy ===== *)
theory ServerTheorems
  imports ServerProps
begin

text \<open>
  What the start of a server promises: when it serves and what it reports otherwise, that the
  peer list means what it says, that servers started with the same list place every key alike,
  and what a server does without one.
\<close>

definition start_config :: "(string \<Rightarrow> string) \<Rightarrow> flags \<Rightarrow> config" where
  "start_config getenv f = (case parseConfig getenv f of Inr c \<Rightarrow> c | Inl _ \<Rightarrow> undefined)"

lemma start_config_peers:
  assumes "bad_parts (peer_parts getenv f) = []"
  shows "parseConfig getenv f = Inr (start_config getenv f)" "cID (start_config getenv f) = server_id getenv f"
    "cListen (start_config getenv f) = server_listen getenv f" "cPeers (start_config getenv f) = start_peers getenv f"
    "cVNodes (start_config getenv f) = vnode_count getenv f"
  using assms by (simp_all add: start_config_def parseConfig_eq)

lemma start_bad: "main_start getenv f g = Fatal (BadPeer p) \<longleftrightarrow> (\<exists>ps. bad_parts (peer_parts getenv f) = p # ps)"
  by (auto simp: main_start_def parseConfig_eq split: list.splits option.splits sum.splits)

lemma start_serving:
  "main_start getenv f g = Serving n a \<longleftrightarrow> \<not> fHealthcheck f \<and> bad_parts (peer_parts getenv f) = []
    \<and> New_node (start_config getenv f) = Inr n
    \<and> a = (if server_listen getenv f = '''' then '':http'' else server_listen getenv f)"
proof (cases "bad_parts (peer_parts getenv f) = []")
  case True
  note c = start_config_peers [OF True]
  show ?thesis
    unfolding main_start_def c(1) using True c(3) by (auto split: sum.splits option.splits)
next
  case False
  then obtain p ps where "bad_parts (peer_parts getenv f) = p # ps" by (cases "bad_parts (peer_parts getenv f)") auto
  then have "main_start getenv f g = Fatal (BadPeer p)" using start_bad by blast
  with False show ?thesis by simp
qed

lemma New_started:
  assumes "bad_parts (peer_parts getenv f) = []"
  shows "(\<exists>n. New_node (start_config getenv f) = Inr n)
    \<longleftrightarrow> server_id getenv f \<noteq> '''' \<and> gm_get (start_peers getenv f) (server_id getenv f) \<noteq> None"
  unfolding New_node_eq start_config_peers [OF assms] by blast

lemma started_ring:
  assumes "main_start getenv f g = Serving n a"
  shows "nring n = fold Add (sort (gm_keys (start_peers getenv f)))
      (New_ring (if vnode_count getenv f < 1 then 150 else vnode_count getenv f))"
    "npeers n = start_peers getenv f" "cID (ncfg n) = server_id getenv f" "node_inv M n"
proof -
  have b: "bad_parts (peer_parts getenv f) = []" and n: "New_node (start_config getenv f) = Inr n"
    using assms by (simp_all add: start_serving)
  note c = start_config_peers [OF b]
  have eff: "cVNodes (effective (start_config getenv f)) = (if vnode_count getenv f < 1 then 150 else vnode_count getenv f)"
    "cID (effective (start_config getenv f)) = server_id getenv f"
    by (simp_all add: effective_def with_defaults_def c(2,5))
  have n': "nring n = fold Add (sort (gm_keys (start_peers getenv f))) (New_ring (cVNodes (effective (start_config getenv f))))"
    "npeers n = start_peers getenv f" "ncfg n = effective (start_config getenv f)"
    using n unfolding New_node_eq c(4) by simp_all
  show "nring n = fold Add (sort (gm_keys (start_peers getenv f)))
      (New_ring (if vnode_count getenv f < 1 then 150 else vnode_count getenv f))"
    using n'(1) unfolding eff .
  show "npeers n = start_peers getenv f" "cID (ncfg n) = server_id getenv f"
    using n'(2,3) eff(2) by simp_all
  show "node_inv M n" using n by (rule New_node_inv) (simp only: c(4) start_peers_ok)
qed

abbreviation listed :: "(string \<Rightarrow> string) \<Rightarrow> flags \<Rightarrow> (string \<times> string) list" where
  "listed getenv f \<equiv> good_peers (peer_parts getenv f)"



lemma start_peers_lone: "listed getenv f = [] \<Longrightarrow> start_peers getenv f = [(server_id getenv f, own_url getenv f)]"
  by (simp add: start_peers_def put_all_def gm_empty_def)








section \<open>Servers with the same peers\<close>

lemma start_peers_printed:
  assumes "peer_text getenv f = print_peers ps" "\<forall>kv \<in> set ps. valid_peer kv" "distinct (map fst ps)" "ps \<noteq> []"
  shows "start_peers getenv f = ps" "bad_parts (peer_parts getenv f) = []"
proof -
  have parts: "peer_parts getenv f = map print_peer ps"
    using assms by (simp add: peer_parts_def print_peers_trimmed split_print)
  have "put_all ps gm_empty = ps"
    using put_all_distinct [OF assms(3), of gm_empty] by (simp add: gm_keys_def gm_empty_def)
  then show "start_peers getenv f = ps" "bad_parts (peer_parts getenv f) = []"
    using good_print [OF assms(2)] assms(4) by (simp_all add: start_peers_def parts)
qed

definition trio :: "(string \<times> string) list" where
  "trio = [(''a'', ''http://a:80''), (''b'', ''http://b:80''), (''c'', ''http://c:80/?x=1'')]"

definition trio_env :: "string \<Rightarrow> (string \<times> string) list \<Rightarrow> string \<Rightarrow> string" where
  "trio_env x ps k = (if k = ''RINGCACHE_ID'' then x else if k = ''RINGCACHE_PEERS'' then print_peers ps else '''')"

definition no_flags :: flags where
  "no_flags = \<lparr>fId = None, fListen = None, fPeers = None, fReplicas = None, fCapacity = None, fVNodes = None,
    fTimeout = None, fHealthcheck = False\<rparr>"

lemma trio_valid: "\<forall>kv \<in> set trio. valid_peer kv" "\<forall>kv \<in> set (rev trio). valid_peer kv"
  by code_simp+

text \<open>
  C28. A peer list written as \<open>id=url\<close> parts and commas is read back as it was written. Two
  servers started with the same peers, in any order, and the same virtual-node count give every
  key the same owners in the same order, and know every peer by the same URL, whatever else
  differs between them.
\<close>

theorem servers_agree_on_placement:
  assumes "\<forall>kv \<in> set ps. valid_peer kv" "distinct (map fst ps)" "mset ps' = mset ps"
    and "peer_text env1 f1 = print_peers ps" "peer_text env2 f2 = print_peers ps'" "ps \<noteq> []"
    and "vnode_count env1 f1 = vnode_count env2 f2"
    and "main_start env1 f1 g1 = Serving n1 a1" "main_start env2 f2 g2 = Serving n2 a2"
  shows "parsePeers (print_peers ps) = Inr ps \<and> Owners (nring n1) key r = Owners (nring n2) key r
    \<and> Primary (nring n1) key = Primary (nring n2) key
    \<and> (\<forall>(x, u) \<in> set ps. x \<in> set (Nodes (nring n1)) \<and> peerURL n1 x = u \<and> peerURL n2 x = u)"
proof -
  have ps': "\<forall>kv \<in> set ps'. valid_peer kv" "mset (map fst ps') = mset (map fst ps)" "ps' \<noteq> []"
    using assms(1,3,6) mset_eq_setD [OF assms(3)] by (auto simp: mset_map)
  then have d': "distinct (map fst ps')"
    using assms(2) mset_eq_imp_distinct_iff [OF ps'(2)] by simp
  note s1 = start_peers_printed [OF assms(4,1,2,6)] and s2 = start_peers_printed [OF assms(5) ps'(1) d' ps'(3)]
  note r1 = started_ring [OF assms(8)] and r2 = started_ring [OF assms(9)]
  have "sort (gm_keys ps') = sort (gm_keys ps)" using ps'(2) by (simp add: gm_keys_def sort_perm_eq)
  then have ring: "nring n1 = nring n2" using r1(1) r2(1) s1 s2 assms(7) by simp
  have "x \<in> set (Nodes (nring n1)) \<and> peerURL n1 x = u \<and> peerURL n2 x = u" if "(x, u) \<in> set ps" for x u
  proof -
    have "(x, u) \<in> set ps'" using that mset_eq_setD [OF assms(3)] by simp
    then have "map_of ps x = Some u" "map_of ps' x = Some u" "x \<noteq> ''''"
      using that assms(1,2) d' by (auto simp: map_of_is_SomeI valid_peer_def)
    then show ?thesis
      using r1(1,2) r2(2) s1 s2 that by (auto simp: peerURL_def gm_get_def Nodes_fold_Add gm_keys_def rev_image_eqI)
  qed
  then show ?thesis using ring parse_print_peers [OF assms(1,2)] by auto
qed

lemma trio_distinct: "distinct (map fst trio)" "mset (rev trio) = mset trio" "trio \<noteq> []"
  by (simp_all add: trio_def)

lemma trio_settings:
  "peer_text (trio_env x ps) no_flags = print_peers ps" "vnode_count (trio_env x ps) no_flags = 150"
  "x \<noteq> '''' \<Longrightarrow> server_id (trio_env x ps) no_flags = x" "\<not> fHealthcheck no_flags"
  by (simp_all add: peer_text_def vnode_count_def server_id_def no_flags_def flag_value_def env_or_def
      envInt_def trio_env_def)

lemma trio_starts:
  assumes "\<forall>kv \<in> set ps. valid_peer kv" "distinct (map fst ps)" "x \<in> fst ` set ps" "x \<noteq> ''''"
  shows "\<exists>n a. main_start (trio_env x ps) no_flags g = Serving n a"
proof -
  have "ps \<noteq> []" using assms(3) by auto
  note s = start_peers_printed [OF trio_settings(1) assms(1,2) this]
  have "gm_get ps x \<noteq> None" using assms(3) unfolding gm_get_def map_of_eq_None_iff by simp
  then show ?thesis
    using New_started [OF s(2)] s start_serving trio_settings(3) [OF assms(4)] trio_settings(4) assms(4) by metis
qed

theorem servers_agree_on_placement_witness:
  "\<exists>n1 n2 a1 a2. main_start (trio_env ''a'' trio) no_flags (\<lambda>_. Inr 200) = Serving n1 a1
    \<and> main_start (trio_env ''c'' (rev trio)) no_flags (\<lambda>_. Inr 200) = Serving n2 a2
    \<and> Owners (nring n1) ''k'' 2 = Owners (nring n2) ''k'' 2 \<and> peerURL n2 ''c'' = ''http://c:80/?x=1''"
proof -
  have in_trio: "''a'' \<in> fst ` set trio" "''c'' \<in> fst ` set (rev trio)" by (simp_all add: trio_def)
  have d: "distinct (map fst (rev trio))" by (simp add: trio_def)
  obtain n1 a1 n2 a2 where
    n: "main_start (trio_env ''a'' trio) no_flags (\<lambda>_. Inr 200) = Serving n1 a1"
      "main_start (trio_env ''c'' (rev trio)) no_flags (\<lambda>_. Inr 200) = Serving n2 a2"
    using trio_starts [OF trio_valid(1) trio_distinct(1) in_trio(1), of "\<lambda>_. Inr 200"]
      trio_starts [OF trio_valid(2) d in_trio(2), of "\<lambda>_. Inr 200"] by auto
  have "(''c'', ''http://c:80/?x=1'') \<in> set trio" by (simp add: trio_def)
  then show ?thesis
    using servers_agree_on_placement [OF trio_valid(1) trio_distinct(1,2) trio_settings(1,1) trio_distinct(3)
        _ n, of "''k''" 2] n trio_settings(2) by fastforce
qed

text \<open>
  Without a peer list a server with an id starts alone: it is the only owner of every key
  at the URL of its own port, with one replica, and, unless its listen address starts with a
  colon and has another one, \<open>-healthcheck\<close> with the same settings asks that URL and succeeds
  exactly when the answer is 200.
\<close>

theorem lone_server_serves_itself:
  assumes "\<not> fHealthcheck f" "trim_space (peer_text getenv f) = ''''" "server_id getenv f \<noteq> ''''" "1 \<le> r"
    and "server_listen getenv f = [] \<or> CHR '':'' \<notin> set (tl (server_listen getenv f))
      \<or> hd (server_listen getenv f) \<noteq> CHR '':''"
  shows "\<exists>n a. main_start getenv f g = Serving n a \<and> Owners (nring n) key r = [server_id getenv f]
    \<and> cReplicas (ncfg n) = 1
    \<and> (main_start getenv (f\<lparr>fHealthcheck := True\<rparr>) g = HealthOk
        \<longleftrightarrow> g (peerURL n (server_id getenv f) @ ''/health'') = Inr 200)"
proof -
  let ?id = "server_id getenv f"
  have parts: "peer_parts getenv f = ['''']" using assms(2) by (simp add: peer_parts_def)
  then have bad: "bad_parts (peer_parts getenv f) = []" and lone: "listed getenv f = []"
    by (simp_all add: bad_parts_def good_peers_def map_filter_simps)
  note peers = start_peers_lone [OF lone]
  obtain n where n: "New_node (start_config getenv f) = Inr n"
    using New_started [OF bad] assms(3) peers by (auto simp: gm_get_def)
  then obtain a where s: "main_start getenv f g = Serving n a" using assms(1) bad start_serving by blast
  note r = started_ring [OF s]
  have inv: "ring_inv (nring n)" using r(4) by (simp add: node_inv_def ring_reachable_inv)
  have nodes: "Nodes (nring n) = [?id]" "Size (nring n) = 1"
    using r(1) assms(3) by (simp_all add: peers gm_keys_def Add_def rebuildLocked_def New_ring_def Nodes_def
        Size_def gm_defs)
  have "length (Owners (nring n) key r) = 1" "set (Owners (nring n) key r) \<subseteq> {?id}"
    using Owners_length [OF inv] Owners_members [OF inv] nodes assms(4) by (simp_all add: min_def) fastforce
  then have own: "Owners (nring n) key r = [?id]" by (cases "Owners (nring n) key r") auto
  have "cReplicas (ncfg n) = 1"
    using n start_config_peers(4) [OF bad] unfolding New_node_eq
    by (simp add: effective_def peers gm_len_def with_defaults_def)
  moreover have "parseConfig getenv (f\<lparr>fHealthcheck := True\<rparr>) = Inr (start_config getenv f)"
    using start_config_peers(1) [OF bad] by (simp add: parseConfig_def)
  moreover have "health_url (server_listen getenv f) = peerURL n ?id @ ''/health''"
    using health_is_own_url [OF assms(5)] r(2) by (simp add: peerURL_def peers gm_get_def own_url_def)
  ultimately show ?thesis
    using s own start_config_peers(3) [OF bad]
    by (auto simp: main_start_def runHealthcheck_def split: sum.splits)
qed

theorem lone_server_serves_itself_witness:
  "\<exists>n a. main_start (\<lambda>_. '''') no_flags (\<lambda>u. if u = ''http://127.0.0.1:8080/health'' then Inr 200 else Inl ''refused'')
        = Serving n a \<and> Owners (nring n) ''k'' 2 = [''node-a'']
    \<and> peerURL n ''node-a'' = ''http://127.0.0.1:8080''"
proof -
  let ?f = "no_flags" and ?e = "(\<lambda>_. '''') :: string \<Rightarrow> string"
  let ?g = "(\<lambda>u. if u = ''http://127.0.0.1:8080/health'' then Inr 200 else Inl ''refused'') :: string \<Rightarrow> string + int"
  have e: "peer_text ?e ?f = ''''" "server_id ?e ?f = ''node-a''" "server_listen ?e ?f = '':8080''"
    by (simp_all add: peer_text_def server_id_def server_listen_def no_flags_def flag_value_def env_or_def)
  have "case main_start ?e (?f\<lparr>fHealthcheck := True\<rparr>) ?g of HealthOk \<Rightarrow> True | _ \<Rightarrow> False" by code_simp
  then have "main_start ?e (?f\<lparr>fHealthcheck := True\<rparr>) ?g = HealthOk" by (simp split: started.splits)
  moreover obtain n a where n: "main_start ?e ?f ?g = Serving n a" "Owners (nring n) ''k'' 2 = [''node-a'']"
      "main_start ?e (?f\<lparr>fHealthcheck := True\<rparr>) ?g = HealthOk
        \<longleftrightarrow> ?g (peerURL n ''node-a'' @ ''/health'') = Inr 200"
    using lone_server_serves_itself [of ?f ?e 2 ?g "''k''"] e trio_settings(4) by auto
  ultimately have "?g (peerURL n ''node-a'' @ ''/health'') = Inr 200" by blast
  then have "peerURL n ''node-a'' @ ''/health'' = ''http://127.0.0.1:8080'' @ ''/health''"
    by (simp split: if_splits)
  then have "peerURL n ''node-a'' = ''http://127.0.0.1:8080''" by (simp only: append_same_eq)
  with n show ?thesis by blast
qed

section \<open>Settings\<close>

text \<open>A number printed into the environment is read back; an unreadable one leaves the default.\<close>

lemma env_number:
  "getenv k = int_text n \<Longrightarrow> in_int64 n \<Longrightarrow> envInt getenv k d = n"
  "atoi (getenv k) = None \<Longrightarrow> envInt getenv k d = d"
  by (simp_all add: envInt_def atoi_int_text int_text_nonempty)

text \<open>With an empty listen address the server listens on port 80 and the node believes in 8080.\<close>

lemma empty_listen_address:
  assumes "main_start getenv f g = Serving n a" "server_listen getenv f = ''''"
  shows "a = '':http'' \<and> cListen (ncfg n) = '':8080'' \<and> health_url (server_listen getenv f) = ''http://127.0.0.1:8080/health''"
proof -
  have s: "bad_parts (peer_parts getenv f) = []" "New_node (start_config getenv f) = Inr n" "a = '':http''"
    using assms(1) unfolding start_serving assms(2) by simp_all
  have "cListen (ncfg n) = '':8080''"
    using s(2) start_config_peers(3) [OF s(1)] assms(2) unfolding New_node_eq
    by (simp add: effective_def with_defaults_def)
  with s(3) show ?thesis
    using assms(2) by (simp add: health_url_def colon_suffix_def last_index_def)
qed

end
