(* ===== verification/Deployment.thy ===== *)
theory Deployment
  imports ServerTheorems ClusterDemo
begin

text \<open>
  From the operator's settings to the requests of a client: processes that \<open>main\<close> started with
  the same peer list form a cluster to which the properties of \<open>ClusterTheorems\<close> apply.
\<close>

definition replica_count :: "(string \<Rightarrow> string) \<Rightarrow> flags \<Rightarrow> int" where
  "replica_count getenv f = flag_value (fReplicas f) (envInt getenv ''RINGCACHE_REPLICAS'' 2)"

text \<open>
  Every process runs what some server start produced; the processes of the peer list were
  started with that list, under their own ids, with the same virtual-node and replica counts.
\<close>

definition deployed :: "(string \<times> string) list \<Rightarrow> int \<Rightarrow> int \<Rightarrow> world \<Rightarrow> bool" where
  "deployed ps v k w \<longleftrightarrow> pending w = [] \<and>
    (\<forall>p. \<exists>getenv f g a. main_start getenv f g = Serving (procs w p) a
      \<and> (p \<in> fst ` set ps \<longrightarrow> server_id getenv f = p \<and> peer_text getenv f = print_peers ps
          \<and> vnode_count getenv f = v \<and> replica_count getenv f = k))"

text \<open>Every listed URL leads to its process and no call is lost.\<close>

definition connected :: "env \<Rightarrow> (string \<times> string) list \<Rightarrow> bool" where
  "connected E ps \<longleftrightarrow> (\<forall>k. fault E k = Deliver)
    \<and> (\<forall>(q, u) \<in> set ps. trim_right_char CHR ''/'' u \<noteq> '''' \<and> route E (trim_right_char CHR ''/'' u) = Some q)"

lemma started_New:
  assumes "main_start getenv f g = Serving n a"
  shows "New_node (start_config getenv f) = Inr n" "gm_ok (cPeers (start_config getenv f))"
    "cPeers (start_config getenv f) = start_peers getenv f" "cReplicas (start_config getenv f) = replica_count getenv f"
proof -
  have b: "bad_parts (peer_parts getenv f) = []" and n: "New_node (start_config getenv f) = Inr n"
    using assms by (simp_all add: start_serving)
  show "New_node (start_config getenv f) = Inr n" by (fact n)
  show "cPeers (start_config getenv f) = start_peers getenv f" by (rule start_config_peers(4) [OF b])
  then show "gm_ok (cPeers (start_config getenv f))" by (simp add: start_peers_ok)
  show "cReplicas (start_config getenv f) = replica_count getenv f"
    using b by (simp add: start_config_def parseConfig_eq replica_count_def)
qed

lemma started_fresh:
  assumes "main_start getenv f g = Serving n a"
  shows "entries (nstore n) = []" "downUntil n = gm_empty"
    "cReplicas (ncfg n) = min (if replica_count getenv f < 1 then 1 else replica_count getenv f) (int (gm_len (start_peers getenv f)))"
proof -
  note N = started_New [OF assms]
  note n = N(1) [unfolded New_node_eq]
  show "entries (nstore n) = []" "downUntil n = gm_empty" using n by (simp_all add: New_refines)
  have "ncfg n = effective (start_config getenv f)" using n by simp
  then show "cReplicas (ncfg n) = min (if replica_count getenv f < 1 then 1 else replica_count getenv f)
      (int (gm_len (start_peers getenv f)))"
    unfolding effective_def with_defaults_def by (simp add: N(3,4))
qed

lemma deployed_reach: "deployed ps v k w \<Longrightarrow> cluster_reach E w"
  unfolding deployed_def by (rule reach_boot) (metis boot_def started_New(1,2))

lemma vnodes_fold: "vnodesPerNode (fold Add xs r) = vnodesPerNode r"
  by (induction xs arbitrary: r) simp_all

lemma deployed_member:
  assumes "deployed ps v k w" "\<forall>kv \<in> set ps. valid_peer kv" "distinct (map fst ps)" "p \<in> fst ` set ps"
  shows "cID (ncfg (procs w p)) = p" "set (Nodes (nring (procs w p))) = fst ` set ps"
    "npeers (procs w p) = ps" "vnodesPerNode (nring (procs w p)) = (if v < 1 then 150 else v)"
    "cReplicas (ncfg (procs w p)) = min (if k < 1 then 1 else k) (int (length ps))"
proof -
  obtain getenv f g a where s: "main_start getenv f g = Serving (procs w p) a" "server_id getenv f = p"
      "peer_text getenv f = print_peers ps" "vnode_count getenv f = v" "replica_count getenv f = k"
    using assms(1,4) unfolding deployed_def by blast
  have ne: "ps \<noteq> []" using assms(4) by auto
  have peers: "start_peers getenv f = ps" by (rule start_peers_printed(1) [OF s(3) assms(2,3) ne])
  note r = started_ring [OF s(1), unfolded peers s]
  have "'''' \<notin> fst ` set ps" using assms(2) by (auto simp: valid_peer_def)
  then show "set (Nodes (nring (procs w p))) = fst ` set ps"
    unfolding r(1) by (simp add: Nodes_fold_Add gm_keys_def)
  show "vnodesPerNode (nring (procs w p)) = (if v < 1 then 150 else v)"
    unfolding r(1) by (simp add: vnodes_fold New_ring_def)
  show "cReplicas (ncfg (procs w p)) = min (if k < 1 then 1 else k) (int (length ps))"
    unfolding started_fresh(3) [OF s(1)] peers s by (simp add: gm_len_def)
  show "cID (ncfg (procs w p)) = p" "npeers (procs w p) = ps" by (fact r(3), fact r(2))
qed

lemma Size_card: "ring_inv r \<Longrightarrow> Size r = card (set (Nodes r))"
  by (simp add: Size_def Nodes_def ring_inv_def gm.len_card gm.keys_set)

lemma deployed_fresh:
  assumes "deployed ps v k w"
  shows "slot key p w = None" "gm_get (downUntil (procs w p)) q = None"
proof -
  obtain getenv f g a where s: "main_start getenv f g = Serving (procs w p) a"
    using assms unfolding deployed_def by blast
  show "slot key p w = None" "gm_get (downUntil (procs w p)) q = None"
    using started_fresh(1,2) [OF s] by (simp_all add: slot_def lookup_def gm.get_empty)
qed

lemma deployed_uniform:
  assumes "deployed ps v k w" "connected E ps" "\<forall>kv \<in> set ps. valid_peer kv" "distinct (map fst ps)"
  shows "uniform E (fst ` set ps) w"
proof -
  note m = deployed_member [OF assms(1,3,4)]
  have url: "trim_right_char CHR ''/'' (peerURL (procs w p) q) \<noteq> ''''
      \<and> route E (trim_right_char CHR ''/'' (peerURL (procs w p) q)) = Some q"
    if "p \<in> fst ` set ps" "q \<in> fst ` set ps" for p q
  proof -
    obtain u where u: "(q, u) \<in> set ps" using \<open>q \<in> fst ` set ps\<close> by auto
    then have "peerURL (procs w p) q = u"
      using assms(4) by (simp add: peerURL_def m(3) [OF \<open>p \<in> fst ` set ps\<close>] gm_get_def)
    with u assms(2) show ?thesis by (auto simp: connected_def)
  qed
  have "\<forall>k. fault E k = Deliver" using assms(2) by (simp add: connected_def)
  then show ?thesis unfolding uniform_def using m(1,2,4,5) url by (simp add: m(4,5))
qed

text \<open>
  C7. Servers started with the same list of well-formed peers, under the listed ids and with the
  same counts, form a cluster, as long as every call between them arrives: when the first request
  is a SET without lifetime that its coordinator accepts, with a stamp or without, through any of
  them, and the write fits, as it is forwarded, into the body limit of 1 MiB and 4096 bytes, then
  every owner of the key acknowledges it (as many as the replica count says, or all servers), and
  a GET right after it through any of them answers with the value and the stamp written.
\<close>

theorem started_servers_store_and_serve:
  assumes "\<forall>kv \<in> set ps. valid_peer kv" "distinct (map fst ps)" "deployed ps v k w" "connected E ps" "env_ok E"
    and "me \<in> fst ` set ps" "reader \<in> fst ` set ps"
    and "accepts r b0" "stamp_body E b0 w = (b, w0)" "fits E b" "kb_ttl b = 0" "rMethod g = ''GET''" "rQuery g ''key'' = kb_key b"
  shows "\<exists>owners w1 by_id w2. length owners = min (nat (max 1 k)) (length ps) \<and> set owners \<subseteq> fst ` set ps
    \<and> handleSet E me r w = Some (writeJSON 200 (encode_write \<lparr>wr_key = kb_key b,
        wr_acked = length owners, wr_replicas = owners, wr_failed = []\<rparr>), w1)
    \<and> by_id \<in> set owners
    \<and> handleGet E reader g w1 = Some (hit_resp (kb_key b) by_id (slot_item b), w2)"
proof -
  note m = deployed_member [OF assms(3,1,2,6)]
  have w: "world_inv E w" by (rule cluster_reach_inv [OF deployed_reach [OF assms(3)]])
  have inv: "ring_inv (nring (procs w me))" using world_invD [OF w, of me] by (simp add: node_inv_def ring_reachable_inv)
  define owners where "owners = Owners (nring (procs w me)) (kb_key b) (cReplicas (ncfg (procs w me)))"
  have "card (fst ` set ps) = length ps" using assms(2) by (metis distinct_card length_map list.set_map)
  then have "Size (nring (procs w me)) = length ps"
    using m(2) Size_card [OF inv] by simp
  then have "length owners = min (nat (max 1 k)) (length ps)"
    unfolding owners_def Owners_length [OF inv] m(5) by auto
  moreover have "set owners \<subseteq> fst ` set ps" using Owners_members [OF inv] m(2) by (simp add: owners_def)
  moreover have "\<exists>w1 by_id w2. handleSet E me r w = Some (writeJSON 200 (encode_write \<lparr>wr_key = kb_key b,
        wr_acked = length owners, wr_replicas = owners, wr_failed = []\<rparr>), w1)
    \<and> by_id \<in> set owners \<and> handleGet E reader g w1 = Some (hit_resp (kb_key b) by_id (slot_item b), w2)"
    by (rule write_then_read [OF w assms(5) deployed_uniform [OF assms(3,4,1,2)] assms(6-11) _ _ assms(12,13) owners_def])
      (simp_all add: deployed_fresh [OF assms(3)])
  ultimately show ?thesis by blast
qed

text \<open>Three servers started from their environments, and any other name started like the first.\<close>

definition start_env :: "string \<Rightarrow> string \<Rightarrow> string" where
  "start_env x = trio_env (if x = ''b'' \<or> x = ''c'' then x else ''a'') demo_peers"

definition started_world :: world where
  "started_world = \<lparr>procs = (\<lambda>x. case main_start (start_env x) no_flags (\<lambda>_. Inl ''refused'') of
      Serving n a \<Rightarrow> n | _ \<Rightarrow> demo_node x), ticks = 1, calls = 0, pending = []\<rparr>"

lemma start_peers_valid: "\<forall>kv \<in> set demo_peers. valid_peer kv" "distinct (map fst demo_peers)"
  by code_simp+

lemma started_deployed: "deployed demo_peers 150 2 started_world"
proof -
  have ids: "(if x = ''b'' \<or> x = ''c'' then x else ''a'') \<in> fst ` set demo_peers" for x :: string
    by (simp add: demo_peers_def)
  have "\<exists>n a. main_start (start_env x) no_flags (\<lambda>_. Inl ''refused'') = Serving n a" for x
    unfolding start_env_def by (rule trio_starts [OF start_peers_valid ids]) simp
  then have s: "\<exists>a. main_start (start_env x) no_flags (\<lambda>_. Inl ''refused'') = Serving (procs started_world x) a" for x
  proof -
    obtain n a where "main_start (start_env x) no_flags (\<lambda>_. Inl ''refused'') = Serving n a"
      using \<open>\<And>x. \<exists>n a. main_start (start_env x) no_flags (\<lambda>_. Inl ''refused'') = Serving n a\<close> by blast
    then show ?thesis by (simp add: started_world_def)
  qed
  have e: "x \<in> fst ` set demo_peers \<Longrightarrow> server_id (start_env x) no_flags = x \<and> peer_text (start_env x) no_flags = print_peers demo_peers
      \<and> vnode_count (start_env x) no_flags = 150 \<and> replica_count (start_env x) no_flags = 2" for x
    by (auto simp: start_env_def demo_peers_def trio_settings replica_count_def no_flags_def flag_value_def envInt_def trio_env_def
        server_id_def env_or_def peer_text_def vnode_count_def)
  show ?thesis unfolding deployed_def
  proof (intro conjI allI)
    show "pending started_world = []" by (simp add: started_world_def)
    fix p
    obtain a where "main_start (start_env p) no_flags (\<lambda>_. Inl ''refused'') = Serving (procs started_world p) a" using s by blast
    with e [of p] show "\<exists>getenv f g a. main_start getenv f g = Serving (procs started_world p) a
      \<and> (p \<in> fst ` set demo_peers \<longrightarrow> server_id getenv f = p \<and> peer_text getenv f = print_peers demo_peers
          \<and> vnode_count getenv f = 150 \<and> replica_count getenv f = 2)" by blast
  qed
qed

theorem started_servers_store_and_serve_witness:
  "\<exists>owners w1 by_id w2. length owners = 2 \<and> by_id \<in> set owners
    \<and> handleSet demo_env ''c'' demo_put started_world = Some (writeJSON 200 (encode_write \<lparr>wr_key = ''k'',
        wr_acked = length owners, wr_replicas = owners, wr_failed = []\<rparr>), w1)
    \<and> handleGet demo_env ''b'' demo_get w1 = Some (hit_resp ''k'' by_id (slot_item demo_body), w2)"
proof -
  have conn: "connected demo_env demo_peers"
    by (simp add: connected_def demo_peers_def demo_trim)
  have ids: "''c'' \<in> fst ` set demo_peers" "''b'' \<in> fst ` set demo_peers" by (simp_all add: demo_peers_def)
  have len: "min (nat (max 1 2)) (length demo_peers) = 2" by (simp add: demo_peers_def)
  have get: "rQuery demo_get ''key'' = kb_key demo_body" by simp
  show ?thesis
    using started_servers_store_and_serve [OF start_peers_valid started_deployed conn demo_env_ok ids put_ok_accepts [OF demo_put_ok]
        put_ok_stamp [OF demo_put_ok] demo_fits demo_body_simps(3) demo_get_simps(1) get] unfolding len demo_body_simps(1) by blast
qed

end
