(* ===== verification/Janitor.thy ===== *)
theory Janitor
  imports StoreCorrect RateCorrect
begin

text \<open>
  The background goroutine of \<open>internal/store/store.go\<close> and \<open>internal/ratelimit/store.go\<close>
  (\<open>New\<close>, \<open>janitor\<close>, \<open>Close\<close>), which are the same code around different sweeps. The state has
  the two channels \<open>stop\<close> and \<open>stopped\<close>, the ticker's one-place channel, the \<open>sync.Once\<close>, the
  janitor's program counter and one program counter per call of \<open>Close\<close>; the content is what
  the mutex guards, so that an operation and a sweep are each one step. A second close of a
  channel panics. \<open>select\<close> takes either of two ready cases.
\<close>

section \<open>State\<close>

datatype janitor_pc = Selecting | Sweeping time | Returning | Gone

datatype closer_pc = Entering | ClosingStop | AwaitingStopped | Closed

datatype once_state = Unused | Running nat | Finished

record 'a janitor_state =
  j_content :: 'a
  j_stop :: bool
  j_stopped :: bool
  j_tick :: "time option"
  j_pc :: janitor_pc
  j_once :: once_state
  j_closers :: "closer_pc list"
  j_panic :: bool

definition j_New :: "'a \<Rightarrow> 'a janitor_state" where
  "j_New a = \<lparr>j_content = a, j_stop = False, j_stopped = False, j_tick = None, j_pc = Selecting,
    j_once = Unused, j_closers = [], j_panic = False\<rparr>"

section \<open>Steps\<close>

text \<open>\<open>close(ch)\<close>: panics when the channel is closed already.\<close>

definition close_stop :: "'a janitor_state \<Rightarrow> 'a janitor_state" where
  "close_stop s = (if j_stop s then s\<lparr>j_panic := True\<rparr> else s\<lparr>j_stop := True\<rparr>)"

definition close_stopped :: "'a janitor_state \<Rightarrow> 'a janitor_state" where
  "close_stopped s = (if j_stopped s then s\<lparr>j_panic := True\<rparr> else s\<lparr>j_stopped := True\<rparr>)"

text \<open>The ticker drops a tick when the previous one is still in its channel.\<close>

definition ticker :: "time \<Rightarrow> 'a janitor_state \<Rightarrow> 'a janitor_state" where
  "ticker now s = (if j_tick s = None then s\<lparr>j_tick := Some now\<rparr> else s)"

text \<open>The goroutine: \<open>prefer_stop\<close> is the choice of \<open>select\<close>, \<open>reading\<close> the clock at the sweep.\<close>

definition janitor_step ::
  "(time \<Rightarrow> time \<Rightarrow> 'a \<Rightarrow> 'a) \<Rightarrow> bool \<Rightarrow> time \<Rightarrow> 'a janitor_state \<Rightarrow> 'a janitor_state option" where
  "janitor_step swp prefer_stop reading s =
    (case j_pc s of
       Selecting \<Rightarrow>
         (if j_stop s \<and> (prefer_stop \<or> j_tick s = None) then Some (s\<lparr>j_pc := Returning\<rparr>)
          else (case j_tick s of
                  Some now \<Rightarrow> Some (s\<lparr>j_tick := None, j_pc := Sweeping now\<rparr>)
                | None \<Rightarrow> None))
     | Sweeping now \<Rightarrow> Some (s\<lparr>j_content := swp now reading (j_content s), j_pc := Selecting\<rparr>)
     | Returning \<Rightarrow> Some (close_stopped (s\<lparr>j_pc := Gone\<rparr>))
     | Gone \<Rightarrow> None)"

text \<open>A call of \<open>Close\<close>: \<open>sync.Once.Do\<close> returns at once when the function has run, and waits
  while another call runs it.\<close>

definition closer_step :: "nat \<Rightarrow> 'a janitor_state \<Rightarrow> 'a janitor_state option" where
  "closer_step i s =
    (if i < length (j_closers s) then
       (case j_closers s ! i of
          Entering \<Rightarrow>
            (case j_once s of
               Unused \<Rightarrow> Some (s\<lparr>j_once := Running i, j_closers := (j_closers s)[i := ClosingStop]\<rparr>)
             | Running _ \<Rightarrow> None
             | Finished \<Rightarrow> Some (s\<lparr>j_closers := (j_closers s)[i := Closed]\<rparr>))
        | ClosingStop \<Rightarrow> Some (close_stop (s\<lparr>j_closers := (j_closers s)[i := AwaitingStopped]\<rparr>))
        | AwaitingStopped \<Rightarrow>
            (if j_stopped s then Some (s\<lparr>j_once := Finished, j_closers := (j_closers s)[i := Closed]\<rparr>)
             else None)
        | Closed \<Rightarrow> None)
     else None)"

text \<open>The steps that need nothing from outside, and all steps.\<close>

inductive inner_step :: "(time \<Rightarrow> time \<Rightarrow> 'a \<Rightarrow> 'a) \<Rightarrow> 'a janitor_state \<Rightarrow> 'a janitor_state \<Rightarrow> bool" for swp where
  inner_janitor: "janitor_step swp b r s = Some s' \<Longrightarrow> inner_step swp s s'"
| inner_closer: "closer_step i s = Some s' \<Longrightarrow> inner_step swp s s'"

inductive j_step ::
  "(time \<Rightarrow> time \<Rightarrow> 'a \<Rightarrow> 'a) \<Rightarrow> ('a \<Rightarrow> 'a \<Rightarrow> bool) \<Rightarrow> 'a janitor_state \<Rightarrow> 'a janitor_state \<Rightarrow> bool"
  for swp act where
  j_inner: "inner_step swp s s' \<Longrightarrow> j_step swp act s s'"
| j_ticks: "j_step swp act s (ticker now s)"
| j_call: "j_step swp act s (s\<lparr>j_closers := j_closers s @ [Entering]\<rparr>)"
| j_act: "act (j_content s) a \<Longrightarrow> j_step swp act s (s\<lparr>j_content := a\<rparr>)"

inductive j_reach ::
  "(time \<Rightarrow> time \<Rightarrow> 'a \<Rightarrow> 'a) \<Rightarrow> ('a \<Rightarrow> 'a \<Rightarrow> bool) \<Rightarrow> 'a \<Rightarrow> 'a janitor_state \<Rightarrow> bool" for swp act a where
  j_reach_New: "j_reach swp act a (j_New a)"
| j_reach_step: "j_reach swp act a s \<Longrightarrow> j_step swp act s s' \<Longrightarrow> j_reach swp act a s'"

inductive_cases inner_stepE: "inner_step swp s s'"
inductive_cases j_stepE: "j_step swp act s s'"

section \<open>The two stores\<close>

text \<open>The cache sweeps at the tick's time, the limiter at a reading of its own clock.\<close>

definition cache_sweep :: "time \<Rightarrow> time \<Rightarrow> store \<Rightarrow> store" where
  "cache_sweep now reading = sweep now"

definition limiter_sweep :: "time \<Rightarrow> time \<Rightarrow> rl_store \<Rightarrow> rl_store" where
  "limiter_sweep now reading = sweep_rl reading"

inductive cache_act :: "store \<Rightarrow> store \<Rightarrow> bool" where
  act_get: "cache_act s (snd (Get now key s))"
| act_set: "Set now key v ttl w s = Some (b, s') \<Longrightarrow> cache_act s s'"
| act_delete: "cache_act s (snd (Delete key s))"

inductive limiter_act :: "fpu \<Rightarrow> rl_store \<Rightarrow> rl_store \<Rightarrow> bool" for M where
  act_take: "0 \<le> b \<Longrightarrow> rnd M b = b \<Longrightarrow> limiter_act M s (snd (Take_store M now key r b cost s))"

lemmas janitor_defs = janitor_step_def closer_step_def close_stop_def close_stopped_def ticker_def

end
