(* ===== verification/JanitorTheorems.thy ===== *)
theory JanitorTheorems
  imports Janitor
begin

text \<open>
  The protocol between \<open>Close\<close> and the janitor. \<open>j_inv\<close> relates the two channels, the
  \<open>sync.Once\<close> and the program counters; it is kept whatever is guarded. The locale \<open>guarded\<close>
  adds an invariant of the content that sweeps and operations keep; the cache and the limiter
  interpret it. \<open>j_rank\<close> bounds the steps that need no outside event.
\<close>

section \<open>The invariant of the protocol\<close>

definition once_inv :: "'a janitor_state \<Rightarrow> bool" where
  "once_inv s \<longleftrightarrow>
    (case j_once s of
       Unused \<Rightarrow> \<not> j_stop s \<and> (\<forall>c \<in> set (j_closers s). c = Entering)
     | Running i \<Rightarrow> i < length (j_closers s)
         \<and> (if j_stop s then j_closers s ! i = AwaitingStopped else j_closers s ! i = ClosingStop)
         \<and> (\<forall>k < length (j_closers s). k \<noteq> i \<longrightarrow> j_closers s ! k = Entering)
     | Finished \<Rightarrow> j_stop s \<and> j_pc s = Gone \<and> (\<forall>c \<in> set (j_closers s). c = Entering \<or> c = Closed))"

definition j_inv :: "'a janitor_state \<Rightarrow> bool" where
  "j_inv s \<longleftrightarrow> \<not> j_panic s \<and> (j_stopped s \<longleftrightarrow> j_pc s = Gone)
    \<and> (j_pc s = Returning \<or> j_pc s = Gone \<longrightarrow> j_stop s) \<and> once_inv s"

lemma j_inv_New: "j_inv (j_New a)"
  by (simp add: j_inv_def once_inv_def j_New_def)

lemma janitor_step_inv: "j_inv s \<Longrightarrow> janitor_step swp b r s = Some s' \<Longrightarrow> j_inv s'"
  by (cases "j_pc s")
    (auto simp: j_inv_def once_inv_def janitor_step_def close_stopped_def split: if_splits option.splits once_state.splits)

lemma set_update_other: "x \<in> set (xs[i := y]) \<Longrightarrow> x = y \<or> x \<in> set xs"
  using set_update_subset_insert by fastforce

lemma closer_step_inv:
  assumes "j_inv s" "closer_step i s = Some s'"
  shows "j_inv s'"
proof -
  have i: "i < length (j_closers s)" using assms(2) by (simp add: closer_step_def split: if_splits)
  then have mem: "j_closers s ! i \<in> set (j_closers s)" by simp
  show ?thesis
  proof (cases "j_once s")
    case Unused
    then have "\<forall>k < length (j_closers s). j_closers s ! k = Entering" "\<not> j_stop s"
      using assms(1) by (auto simp: j_inv_def once_inv_def)
    then show ?thesis using assms i Unused by (auto simp: j_inv_def once_inv_def closer_step_def)
  next
    case (Running k)
    then have k: "k < length (j_closers s)" "\<forall>m < length (j_closers s). m \<noteq> k \<longrightarrow> j_closers s ! m = Entering"
      "if j_stop s then j_closers s ! k = AwaitingStopped else j_closers s ! k = ClosingStop"
      using assms(1) by (auto simp: j_inv_def once_inv_def)
    have "i = k" using assms(2) Running k(2) i by (auto simp: closer_step_def)
    show ?thesis
    proof (cases "j_stop s")
      case False
      then show ?thesis
        using assms Running k i \<open>i = k\<close> by (auto simp: j_inv_def once_inv_def closer_step_def close_stop_def)
    next
      case True
      then have s': "s' = s\<lparr>j_once := Finished, j_closers := (j_closers s)[i := Closed]\<rparr>" "j_stopped s"
        using assms(2) k(3) i \<open>i = k\<close> by (auto simp: closer_step_def split: if_splits)
      have "c = Entering \<or> c = Closed" if c: "c \<in> set ((j_closers s)[i := Closed])" for c
      proof -
        obtain m where "m < length (j_closers s)" "c = (j_closers s)[i := Closed] ! m"
          using c unfolding in_set_conv_nth length_list_update by blast
        then show ?thesis using k(2) \<open>i = k\<close> by (cases "m = i") simp_all
      qed
      then show ?thesis using assms(1) True s' by (simp add: j_inv_def once_inv_def)
    qed
  next
    case Finished
    then have "j_closers s ! i = Entering \<or> j_closers s ! i = Closed"
      using assms(1) mem by (auto simp: j_inv_def once_inv_def)
    then have "s' = s\<lparr>j_closers := (j_closers s)[i := Closed]\<rparr>"
      using assms(2) i Finished by (auto simp: closer_step_def)
    then show ?thesis
      using assms(1) Finished by (auto simp: j_inv_def once_inv_def dest!: set_update_other)
  qed
qed

lemma inner_step_inv: "j_inv s \<Longrightarrow> inner_step swp s s' \<Longrightarrow> j_inv s'"
  by (auto elim!: inner_stepE intro: janitor_step_inv closer_step_inv)

lemma new_call_inv: "j_inv s \<Longrightarrow> j_inv (s\<lparr>j_closers := j_closers s @ [Entering]\<rparr>)"
  by (auto simp: j_inv_def once_inv_def nth_append less_Suc_eq split: once_state.splits)

lemma j_step_inv: "j_inv s \<Longrightarrow> j_step swp act s s' \<Longrightarrow> j_inv s'"
proof (erule j_stepE)
  fix now assume "j_inv s" "s' = ticker now s"
  then show "j_inv s'" by (auto simp: j_inv_def once_inv_def ticker_def split: once_state.splits)
next
  fix a assume "j_inv s" "s' = s\<lparr>j_content := a\<rparr>"
  then show "j_inv s'" by (auto simp: j_inv_def once_inv_def split: once_state.splits)
qed (simp_all add: inner_step_inv new_call_inv)

lemma j_reach_inv: "j_reach swp act a s \<Longrightarrow> j_inv s"
  by (induction rule: j_reach.induct) (auto intro: j_inv_New j_step_inv)

section \<open>What stays as it is\<close>

lemma gone_inner: "j_pc s = Gone \<Longrightarrow> inner_step swp s s' \<Longrightarrow> j_pc s' = Gone \<and> j_content s' = j_content s"
  by (auto elim!: inner_stepE simp: janitor_defs split: if_splits closer_pc.splits once_state.splits)

lemma gone_stays:
  "j_pc s = Gone \<Longrightarrow> j_step swp act s s' \<Longrightarrow> j_pc s' = Gone \<and> (j_content s' = j_content s \<or> act (j_content s) (j_content s'))"
  by (auto elim!: j_stepE dest: gone_inner simp: ticker_def)

lemma gone_forever:
  "rtranclp (j_step swp act) s s' \<Longrightarrow> j_pc s = Gone \<Longrightarrow> j_pc s' = Gone \<and> rtranclp act (j_content s) (j_content s')"
proof (induction rule: rtranclp_induct)
  case (step y z)
  then show ?case using gone_stays [of y swp act z] by (auto intro: rtranclp.rtrancl_into_rtrancl)
qed simp

lemma closed_gone: "j_inv s \<Longrightarrow> Closed \<in> set (j_closers s) \<Longrightarrow> j_pc s = Gone"
  by (auto simp: j_inv_def once_inv_def in_set_conv_nth split: once_state.splits if_splits)

section \<open>Progress\<close>

fun closer_rank :: "closer_pc \<Rightarrow> nat" where
  "closer_rank Entering = 3"
| "closer_rank ClosingStop = 2"
| "closer_rank AwaitingStopped = 1"
| "closer_rank Closed = 0"

fun pc_rank :: "janitor_pc \<Rightarrow> nat" where
  "pc_rank Selecting = 2"
| "pc_rank (Sweeping now) = 3"
| "pc_rank Returning = 1"
| "pc_rank Gone = 0"

definition j_rank :: "'a janitor_state \<Rightarrow> nat" where
  "j_rank s = pc_rank (j_pc s) + (if j_tick s = None then 0 else 2) + sum_list (map closer_rank (j_closers s))"

lemma sum_list_lower: "i < length xs \<Longrightarrow> f y < f (xs ! i) \<Longrightarrow> sum_list (map f (xs[i := y])) < (sum_list (map f xs) :: nat)"
  by (induction xs arbitrary: i) (auto simp: nth_Cons split: nat.splits)

lemma inner_step_rank: "inner_step swp s s' \<Longrightarrow> j_rank s' < j_rank s"
proof (erule inner_stepE)
  fix b r assume "janitor_step swp b r s = Some s'"
  then show "j_rank s' < j_rank s"
    by (auto simp: j_rank_def janitor_step_def close_stopped_def split: if_splits option.splits janitor_pc.splits)
next
  fix i assume a: "closer_step i s = Some s'"
  then have i: "i < length (j_closers s)" by (simp add: closer_step_def split: if_splits)
  obtain c where "j_closers s' = (j_closers s)[i := c]" "closer_rank c < closer_rank (j_closers s ! i)"
      "j_pc s' = j_pc s" "j_tick s' = j_tick s"
    using a by (cases "j_closers s ! i") (auto simp: closer_step_def close_stop_def split: if_splits once_state.splits)
  then show "j_rank s' < j_rank s" using sum_list_lower [OF i] by (simp add: j_rank_def)
qed

lemma j_rank_bound: "j_rank s \<le> 5 + 3 * length (j_closers s)"
proof -
  have "closer_rank c \<le> 3" for c by (cases c) simp_all
  then have "sum_list (map closer_rank xs) \<le> 3 * length xs" for xs
    by (induction xs) (auto intro: add_mono)
  moreover have "pc_rank (j_pc s) \<le> 3" by (cases "j_pc s") simp_all
  moreover have "(if j_tick s = None then 0 else 2) \<le> (2 :: nat)" by simp
  ultimately have "j_rank s \<le> 3 + 2 + 3 * length (j_closers s)"
    unfolding j_rank_def by (intro add_mono)
  then show ?thesis by simp
qed

lemma inner_closers: "inner_step swp s s' \<Longrightarrow> length (j_closers s') = length (j_closers s)"
  by (auto elim!: inner_stepE simp: janitor_defs split: if_splits closer_pc.splits once_state.splits janitor_pc.splits option.splits)

lemma inner_run:
  "(inner_step swp ^^ n) s s' \<Longrightarrow> n + j_rank s' \<le> j_rank s \<and> length (j_closers s') = length (j_closers s) \<and> (j_inv s \<longrightarrow> j_inv s')"
proof (induction n arbitrary: s')
  case (Suc n)
  then obtain t where "(inner_step swp ^^ n) s t" "inner_step swp t s'" by auto
  with Suc.IH [of t] inner_step_rank [of swp t s'] inner_closers [of swp t s'] inner_step_inv [of t swp s']
  show ?case by auto
qed simp

lemma no_deadlock:
  assumes "j_inv s" "c \<in> set (j_closers s)" "c \<noteq> Closed"
  shows "\<exists>s'. inner_step swp s s'"
proof -
  obtain i where i: "i < length (j_closers s)" "j_closers s ! i = c" using assms(2) by (auto simp: in_set_conv_nth)
  show ?thesis
  proof (cases "j_once s")
    case (Running k)
    then have k: "k < length (j_closers s)"
      "if j_stop s then j_closers s ! k = AwaitingStopped else j_closers s ! k = ClosingStop"
      using assms(1) by (auto simp: j_inv_def once_inv_def)
    show ?thesis
    proof (cases "j_stop s \<and> \<not> j_stopped s")
      case True
      then have "janitor_step swp True 0 s \<noteq> None"
        using assms(1) by (cases "j_pc s") (auto simp: j_inv_def janitor_step_def)
      then show ?thesis by (auto intro: inner_janitor)
    next
      case False
      then have "closer_step k s \<noteq> None" using k by (cases "j_stop s") (simp_all add: closer_step_def)
      then show ?thesis by (auto intro: inner_closer)
    qed
  next
    case Unused
    then have "closer_step i s \<noteq> None"
      using assms(1,2) i by (auto simp: j_inv_def once_inv_def closer_step_def)
    then show ?thesis by (auto intro: inner_closer)
  next
    case Finished
    then have "closer_step i s \<noteq> None"
      using assms i by (auto simp: j_inv_def once_inv_def closer_step_def)
    then show ?thesis by (auto intro: inner_closer)
  qed
qed

section \<open>The guarded content\<close>

locale guarded =
  fixes swp :: "time \<Rightarrow> time \<Rightarrow> 'a \<Rightarrow> 'a"
    and act :: "'a \<Rightarrow> 'a \<Rightarrow> bool"
    and ok :: "'a \<Rightarrow> bool"
  assumes ok_swp: "ok a \<Longrightarrow> ok (swp now r a)"
    and ok_act: "ok a \<Longrightarrow> act a a' \<Longrightarrow> ok a'"
begin

lemma ok_inner: "ok (j_content s) \<Longrightarrow> inner_step swp s s' \<Longrightarrow> ok (j_content s')"
  by (auto elim!: inner_stepE simp: janitor_defs ok_swp
      split: if_splits closer_pc.splits once_state.splits janitor_pc.splits option.splits)

lemma ok_step: "ok (j_content s) \<Longrightarrow> j_step swp act s s' \<Longrightarrow> ok (j_content s')"
  by (auto elim!: j_stepE intro: ok_inner ok_act simp: ticker_def)

lemma ok_reach: "j_reach swp act a s \<Longrightarrow> ok a \<Longrightarrow> ok (j_content s)"
  by (induction rule: j_reach.induct) (auto intro: ok_step simp: j_New_def)

end

lemma cache_act_inv: "store_inv s \<Longrightarrow> cache_act s s' \<Longrightarrow> store_inv s'"
proof (erule cache_act.cases)
  fix now key v ttl w s1 b s2 assume a: "store_inv s" "s = s1" "s' = s2" "Set now key v ttl w s1 = Some (b, s2)"
  obtain b' s3 where "Set now key v ttl w s = Some (b', s3)" "store_inv s3" using Set_refines [OF a(1)] by metis
  with a show "store_inv s'" by simp
qed (simp_all add: Get_refines Delete_refines)

interpretation cache: guarded cache_sweep cache_act store_inv
  by unfold_locales (auto simp: cache_sweep_def sweep_refines cache_act_inv)

lemma limiter_act_inv: "rl_inv (fpu_of A) s \<Longrightarrow> limiter_act (fpu_of A) s s' \<Longrightarrow> rl_inv (fpu_of A) s'"
  by (erule limiter_act.cases) (auto intro: go.Take_store_inv)

interpretation limiter: guarded limiter_sweep "limiter_act (fpu_of A)" "rl_inv (fpu_of A)"
  by unfold_locales (auto simp: limiter_sweep_def sweep_rl_inv limiter_act_inv)

section \<open>Close\<close>

text \<open>
  Whatever calls of \<open>Close\<close>, operations, ticks and sweeps interleave, no channel is closed
  twice and both stores stay well formed. Once any call of \<open>Close\<close> has returned, the janitor
  has ended for good: from then on the content changes only by the operations of the callers.
\<close>

theorem close_stops_the_janitor:
  assumes "j_reach cache_sweep cache_act (New_store cap) s"
    and "j_reach limiter_sweep (limiter_act (fpu_of A)) (NewStore lcap idle) l"
  shows "\<not> j_panic s \<and> \<not> j_panic l \<and> store_inv (j_content s) \<and> rl_inv (fpu_of A) (j_content l)
    \<and> (Closed \<in> set (j_closers s) \<and> rtranclp (j_step cache_sweep cache_act) s s' \<longrightarrow>
        j_pc s' = Gone \<and> rtranclp cache_act (j_content s) (j_content s'))
    \<and> (Closed \<in> set (j_closers l) \<and> rtranclp (j_step limiter_sweep (limiter_act (fpu_of A))) l l' \<longrightarrow>
        j_pc l' = Gone \<and> rtranclp (limiter_act (fpu_of A)) (j_content l) (j_content l'))"
proof -
  note s = j_reach_inv [OF assms(1)] and l = j_reach_inv [OF assms(2)]
  have "\<not> j_panic s" "\<not> j_panic l" using s l by (simp_all add: j_inv_def)
  moreover have "store_inv (j_content s)" by (rule cache.ok_reach [OF assms(1) New_refines(1)])
  moreover have "rl_inv (fpu_of A) (j_content l)" by (rule limiter.ok_reach [OF assms(2) NewStore_inv])
  moreover have "j_pc s' = Gone \<and> rtranclp cache_act (j_content s) (j_content s')"
    if "Closed \<in> set (j_closers s) \<and> rtranclp (j_step cache_sweep cache_act) s s'"
    using that closed_gone [OF s] gone_forever [of cache_sweep cache_act s s'] by simp
  moreover have "j_pc l' = Gone \<and> rtranclp (limiter_act (fpu_of A)) (j_content l) (j_content l')"
    if "Closed \<in> set (j_closers l) \<and> rtranclp (j_step limiter_sweep (limiter_act (fpu_of A))) l l'"
    using that closed_gone [OF l] gone_forever [of limiter_sweep "limiter_act (fpu_of A)" l l'] by simp
  ultimately show ?thesis by blast
qed

text \<open>
  Every call of \<open>Close\<close> returns. Without further ticks and calls the janitor and the
  callers make at most \<open>5 + 3 * calls\<close> steps, and when none of them can move, every call has
  returned: no two callers, and no caller and the janitor, wait for each other.
\<close>

theorem close_always_returns:
  assumes "j_reach swp act a s" "(inner_step swp ^^ n) s s'"
  shows "n \<le> 5 + 3 * length (j_closers s)
    \<and> (\<not> (\<exists>s''. inner_step swp s' s'') \<longrightarrow>
        length (j_closers s') = length (j_closers s) \<and> (\<forall>c \<in> set (j_closers s'). c = Closed))"
proof -
  note run = inner_run [OF assms(2)]
  have "n \<le> 5 + 3 * length (j_closers s)" using run j_rank_bound [of s] by linarith
  moreover have "j_inv s'" using run j_reach_inv [OF assms(1)] by blast
  ultimately show ?thesis using run no_deadlock by blast
qed

section \<open>Two calls of Close beside a sweep\<close>

text \<open>A run with a tick taken, a sweep, and two calls of \<open>Close\<close>; \<open>None\<close> if a step is not enabled.\<close>

definition two_closes :: "(time \<Rightarrow> time \<Rightarrow> 'a \<Rightarrow> 'a) \<Rightarrow> 'a janitor_state \<Rightarrow> 'a janitor_state option" where
  "two_closes swp s0 =
    Option.bind (janitor_step swp False 7 (ticker 5 s0)) (\<lambda>s1.
    Option.bind (closer_step 1 (s1\<lparr>j_closers := [Entering, Entering]\<rparr>)) (\<lambda>s2.
    Option.bind (closer_step 1 s2) (\<lambda>s3.
    Option.bind (janitor_step swp True 7 s3) (\<lambda>s4.
    Option.bind (janitor_step swp True 7 s4) (\<lambda>s5.
    Option.bind (janitor_step swp True 7 s5) (\<lambda>s6. closer_step 1 s6))))))"

definition after_two :: "'a \<Rightarrow> 'a janitor_state" where
  "after_two a = \<lparr>j_content = a, j_stop = True, j_stopped = True, j_tick = None, j_pc = Gone,
    j_once = Finished, j_closers = [Entering, Closed], j_panic = False\<rparr>"

lemma two_closes_run: "two_closes swp (j_New a) = Some (after_two (swp 5 7 a))"
  by (simp add: two_closes_def j_New_def after_two_def janitor_defs)

lemma two_closes_reach: "j_reach swp act a (after_two (swp 5 7 a))"
proof -
  have new: "j_reach swp act a (ticker 5 (j_New a))" by (intro j_reach_step [OF j_reach_New] j_ticks)
  have jan: "j_reach swp act a s \<Longrightarrow> janitor_step swp b r s = Some s' \<Longrightarrow> j_reach swp act a s'" for s s' b r
    by (rule j_reach_step [OF _ j_inner [OF inner_janitor]])
  have clo: "j_reach swp act a s \<Longrightarrow> closer_step i s = Some s' \<Longrightarrow> j_reach swp act a s'" for s s' i
    by (rule j_reach_step [OF _ j_inner [OF inner_closer]])
  have call: "j_reach swp act a s \<Longrightarrow> j_closers s = cs \<Longrightarrow> j_reach swp act a (s\<lparr>j_closers := cs @ [Entering]\<rparr>)" for s cs
    using j_reach_step [OF _ j_call, of swp act a s] by simp
  obtain s1 s2 s3 s4 s5 s6 where run: "janitor_step swp False 7 (ticker 5 (j_New a)) = Some s1"
      "closer_step 1 (s1\<lparr>j_closers := [Entering, Entering]\<rparr>) = Some s2" "closer_step 1 s2 = Some s3"
      "janitor_step swp True 7 s3 = Some s4" "janitor_step swp True 7 s4 = Some s5" "janitor_step swp True 7 s5 = Some s6"
      "closer_step 1 s6 = Some (after_two (swp 5 7 a))"
    using two_closes_run [of swp a] unfolding two_closes_def bind_eq_Some_conv by blast
  have "s1 = (j_New a)\<lparr>j_pc := Sweeping 5\<rparr>" using run(1) by (simp add: j_New_def janitor_defs)
  then have "j_closers s1 = []" by (simp add: j_New_def)
  then have "j_reach swp act a (s1\<lparr>j_closers := [Entering, Entering]\<rparr>)"
    using call [OF call [OF jan [OF new run(1)] \<open>j_closers s1 = []\<close>], of "[Entering]"] by simp
  then have "j_reach swp act a s3" by (rule clo [OF clo [OF _ run(2)] run(3)])
  then show ?thesis by (rule clo [OF jan [OF jan [OF jan [OF _ run(4)] run(5)] run(6)] run(7)])
qed

theorem close_stops_the_janitor_witness:
  "\<not> j_panic (after_two (cache_sweep 5 7 (New_store 3))) \<and> store_inv (cache_sweep 5 7 (New_store 3))
    \<and> j_pc (ticker 9 (after_two (cache_sweep 5 7 (New_store 3)))) = Gone"
proof -
  let ?s = "after_two (cache_sweep 5 7 (New_store 3))"
  have at: "Closed \<in> set (j_closers ?s)" "j_content ?s = cache_sweep 5 7 (New_store 3)"
    by (simp_all add: after_two_def)
  have "rtranclp (j_step cache_sweep cache_act) ?s (ticker 9 ?s)" by (intro r_into_rtranclp j_ticks)
  then show ?thesis
    using close_stops_the_janitor [OF two_closes_reach [of cache_sweep cache_act "New_store 3"]
        two_closes_reach [of limiter_sweep "limiter_act (fpu_of AMD64)" "NewStore 9 60"], of "ticker 9 ?s"] at
    by auto
qed

theorem close_always_returns_witness:
  "\<exists>s'. (inner_step cache_sweep ^^ 1) (after_two (cache_sweep 5 7 (New_store 3))) s' \<and> j_closers s' = [Closed, Closed]"
proof -
  let ?s = "after_two (cache_sweep 5 7 (New_store 3))" and ?t = "after_two (cache_sweep 5 7 (New_store 3))\<lparr>j_closers := [Closed, Closed]\<rparr>"
  have "closer_step 0 ?s = Some ?t" by (simp add: closer_step_def after_two_def)
  then have run: "(inner_step cache_sweep ^^ 1) ?s ?t" by (simp add: eq_OO inner_closer)
  have "\<not> (\<exists>s''. inner_step cache_sweep ?t s'')"
    by (auto elim!: inner_stepE simp: janitor_step_def closer_step_def after_two_def nth_Cons split: if_splits nat.splits)
  then have "length (j_closers ?t) = 2 \<and> (\<forall>c \<in> set (j_closers ?t). c = Closed)"
    using close_always_returns [OF two_closes_reach run] by (simp add: after_two_def)
  then have "j_closers ?t = [Closed, Closed]" by (simp add: after_two_def)
  with run show ?thesis by blast
qed

end
