(* ===== verification/NodeClose.thy ===== *)
theory NodeClose
  imports JanitorTheorems
begin

text \<open>
  \<open>Close\<close> of a node (\<open>internal/node/node.go\<close>) over the two stores, each with its janitor: it
  closes the cache and, when that has returned, the limiter. Calls of it are threads that go on
  step by step beside the janitors, the tickers and the operations of both stores.
\<close>

section \<open>Steps\<close>

text \<open>The janitor and \<open>Close\<close> of the limiter's store: the same code around its own sweep.\<close>

definition limiter_janitor :: "bool \<Rightarrow> time \<Rightarrow> rl_store janitor_state \<Rightarrow> rl_store janitor_state option" where
  limiter_janitor_def [simp]: "limiter_janitor prefer_stop reading s = janitor_step limiter_sweep prefer_stop reading s"

definition limiter_Close :: "nat \<Rightarrow> rl_store janitor_state \<Rightarrow> rl_store janitor_state option" where
  limiter_Close_def [simp]: "limiter_Close k s = closer_step k s"

text \<open>A call inside \<open>n.store.Close()\<close>, inside \<open>n.rl.Close()\<close> (its place among the calls there), or done.\<close>

datatype node_closer = InStore nat | InLimiter nat | Returned

record node_janitors =
  nj_store :: "store janitor_state"
  nj_limiter :: "rl_store janitor_state"
  nj_closers :: "node_closer list"

definition nj_New :: "store \<Rightarrow> rl_store \<Rightarrow> node_janitors" where
  "nj_New s l = \<lparr>nj_store = j_New s, nj_limiter = j_New l, nj_closers = []\<rparr>"

definition new_call :: "'a janitor_state \<Rightarrow> 'a janitor_state" where
  "new_call s = s\<lparr>j_closers := j_closers s @ [Entering]\<rparr>"

definition node_Close :: "node_janitors \<Rightarrow> node_janitors" where
  "node_Close s = s\<lparr>nj_store := new_call (nj_store s), nj_closers := nj_closers s @ [InStore (length (j_closers (nj_store s)))]\<rparr>"

definition node_close_step :: "nat \<Rightarrow> node_janitors \<Rightarrow> node_janitors option" where
  "node_close_step i s =
    (if i < length (nj_closers s) then
       (case nj_closers s ! i of
          InStore k \<Rightarrow>
            (if j_closers (nj_store s) ! k = Closed then
               Some (s\<lparr>nj_limiter := new_call (nj_limiter s),
                       nj_closers := (nj_closers s)[i := InLimiter (length (j_closers (nj_limiter s)))]\<rparr>)
             else map_option (\<lambda>j. s\<lparr>nj_store := j\<rparr>) (closer_step k (nj_store s)))
        | InLimiter k \<Rightarrow>
            (if j_closers (nj_limiter s) ! k = Closed then Some (s\<lparr>nj_closers := (nj_closers s)[i := Returned]\<rparr>)
             else map_option (\<lambda>j. s\<lparr>nj_limiter := j\<rparr>) (limiter_Close k (nj_limiter s)))
        | Returned \<Rightarrow> None)
     else None)"

text \<open>What the node does by itself, and all steps.\<close>

inductive node_inner :: "node_janitors \<Rightarrow> node_janitors \<Rightarrow> bool" where
  inner_store: "janitor_step cache_sweep b r (nj_store s) = Some j \<Longrightarrow> node_inner s (s\<lparr>nj_store := j\<rparr>)"
| inner_limiter: "limiter_janitor b r (nj_limiter s) = Some j \<Longrightarrow> node_inner s (s\<lparr>nj_limiter := j\<rparr>)"
| inner_close: "node_close_step i s = Some s' \<Longrightarrow> node_inner s s'"

inductive nj_step :: "fpu \<Rightarrow> node_janitors \<Rightarrow> node_janitors \<Rightarrow> bool" for M where
  nj_inner: "node_inner s s' \<Longrightarrow> nj_step M s s'"
| nj_store_tick: "nj_step M s (s\<lparr>nj_store := ticker now (nj_store s)\<rparr>)"
| nj_limiter_tick: "nj_step M s (s\<lparr>nj_limiter := ticker now (nj_limiter s)\<rparr>)"
| nj_cache_op: "cache_act (j_content (nj_store s)) a
    \<Longrightarrow> nj_step M s (s\<lparr>nj_store := (nj_store s)\<lparr>j_content := a\<rparr>\<rparr>)"
| nj_take: "limiter_act M (j_content (nj_limiter s)) a
    \<Longrightarrow> nj_step M s (s\<lparr>nj_limiter := (nj_limiter s)\<lparr>j_content := a\<rparr>\<rparr>)"
| nj_call: "nj_step M s (node_Close s)"

inductive nj_reach :: "fpu \<Rightarrow> store \<Rightarrow> rl_store \<Rightarrow> node_janitors \<Rightarrow> bool" for M a l where
  nj_reach_New: "nj_reach M a l (nj_New a l)"
| nj_reach_step: "nj_reach M a l s \<Longrightarrow> nj_step M s s' \<Longrightarrow> nj_reach M a l s'"

inductive_cases node_innerE: "node_inner s s'"
inductive_cases nj_stepE: "nj_step M s s'"

section \<open>The parts of a node\<close>

lemma close_step_store:
  assumes "node_close_step i s = Some s'"
  shows "nj_store s' = nj_store s \<or> (\<exists>k. closer_step k (nj_store s) = Some (nj_store s'))"
    and "nj_limiter s' = nj_limiter s \<or> nj_limiter s' = new_call (nj_limiter s)
      \<or> (\<exists>k. closer_step k (nj_limiter s) = Some (nj_limiter s'))"
  using assms by (auto simp: node_close_step_def split: if_splits node_closer.splits)

lemma step_store:
  assumes "nj_step M s s'"
  shows "nj_store s' = nj_store s \<or> j_step cache_sweep cache_act (nj_store s) (nj_store s')"
  using assms
proof (cases rule: nj_step.cases)
  case nj_inner
  then show ?thesis
  proof (cases rule: node_inner.cases)
    case (inner_close i)
    from close_step_store(1) [OF this] show ?thesis by (auto intro: j_inner inner_closer)
  qed (auto intro: j_inner inner_janitor)
qed (auto simp: node_Close_def new_call_def intro: j_ticks j_act j_call)

lemma step_limiter:
  assumes "nj_step M s s'"
  shows "nj_limiter s' = nj_limiter s \<or> j_step limiter_sweep (limiter_act M) (nj_limiter s) (nj_limiter s')"
  using assms
proof (cases rule: nj_step.cases)
  case nj_inner
  then show ?thesis
  proof (cases rule: node_inner.cases)
    case (inner_close i)
    from close_step_store(2) [OF this] show ?thesis by (auto simp: new_call_def intro: j_inner inner_closer j_call)
  qed (auto intro: j_inner inner_janitor)
qed (auto simp: node_Close_def intro: j_ticks j_act)

lemma node_parts:
  "nj_reach M a l s \<Longrightarrow> j_reach cache_sweep cache_act a (nj_store s)
    \<and> j_reach limiter_sweep (limiter_act M) l (nj_limiter s)"
proof (induction rule: nj_reach.induct)
  case nj_reach_New
  then show ?case by (simp add: nj_New_def j_reach_New)
next
  case (nj_reach_step s s')
  then show ?case using step_store [OF nj_reach_step(2)] step_limiter [OF nj_reach_step(2)]
    by (metis j_reach_step)
qed

section \<open>The calls of a node and those of its stores\<close>

text \<open>
  Every call of a store's \<open>Close\<close> that has not returned is the one some call of the node's is
  in, and a call of the node's is past a store only when that store is closed.
\<close>

definition called :: "closer_pc list \<Rightarrow> closer_pc list \<Rightarrow> node_closer \<Rightarrow> bool" where
  "called cs ls c = (case c of
     InStore k \<Rightarrow> k < length cs
   | InLimiter k \<Rightarrow> k < length ls \<and> Closed \<in> set cs
   | Returned \<Rightarrow> Closed \<in> set cs \<and> Closed \<in> set ls)"

definition calls_ok :: "closer_pc list \<Rightarrow> closer_pc list \<Rightarrow> node_closer list \<Rightarrow> bool" where
  "calls_ok cs ls ns \<longleftrightarrow> (\<forall>c \<in> set ns. called cs ls c)
    \<and> (\<forall>k < length cs. cs ! k \<noteq> Closed \<longrightarrow> InStore k \<in> set ns)
    \<and> (\<forall>k < length ls. ls ! k \<noteq> Closed \<longrightarrow> InLimiter k \<in> set ns)"

abbreviation node_calls_ok :: "node_janitors \<Rightarrow> bool" where
  "node_calls_ok s \<equiv> calls_ok (j_closers (nj_store s)) (j_closers (nj_limiter s)) (nj_closers s)"

text \<open>A step of a call that is not over moves that call alone.\<close>

lemma closer_step_moves:
  assumes "closer_step k s = Some s'"
  shows "k < length (j_closers s)" "j_closers s ! k \<noteq> Closed" "\<exists>c. j_closers s' = (j_closers s)[k := c]"
  using assms by (auto simp: closer_step_def close_stop_def split: if_splits closer_pc.splits once_state.splits)

lemma janitor_step_closers: "janitor_step swp b r s = Some s' \<Longrightarrow> j_closers s' = j_closers s"
  by (auto simp: janitor_step_def close_stopped_def split: if_splits janitor_pc.splits option.splits)

lemma ticker_closers [simp]: "j_closers (ticker now s) = j_closers s"
  by (simp add: ticker_def)

lemma closed_update: "Closed \<in> set cs \<Longrightarrow> cs ! k \<noteq> Closed \<Longrightarrow> Closed \<in> set (cs[k := c])"
  by (metis in_set_conv_nth length_list_update nth_list_update_neq)

lemma called_update:
  "called cs ls x \<Longrightarrow> cs ! k \<noteq> Closed \<Longrightarrow> called (cs[k := c]) ls x"
  "called cs ls x \<Longrightarrow> ls ! k \<noteq> Closed \<Longrightarrow> called cs (ls[k := c]) x"
  by (auto simp: called_def closed_update split: node_closer.splits)

lemma calls_ok_closer:
  "calls_ok cs ls ns \<Longrightarrow> cs ! k \<noteq> Closed \<Longrightarrow> InStore k \<in> set ns \<Longrightarrow> calls_ok (cs[k := c]) ls ns"
  "calls_ok cs ls ns \<Longrightarrow> ls ! k \<noteq> Closed \<Longrightarrow> InLimiter k \<in> set ns \<Longrightarrow> calls_ok cs (ls[k := c]) ns"
  unfolding calls_ok_def using called_update by (auto, (metis nth_list_update_neq)+)

lemma update_keeps: "x \<in> set xs \<Longrightarrow> i < length xs \<Longrightarrow> x \<noteq> xs ! i \<Longrightarrow> x \<in> set (xs[i := y])"
  by (metis in_set_conv_nth length_list_update nth_list_update_neq)

lemma calls_ok_moved:
  "calls_ok (j_closers s) ls ns \<Longrightarrow> closer_step k s = Some z \<Longrightarrow> InStore k \<in> set ns \<Longrightarrow> calls_ok (j_closers z) ls ns"
  "calls_ok cs (j_closers l) ns \<Longrightarrow> closer_step k l = Some y \<Longrightarrow> InLimiter k \<in> set ns \<Longrightarrow> calls_ok cs (j_closers y) ns"
  using closer_step_moves(2,3) [of k s z] closer_step_moves(2,3) [of k l y] calls_ok_closer by metis+

text \<open>A call that has left the cache enters the limiter; one that has left the limiter returns.\<close>

lemma in_update: "x \<in> set (xs[i := y]) \<Longrightarrow> x = y \<or> x \<in> set xs"
  using set_update_subset_insert by fastforce

lemma calls_ok_next:
  assumes ok: "calls_ok cs ls ns" and i: "i < length ns" "ns ! i = InStore k" and k: "cs ! k = Closed"
  shows "calls_ok cs (ls @ [Entering]) (ns[i := InLimiter (length ls)])"
proof -
  have "InStore k \<in> set ns" using i by (metis nth_mem)
  then have "k < length cs" using ok by (auto simp: calls_ok_def called_def)
  then have closed: "Closed \<in> set cs" using k by (metis nth_mem)
  have "\<forall>c \<in> set (ns[i := InLimiter (length ls)]). called cs (ls @ [Entering]) c"
    using ok closed in_update [of _ ns i] by (fastforce simp: calls_ok_def called_def split: node_closer.splits)
  moreover have "\<forall>j < length cs. cs ! j \<noteq> Closed \<longrightarrow> InStore j \<in> set (ns[i := InLimiter (length ls)])"
    using ok k i update_keeps [OF _ i(1)] unfolding calls_ok_def by (metis node_closer.inject(1))
  moreover have "\<forall>j < Suc (length ls). (ls @ [Entering]) ! j \<noteq> Closed \<longrightarrow> InLimiter j \<in> set (ns[i := InLimiter (length ls)])"
    using ok i update_keeps [OF _ i(1)] set_update_memI [OF i(1)] unfolding calls_ok_def
    by (metis less_Suc_eq node_closer.distinct(1) nth_append)
  ultimately show ?thesis by (simp add: calls_ok_def)
qed

lemma calls_ok_return:
  assumes ok: "calls_ok cs ls ns" and i: "i < length ns" "ns ! i = InLimiter k" and k: "ls ! k = Closed"
  shows "calls_ok cs ls (ns[i := Returned])"
proof -
  have "InLimiter k \<in> set ns" using i by (metis nth_mem)
  then have here: "k < length ls" "Closed \<in> set cs" using ok by (auto simp: calls_ok_def called_def)
  then have closed: "Closed \<in> set ls" using k by (metis nth_mem)
  have "\<forall>c \<in> set (ns[i := Returned]). called cs ls c"
    using ok closed here(2) in_update [of _ ns i] by (fastforce simp: calls_ok_def called_def)
  moreover have "\<forall>j < length cs. cs ! j \<noteq> Closed \<longrightarrow> InStore j \<in> set (ns[i := Returned])"
    using ok i update_keeps [OF _ i(1)] unfolding calls_ok_def by (metis node_closer.distinct(1))
  moreover have "\<forall>j < length ls. ls ! j \<noteq> Closed \<longrightarrow> InLimiter j \<in> set (ns[i := Returned])"
    using ok k i update_keeps [OF _ i(1)] unfolding calls_ok_def by (metis node_closer.inject(2))
  ultimately show ?thesis by (simp add: calls_ok_def)
qed

lemma calls_ok_close_step:
  assumes ok: "node_calls_ok s" and step: "node_close_step i s = Some s'"
  shows "node_calls_ok s'"
proof -
  have i: "i < length (nj_closers s)" using step by (simp add: node_close_step_def split: if_splits)
  then have here: "nj_closers s ! i \<in> set (nj_closers s)" by simp
  show ?thesis
  proof (cases "nj_closers s ! i")
    case (InStore k)
    then show ?thesis
      using step i here calls_ok_next [OF ok i InStore] calls_ok_moved(1) [OF ok]
      by (auto simp: node_close_step_def new_call_def split: if_splits)
  next
    case (InLimiter k)
    then show ?thesis
      using step i here calls_ok_return [OF ok i InLimiter] calls_ok_moved(2) [OF ok]
      by (auto simp: node_close_step_def split: if_splits)
  qed (use step i in \<open>simp add: node_close_step_def\<close>)
qed

lemma calls_ok_call:
  assumes "node_calls_ok s"
  shows "node_calls_ok (node_Close s)"
proof -
  have "called cs ls c \<Longrightarrow> called (cs @ [Entering]) ls c" for cs ls c
    by (auto simp: called_def split: node_closer.splits)
  then show ?thesis
    using assms by (auto simp: calls_ok_def node_Close_def new_call_def nth_append less_Suc_eq called_def)
qed

lemma calls_ok_inner: "node_calls_ok s \<Longrightarrow> node_inner s s' \<Longrightarrow> node_calls_ok s'"
  by (erule node_innerE) (auto simp: janitor_step_closers calls_ok_close_step)

lemma calls_ok_step: "node_calls_ok s \<Longrightarrow> nj_step M s s' \<Longrightarrow> node_calls_ok s'"
  by (erule nj_stepE) (auto simp: calls_ok_call intro: calls_ok_inner)

lemma nj_reach_calls: "nj_reach M a l s \<Longrightarrow> node_calls_ok s"
proof (induction rule: nj_reach.induct)
  case nj_reach_New
  then show ?case by (simp add: nj_New_def j_New_def calls_ok_def)
qed (rule calls_ok_step)

section \<open>Progress\<close>

fun call_weight :: "node_closer \<Rightarrow> nat" where
  "call_weight (InStore k) = 5"
| "call_weight (InLimiter k) = 1"
| "call_weight Returned = 0"

definition nj_rank :: "node_janitors \<Rightarrow> nat" where
  "nj_rank s = j_rank (nj_store s) + j_rank (nj_limiter s) + sum_list (map call_weight (nj_closers s))"

lemma close_step_rank:
  assumes "node_close_step i s = Some s'"
  shows "nj_rank s' < nj_rank s"
proof -
  have i: "i < length (nj_closers s)" using assms by (simp add: node_close_step_def split: if_splits)
  have drop: "sum_list (map call_weight ((nj_closers s)[i := y])) + call_weight (nj_closers s ! i)
      = sum_list (map call_weight (nj_closers s)) + call_weight y" for y
    using i by (rule sum_list_swap)
  have less: "j_rank j < j_rank s1" if "closer_step k s1 = Some j" for k and s1 j :: "'z janitor_state"
    by (rule inner_step_rank [of "\<lambda>_ _ x. x"]) (rule inner_closer [OF that])
  have "j_rank (new_call s1) = j_rank s1 + 3" for s1 :: "rl_store janitor_state"
    by (simp add: j_rank_def new_call_def)
  then show ?thesis
    using assms i drop [of "InLimiter (length (j_closers (nj_limiter s)))"] drop [of Returned]
    by (auto simp: node_close_step_def nj_rank_def less split: if_splits node_closer.splits)
qed

lemma node_inner_rank: "node_inner s s' \<Longrightarrow> nj_rank s' < nj_rank s"
proof (erule node_innerE)
  fix b r j assume "s' = s\<lparr>nj_store := j\<rparr>" "janitor_step cache_sweep b r (nj_store s) = Some j"
  then show "nj_rank s' < nj_rank s" using inner_step_rank [OF inner_janitor] by (simp add: nj_rank_def)
next
  fix b r j assume "s' = s\<lparr>nj_limiter := j\<rparr>" "janitor_step limiter_sweep b r (nj_limiter s) = Some j"
  then show "nj_rank s' < nj_rank s" using inner_step_rank [OF inner_janitor] by (simp add: nj_rank_def)
qed (rule close_step_rank)

lemma node_progress:
  assumes inv: "j_inv (nj_store s)" "j_inv (nj_limiter s)" and ok: "node_calls_ok s"
    and c: "c \<in> set (nj_closers s)" "c \<noteq> Returned"
  shows "\<exists>s'. node_inner s s'"
proof -
  have call: "\<exists>s'. node_inner s s'" if "x \<in> set (nj_closers s)" "\<And>i. i < length (nj_closers s) \<Longrightarrow> nj_closers s ! i = x
      \<Longrightarrow> node_close_step i s \<noteq> None" for x
    using that inner_close by (metis in_set_conv_nth option.exhaust)
  have store: "\<exists>s'. node_inner s s'" if "inner_step cache_sweep (nj_store s) j" for j
    using that
  proof (cases rule: inner_step.cases)
    case (inner_closer k)
    then have "InStore k \<in> set (nj_closers s)" using ok closer_step_moves(1,2) unfolding calls_ok_def by blast
    then show ?thesis using inner_closer closer_step_moves(2) by (intro call) (auto simp: node_close_step_def)
  qed (use inner_store in blast)
  have limiter: "\<exists>s'. node_inner s s'" if "inner_step limiter_sweep (nj_limiter s) j" for j
    using that
  proof (cases rule: inner_step.cases)
    case (inner_closer k)
    then have "InLimiter k \<in> set (nj_closers s)" using ok closer_step_moves(1,2) unfolding calls_ok_def by blast
    then show ?thesis using inner_closer closer_step_moves(2) by (intro call) (auto simp: node_close_step_def)
  next
    case (inner_janitor b r)
    then have "limiter_janitor b r (nj_limiter s) = Some j" by simp
    then show ?thesis by (blast intro: inner_limiter)
  qed
  show ?thesis
  proof (cases c)
    case (InStore k)
    then have k: "k < length (j_closers (nj_store s))" using ok c(1) by (auto simp: calls_ok_def called_def)
    show ?thesis
    proof (cases "j_closers (nj_store s) ! k = Closed")
      case True
      then show ?thesis using c(1) InStore by (intro call [of c]) (simp_all add: node_close_step_def)
    next
      case False
      then show ?thesis using no_deadlock [OF inv(1) nth_mem [OF k]] store by blast
    qed
  next
    case (InLimiter k)
    then have k: "k < length (j_closers (nj_limiter s))" using ok c(1) by (auto simp: calls_ok_def called_def)
    show ?thesis
    proof (cases "j_closers (nj_limiter s) ! k = Closed")
      case True
      then show ?thesis using c(1) InLimiter by (intro call [of c]) (simp_all add: node_close_step_def)
    next
      case False
      then show ?thesis using no_deadlock [OF inv(2) nth_mem [OF k]] limiter by blast
    qed
  qed (use c(2) in simp)
qed

text \<open>What is left to do is bounded by the calls: eight steps for each, beside the two janitors'.\<close>

definition calls_bounded :: "node_janitors \<Rightarrow> bool" where
  "calls_bounded s \<longleftrightarrow> 3 * length (j_closers (nj_store s)) + 3 * length (j_closers (nj_limiter s))
    + sum_list (map call_weight (nj_closers s)) \<le> 8 * length (nj_closers s)"

lemma closer_step_length: "closer_step k s = Some s' \<Longrightarrow> length (j_closers s') = length (j_closers s)"
  by (rule inner_closers [of "\<lambda>_ _ x. x"]) (rule inner_closer)

lemma calls_bounded_inner: "calls_bounded s \<Longrightarrow> node_inner s s' \<Longrightarrow> calls_bounded s'"
proof (erule node_innerE)
  fix i assume bounded: "calls_bounded s" and step: "node_close_step i s = Some s'"
  have i: "i < length (nj_closers s)" using step by (simp add: node_close_step_def split: if_splits)
  show "calls_bounded s'"
    using step i bounded sum_list_swap [OF i, of call_weight Returned]
      sum_list_swap [OF i, of call_weight "InLimiter (length (j_closers (nj_limiter s)))"]
    by (auto simp: calls_bounded_def node_close_step_def new_call_def closer_step_length
        split: if_splits node_closer.splits)
qed (simp_all add: calls_bounded_def janitor_step_closers)

lemma calls_bounded_step: "calls_bounded s \<Longrightarrow> nj_step M s s' \<Longrightarrow> calls_bounded s'"
  by (erule nj_stepE) (auto simp: calls_bounded_inner, auto simp: calls_bounded_def node_Close_def new_call_def)

lemma nj_reach_bounded: "nj_reach M a l s \<Longrightarrow> calls_bounded s"
proof (induction rule: nj_reach.induct)
  case nj_reach_New
  then show ?case by (simp add: nj_New_def j_New_def calls_bounded_def)
qed (rule calls_bounded_step)

lemma nj_rank_bound: "calls_bounded s \<Longrightarrow> nj_rank s \<le> 10 + 8 * length (nj_closers s)"
  using j_rank_bound [of "nj_store s"] j_rank_bound [of "nj_limiter s"] unfolding nj_rank_def calls_bounded_def
  by linarith

lemma node_run:
  "(node_inner ^^ n) s t \<Longrightarrow> nj_reach M a l s \<Longrightarrow> n + nj_rank t \<le> nj_rank s \<and> nj_reach M a l t"
proof (induction n arbitrary: t)
  case (Suc n)
  then obtain u where "(node_inner ^^ n) s u" "node_inner u t" by auto
  with Suc.IH [of u] Suc.prems(2) node_inner_rank [of u t] show ?case
    by (auto intro: nj_reach_step nj_inner)
qed simp

section \<open>The end of both janitors\<close>

lemma steps_store: "rtranclp (nj_step M) s s' \<Longrightarrow> rtranclp (j_step cache_sweep cache_act) (nj_store s) (nj_store s')"
proof (induction rule: rtranclp_induct)
  case (step y z)
  show ?case using step_store [OF step(2)]
  proof (elim disjE)
    assume "nj_store z = nj_store y"
    with step(3) show ?thesis by simp
  qed (rule rtranclp.rtrancl_into_rtrancl [OF step(3)])
qed simp

lemma steps_limiter:
  "rtranclp (nj_step M) s s' \<Longrightarrow> rtranclp (j_step limiter_sweep (limiter_act M)) (nj_limiter s) (nj_limiter s')"
proof (induction rule: rtranclp_induct)
  case (step y z)
  show ?case using step_limiter [OF step(2)]
  proof (elim disjE)
    assume "nj_limiter z = nj_limiter y"
    with step(3) show ?thesis by simp
  qed (rule rtranclp.rtrancl_into_rtrancl [OF step(3)])
qed simp

lemma returned_gone:
  assumes "nj_reach M a l s" "Returned \<in> set (nj_closers s)"
  shows "j_pc (nj_store s) = Gone" "j_pc (nj_limiter s) = Gone"
proof -
  have closed: "Closed \<in> set (j_closers (nj_store s))" "Closed \<in> set (j_closers (nj_limiter s))"
    using nj_reach_calls [OF assms(1)] assms(2) by (auto simp: calls_ok_def called_def)
  note parts = node_parts [OF assms(1), THEN conjunct1] node_parts [OF assms(1), THEN conjunct2]
  show "j_pc (nj_store s) = Gone" by (rule closed_gone [OF j_reach_inv [OF parts(1)] closed(1)])
  show "j_pc (nj_limiter s) = Gone" by (rule closed_gone [OF j_reach_inv [OF parts(2)] closed(2)])
qed

text \<open>
  C27. A node's \<open>Close\<close> ends both janitors and always returns. Whatever calls of it, requests,
  ticks and sweeps interleave, no channel is closed twice and both stores stay well formed.
  When a call has returned, both janitors are gone for good: from then on the cache and the
  limiter change only by the requests. Without further requests, ticks and calls at most
  \<open>10 + 8 * calls\<close> steps remain, and when none can be made every call has returned: no caller
  waits for another caller, for a janitor or for the store it has not closed yet.
\<close>

theorem node_close_stops_everything:
  assumes "nj_reach (fpu_of A) (New_store cap) (NewStore lcap idle) s"
  shows "\<not> j_panic (nj_store s) \<and> \<not> j_panic (nj_limiter s)
    \<and> store_inv (j_content (nj_store s)) \<and> rl_inv (fpu_of A) (j_content (nj_limiter s))
    \<and> (Returned \<in> set (nj_closers s) \<and> rtranclp (nj_step (fpu_of A)) s s' \<longrightarrow>
        j_pc (nj_store s') = Gone \<and> j_pc (nj_limiter s') = Gone
        \<and> rtranclp cache_act (j_content (nj_store s)) (j_content (nj_store s'))
        \<and> rtranclp (limiter_act (fpu_of A)) (j_content (nj_limiter s)) (j_content (nj_limiter s')))
    \<and> ((node_inner ^^ n) s t \<longrightarrow> n \<le> 10 + 8 * length (nj_closers s)
        \<and> (\<not> (\<exists>u. node_inner t u) \<longrightarrow> (\<forall>c \<in> set (nj_closers t). c = Returned)))"
proof -
  note parts = node_parts [OF assms, THEN conjunct1] node_parts [OF assms, THEN conjunct2]
  have "\<not> j_panic (nj_store s)" "\<not> j_panic (nj_limiter s)"
    using j_reach_inv [OF parts(1)] j_reach_inv [OF parts(2)] by (simp_all add: j_inv_def)
  moreover have "store_inv (j_content (nj_store s))" by (rule cache.ok_reach [OF parts(1) New_refines(1)])
  moreover have "rl_inv (fpu_of A) (j_content (nj_limiter s))" by (rule limiter.ok_reach [OF parts(2) NewStore_inv])
  moreover have "j_pc (nj_store s') = Gone \<and> j_pc (nj_limiter s') = Gone
      \<and> rtranclp cache_act (j_content (nj_store s)) (j_content (nj_store s'))
      \<and> rtranclp (limiter_act (fpu_of A)) (j_content (nj_limiter s)) (j_content (nj_limiter s'))"
    if "Returned \<in> set (nj_closers s) \<and> rtranclp (nj_step (fpu_of A)) s s'"
  proof -
    note steps = that [THEN conjunct2]
    show ?thesis
      using gone_forever [OF steps_store [OF steps] returned_gone(1) [OF assms that [THEN conjunct1]]]
        gone_forever [OF steps_limiter [OF steps] returned_gone(2) [OF assms that [THEN conjunct1]]] by simp
  qed
  moreover have "n \<le> 10 + 8 * length (nj_closers s)
      \<and> (\<not> (\<exists>u. node_inner t u) \<longrightarrow> (\<forall>c \<in> set (nj_closers t). c = Returned))" if "(node_inner ^^ n) s t"
  proof -
    note run = node_run [OF that assms]
    have "n \<le> 10 + 8 * length (nj_closers s)" using run nj_rank_bound [OF nj_reach_bounded [OF assms]] by linarith
    moreover have "j_inv (nj_store t)" "j_inv (nj_limiter t)"
      using node_parts [OF run [THEN conjunct2]] by (auto intro: j_reach_inv)
    ultimately show ?thesis using node_progress [OF _ _ nj_reach_calls [OF run [THEN conjunct2]]] by blast
  qed
  ultimately show ?thesis by blast
qed

section \<open>One call from beginning to end\<close>

datatype node_mover = Cache_janitor | Limiter_janitor | Caller nat

fun node_move :: "node_mover \<Rightarrow> node_janitors \<Rightarrow> node_janitors option" where
  "node_move Cache_janitor s = map_option (\<lambda>j. s\<lparr>nj_store := j\<rparr>) (janitor_step cache_sweep True 0 (nj_store s))"
| "node_move Limiter_janitor s = map_option (\<lambda>j. s\<lparr>nj_limiter := j\<rparr>) (janitor_step limiter_sweep True 0 (nj_limiter s))"
| "node_move (Caller i) s = node_close_step i s"

fun node_moves :: "node_mover list \<Rightarrow> node_janitors \<Rightarrow> node_janitors option" where
  "node_moves [] s = Some s"
| "node_moves (m # ms) s = Option.bind (node_move m s) (node_moves ms)"

lemma node_move_inner: "node_move m s = Some s' \<Longrightarrow> node_inner s s'"
  by (cases m) (auto intro: node_inner.intros)

lemma node_moves_inner: "node_moves ms s = Some t \<Longrightarrow> (node_inner ^^ length ms) s t"
proof (induction ms arbitrary: s)
  case (Cons m ms)
  then obtain u where "node_move m s = Some u" "node_moves ms u = Some t" by (auto simp: bind_eq_Some_conv)
  with Cons.IH show ?case unfolding list.size(4) add_Suc_right add_0_right
    by (metis One_nat_def Suc_eq_plus1 node_move_inner relpowp_Suc_I2)
qed simp

definition one_close :: "node_mover list" where
  "one_close = [Caller 0, Caller 0, Cache_janitor, Cache_janitor, Caller 0, Caller 0,
     Caller 0, Caller 0, Limiter_janitor, Limiter_janitor, Caller 0, Caller 0]"

definition at_end :: "'a \<Rightarrow> 'a janitor_state" where
  "at_end a = \<lparr>j_content = a, j_stop = True, j_stopped = True, j_tick = None, j_pc = Gone,
    j_once = Finished, j_closers = [Closed], j_panic = False\<rparr>"

lemma one_close_run:
  "node_moves one_close (node_Close (nj_New a l))
    = Some \<lparr>nj_store = at_end a, nj_limiter = at_end l, nj_closers = [Returned]\<rparr>"
  by (simp add: one_close_def at_end_def node_Close_def new_call_def nj_New_def j_New_def node_close_step_def janitor_defs)

theorem node_close_stops_everything_witness:
  "\<exists>t. (node_inner ^^ 12) (node_Close (nj_New (New_store 3) (NewStore 9 60))) t
    \<and> nj_closers t = [Returned] \<and> (12 :: nat) \<le> 10 + 8 * 1 \<and> \<not> j_panic (nj_limiter t)
    \<and> j_pc (ticker 7 (nj_store t)) = Gone"
proof -
  let ?s = "node_Close (nj_New (New_store 3) (NewStore 9 60))"
  define t where "t = \<lparr>nj_store = at_end (New_store 3), nj_limiter = at_end (NewStore 9 60), nj_closers = [Returned]\<rparr>"
  let ?u = "t\<lparr>nj_store := ticker 7 (nj_store t)\<rparr>"
  have s: "nj_reach (fpu_of AMD64) (New_store 3) (NewStore 9 60) ?s" by (intro nj_reach_step [OF nj_reach_New] nj_call)
  have run: "(node_inner ^^ 12) ?s t"
    using node_moves_inner [OF one_close_run, of "New_store 3" "NewStore 9 60"]
    by (simp only: t_def one_close_def list.size) (simp only: numeral_eq_Suc BitM.simps pred_numeral_simps add_Suc_right add_0_right)
  have "(12 :: nat) \<le> 10 + 8 * length (nj_closers ?s)"
    using node_close_stops_everything [OF s, of ?s 12 t] run by blast
  moreover have "j_pc (nj_store ?u) = Gone \<and> \<not> j_panic (nj_limiter t)"
    using node_close_stops_everything [OF node_run [OF run s, THEN conjunct2], of ?u 0 t] nj_store_tick [of "fpu_of AMD64" t 7]
    by (auto simp: t_def)
  ultimately show ?thesis using run by (intro exI [of _ t]) (simp add: node_Close_def nj_New_def t_def)
qed

end
