(* ===== verification/Bench.thy ===== *)
theory Bench
  imports Middleware ServerConfig
begin

text \<open>
  The programs around a cluster: \<open>cmd/bench/main.go\<close>, \<open>cmd/ratebench/main.go\<close> and
  \<open>examples/ratelimit-demo/main.go\<close>. Modelled are what they compute (address lists, keys,
  percentiles, summaries, rates), the wait for a healthy cluster, the work queue of a phase with
  its concurrent workers, the lookup of a key's primary and the demo's middleware. What an
  operation of the queue answers and how long it takes is an input of its step here; \<open>BenchOps\<close>
  supplies the operations, and \<open>Load\<close> the load run of ratebench.
\<close>

section \<open>Addresses and keys\<close>

definition splitCSV :: "string \<Rightarrow> string list" where
  "splitCSV s = map (trim_right_char CHR ''/'') (filter (\<lambda>p. p \<noteq> '''') (map trim_space (split_on CHR '','' s)))"

definition go_rem :: "int \<Rightarrow> int \<Rightarrow> int" where
  "go_rem a b = a - b * go_div a b"

text \<open>\<open>i % keyn\<close> panics for zero keys.\<close>

definition keyOf :: "int \<Rightarrow> int \<Rightarrow> string option" where
  "keyOf i keyn = (if keyn = 0 then None else Some (''bench:'' @ int_text (go_rem i keyn)))"

section \<open>Percentiles and summaries\<close>

text \<open>\<open>math.Round\<close>: halves away from zero.\<close>

definition go_round :: "rat \<Rightarrow> int" where
  "go_round x = (if x < 0 then - \<lfloor>- x + 1 / 2\<rfloor> else \<lfloor>x + 1 / 2\<rfloor>)"

definition pick :: "rat \<Rightarrow> int list \<Rightarrow> int" where
  "pick q lats =
    (let x = fl64 (q * fl64 (of_int (int (length lats) - 1)));
         i0 = go_round x;
         i1 = (if i0 < 0 then 0 else i0);
         i = (if i1 \<ge> int (length lats) then int (length lats) - 1 else i1)
     in lats ! nat i)"

definition percentiles :: "int list \<Rightarrow> int \<times> int" where
  "percentiles lats0 =
    (if lats0 = [] then (0, 0)
     else (let lats = sort lats0 in (pick (fl64 (50 / 100)) lats, pick (fl64 (99 / 100)) lats)))"

record phase_summary =
  ps_ok :: nat
  ps_errors :: int
  ps_ops :: "rat option"
  ps_p50 :: duration
  ps_p95 :: duration
  ps_p99 :: duration
  ps_max :: duration
  ps_mean :: duration

text \<open>The summary of a phase, none without a sample; a zero wall time has no rate (it is infinite).\<close>

definition printPhase :: "goarch \<Rightarrow> int list \<Rightarrow> int \<Rightarrow> duration \<Rightarrow> phase_summary option" where
  "printPhase a lats0 errs wall =
    (if lats0 = [] then None
     else
       (let lats = sort lats0; n = length lats;
            sum = fold (\<lambda>d s. wrap64 (s + d)) lats 0;
            secs = dur_seconds (fpu_of a) wall;
            p = (\<lambda>q. if n = 1 then lats ! 0 else pick q lats)
        in Some \<lparr>ps_ok = n, ps_errors = errs,
             ps_ops = (if secs = 0 then None else Some (fl64 (fl64 (of_nat n) / secs))),
             ps_p50 = p (fl64 (50 / 100)), ps_p95 = p (fl64 (95 / 100)), ps_p99 = p (fl64 (99 / 100)),
             ps_max = lats ! (n - 1), ps_mean = go_div sum (int n)\<rparr>))"

text \<open>
  \<open>runPhase\<close> of ratebench: the ticker's interval, and the reported rate and error, which are not
  finite for a run of no duration.
\<close>

definition offer_interval :: "goarch \<Rightarrow> rat \<Rightarrow> rat \<Rightarrow> duration" where
  "offer_interval a goal factor =
    (let offerRate = fl64 (goal * factor);
         interval = (if offerRate = 0 then f2i_oor (fpu_of a) 1
                     else float_to_int64 (fpu_of a) (fl64 (1000000000 / offerRate)))
     in if interval < 1000 then 1000 else interval)"

definition rate_report :: "goarch \<Rightarrow> nat \<Rightarrow> rat \<Rightarrow> duration \<Rightarrow> (rat \<times> rat) option" where
  "rate_report a allowed goal dur =
    (let elapsed = dur_seconds (fpu_of a) dur
     in if elapsed = 0 then None
        else
          (let allowRate = fl64 (fl64 (of_nat allowed) / elapsed);
               errPct = (if goal > 0 then fl64 (fl64 (fl64 (allowRate - goal) / goal) * 100) else 0)
           in Some (allowRate, errPct)))"

section \<open>Waiting for the cluster\<close>

text \<open>One round asks every address; \<open>get\<close> answers with an error or a status.\<close>

fun health_round :: "(string \<Rightarrow> string + int) \<Rightarrow> string list \<Rightarrow> nat \<Rightarrow> string option \<Rightarrow> nat \<times> string option" where
  "health_round get [] ok lastErr = (ok, lastErr)"
| "health_round get (b # bs) ok lastErr =
    (case get (trim_right_char CHR ''/'' b @ ''/health'') of
       Inl e \<Rightarrow> health_round get bs ok (Some e)
     | Inr status \<Rightarrow>
         if status = 200 then health_round get bs (ok + 1) lastErr
         else health_round get bs ok (Some (b @ '' status '' @ int_text status)))"

text \<open>Round \<open>k\<close> reads the clock once and sees the answers of that round.\<close>

partial_function (option) wait_loop ::
  "(nat \<Rightarrow> string \<Rightarrow> string + int) \<Rightarrow> (nat \<Rightarrow> time) \<Rightarrow> string list \<Rightarrow> time \<Rightarrow> nat \<Rightarrow> string option \<Rightarrow> string option option" where
  "wait_loop get clk bases deadline k lastErr =
    (if time_before (clk k) deadline then
       (case health_round (get k) bases 0 lastErr of
          (ok, lastErr') \<Rightarrow>
            if ok = length bases then Some None
            else wait_loop get clk bases deadline (Suc k) lastErr')
     else Some (Some (''cluster not healthy: '' @ (case lastErr of None \<Rightarrow> ''<nil>'' | Some e \<Rightarrow> e))))"

definition waitHealthy ::
  "(nat \<Rightarrow> string \<Rightarrow> string + int) \<Rightarrow> (nat \<Rightarrow> time) \<Rightarrow> string list \<Rightarrow> duration \<Rightarrow> string option option" where
  "waitHealthy get clk bases d = wait_loop get clk bases (time_add (clk 0) d) 1 None"

section \<open>The work queue of a phase\<close>

datatype worker = Fetching | Working nat | Quit

record phase =
  ph_idx :: nat
  ph_errs :: nat
  ph_lats :: "duration list"
  ph_workers :: "worker list"
  ph_done :: "(nat \<times> string) list"

text \<open>A negative capacity of the slice and a negative \<open>WaitGroup\<close> counter panic.\<close>

definition phase_start :: "int \<Rightarrow> int \<Rightarrow> phase option" where
  "phase_start n conc =
    (if n < 0 \<or> conc < 0 then None
     else Some \<lparr>ph_idx = 0, ph_errs = 0, ph_lats = [], ph_workers = replicate (nat conc) Fetching, ph_done = []\<rparr>)"

text \<open>
  A worker takes the next index, or runs the operation it took: \<open>failed\<close> and \<open>dt\<close> are the
  operation's outcome and duration. \<open>ph_done\<close> records the calls of \<open>fn\<close>.
\<close>

definition phase_exec :: "string list \<Rightarrow> int \<Rightarrow> nat \<Rightarrow> bool \<Rightarrow> duration \<Rightarrow> phase \<Rightarrow> phase option" where
  "phase_exec bases n w failed dt s =
    (if w < length (ph_workers s) then
       (case ph_workers s ! w of
          Fetching \<Rightarrow>
            (let i = ph_idx s; s1 = s\<lparr>ph_idx := i + 1\<rparr>
             in Some (s1\<lparr>ph_workers := (ph_workers s)[w := (if int i \<ge> n then Quit else Working i)]\<rparr>))
        | Working i \<Rightarrow>
            (if bases = [] then None
             else
               (let s1 = s\<lparr>ph_workers := (ph_workers s)[w := Fetching],
                           ph_done := ph_done s @ [(i, bases ! (i mod length bases))]\<rparr>
                in Some (if failed then s1\<lparr>ph_errs := ph_errs s + 1\<rparr> else s1\<lparr>ph_lats := ph_lats s @ [dt]\<rparr>)))
        | Quit \<Rightarrow> None)
     else None)"

inductive phase_step :: "string list \<Rightarrow> int \<Rightarrow> phase \<Rightarrow> phase \<Rightarrow> bool" for bases n where
  phase_move: "phase_exec bases n w failed dt s = Some s' \<Longrightarrow> phase_step bases n s s'"

inductive_cases phase_stepE: "phase_step bases n s s'"

section \<open>The primary of a key\<close>

text \<open>
  \<open>GET /ring?key=\<close> at one address. The key is put into the URL as it is: what follows a \<open>#\<close> is a
  fragment and stays behind (a bad escape in it is an error), control bytes are refused before
  the request is sent and a blank breaks the request line, which the server answers with 400.
\<close>

definition lookup_query :: "string \<Rightarrow> string option" where
  "lookup_query key =
    (case cut_at CHR ''#'' key of
       (q, fragment, _) \<Rightarrow>
         if list_all (\<lambda>c. 32 < (of_char c :: nat) \<and> of_char c \<noteq> (127 :: nat)) q \<and> QueryUnescape fragment \<noteq> None
         then Some (''key='' @ q) else None)"

fun dec_strings :: "json list \<Rightarrow> string list option" where
  "dec_strings [] = Some []"
| "dec_strings (j # js) =
    (case dec_string j '''' of
       None \<Rightarrow> None
     | Some s \<Rightarrow> (case dec_strings js of None \<Rightarrow> None | Some ss \<Rightarrow> Some (s # ss)))"

definition owners_field :: "string \<Rightarrow> json \<Rightarrow> string list \<Rightarrow> string list option" where
  "owners_field k v cur =
    (if k = ''owners'' then (case v of JArr js \<Rightarrow> dec_strings js | JNull \<Rightarrow> Some [] | _ \<Rightarrow> None) else Some cur)"

definition ring_request :: "string \<Rightarrow> request" where
  "ring_request q = \<lparr>rPath = ''/ring'', rMethod = ''GET'', rQuery = query_get q, rBody = empty_payload\<rparr>"

definition lookupPrimary :: "env \<Rightarrow> string \<Rightarrow> string \<Rightarrow> world \<Rightarrow> (string \<times> world) option" where
  "lookupPrimary E addr key w =
    (case (lookup_query key, route E (trim_right_char CHR ''/'' addr)) of
       (None, _) \<Rightarrow> Some ('''', w)
     | (_, None) \<Rightarrow> Some ('''', w)
     | (Some q, Some p) \<Rightarrow>
         (case serve E p (ring_request q) w of
            None \<Rightarrow> None
          | Some (res, w1) \<Rightarrow>
              (let owners = (case rReply res of
                     BText _ \<Rightarrow> []
                   | BJson j \<Rightarrow> (case decode_struct owners_field [] j of None \<Rightarrow> [] | Some os \<Rightarrow> os))
               in Some (if owners = [] then '''' else owners ! 0, w1))))"

section \<open>The demo server\<close>

definition demo_middleware ::
  "(string \<Rightarrow> string) \<Rightarrow> string option \<Rightarrow> rat \<Rightarrow> rat \<Rightarrow> int \<Rightarrow> bool \<Rightarrow> mw_config" where
  "demo_middleware getenv addrs r b cap dryRun =
    mw_defaults getenv
      \<lparr>mAddrs = Some (splitCSV (flag_value addrs (env_or getenv ''RINGCACHE_ADDRS''
         ''http://127.0.0.1:8080,http://127.0.0.1:8081,http://127.0.0.1:8082''))),
       mRate = r, mBurst = b, mCost = 0, mAPIKeyHeader = '''', mMaxInFlight = cap,
       mDisabled = False, mDryRun = dryRun, mKeyFunc = None\<rparr>"

definition hello :: "api_request \<Rightarrow> json" where
  "hello r = JObj [(''hello'', JStr ''world''), (''key'', JStr (aHeader r ''X-API-Key''))]"

end
