(* ===== verification/BenchProps.thy ===== *)
theory BenchProps
  imports Bench
begin

text \<open>
  Lemmas on the programs around a cluster: the work queue hands out every index once and its
  workers end, the percentile index stays inside the samples and grows with the percentage, the
  median splits the samples, and the wait for a healthy cluster.
\<close>

section \<open>The work queue\<close>

fun jobs :: "worker \<Rightarrow> nat multiset" where
  "jobs (Working i) = {#i#}"
| "jobs Fetching = {#}"
| "jobs Quit = {#}"

fun worker_rank :: "worker \<Rightarrow> nat" where
  "worker_rank (Working i) = 2"
| "worker_rank Fetching = 1"
| "worker_rank Quit = 0"

definition phase_inv :: "string list \<Rightarrow> int \<Rightarrow> phase \<Rightarrow> bool" where
  "phase_inv bases n s \<longleftrightarrow>
    mset (map fst (ph_done s)) + sum_list (map jobs (ph_workers s)) = mset [0..<min (ph_idx s) (nat n)]
    \<and> length (ph_lats s) + ph_errs s = length (ph_done s)
    \<and> (\<forall>(i, b) \<in> set (ph_done s). b = bases ! (i mod length bases))
    \<and> (Quit \<in> set (ph_workers s) \<longrightarrow> n \<le> int (ph_idx s))"

definition phase_rank :: "int \<Rightarrow> phase \<Rightarrow> nat" where
  "phase_rank n s = 2 * (nat n - ph_idx s) + sum_list (map worker_rank (ph_workers s))"

lemma phase_exec_cases:
  assumes "phase_exec bases n w failed dt s = Some s'"
  obtains (fetch) "w < length (ph_workers s)" "ph_workers s ! w = Fetching" "int (ph_idx s) < n"
      "s' = s\<lparr>ph_idx := ph_idx s + 1, ph_workers := (ph_workers s)[w := Working (ph_idx s)]\<rparr>"
  | (quit) "w < length (ph_workers s)" "ph_workers s ! w = Fetching" "n \<le> int (ph_idx s)"
      "s' = s\<lparr>ph_idx := ph_idx s + 1, ph_workers := (ph_workers s)[w := Quit]\<rparr>"
  | (work) i where "w < length (ph_workers s)" "ph_workers s ! w = Working i"
      "ph_idx s' = ph_idx s" "ph_workers s' = (ph_workers s)[w := Fetching]"
      "ph_done s' = ph_done s @ [(i, bases ! (i mod length bases))]"
      "length (ph_lats s') + ph_errs s' = Suc (length (ph_lats s) + ph_errs s)"
proof (cases "ph_workers s ! w")
  case Fetching
  then show thesis using assms fetch quit by (simp add: phase_exec_def Let_def split: if_splits)
next
  case (Working i)
  then show thesis using assms work [of i] by (auto simp: phase_exec_def Let_def split: if_splits)
qed (use assms in \<open>simp add: phase_exec_def split: if_splits\<close>)

lemma phase_exec_inv:
  assumes "phase_inv bases n s" "phase_exec bases n w failed dt s = Some s'"
  shows "phase_inv bases n s'"
  using assms(2)
proof (cases rule: phase_exec_cases)
  case fetch
  then have "min (ph_idx s) (nat n) = ph_idx s" "min (Suc (ph_idx s)) (nat n) = Suc (ph_idx s)" by auto
  moreover have "sum_list (map jobs ((ph_workers s)[w := Working (ph_idx s)]))
      = add_mset (ph_idx s) (sum_list (map jobs (ph_workers s)))"
    using sum_list_swap [OF fetch(1), of jobs "Working (ph_idx s)"] fetch(2) by simp
  moreover have "Quit \<in> set ((ph_workers s)[w := Working (ph_idx s)]) \<Longrightarrow> Quit \<in> set (ph_workers s)"
    using set_update_subset_insert by fastforce
  ultimately show ?thesis using assms(1) fetch(3,4) by (auto simp: phase_inv_def)
next
  case quit
  then have "min (Suc (ph_idx s)) (nat n) = min (ph_idx s) (nat n)" by auto
  moreover have "sum_list (map jobs ((ph_workers s)[w := Quit])) = sum_list (map jobs (ph_workers s))"
    using sum_list_swap [OF quit(1), of jobs Quit] quit(2) by simp
  ultimately show ?thesis using assms(1) quit(3,4) by (auto simp: phase_inv_def)
next
  case (work i)
  have "sum_list (map jobs (ph_workers s)) = add_mset i (sum_list (map jobs ((ph_workers s)[w := Fetching])))"
    using sum_list_swap [OF work(1), of jobs Fetching] work(2) by simp
  moreover have "Quit \<in> set ((ph_workers s)[w := Fetching]) \<Longrightarrow> Quit \<in> set (ph_workers s)"
    using set_update_subset_insert by fastforce
  ultimately show ?thesis using assms(1) work(3-6) by (auto simp: phase_inv_def)
qed

lemma phase_exec_rank: "phase_exec bases n w failed dt s = Some s' \<Longrightarrow> phase_rank n s' < phase_rank n s"
proof (erule phase_exec_cases)
  assume f: "w < length (ph_workers s)" "ph_workers s ! w = Fetching" "int (ph_idx s) < n"
    "s' = s\<lparr>ph_idx := ph_idx s + 1, ph_workers := (ph_workers s)[w := Working (ph_idx s)]\<rparr>"
  then show ?thesis
    using sum_list_swap [OF f(1), of worker_rank "Working (ph_idx s)"] by (simp add: phase_rank_def)
next
  assume q: "w < length (ph_workers s)" "ph_workers s ! w = Fetching" "n \<le> int (ph_idx s)"
    "s' = s\<lparr>ph_idx := ph_idx s + 1, ph_workers := (ph_workers s)[w := Quit]\<rparr>"
  then show ?thesis using sum_list_swap [OF q(1), of worker_rank Quit] by (simp add: phase_rank_def)
next
  fix i assume r: "w < length (ph_workers s)" "ph_workers s ! w = Working i" "ph_idx s' = ph_idx s"
    "ph_workers s' = (ph_workers s)[w := Fetching]"
  then show ?thesis using sum_list_swap [OF r(1), of worker_rank Fetching] by (simp add: phase_rank_def)
qed

lemma phase_start_inv:
  "phase_start n conc = Some s \<Longrightarrow> phase_inv bases n s \<and> phase_rank n s = 2 * nat n + nat conc
    \<and> length (ph_workers s) = nat conc"
proof -
  have "sum_list (replicate k ({#} :: nat multiset)) = {#}" for k by (induction k) auto
  then show "phase_start n conc = Some s \<Longrightarrow> phase_inv bases n s \<and> phase_rank n s = 2 * nat n + nat conc
      \<and> length (ph_workers s) = nat conc"
    by (auto simp: phase_start_def phase_inv_def phase_rank_def sum_list_replicate split: if_splits)
qed

lemma phase_run:
  "(phase_step bases n ^^ k) s s' \<Longrightarrow> phase_inv bases n s \<Longrightarrow>
    phase_inv bases n s' \<and> k + phase_rank n s' \<le> phase_rank n s \<and> length (ph_workers s') = length (ph_workers s)"
proof (induction k arbitrary: s')
  case (Suc k)
  then obtain t where t: "(phase_step bases n ^^ k) s t" "phase_step bases n t s'" by auto
  then obtain w failed dt where e: "phase_exec bases n w failed dt t = Some s'" by (auto elim: phase_stepE)
  have "length (ph_workers s') = length (ph_workers t)" using e by (cases rule: phase_exec_cases) auto
  then show ?case
    using Suc.IH [OF t(1) Suc.prems(2)] phase_exec_inv [OF _ e] phase_exec_rank [OF e] by auto
qed simp

lemma distinct_sub_mset:
  assumes "mset xs \<subseteq># mset ys" "distinct ys"
  shows "distinct xs"
proof -
  obtain zs where "mset ys = mset xs + mset zs" using assms(1) ex_mset by (metis mset_subset_eq_exists_conv)
  then have "mset ys = mset (xs @ zs)" by simp
  then have "distinct (xs @ zs)" using assms(2) mset_eq_imp_distinct_iff by blast
  then show ?thesis by simp
qed

lemma phase_stuck:
  assumes "phase_inv bases n s" "bases \<noteq> []" "ph_workers s \<noteq> []" "\<not> (\<exists>s'. phase_step bases n s s')"
  shows "mset (map fst (ph_done s)) = mset [0..<nat n]"
proof -
  have "ph_workers s ! w = Quit" if "w < length (ph_workers s)" for w
  proof -
    have "phase_exec bases n w False 0 s = None"
      using assms(4) phase_move by (cases "phase_exec bases n w False 0 s") blast+
    then show ?thesis
      using that assms(2) by (cases "ph_workers s ! w") (simp_all add: phase_exec_def Let_def)
  qed
  then have q: "\<forall>x \<in> set (ph_workers s). x = Quit" by (auto simp: in_set_conv_nth)
  have "\<forall>x \<in> set ws. x = Quit \<Longrightarrow> sum_list (map jobs ws) = {#}" for ws by (induction ws) auto
  then have "sum_list (map jobs (ph_workers s)) = {#}" using q by blast
  moreover have "Quit \<in> set (ph_workers s)" using q assms(3) by (cases "ph_workers s") auto
  ultimately show ?thesis using assms(1) by (auto simp: phase_inv_def min_def)
qed

section \<open>Percentiles\<close>

definition pick_index :: "rat \<Rightarrow> nat \<Rightarrow> nat" where
  "pick_index q n =
    (let i0 = go_round (fl64 (q * fl64 (of_int (int n - 1)))); i1 = (if i0 < 0 then 0 else i0)
     in nat (if i1 \<ge> int n then int n - 1 else i1))"

lemma pick_nth: "pick q xs = xs ! pick_index q (length xs)"
  by (simp add: pick_def pick_index_def Let_def)

lemma pick_index_less: "0 < n \<Longrightarrow> pick_index q n < n"
  by (auto simp: pick_index_def Let_def)

lemma go_round_mono: "0 \<le> x \<Longrightarrow> x \<le> y \<Longrightarrow> go_round x \<le> go_round y"
  by (simp add: go_round_def floor_mono)

lemma pick_index_mono: "0 < n \<Longrightarrow> 0 \<le> p \<Longrightarrow> p \<le> q \<Longrightarrow> pick_index p n \<le> pick_index q n"
proof -
  assume a: "0 < n" "0 \<le> p" "p \<le> q"
  have len: "0 \<le> fl64 (of_int (int n - 1))" using a(1) by (intro b64.fl_nonneg) simp
  then have "fl64 (p * fl64 (of_int (int n - 1))) \<le> fl64 (q * fl64 (of_int (int n - 1)))"
    using a by (intro fl64_mono mult_right_mono)
  moreover have "0 \<le> fl64 (p * fl64 (of_int (int n - 1)))"
    using mult_nonneg_nonneg [OF a(2) len] by (rule b64.fl_nonneg)
  ultimately have "go_round (fl64 (p * fl64 (of_int (int n - 1)))) \<le> go_round (fl64 (q * fl64 (of_int (int n - 1))))"
    by (intro go_round_mono)
  then show ?thesis unfolding pick_index_def Let_def by (intro nat_mono) auto
qed

text \<open>The index of the median is exact for every slice that fits into memory.\<close>

lemma half_float: "0 \<le> m \<Longrightarrow> m \<le> 2 ^ 53 \<Longrightarrow> fl64 (of_int m / 2) = of_int m / 2"
  using fl64_rep [of m "- 1"] by (simp add: power_int_minus field_simps)

lemma median_index: "0 < n \<Longrightarrow> n \<le> 2 ^ 53 \<Longrightarrow> pick_index (fl64 (50 / 100)) n = n div 2"
proof -
  assume n: "0 < n" "n \<le> 2 ^ 53"
  have "int n \<le> 2 ^ 53" using n(2) by (metis of_nat_le_iff of_nat_numeral of_nat_power)
  then have m: "0 \<le> int n - 1" "int n - 1 \<le> 2 ^ 53" using n(1) by linarith+
  have half: "fl64 (50 / 100) = 1 / 2" using half_float [of 1] by simp
  have x: "fl64 (fl64 (50 / 100) * fl64 (of_int (int n - 1))) = of_int (int n - 1) / 2"
    using half_float [OF m] fl64_of_int [OF m] unfolding half by simp
  have "go_round (of_int (int n - 1) / 2) = \<lfloor>(of_int (int n) / 2 :: rat)\<rfloor>"
    using m(1) by (simp add: go_round_def field_simps)
  also have "\<dots> = int n div 2" by (metis floor_divide_of_int_eq of_int_numeral)
  finally have "go_round (fl64 (fl64 (50 / 100) * fl64 (of_int (int n - 1)))) = int n div 2" unfolding x .
  then show ?thesis using n(1) unfolding pick_index_def Let_def by (auto simp: nat_div_distrib)
qed

lemma sorted_count_le: "sorted xs \<Longrightarrow> i < length xs \<Longrightarrow> Suc i \<le> length (filter (\<lambda>x. x \<le> xs ! i) xs)"
proof -
  assume a: "sorted xs" "i < length xs"
  have "filter (\<lambda>x. x \<le> xs ! i) (take (Suc i) xs) = take (Suc i) xs"
    using a by (intro filter_True) (auto simp: in_set_conv_nth sorted_nth_mono)
  then have "length (filter (\<lambda>x. x \<le> xs ! i) (take (Suc i) xs @ drop (Suc i) xs)) \<ge> Suc i"
    using a(2) unfolding filter_append length_append by simp
  then show ?thesis by simp
qed

lemma sorted_count_ge: "sorted xs \<Longrightarrow> i < length xs \<Longrightarrow> length xs - i \<le> length (filter (\<lambda>x. xs ! i \<le> x) xs)"
proof -
  assume a: "sorted xs" "i < length xs"
  have "filter (\<lambda>x. xs ! i \<le> x) (drop i xs) = drop i xs"
    using a by (intro filter_True) (auto simp: in_set_conv_nth sorted_nth_mono)
  then have "length (filter (\<lambda>x. xs ! i \<le> x) (take i xs @ drop i xs)) \<ge> length xs - i"
    unfolding filter_append length_append by simp
  then show ?thesis by simp
qed

lemma length_filter_sort: "length (filter P (sort xs)) = length (filter P xs)"
  by (simp add: filter_sort)

section \<open>Waiting for a healthy cluster\<close>

lemma health_round_ok: "fst (health_round get bs ok e) =
    ok + length (filter (\<lambda>b. get (trim_right_char CHR ''/'' b @ ''/health'') = Inr 200) bs)"
  by (induction bs arbitrary: ok e) (auto split: sum.splits)

definition all_healthy :: "(string \<Rightarrow> string + int) \<Rightarrow> string list \<Rightarrow> bool" where
  "all_healthy get bs \<longleftrightarrow> list_all (\<lambda>b. get (trim_right_char CHR ''/'' b @ ''/health'') = Inr 200) bs"

lemma health_round_all: "fst (health_round get bs 0 e) = length bs \<longleftrightarrow> all_healthy get bs"
proof -
  have "length (filter P xs) = length xs \<longleftrightarrow> list_all P xs" for P :: "string \<Rightarrow> bool" and xs
  proof (induction xs)
    case (Cons x xs)
    have "length (filter P xs) \<noteq> Suc (length xs)" using length_filter_le [of P xs] by linarith
    with Cons show ?case by auto
  qed simp
  then show ?thesis by (simp add: health_round_ok all_healthy_def)
qed

lemma first_round:
  "(\<exists>i \<ge> k. H i \<and> (\<forall>m. k \<le> m \<and> m \<le> i \<longrightarrow> B m))
    \<longleftrightarrow> B k \<and> (H k \<or> (\<exists>i \<ge> Suc k. H i \<and> (\<forall>m. Suc k \<le> m \<and> m \<le> i \<longrightarrow> B m)))" (is "?l \<longleftrightarrow> ?r")
proof
  assume ?l
  then obtain i where i: "k \<le> i" "H i" "\<forall>m. k \<le> m \<and> m \<le> i \<longrightarrow> B m" by blast
  then show ?r by (cases "i = k") (auto intro!: exI [of _ i])
next
  assume r: ?r
  show ?l
  proof (cases "H k")
    case True
    then show ?thesis using r by (intro exI [of _ k]) (auto dest: le_antisym)
  next
    case False
    then obtain i where i: "Suc k \<le> i" "H i" "\<forall>m. Suc k \<le> m \<and> m \<le> i \<longrightarrow> B m" using r by blast
    have "B m" if "k \<le> m" "m \<le> i" for m using that i(3) r by (cases "m = k") auto
    then show ?thesis using i by (intro exI [of _ i]) simp
  qed
qed

lemma wait_loop_returns:
  assumes "k \<le> j" "\<not> time_before (clk j) deadline"
  shows "\<exists>r. wait_loop get clk bases deadline k e = Some r \<and>
    (r = None \<longleftrightarrow> (\<exists>i \<ge> k. all_healthy (get i) bases \<and> (\<forall>m. k \<le> m \<and> m \<le> i \<longrightarrow> time_before (clk m) deadline)))"
  using assms(1)
proof (induction "j - k" arbitrary: k e)
  case 0
  then have "\<not> time_before (clk k) deadline" using assms(2) by simp
  then show ?case by (subst wait_loop.simps) auto
next
  case (Suc d)
  obtain ok e' where r: "health_round (get k) bases 0 e = (ok, e')" by force
  then have all: "ok = length bases \<longleftrightarrow> all_healthy (get k) bases"
    using health_round_all [of "get k" bases e] by simp
  have later: "(\<exists>i \<ge> k. all_healthy (get i) bases \<and> (\<forall>m. k \<le> m \<and> m \<le> i \<longrightarrow> time_before (clk m) deadline))
      \<longleftrightarrow> time_before (clk k) deadline \<and> (all_healthy (get k) bases \<or>
        (\<exists>i \<ge> Suc k. all_healthy (get i) bases \<and> (\<forall>m. Suc k \<le> m \<and> m \<le> i \<longrightarrow> time_before (clk m) deadline)))"
    by (rule first_round)
  have "d = j - Suc k" "Suc k \<le> j" using Suc.hyps(2) by simp_all
  then show ?case
    using Suc.hyps(1) [of "Suc k" e'] r all unfolding later by (subst wait_loop.simps) auto
qed

end
