(* ===== verification/BenchTheorems.thy ===== *)
theory BenchTheorems
  imports BenchProps ClusterDemo
begin

text \<open>
  What the programs around a cluster promise: a benchmark phase runs every operation once, its
  percentiles are ordered samples with a true median, the wait for the cluster ends, and the
  primary that \<open>ratebench\<close> looks up is the one the cluster's own ring names.
\<close>

text \<open>
  C40. However the workers of a phase interleave, an operation index below \<open>n\<close> is run at most
  once, against the address it falls to in turn; every step brings the end nearer, and when no
  worker can move each index has been run exactly once and is either a sample or an error.
\<close>

theorem phase_runs_every_operation_once:
  assumes "phase_start n conc = Some s0" "1 \<le> conc" "bases \<noteq> []" "(phase_step bases n ^^ k) s0 s"
  shows "k \<le> 2 * nat n + nat conc \<and> distinct (map fst (ph_done s))
    \<and> (\<forall>(i, b) \<in> set (ph_done s). int i < n \<and> b = bases ! (i mod length bases))
    \<and> (\<not> (\<exists>s'. phase_step bases n s s') \<longrightarrow>
        mset (map fst (ph_done s)) = mset [0..<nat n] \<and> length (ph_lats s) + ph_errs s = nat n)"
proof -
  note start = phase_start_inv [OF assms(1), of bases]
  then have run: "phase_inv bases n s" "k \<le> 2 * nat n + nat conc" "length (ph_workers s) = nat conc"
    using phase_run [OF assms(4)] by auto
  have parts: "mset (map fst (ph_done s)) + sum_list (map jobs (ph_workers s)) = mset [0..<min (ph_idx s) (nat n)]"
    using run(1) by (simp only: phase_inv_def)
  then have sub: "mset (map fst (ph_done s)) \<subseteq># mset [0..<min (ph_idx s) (nat n)]"
    by (metis mset_subset_eq_add_left)
  then have "distinct (map fst (ph_done s))"
    by (rule distinct_sub_mset) simp
  moreover have "int (fst x) < n" if "x \<in> set (ph_done s)" for x
    using mset_subset_eqD [OF sub, of "fst x"] that by auto
  moreover have "\<forall>(i, b) \<in> set (ph_done s). b = bases ! (i mod length bases)"
    "length (ph_lats s) + ph_errs s = length (ph_done s)"
    using run(1) unfolding phase_inv_def by blast+
  moreover have "mset (map fst (ph_done s)) = mset [0..<nat n]" if "\<not> (\<exists>s'. phase_step bases n s s')"
    using phase_stuck [OF run(1) assms(3) _ that] run(3) assms(2) by fastforce
  moreover from this have "length (ph_done s) = nat n" if "\<not> (\<exists>s'. phase_step bases n s s')"
    using that by (metis diff_zero length_map length_upt size_mset)
  ultimately show ?thesis using run(2) by fastforce
qed

text \<open>One worker, one operation: it is taken, run, and the worker ends.\<close>

definition lone_phase :: "nat \<Rightarrow> duration list \<Rightarrow> worker \<Rightarrow> (nat \<times> string) list \<Rightarrow> phase" where
  "lone_phase i lats w ops = \<lparr>ph_idx = i, ph_errs = 0, ph_lats = lats, ph_workers = [w], ph_done = ops\<rparr>"

lemma lone_phase_run:
  "(phase_step [''u''] 1 ^^ 3) (lone_phase 0 [] Fetching []) (lone_phase 2 [7] Quit [(0, ''u'')])"
proof -
  have "phase_exec [''u''] 1 0 False 7 (lone_phase 0 [] Fetching []) = Some (lone_phase 1 [] (Working 0) [])"
    "phase_exec [''u''] 1 0 False 7 (lone_phase 1 [] (Working 0) []) = Some (lone_phase 1 [7] Fetching [(0, ''u'')])"
    "phase_exec [''u''] 1 0 False 7 (lone_phase 1 [7] Fetching [(0, ''u'')]) = Some (lone_phase 2 [7] Quit [(0, ''u'')])"
    by (simp_all add: phase_exec_def lone_phase_def Let_def)
  note steps = this [THEN phase_move]
  show ?thesis
    using steps unfolding numeral_3_eq_3 by (meson relpowp_0_I relpowp_Suc_I)
qed

theorem phase_runs_every_operation_once_witness:
  "\<not> (\<exists>s'. phase_step [''u''] 1 (lone_phase 2 [7] Quit [(0, ''u'')]) s')
    \<and> mset (map fst (ph_done (lone_phase 2 [7] Quit [(0, ''u'')]))) = mset [0..<nat 1]"
proof -
  have start: "phase_start 1 1 = Some (lone_phase 0 [] Fetching [])" by (simp add: phase_start_def lone_phase_def)
  have "\<not> (\<exists>s'. phase_step [''u''] 1 (lone_phase 2 [7] Quit [(0, ''u'')]) s')"
    by (auto elim!: phase_stepE simp: phase_exec_def lone_phase_def split: if_splits)
  then show ?thesis
    using phase_runs_every_operation_once [OF start _ _ lone_phase_run] by simp
qed

text \<open>
  The reported percentiles are measured samples, in order and below the maximum, whatever
  the order in which the workers recorded them; at least half of the samples are at or below
  \<open>p50\<close> and at least half at or above it.
\<close>

theorem percentiles_are_ordered_samples:
  assumes "printPhase a lats errs wall = Some r" "length lats \<le> 2 ^ 53"
  shows "ps_p50 r \<le> ps_p95 r \<and> ps_p95 r \<le> ps_p99 r \<and> ps_p99 r \<le> ps_max r \<and> ps_max r = Max (set lats)
    \<and> {ps_p50 r, ps_p95 r, ps_p99 r} \<subseteq> set lats
    \<and> length lats \<le> 2 * length (filter (\<lambda>x. x \<le> ps_p50 r) lats)
    \<and> length lats \<le> 2 * length (filter (\<lambda>x. ps_p50 r \<le> x) lats)
    \<and> (mset lats' = mset lats \<longrightarrow> printPhase a lats' errs wall = Some r \<and> percentiles lats' = (ps_p50 r, ps_p99 r))"
proof -
  define xs n where "xs = sort lats" and "n = length lats"
  have ne: "lats \<noteq> []" and n: "0 < n" "length xs = n" "sorted xs" "set xs = set lats"
    using assms(1) by (auto simp: printPhase_def xs_def n_def split: if_splits)
  have p: "(if n = 1 then xs ! 0 else pick q xs) = xs ! pick_index q n" for q
    using pick_nth [of q xs] pick_index_less [OF n(1), of q] n(2) by (cases "n = 1") auto
  then have r: "ps_p50 r = xs ! pick_index (fl64 (50 / 100)) n" "ps_p95 r = xs ! pick_index (fl64 (95 / 100)) n"
      "ps_p99 r = xs ! pick_index (fl64 (99 / 100)) n" "ps_max r = xs ! (n - 1)"
    using assms(1) ne by (auto simp: printPhase_def Let_def xs_def [symmetric] n_def [symmetric] n(2))
  have le: "i \<le> j \<Longrightarrow> j < n \<Longrightarrow> xs ! i \<le> xs ! j" for i j
    using n(2,3) by (simp add: sorted_nth_mono)
  have q: "0 \<le> fl64 (50 / 100)" "fl64 (50 / 100) \<le> fl64 (95 / 100)" "0 \<le> fl64 (95 / 100)" "fl64 (95 / 100) \<le> fl64 (99 / 100)"
    by (auto intro: b64.fl_nonneg fl64_mono)
  have mem: "xs ! pick_index q n \<in> set lats" for q
    using nth_mem [of "pick_index q n" xs] pick_index_less [OF n(1)] n(2,4) by simp
  have "xs ! (n - 1) = Max (set xs)"
  proof (rule Max_eqI [symmetric])
    show "xs ! (n - 1) \<in> set xs" using n(1,2) by simp
  next
    fix x assume "x \<in> set xs"
    then obtain i where "i < n" "x = xs ! i" using n(2) by (auto simp: in_set_conv_nth)
    then show "x \<le> xs ! (n - 1)" using n(1) by (auto intro: le)
  qed simp
  moreover have "n \<le> 2 * length (filter (\<lambda>x. x \<le> xs ! (n div 2)) lats)"
      "n \<le> 2 * length (filter (\<lambda>x. xs ! (n div 2) \<le> x) lats)"
    using sorted_count_le [OF n(3), of "n div 2"] sorted_count_ge [OF n(3), of "n div 2"] n(1,2)
      length_filter_sort [of _ lats] unfolding xs_def [symmetric] by simp_all
  moreover have "printPhase a lats' errs wall = Some r \<and> percentiles lats' = (ps_p50 r, ps_p99 r)"
    if "mset lats' = mset lats"
  proof -
    have s: "sort lats' = xs" "lats' \<noteq> []"
      using that ne sort_perm_eq [OF that] by (auto simp: xs_def)
    have "printPhase a lats' errs wall = printPhase a lats errs wall"
      unfolding printPhase_def s(1) xs_def [symmetric] using s(2) ne by simp
    moreover have "percentiles lats' = (pick (fl64 (50 / 100)) xs, pick (fl64 (99 / 100)) xs)"
      unfolding percentiles_def s(1) Let_def using s(2) by simp
    ultimately show ?thesis using assms(1) unfolding r pick_nth n(2) by simp
  qed
  ultimately show ?thesis
    using pick_index_mono [OF n(1) q(1,2)] pick_index_mono [OF n(1) q(3,4)] pick_index_less [OF n(1)]
      median_index [OF n(1)] assms(2) mem mem [of "fl64 (50 / 100)"] le unfolding r n_def [symmetric] n(4)
    by (auto simp: Suc_leI less_Suc_eq_le [symmetric])
qed

theorem percentiles_are_ordered_samples_witness:
  "\<exists>r. printPhase AMD64 [30, 10, 20] 1 1000000000 = Some r \<and> ps_max r = 30 \<and> ps_p50 r \<le> ps_p99 r
    \<and> ps_p50 r \<in> {10, 20, 30} \<and> printPhase AMD64 [10, 20, 30] 1 1000000000 = Some r"
proof -
  obtain r where r: "printPhase AMD64 [30, 10, 20] 1 1000000000 = Some r"
    by (simp add: printPhase_def Let_def)
  have "mset [10, 20, 30 :: int] = mset [30, 10, 20]" "Max (set [30, 10, 20 :: int]) = 30" by simp_all
  then show ?thesis
    using percentiles_are_ordered_samples [OF r, of "[10, 20, 30]"] r by auto
qed

text \<open>
  When the clock reaches the deadline at some reading, \<open>waitHealthy\<close> returns, and it
  returns success exactly when some round that started before the deadline, with all rounds
  before it, found every address answering 200.
\<close>

theorem waiting_for_health_ends:
  assumes "1 \<le> j" "\<not> time_before (clk j) (time_add (clk 0) d)"
  shows "\<exists>r. waitHealthy get clk bases d = Some r \<and>
    (r = None \<longleftrightarrow> (\<exists>i \<ge> 1. all_healthy (get i) bases
      \<and> (\<forall>m. 1 \<le> m \<and> m \<le> i \<longrightarrow> time_before (clk m) (time_add (clk 0) d))))"
  unfolding waitHealthy_def by (rule wait_loop_returns [where j = j]) (use assms in auto)

theorem waiting_for_health_ends_witness:
  "waitHealthy (\<lambda>k u. if 2 \<le> k then Inr 200 else Inl ''refused'') (\<lambda>k. int k * 100) [''http://a/''] 450 = Some None"
proof -
  have "\<not> time_before (int 5 * 100) (time_add (int 0 * 100) 450)" by (simp add: time_defs)
  then obtain r where r: "waitHealthy (\<lambda>k u. if 2 \<le> k then Inr 200 else Inl ''refused'') (\<lambda>k. int k * 100) [''http://a/''] 450 = Some r"
      "r = None \<longleftrightarrow> (\<exists>i \<ge> 1. all_healthy (\<lambda>u. if 2 \<le> i then Inr 200 else Inl ''refused'') [''http://a/'']
        \<and> (\<forall>m. 1 \<le> m \<and> m \<le> i \<longrightarrow> time_before (int m * 100) (time_add (int 0 * 100) 450)))"
    using waiting_for_health_ends [of 5 "\<lambda>k. int k * 100" 450] by fastforce
  have "r = None" unfolding r(2) by (intro exI [of _ 2]) (auto simp: all_healthy_def time_defs)
  with r(1) show ?thesis by simp
qed

section \<open>The primary of a key\<close>

lemma dec_strings_strs: "dec_strings (map JStr ss) = Some ss"
  by (induction ss) simp_all

lemma decode_owners_skip: "list_all (\<lambda>(k, v). fold_name k \<noteq> ''owners'') kvs \<Longrightarrow>
    decode_fields owners_field (kvs @ rest) z = decode_fields owners_field rest z"
  by (induction kvs) (auto simp: owners_field_def)

lemma ring_answer:
  assumes "key = query_get q ''key''"
    and "owners = Owners (nring (procs w p)) key (cReplicas (ncfg (procs w p)))" "owners \<noteq> []" "key \<noteq> ''''"
  shows "\<exists>j. handleRing p (ring_request q) w = writeJSON 200 j \<and> decode_struct owners_field [] j = Some owners"
proof -
  let ?n = "procs w p"
  define pre where "pre = [(''id'', JStr (cID (ncfg ?n))), (''nodes'', JArr (map JStr (Nodes (nring ?n)))),
             (''peers'', snapshotPeers ?n), (''vnodes_per_node'', JInt (cVNodes (ncfg ?n))),
             (''ring_len'', JInt (int (Len_ring (nring ?n)))), (''replicas'', JInt (cReplicas (ncfg ?n)))] @ omit_str ''key'' key"
  obtain post where j: "handleRing p (ring_request q) w
      = writeJSON 200 (JObj (pre @ (''owners'', JArr (map JStr owners)) # post))"
      "list_all (\<lambda>(k, v). fold_name k \<noteq> ''owners'') post"
    using assms(2-4) by (simp add: handleRing_def status_defs ring_request_def assms(1) [symmetric] pre_def Let_def fold_defs)
  have "list_all (\<lambda>(k, v). fold_name k \<noteq> ''owners'') pre"
    by (simp add: pre_def omit_str_def fold_defs)
  then have "decode_struct owners_field [] (JObj (pre @ (''owners'', JArr (map JStr owners)) # post)) = Some owners"
    using decode_owners_skip [OF j(2), of "[]" owners]
    by (simp add: decode_struct_def decode_owners_skip owners_field_def dec_strings_strs fold_defs)
  with j(1) show ?thesis by blast
qed

lemma lookup_of_query:
  assumes "cluster_reach E w" "route E (trim_right_char CHR ''/'' addr) = Some p"
    and "lookup_query key = Some q" "query_get q ''key'' = k" "k \<noteq> ''''"
  shows "lookupPrimary E addr key w = Some (Primary (nring (procs w p)) k, w)
    \<and> Primary (nring (procs w p)) k \<in> set (Nodes (nring (procs w p)))"
proof -
  let ?r = "nring (procs w p)" and ?k = "cReplicas (ncfg (procs w p))"
  have w: "world_inv E w" using assms(1) by (rule cluster_reach_inv)
  have r: "ring_inv ?r" "1 \<le> ?k" using world_invD [OF w, of p] by (auto simp: node_inv_def ring_reachable_inv)
  have ne: "Owners ?r k ?k \<noteq> []" using w by (rule owners_nonempty)
  obtain j where j: "handleRing p (ring_request q) w = writeJSON 200 j"
      "decode_struct owners_field [] j = Some (Owners ?r k ?k)"
    using ring_answer [OF assms(4) [symmetric] refl ne assms(5)] by blast
  have "serve E p (ring_request q) w = Some (writeJSON 200 j, w)"
    using j(1) by (simp add: serve_def ring_request_def)
  moreover have "hd (Owners ?r k ?k) = Primary ?r k" by (rule Primary_hd_Owners [OF r(1,2) ne])
  moreover from this have "Primary ?r k \<in> set (Nodes ?r)"
    using Owners_members [OF r(1), of k ?k] ne by (metis hd_in_set subsetD)
  ultimately show ?thesis
    using assms(2,3) j(2) ne by (simp add: lookupPrimary_def writeJSON_def hd_conv_nth)
qed

lemma unreserved_printable: "unreserved c \<Longrightarrow> c \<noteq> CHR ''#'' \<and> 32 < (of_char c :: nat) \<and> of_char c \<noteq> (127 :: nat)"
  by (auto simp: unreserved_def Let_def)

lemma cut_at_append: "sep \<notin> set a \<Longrightarrow> cut_at sep (a @ s) = (case cut_at sep s of (b, c, ok) \<Rightarrow> (a @ b, c, ok))"
  by (induction a) (auto split: prod.splits)

text \<open>
  The primary that \<open>ratebench\<close> looks up for a key is the primary of the answering
  process's ring, the member that decides the key's takes; the lookup changes nothing. This
  holds for keys of unreserved bytes: any other key is cut at its first \<open>&\<close>, and the process
  that \<open>-kill-after\<close> stops may not be its primary.
\<close>

theorem lookup_finds_the_primary:
  assumes "cluster_reach E w" "route E (trim_right_char CHR ''/'' addr) = Some p" "key \<noteq> ''''" "list_all unreserved key"
  shows "lookupPrimary E addr key w = Some (Primary (nring (procs w p)) key, w)
    \<and> Primary (nring (procs w p)) key \<in> set (Nodes (nring (procs w p)))"
proof -
  have plain: "list_all (\<lambda>c. 32 < (of_char c :: nat) \<and> of_char c \<noteq> (127 :: nat)) key" "CHR ''#'' \<notin> set key"
    using assms(4) unreserved_printable by (auto simp: list_all_iff)
  then have "lookup_query key = Some (''key='' @ key)"
    using cut_at_append [OF plain(2), of "[]"] by (simp add: lookup_query_def)
  moreover have "query_get (''key='' @ key) ''key'' = key" by (simp only: unreserved_query [OF assms(4)]) simp
  ultimately show ?thesis by (rule lookup_of_query [OF assms(1,2) _ _ assms(3)])
qed

theorem lookup_cuts_the_key:
  assumes "cluster_reach E w" "route E (trim_right_char CHR ''/'' addr) = Some p" "a \<noteq> ''''" "list_all unreserved a"
    and "lookup_query (a @ CHR ''&'' # b) \<noteq> None"
  shows "lookupPrimary E addr (a @ CHR ''&'' # b) w = Some (Primary (nring (procs w p)) a, w)"
proof -
  have plain: "CHR ''&'' \<notin> set a" "CHR ''#'' \<notin> set a" "CHR '';'' \<notin> set a"
    using assms(4) by (auto simp: list_all_iff unreserved_def)
  obtain b' where b': "lookup_query (a @ CHR ''&'' # b) = Some (''key='' @ a @ CHR ''&'' # b')"
    using assms(5) by (auto simp: lookup_query_def cut_at_append [OF plain(2)] split: prod.splits if_splits)
  show ?thesis using lookup_of_query [OF assms(1,2) b' first_pair [OF assms(4)] assms(3)] by blast
qed

theorem lookup_finds_the_primary_witness:
  "lookupPrimary demo_env ''http://a/'' ''k'' demo_world = Some (Primary (nring (procs demo_world ''a'')) ''k'', demo_world)"
proof -
  have "route demo_env (trim_right_char CHR ''/'' ''http://a/'') = Some ''a''"
    by (simp add: demo_env_def trim_right_char_def)
  then show ?thesis using lookup_finds_the_primary [OF demo_reach] by (simp add: unreserved_def)
qed

theorem lookup_cuts_the_key_witness:
  "lookupPrimary demo_env ''http://a/'' ''k&l'' demo_world = Some (Primary (nring (procs demo_world ''a'')) ''k'', demo_world)"
proof -
  have "route demo_env (trim_right_char CHR ''/'' ''http://a/'') = Some ''a''"
    by (simp add: demo_env_def trim_right_char_def)
  then show ?thesis using lookup_cuts_the_key [OF demo_reach, of "''http://a/''" "''a''" "''k''" "''l''"]
    by (simp add: unreserved_def lookup_query_def)
qed

end
