(* ===== verification/BenchOps.thy ===== *)
theory BenchOps
  imports BenchTheorems ClusterTheorems
begin

text \<open>
  The two operations that \<open>cmd/bench\<close> measures, against the cluster of \<open>Cluster\<close>, and the phase
  that runs them: a worker that has taken index \<open>i\<close> calls the operation at the address of its
  turn. What may be lost between the client and a coordinator is the parameter \<open>lost\<close> of
  \<open>attempt\<close>; the body of an answer is thrown away, so only its status counts.
\<close>

section \<open>Requests\<close>

definition set_json :: "string \<Rightarrow> string \<Rightarrow> int \<Rightarrow> json" where
  "set_json key v ttl = JObj [(''key'', JStr key), (''value'', JStr v), (''ttl_ms'', JInt ttl)]"

definition bench_set_request :: "env \<Rightarrow> string \<Rightarrow> string \<Rightarrow> int \<Rightarrow> request" where
  "bench_set_request E key v ttl = \<lparr>rPath = ''/v1/set'', rMethod = ''PUT'', rQuery = (\<lambda>_. ''''),
    rBody = marshal (float_text E) (set_json key v ttl)\<rparr>"

definition bench_get_request :: "string \<Rightarrow> request" where
  "bench_get_request key = \<lparr>rPath = ''/v1/get'', rMethod = ''GET'',
    rQuery = query_get (''key='' @ key), rBody = empty_payload\<rparr>"

section \<open>Operations\<close>

text \<open>The error of the operation, if any; \<open>keyn = 0\<close> panics in \<open>keyOf\<close>.\<close>

definition bench_set ::
  "env \<Rightarrow> (nat \<Rightarrow> loss) \<Rightarrow> int \<Rightarrow> int \<Rightarrow> string \<Rightarrow> int \<Rightarrow> world \<Rightarrow> (string option \<times> world) option" where
  "bench_set E lost keyn ttl base i w =
    (case keyOf i keyn of
       None \<Rightarrow> None
     | Some key \<Rightarrow>
         (case attempt E lost base (bench_set_request E key (''v-'' @ int_text i) ttl) w of
            None \<Rightarrow> None
          | Some (Inl e, w1) \<Rightarrow> Some (Some e, w1)
          | Some (Inr res, w1) \<Rightarrow>
              Some (if rStatus res \<ge> 300 then Some (''set status '' @ int_text (rStatus res)) else None, w1)))"

definition bench_get ::
  "env \<Rightarrow> (nat \<Rightarrow> loss) \<Rightarrow> int \<Rightarrow> string \<Rightarrow> int \<Rightarrow> world \<Rightarrow> (string option \<times> world) option" where
  "bench_get E lost keyn base i w =
    (case keyOf i keyn of
       None \<Rightarrow> None
     | Some key \<Rightarrow>
         (case attempt E lost base (bench_get_request key) w of
            None \<Rightarrow> None
          | Some (Inl e, w1) \<Rightarrow> Some (Some e, w1)
          | Some (Inr res, w1) \<Rightarrow>
              Some (if rStatus res \<noteq> 200 \<and> rStatus res \<noteq> 404
                    then Some (''get status '' @ int_text (rStatus res)) else None, w1)))"


section \<open>The key and the body\<close>




text \<open>Neither operation panics for a positive key count; an error is a value.\<close>

lemma bench_operations_return:
  assumes "world_inv E w" "keyn \<noteq> 0"
  shows "\<exists>err w'. bench_set E lost keyn ttl base i w = Some (err, w') \<and> world_inv E w'"
    and "\<exists>err w'. bench_get E lost keyn base i w = Some (err, w') \<and> world_inv E w'"
proof -
  obtain key where key: "keyOf i keyn = Some key" using assms(2) by (simp add: keyOf_def)
  obtain x w' where s: "attempt E lost base (bench_set_request E key (''v-'' @ int_text i) ttl) w = Some (x, w')" "world_inv E w'"
    using attempt_runs [OF assms(1)] by blast
  then show "\<exists>err w'. bench_set E lost keyn ttl base i w = Some (err, w') \<and> world_inv E w'"
    by (cases x) (auto simp: bench_set_def key)
  obtain y w'' where g: "attempt E lost base (bench_get_request key) w = Some (y, w'')" "world_inv E w''"
    using attempt_runs [OF assms(1)] by blast
  then show "\<exists>err w'. bench_get E lost keyn base i w = Some (err, w') \<and> world_inv E w'"
    by (cases y) (auto simp: bench_get_def key)
qed

section \<open>Samples\<close>




section \<open>A sample on the demo cluster\<close>


end
