(* ===== verification/Interleaved.thy ===== *)
theory Interleaved
  imports ClusterTakes
begin

text \<open>
  The handlers of \<open>internal/node/node.go\<close> run by concurrent goroutines. In \<open>Cluster\<close> a
  request is one step of the world; here every request, every goroutine of a fan-out, every
  read repair and every call to a peer is a thread of its own that advances by one step at a
  time, a step being at most one access to shared state: an operation of the store or of the
  limiter, the peer map or the breaker under \<open>n.mu\<close>, the ring under its lock. Between two
  steps of a thread any other thread of any process may run. A call to a peer travels, is
  served and is answered in separate steps, and may be lost at each of them: the caller then
  times out, and a request that had arrived is still served (a thread nobody waits for). A
  step names what it did to shared state by an \<open>event\<close>.
\<close>

section \<open>Events\<close>

datatype event =
    Quiet
  | Arrive string request
  | CacheOp string store_op
  | LimitOp string take_req result
  | LimitSweep string time
  | BreakerMark string string time
  | BreakerCheck string string time
  | PeerPut string string string
  | PeerDel string string
  | RingAdd string string
  | RingRemove string string

text \<open>What an event does to the processes.\<close>

fun effect_on :: "fpu \<Rightarrow> event \<Rightarrow> (string \<Rightarrow> node) \<Rightarrow> (string \<Rightarrow> node) option" where
  "effect_on M Quiet P = Some P"
| "effect_on M (Arrive p r) P = Some P"
| "effect_on M (CacheOp p act) P =
    map_option (\<lambda>s. P(p := (P p)\<lparr>nstore := s\<rparr>)) (store_exec act (nstore (P p)))"
| "effect_on M (LimitOp p q res) P =
    (let (res', s) = Take_store M (tq_now q) (tq_key q) (tq_rate q) (tq_burst q) (tq_cost q) (nrl (P p))
     in if res' = res then Some (P(p := (P p)\<lparr>nrl := s\<rparr>)) else None)"
| "effect_on M (LimitSweep p now) P = Some (P(p := (P p)\<lparr>nrl := sweep_rl now (nrl (P p))\<rparr>))"
| "effect_on M (BreakerMark p nid now) P = Some (P(p := markDown now nid (P p)))"
| "effect_on M (BreakerCheck p nid now) P = Some (P(p := snd (isDown now nid (P p))))"
| "effect_on M (PeerPut p nid url) P = Some (P(p := (P p)\<lparr>npeers := gm_put nid url (npeers (P p))\<rparr>))"
| "effect_on M (PeerDel p nid) P = Some (P(p := (P p)\<lparr>npeers := gm_del nid (npeers (P p)),
    downUntil := gm_del nid (downUntil (P p))\<rparr>))"
| "effect_on M (RingAdd p nid) P = Some (P(p := (P p)\<lparr>nring := Add nid (nring (P p))\<rparr>))"
| "effect_on M (RingRemove p nid) P = Some (P(p := (P p)\<lparr>nring := Remove nid (nring (P p))\<rparr>))"

text \<open>The events of the primitives, with the clock reading each takes.\<close>

definition get_event :: "env \<Rightarrow> string \<Rightarrow> string \<Rightarrow> world \<Rightarrow> event" where
  "get_event E p key w = CacheOp p (OpGet (clock E (ticks w)) key)"

definition set_event :: "env \<Rightarrow> string \<Rightarrow> kv_body \<Rightarrow> world \<Rightarrow> event" where
  "set_event E p b w = CacheOp p (OpSet (clock E (ticks w)) (kb_key b) (kb_value b)
    (dur_mul (kb_ttl b) millisecond) (kb_written b))"

definition take_event :: "env \<Rightarrow> string \<Rightarrow> rl_body \<Rightarrow> result \<Rightarrow> world \<Rightarrow> event" where
  "take_event E p b res w = LimitOp p (req_at (clock E (ticks w)) b) res"

definition mark_event :: "env \<Rightarrow> string \<Rightarrow> string \<Rightarrow> world \<Rightarrow> event" where
  "mark_event E me nid w = BreakerMark me nid (clock E (ticks w))"

definition check_event :: "env \<Rightarrow> string \<Rightarrow> string \<Rightarrow> world \<Rightarrow> event" where
  "check_event E me nid w = BreakerCheck me nid (clock E (ticks w))"

lemmas event_defs = get_event_def set_event_def take_event_def mark_event_def check_event_def

section \<open>Calls to a peer\<close>

text \<open>
  \<open>Sending\<close> a request to a base URL; \<open>InFlight\<close> to a process; \<open>Encoding\<close> a hit there, after
  the store was read and before the clock is read for the remaining lifetime; \<open>Answered\<close>, the
  response on its way back; \<open>Returned\<close> to the caller.
\<close>

datatype rpc =
    Sending string request
  | InFlight string request
  | Encoding string string entry
  | Answered response
  | Returned "string + response"

definition serve_kv :: "env \<Rightarrow> string \<Rightarrow> request \<Rightarrow> world \<Rightarrow> (rpc \<times> event \<times> world) option" where
  "serve_kv E p r w =
    (if rMethod r = ''GET'' then
       (let key = rQuery r ''key''
        in case validateKey key of
             Some e \<Rightarrow> Some (Answered (http_error e 400), Quiet, w)
           | None \<Rightarrow>
               (let ((ent, ok), w1) = local_get E p key w
                in Some (if ok then Encoding p key ent else Answered (miss_resp key), get_event E p key w, w1)))
     else if rMethod r = ''PUT'' then
       (case Option.bind (readJSON (rBody r)) decode_kv of
          None \<Rightarrow> Some (Answered (http_error ''bad json'' 400), Quiet, w)
        | Some b \<Rightarrow>
            (case validateKey (kb_key b) of
               Some e \<Rightarrow> Some (Answered (http_error e 400), Quiet, w)
             | None \<Rightarrow>
                 (case internal_set E p b w of
                    None \<Rightarrow> None
                  | Some (ok, w1) \<Rightarrow>
                      Some (Answered (ok_resp ''applied'' ok (self_id p w)), set_event E p b w, w1))))
     else if rMethod r = ''DELETE'' then
       (let key = rQuery r ''key''
        in case validateKey key of
             Some e \<Rightarrow> Some (Answered (http_error e 400), Quiet, w)
           | None \<Rightarrow>
               (let (ok, w1) = local_delete p key w
                in Some (Answered (ok_resp ''deleted'' ok (self_id p w)), CacheOp p (OpDelete key), w1)))
     else Some (Answered (http_error ''method'' 405), Quiet, w))"

definition serve_take :: "env \<Rightarrow> string \<Rightarrow> request \<Rightarrow> world \<Rightarrow> (rpc \<times> event \<times> world) option" where
  "serve_take E p r w =
    (if rMethod r \<noteq> ''POST'' \<and> rMethod r \<noteq> ''PUT'' then Some (Answered (http_error ''method'' 405), Quiet, w)
     else
       (case parseRateLimitBody (rBody r) of
          Inl e \<Rightarrow> Some (Answered (http_error e 400), Quiet, w)
        | Inr b \<Rightarrow>
            (let (res, w1) = local_take E p b w
             in Some (Answered (take_resp (self_id p w) (self_id p w) res), take_event E p b res w, w1))))"

fun rpc_step :: "env \<Rightarrow> rpc \<Rightarrow> world \<Rightarrow> (rpc \<times> event \<times> world) option" where
  "rpc_step E (Sending base r) w =
    Some (case route E base of None \<Rightarrow> Returned (Inl ''connection refused'') | Some p \<Rightarrow> InFlight p r, Quiet, w)"
| "rpc_step E (InFlight p r) w = (if rPath r = ''/internal/kv'' then serve_kv E p r w else serve_take E p r w)"
| "rpc_step E (Encoding p key ent) w =
    (let (now, w1) = tick E w
     in Some (Answered (writeJSON 200 (encode_get (getPayload now key (self_id p w) ent))), Quiet, w1))"
| "rpc_step E (Answered res) w = Some (Returned (Inr res), Quiet, w)"
| "rpc_step E (Returned x) w = None"

text \<open>The caller stops waiting: the call has failed, and what had arrived is served all the same.\<close>

fun rpc_lost :: "rpc \<Rightarrow> rpc list option" where
  "rpc_lost (Sending base r) = Some []"
| "rpc_lost (InFlight p r) = Some [InFlight p r]"
| "rpc_lost (Encoding p key ent) = Some [Encoding p key ent]"
| "rpc_lost (Answered res) = Some []"
| "rpc_lost (Returned x) = None"

definition call_step ::
  "env \<Rightarrow> bool \<Rightarrow> rpc \<Rightarrow> world \<Rightarrow> (rpc \<times> rpc list \<times> event \<times> world) option" where
  "call_step E lose c w =
    (if lose then map_option (\<lambda>left. (Returned (Inl ''timeout''), left, Quiet, w)) (rpc_lost c)
     else map_option (\<lambda>(c', ev, w'). (c', [], ev, w')) (rpc_step E c w))"

section \<open>One owner of a write\<close>

text \<open>\<open>writeOwner\<close>; \<open>WTaken\<close> once \<open>fanout\<close> has received the result from the channel.\<close>

datatype wcall = WStart | WCall rpc | WDone "string option" | WTaken

definition write_request :: "env \<Rightarrow> string \<Rightarrow> kv_body \<Rightarrow> request" where
  "write_request E meth b = (if meth = ''DELETE'' then kv_request ''DELETE'' (kb_key b) empty_payload
    else kv_request ''PUT'' '''' (marshal (float_text E) (encode_kv b)))"

definition write_start ::
  "env \<Rightarrow> string \<Rightarrow> string \<Rightarrow> kv_body \<Rightarrow> string \<Rightarrow> world \<Rightarrow> (wcall \<times> event \<times> world) option" where
  "write_start E me meth b nid w =
    (if nid = self_id me w then
       (if meth = ''PUT'' then
          (case local_set E me b w of None \<Rightarrow> None | Some (ok, w1) \<Rightarrow> Some (WDone None, set_event E me b w, w1))
        else if meth = ''DELETE'' then
          Some (WDone None, CacheOp me (OpDelete (kb_key b)), snd (local_delete me (kb_key b) w))
        else Some (WDone (Some ''bad method''), Quiet, w))
     else
       (let base = trim_right_char CHR ''/'' (peerURL (procs w me) nid)
        in Some (if base = '''' then WDone (Some ''unknown peer'')
                 else WCall (Sending base (write_request E meth b)), Quiet, w)))"

definition write_result :: "string + response \<Rightarrow> string option" where
  "write_result x = (case x of Inl e \<Rightarrow> Some e | Inr res \<Rightarrow> if rStatus res \<ge> 300 then Some ''status'' else None)"

definition write_step ::
  "env \<Rightarrow> string \<Rightarrow> string \<Rightarrow> kv_body \<Rightarrow> string \<Rightarrow> bool \<Rightarrow> wcall \<Rightarrow> world
    \<Rightarrow> (wcall \<times> rpc list \<times> event \<times> world) option" where
  "write_step E me meth b nid lose c w =
    (case c of
       WStart \<Rightarrow> map_option (\<lambda>(c', ev, w'). (c', [], ev, w')) (write_start E me meth b nid w)
     | WCall (Returned x) \<Rightarrow> Some (WDone (write_result x), [], Quiet, w)
     | WCall call \<Rightarrow> map_option (\<lambda>(call', left, ev, w'). (WCall call', left, ev, w')) (call_step E lose call w)
     | WDone err \<Rightarrow> None
     | WTaken \<Rightarrow> None)"

section \<open>Threads\<close>

text \<open>The points at which a handler gives way to other threads, one constructor each.\<close>

datatype get_thread =
    GetArrived request
  | GetLoop string "string list" "string list" bool
  | GetUrl string "string list" string "string list" bool
  | GetCall string "string list" string "string list" bool rpc
  | GetFailed string "string list" string "string list" bool
  | GetHit string "string list" string entry
  | GetReply string string entry

datatype write_thread =
    SetArrived request
  | SetOwners kv_body
  | DelArrived request
  | Fan string kv_body "string list" "(string \<times> wcall) list" nat "string list"

datatype take_thread =
    TakeArrived request
  | TakeLocal rl_body
  | TakeForward string rl_body
  | TakeCall string rpc
  | TakeFailed string

datatype member_thread =
    MemArrived request
  | JoinRing string
  | LeaveRing string
  | MemNodes bool
  | MemPeers bool "string list"

datatype status_thread =
    StatsArrived request
  | StatsLimiter stats
  | RingArrived request
  | RingPeers string "string list"
  | RingLen string "string list" json
  | RingOwners string "string list" json nat

datatype thread =
    GetT get_thread
  | WriteT write_thread
  | TakeT take_thread
  | MemberT member_thread
  | StatusT status_thread
  | Repair string kv_body wcall
  | Serving rpc
  | Finished response
  | Ended

text \<open>The next state, the threads started (with their process), the event and the world.\<close>

type_synonym outcome = "(thread \<times> (string \<times> thread) list \<times> event \<times> world) option"

abbreviation continue :: "thread \<Rightarrow> world \<Rightarrow> outcome" where
  "continue t w \<equiv> Some (t, [], Quiet, w)"

abbreviation left_behind :: "string \<Rightarrow> rpc list \<Rightarrow> (string \<times> thread) list" where
  "left_behind me left \<equiv> map (\<lambda>c. (me, Serving c)) left"

section \<open>Reading: \<open>handleGet\<close>\<close>

definition repair_body :: "time \<Rightarrow> string \<Rightarrow> entry \<Rightarrow> kv_body option" where
  "repair_body now key ent =
    (let rem = until_ms now (ExpiresAt ent)
     in if \<not> is_zero (ExpiresAt ent) \<and> rem \<le> 0 then None
        else Some \<lparr>kb_key = key, kb_value = Value ent, kb_ttl = (if is_zero (ExpiresAt ent) then 0 else rem),
                   kb_written = WrittenAt ent\<rparr>)"

definition repairs :: "string \<Rightarrow> string list \<Rightarrow> string \<Rightarrow> kv_body option \<Rightarrow> (string \<times> thread) list" where
  "repairs me owners servedBy bo = (case bo of
     None \<Rightarrow> []
   | Some b \<Rightarrow> map (\<lambda>nid. (me, Repair nid b WStart)) (filter (\<lambda>nid. nid \<noteq> servedBy) owners))"

text \<open>What \<open>readOwner\<close> makes of the answer: an error, a miss, or a hit.\<close>

definition read_result :: "string + response \<Rightarrow> string + get_resp option" where
  "read_result x =
    (case x of
       Inl e \<Rightarrow> Inl e
     | Inr res \<Rightarrow>
         if rStatus res = 404 then Inr None
         else if rStatus res \<noteq> 200 then Inl ''status''
         else
           (case (case rReply res of BText t \<Rightarrow> None | BJson j \<Rightarrow> decode_get j) of
              None \<Rightarrow> Inl ''bad json''
            | Some g \<Rightarrow> Inr (if gr_found g then Some g else None)))"

definition entry_read :: "time \<Rightarrow> get_resp \<Rightarrow> entry" where
  "entry_read now g = \<lparr>Value = gr_value g,
    ExpiresAt = (case gr_ttl g of None \<Rightarrow> zero_time
      | Some ms \<Rightarrow> if ms > 0 then time_add now (dur_mul ms millisecond) else zero_time),
    WrittenAt = gr_written g\<rparr>"

fun get_step :: "env \<Rightarrow> string \<Rightarrow> bool \<Rightarrow> get_thread \<Rightarrow> world \<Rightarrow> outcome" where
  "get_step E me lose (GetArrived r) w =
    (if rMethod r \<noteq> ''GET'' then continue (Finished (http_error ''method'' 405)) w
     else
       (let key = rQuery r ''key'' in
        case validateKey key of
          Some e \<Rightarrow> continue (Finished (http_error e 400)) w
        | None \<Rightarrow>
            (let n = procs w me; owners = Owners (nring n) key (cReplicas (ncfg n))
             in if owners = [] then continue (Finished (http_error ''empty ring'' 503)) w
                else continue (GetT (GetLoop key owners (preferLocal owners (self_id me w)) False)) w)))"
| "get_step E me lose (GetLoop key owners [] reached) w =
    continue (Finished (if \<not> reached then http_error ''all replicas unreachable'' 503 else miss_resp key)) w"
| "get_step E me lose (GetLoop key owners (nid # ids) reached) w =
    (if nid = self_id me w then
       (let ((ent, ok), w1) = local_get E me key w
        in Some (GetT (if ok then GetHit key owners nid ent else GetLoop key owners ids True), [],
                 get_event E me key w, w1))
     else
       (let (down, w1) = is_down E me nid w
        in Some (GetT (if down then GetFailed key owners nid ids reached else GetUrl key owners nid ids reached), [],
                 check_event E me nid w, w1)))"
| "get_step E me lose (GetUrl key owners nid ids reached) w =
    (let base = peerURL (procs w me) nid
     in continue (GetT (if base = '''' then GetFailed key owners nid ids reached
          else GetCall key owners nid ids reached
            (Sending (trim_right_char CHR ''/'' base) (kv_request ''GET'' key empty_payload)))) w)"
| "get_step E me lose (GetCall key owners nid ids reached c) w =
    (case c of
       Returned x \<Rightarrow>
         (case read_result x of
            Inl e \<Rightarrow> continue (GetT (GetFailed key owners nid ids reached)) w
          | Inr None \<Rightarrow> continue (GetT (GetLoop key owners ids True)) w
          | Inr (Some g) \<Rightarrow>
              (let (now, w1) = tick E w in continue (GetT (GetHit key owners nid (entry_read now g))) w1))
     | _ \<Rightarrow> map_option (\<lambda>(c', left, ev, w'). (GetT (GetCall key owners nid ids reached c'), left_behind me left, ev, w'))
              (call_step E lose c w))"
| "get_step E me lose (GetFailed key owners nid ids reached) w =
    Some (GetT (GetLoop key owners ids reached), [], mark_event E me nid w, mark_down E me nid w)"
| "get_step E me lose (GetHit key owners nid ent) w =
    (let (now, w1) = tick E w
     in Some (GetT (GetReply key nid ent), repairs me owners nid (repair_body now key ent), Quiet, w1))"
| "get_step E me lose (GetReply key nid ent) w =
    (let (now, w1) = tick E w in continue (Finished (writeJSON 200 (encode_get (getPayload now key nid ent)))) w1)"

section \<open>Writing: \<open>handleSet\<close>, \<open>handleDelete\<close> and \<open>fanout\<close>\<close>

text \<open>
  The scheduler's choice for a thread: go on (and whether the call it waits for is lost), let
  goroutine \<open>i\<close> of its fan-out advance, or receive the result of goroutine \<open>i\<close>.
\<close>

datatype choice = Go bool | Worker nat bool | Receive nat

definition fan_reply :: "string \<Rightarrow> kv_body \<Rightarrow> string list \<Rightarrow> nat \<Rightarrow> string list \<Rightarrow> response" where
  "fan_reply meth b owners acked failed =
    writeJSON (if acked = 0 \<and> (meth = ''DELETE'' \<longrightarrow> 0 < length owners) then 503 else 200)
      (encode_write \<lparr>wr_key = kb_key b, wr_acked = acked, wr_replicas = owners, wr_failed = sort failed\<rparr>)"

definition fan_out :: "string \<Rightarrow> kv_body \<Rightarrow> string list \<Rightarrow> thread" where
  "fan_out meth b owners = WriteT (Fan meth b owners (map (\<lambda>nid. (nid, WStart)) owners) 0 [])"

fun fan_step :: "env \<Rightarrow> string \<Rightarrow> choice \<Rightarrow> string \<Rightarrow> kv_body \<Rightarrow> string list \<Rightarrow> (string \<times> wcall) list \<Rightarrow> nat
    \<Rightarrow> string list \<Rightarrow> world \<Rightarrow> outcome" where
  "fan_step E me (Go lose) meth b owners ws acked failed w =
    (if list_all (\<lambda>(nid, c). c = WTaken) ws then continue (Finished (fan_reply meth b owners acked failed)) w
     else None)"
| "fan_step E me (Worker i lose) meth b owners ws acked failed w =
    (if i < length ws then
       map_option (\<lambda>(c', left, ev, w').
           (WriteT (Fan meth b owners (ws[i := (fst (ws ! i), c')]) acked failed), left_behind me left, ev, w'))
         (write_step E me meth b (fst (ws ! i)) lose (snd (ws ! i)) w)
     else None)"
| "fan_step E me (Receive i) meth b owners ws acked failed w =
    (if i < length ws then
       (let nid = fst (ws ! i); ws' = ws[i := (nid, WTaken)]
        in case snd (ws ! i) of
             WDone None \<Rightarrow> continue (WriteT (Fan meth b owners ws' (acked + 1) failed)) w
           | WDone (Some e) \<Rightarrow> Some (WriteT (Fan meth b owners ws' acked (failed @ [nid])), [],
               mark_event E me nid w, mark_down E me nid w)
           | _ \<Rightarrow> None)
     else None)"

fun writer_step :: "env \<Rightarrow> string \<Rightarrow> choice \<Rightarrow> write_thread \<Rightarrow> world \<Rightarrow> outcome" where
  "writer_step E me ch (SetArrived r) w =
    (if rMethod r \<noteq> ''PUT'' \<and> rMethod r \<noteq> ''POST'' then continue (Finished (http_error ''method'' 405)) w
     else
       (case Option.bind (readJSON (rBody r)) decode_kv of
          None \<Rightarrow> continue (Finished (http_error ''bad json'' 400)) w
        | Some b0 \<Rightarrow>
            (case validateKey (kb_key b0) of
               Some e \<Rightarrow> continue (Finished (http_error e 400)) w
             | None \<Rightarrow>
                 (case validateValue (kb_value b0) of
                    Some e \<Rightarrow> continue (Finished (http_error e 400)) w
                  | None \<Rightarrow>
                      if kb_ttl b0 < 0 then continue (Finished (http_error ''ttl_ms must be >= 0'' 400)) w
                      else (let (b, w1) = stamp_body E b0 w in continue (WriteT (SetOwners b)) w1)))))"
| "writer_step E me ch (SetOwners b) w =
    (let n = procs w me
     in continue (fan_out ''PUT'' b (Owners (nring n) (kb_key b) (cReplicas (ncfg n)))) w)"
| "writer_step E me ch (DelArrived r) w =
    (if rMethod r \<noteq> ''DELETE'' then continue (Finished (http_error ''method'' 405)) w
     else
       (let key = rQuery r ''key'' in
        case validateKey key of
          Some e \<Rightarrow> continue (Finished (http_error e 400)) w
        | None \<Rightarrow>
            (let n = procs w me
             in continue (fan_out ''DELETE'' (zero_kv\<lparr>kb_key := key\<rparr>)
                  (Owners (nring n) key (cReplicas (ncfg n)))) w)))"
| "writer_step E me ch (Fan meth b owners ws acked failed) w = fan_step E me ch meth b owners ws acked failed w"

section \<open>Rate limiting: \<open>handleRateLimitTake\<close>\<close>

definition forward_request :: "env \<Rightarrow> rl_body \<Rightarrow> request" where
  "forward_request E b = \<lparr>rPath = ''/internal/ratelimit/take'', rMethod = ''POST'', rQuery = (\<lambda>_. ''''),
    rBody = marshal (float_text E) (encode_rl b)\<rparr>"

fun take_step :: "env \<Rightarrow> string \<Rightarrow> bool \<Rightarrow> take_thread \<Rightarrow> world \<Rightarrow> outcome" where
  "take_step E me lose (TakeArrived r) w =
    (if rMethod r \<noteq> ''POST'' \<and> rMethod r \<noteq> ''PUT'' then continue (Finished (http_error ''method'' 405)) w
     else
       (case parseRateLimitBody (rBody r) of
          Inl e \<Rightarrow> continue (Finished (http_error e 400)) w
        | Inr b \<Rightarrow>
            (let primary = Primary (nring (procs w me)) (rb_key b)
             in if primary = '''' then continue (Finished (http_error ''empty ring'' 503)) w
                else continue (TakeT (if primary = self_id me w then TakeLocal b else TakeForward primary b)) w)))"
| "take_step E me lose (TakeLocal b) w =
    (let (res, w1) = local_take E me b w
     in Some (Finished (take_resp (self_id me w) (self_id me w) res), [], take_event E me b res w, w1))"
| "take_step E me lose (TakeForward primary b) w =
    (let base = trim_right_char CHR ''/'' (peerURL (procs w me) primary)
     in continue (TakeT (if base = '''' then TakeFailed primary
          else TakeCall primary (Sending base (forward_request E b)))) w)"
| "take_step E me lose (TakeCall primary c) w =
    (case c of
       Returned (Inl e) \<Rightarrow> continue (TakeT (TakeFailed primary)) w
     | Returned (Inr res) \<Rightarrow>
         continue (Finished \<lparr>rStatus = rStatus res, rReply = limit_body (float_text E) (rReply res)\<rparr>) w
     | _ \<Rightarrow> map_option (\<lambda>(c', left, ev, w'). (TakeT (TakeCall primary c'), left_behind me left, ev, w'))
              (call_step E lose c w))"
| "take_step E me lose (TakeFailed primary) w =
    Some (Finished (http_error ''primary unreachable'' 503), [], mark_event E me primary w, mark_down E me primary w)"

section \<open>Membership and status\<close>

text \<open>
  \<open>join\<close> and \<open>leave\<close> change the peer map under \<open>n.mu\<close> and the ring under its own lock, one
  after the other; the replies read the ring and then the peer map.
\<close>

definition members_reply :: "bool \<Rightarrow> config \<Rightarrow> string list \<Rightarrow> json \<Rightarrow> json" where
  "members_reply ok c names peers = JObj ([(''id'', JStr (cID c)), (''nodes'', JArr (map JStr names))]
    @ (if ok then [(''ok'', JBool True)] else []) @ [(''peers'', peers)])"

fun member_step :: "env \<Rightarrow> string \<Rightarrow> member_thread \<Rightarrow> world \<Rightarrow> outcome" where
  "member_step E me (MemArrived r) w =
    (let n = procs w me in
     if rMethod r = ''GET'' then continue (MemberT (MemNodes False)) w
     else if rMethod r = ''PUT'' \<or> rMethod r = ''POST'' then
       (case Option.bind (readJSON (rBody r)) decode_member of
          None \<Rightarrow> continue (Finished (http_error ''bad json'' 400)) w
        | Some b \<Rightarrow>
            (let nid = trim_space (mb_id b); rawURL = trim_space (mb_url b)
             in if nid = '''' \<or> rawURL = '''' then continue (Finished (http_error ''id and url required'' 400)) w
                else if \<not> uri_ok E rawURL then continue (Finished (http_error ''url'' 400)) w
                else Some (MemberT (JoinRing nid), [], PeerPut me nid rawURL,
                       upd me (n\<lparr>npeers := gm_put nid rawURL (npeers n)\<rparr>) w)))
     else if rMethod r = ''DELETE'' then
       (let nid = trim_space (rQuery r ''id'')
        in if nid = '''' then continue (Finished (http_error ''id required'' 400)) w
           else if nid = cID (ncfg n) then continue (Finished (http_error ''cannot remove self'' 400)) w
           else Some (MemberT (LeaveRing nid), [], PeerDel me nid,
                  upd me (n\<lparr>npeers := gm_del nid (npeers n), downUntil := gm_del nid (downUntil n)\<rparr>) w))
     else continue (Finished (http_error ''method'' 405)) w)"
| "member_step E me (JoinRing nid) w =
    (let n = procs w me
     in Some (MemberT (MemNodes True), [], RingAdd me nid, upd me (n\<lparr>nring := Add nid (nring n)\<rparr>) w))"
| "member_step E me (LeaveRing nid) w =
    (let n = procs w me
     in Some (MemberT (MemNodes True), [], RingRemove me nid, upd me (n\<lparr>nring := Remove nid (nring n)\<rparr>) w))"
| "member_step E me (MemNodes ok) w = continue (MemberT (MemPeers ok (Nodes (nring (procs w me))))) w"
| "member_step E me (MemPeers ok names) w =
    (let n = procs w me
     in continue (Finished (writeJSON 200 (members_reply ok (ncfg n) names (snapshotPeers n)))) w)"

definition stats_reply :: "config \<Rightarrow> stats \<Rightarrow> nat \<Rightarrow> json" where
  "stats_reply c st buckets = encode_stats_resp
    \<lparr>sr_id = cID c, sr_listen = cListen c, sr_replicas = cReplicas c, sr_vnodes = cVNodes c,
     sr_store = st, sr_buckets = buckets\<rparr>"

definition ring_reply :: "config \<Rightarrow> string list \<Rightarrow> json \<Rightarrow> nat \<Rightarrow> string \<Rightarrow> string list \<Rightarrow> json" where
  "ring_reply c names peers points key owners = encode_ring_resp
    ((ring_resp_of c names peers points)\<lparr>rg_key := key, rg_owners := owners\<rparr>)"

fun status_step :: "string \<Rightarrow> status_thread \<Rightarrow> world \<Rightarrow> outcome" where
  "status_step me (StatsArrived r) w =
    (if rMethod r \<noteq> ''GET'' then continue (Finished (http_error ''method'' 405)) w
     else continue (StatusT (StatsLimiter (Stats (nstore (procs w me))))) w)"
| "status_step me (StatsLimiter st) w =
    (let n = procs w me in continue (Finished (writeJSON 200 (stats_reply (ncfg n) st (Len_rl (nrl n))))) w)"
| "status_step me (RingArrived r) w =
    (if rMethod r \<noteq> ''GET'' then continue (Finished (http_error ''method'' 405)) w
     else continue (StatusT (RingPeers (rQuery r ''key'') (Nodes (nring (procs w me))))) w)"
| "status_step me (RingPeers key names) w = continue (StatusT (RingLen key names (snapshotPeers (procs w me)))) w"
| "status_step me (RingLen key names peers) w =
    continue (StatusT (RingOwners key names peers (Len_ring (nring (procs w me))))) w"
| "status_step me (RingOwners key names peers points) w =
    (let n = procs w me; c = ncfg n;
         owners = (if key \<noteq> '''' then Owners (nring n) key (cReplicas c) else [])
     in continue (Finished (writeJSON 200 (ring_reply c names peers points key owners))) w)"

section \<open>One step of a thread, and of the cluster\<close>

fun tstep :: "env \<Rightarrow> string \<Rightarrow> choice \<Rightarrow> thread \<Rightarrow> world \<Rightarrow> outcome" where
  "tstep E me ch (WriteT t) w = writer_step E me ch t w"
| "tstep E me (Go lose) (GetT t) w = get_step E me lose t w"
| "tstep E me (Go lose) (TakeT t) w = take_step E me lose t w"
| "tstep E me (Go lose) (MemberT t) w = member_step E me t w"
| "tstep E me (Go lose) (StatusT t) w = status_step me t w"
| "tstep E me (Go lose) (Repair nid b c) w =
    (case c of
       WDone err \<Rightarrow> continue Ended w
     | _ \<Rightarrow> map_option (\<lambda>(c', left, ev, w'). (Repair nid b c', left_behind me left, ev, w'))
              (write_step E me ''PUT'' b nid lose c w))"
| "tstep E me (Go lose) (Serving c) w =
    (case c of
       Returned x \<Rightarrow> continue (case x of Inl e \<Rightarrow> Ended | Inr res \<Rightarrow> Finished res) w
     | _ \<Rightarrow> map_option (\<lambda>(c', ev, w'). (Serving c', [], ev, w')) (rpc_step E c w))"
| "tstep E me ch t w = None"

text \<open>The thread of a new request: the mux picks the handler.\<close>

definition start_thread :: "string \<Rightarrow> request \<Rightarrow> world \<Rightarrow> thread" where
  "start_thread me r w =
    (let p = rPath r in
     if p = ''/health'' then Finished (handleHealth me r w)
     else if p = ''/stats'' then StatusT (StatsArrived r)
     else if p = ''/ring'' then StatusT (RingArrived r)
     else if p = ''/v1/get'' \<or> p = ''/get'' then GetT (GetArrived r)
     else if p = ''/v1/set'' \<or> p = ''/set'' then WriteT (SetArrived r)
     else if p = ''/v1/delete'' \<or> p = ''/delete'' then WriteT (DelArrived r)
     else if p = ''/internal/kv'' then Serving (InFlight me r)
     else if p = ''/v1/ratelimit/take'' then TakeT (TakeArrived r)
     else if p = ''/internal/ratelimit/take'' then Serving (InFlight me r)
     else if p = ''/admin/members'' then MemberT (MemArrived r)
     else Finished (http_error ''404 page not found'' 404))"

record istate =
  iw :: world
  ithreads :: "(string \<times> thread) list"

text \<open>Thread \<open>i\<close> takes a step.\<close>

inductive advance :: "env \<Rightarrow> nat \<Rightarrow> istate \<Rightarrow> event \<Rightarrow> istate \<Rightarrow> bool" for E i where
  advance_thread:
    "i < length (ithreads s) \<Longrightarrow> ithreads s ! i = (me, t) \<Longrightarrow> tstep E me ch t (iw s) = Some (t', new, ev, w')
      \<Longrightarrow> advance E i s ev (s\<lparr>iw := w', ithreads := (ithreads s)[i := (me, t')] @ new\<rparr>)"

inductive istep :: "env \<Rightarrow> istate \<Rightarrow> event \<Rightarrow> istate \<Rightarrow> bool" for E where
  istep_arrive:
    "istep E s (Arrive me r) (s\<lparr>ithreads := ithreads s @ [(me, start_thread me r (iw s))]\<rparr>)"
| istep_thread: "advance E i s ev s' \<Longrightarrow> istep E s ev s'"
| istep_store_tick:
    "istep E s (CacheOp p (OpSweep (clock E (ticks (iw s))))) (s\<lparr>iw := store_tick E p (iw s)\<rparr>)"
| istep_limiter_tick:
    "istep E s (LimitSweep p (clock E (ticks (iw s)))) (s\<lparr>iw := limiter_tick E p (iw s)\<rparr>)"

inductive_cases advanceE: "advance E i s ev s'"
inductive_cases istepE: "istep E s ev s'"

text \<open>A run and the sequence of its events.\<close>

inductive irun :: "env \<Rightarrow> istate \<Rightarrow> event list \<Rightarrow> istate \<Rightarrow> bool" for E where
  irun_start: "irun E s [] s"
| irun_next: "irun E s tr s' \<Longrightarrow> istep E s' ev s'' \<Longrightarrow> irun E s (tr @ [ev]) s''"

end
