(* ===== verification/InterleavedProps.thy ===== *)
theory InterleavedProps
  imports Interleaved
begin

text \<open>
  What holds of every interleaving. Each step of a thread does to the processes what its
  event says (\<open>tstep_effect\<close>), so that a run's events, projected to one process, are a
  sequential run of its store and of its limiter. Processes stay well formed under the
  invariant that survives the two-step \<open>join\<close> and \<open>leave\<close>, and every thread can go on until
  it has finished, within a number of steps known in advance.
\<close>

section \<open>Steps do what their events say\<close>

lemma eff_get: "effect_on M (get_event E p key w) (procs w) = Some (procs (snd (local_get E p key w)))"
  by (simp add: get_event_def procs_local_get)

lemma eff_set: "local_set E p b w = Some (ok, w') \<Longrightarrow>
    effect_on M (set_event E p b w) (procs w) = Some (procs w')"
  by (auto simp: set_event_def local_set_eq split: option.splits)

lemma eff_delete: "effect_on M (CacheOp p (OpDelete key)) (procs w) = Some (procs (snd (local_delete p key w)))"
  by (simp add: procs_local_delete)

lemma eff_take: "local_take E p b w = (res, w') \<Longrightarrow>
    effect_on (fpu_of (arch E)) (take_event E p b res w) (procs w) = Some (procs w')"
  by (auto simp: take_event_def req_at_def local_take_def tick_def Let_def split_beta)

lemma eff_mark: "effect_on M (mark_event E me nid w) (procs w) = Some (procs (mark_down E me nid w))"
  by (simp add: mark_event_def procs_mark_down)

lemma eff_check: "effect_on M (check_event E me nid w) (procs w) = Some (procs (snd (is_down E me nid w)))"
  by (simp add: check_event_def procs_is_down)

lemmas eff_prims = procs_local_delete eff_get eff_set eff_take eff_mark eff_check

lemma rpc_effect:
  "rpc_step E c w = Some (c', ev, w') \<Longrightarrow> effect_on (fpu_of (arch E)) ev (procs w) = Some (procs w')"
proof (induction E c w rule: rpc_step.induct)
  case (2 E p r w)
  then show ?case
    by (auto simp: serve_kv_def serve_take_def Let_def split_beta eff_prims eff_take [OF prod.collapse [symmetric]]
        split: if_splits option.splits sum.splits)
qed (auto simp: Let_def split_beta split: option.splits)

lemma call_effect:
  "call_step E lose c w = Some (c', left, ev, w') \<Longrightarrow> effect_on (fpu_of (arch E)) ev (procs w) = Some (procs w')"
  by (auto simp: call_step_def split: if_splits dest: rpc_effect)

lemma write_effect:
  "write_step E me meth b nid lose c w = Some (c', left, ev, w')
    \<Longrightarrow> effect_on (fpu_of (arch E)) ev (procs w) = Some (procs w')"
  by (auto simp: write_step_def write_start_def Let_def split_beta eff_prims
      split: wcall.splits rpc.splits if_splits option.splits dest: call_effect)

lemma get_effect:
  "get_step E me lose t w = Some (t', new, ev, w') \<Longrightarrow> effect_on (fpu_of (arch E)) ev (procs w) = Some (procs w')"
  by (induction E me lose t w rule: get_step.induct)
    (auto simp: Let_def split_beta eff_prims
      split: rpc.splits if_splits option.splits sum.splits dest: call_effect)

lemma fan_effect:
  "fan_step E me ch meth b owners ws acked failed w = Some (t', new, ev, w')
    \<Longrightarrow> effect_on (fpu_of (arch E)) ev (procs w) = Some (procs w')"
  by (induction E me ch meth b owners ws acked failed w rule: fan_step.induct)
    (auto simp: Let_def eff_prims split: wcall.splits if_splits option.splits dest: write_effect)

lemma writer_effect:
  "writer_step E me ch t w = Some (t', new, ev, w') \<Longrightarrow> effect_on (fpu_of (arch E)) ev (procs w) = Some (procs w')"
  by (induction E me ch t w rule: writer_step.induct)
    (auto simp: Let_def stamp_body_def split_beta split: if_splits option.splits dest: fan_effect)

lemma take_effect:
  "take_step E me lose t w = Some (t', new, ev, w') \<Longrightarrow> effect_on (fpu_of (arch E)) ev (procs w) = Some (procs w')"
  by (induction E me lose t w rule: take_step.induct)
    (auto simp: Let_def split_beta eff_prims eff_take [OF prod.collapse [symmetric]]
      split: rpc.splits if_splits option.splits sum.splits dest: call_effect)

lemma member_effect:
  "member_step E me t w = Some (t', new, ev, w') \<Longrightarrow> effect_on M ev (procs w) = Some (procs w')"
  by (induction E me t w rule: member_step.induct)
    (auto simp: Let_def split: if_splits option.splits)

lemma status_effect:
  "status_step me t w = Some (t', new, ev, w') \<Longrightarrow> effect_on M ev (procs w) = Some (procs w')"
  by (induction me t w rule: status_step.induct) (auto simp: Let_def split: if_splits)

lemma tstep_effect:
  "tstep E me ch t w = Some (t', new, ev, w') \<Longrightarrow> effect_on (fpu_of (arch E)) ev (procs w) = Some (procs w')"
  by (induction E me ch t w rule: tstep.induct)
    (auto simp del: rpc_step.simps split: wcall.splits rpc.splits
      dest: writer_effect get_effect take_effect member_effect status_effect write_effect rpc_effect)

lemma istep_effect:
  "istep E s ev s' \<Longrightarrow> effect_on (fpu_of (arch E)) ev (procs (iw s)) = Some (procs (iw s'))"
  by (erule istepE) (auto elim!: advanceE simp: store_tick_def limiter_tick_def tick_def Let_def dest: tstep_effect)

section \<open>One process in a run\<close>

fun cache_op :: "string \<Rightarrow> event \<Rightarrow> store_op list" where
  "cache_op p (CacheOp q act) = (if q = p then [act] else [])"
| "cache_op p ev = []"

definition cache_ops :: "string \<Rightarrow> event list \<Rightarrow> store_op list" where
  "cache_ops p tr = concat (map (cache_op p) tr)"

datatype limiter_op = LimTake take_req | LimSweep time

fun limiter_run :: "fpu \<Rightarrow> limiter_op list \<Rightarrow> rl_store \<Rightarrow> result list \<times> rl_store" where
  "limiter_run M [] s = ([], s)"
| "limiter_run M (LimTake q # acts) s =
    (let (res, s1) = Take_store M (tq_now q) (tq_key q) (tq_rate q) (tq_burst q) (tq_cost q) s;
         (rs, s2) = limiter_run M acts s1
     in (res # rs, s2))"
| "limiter_run M (LimSweep now # acts) s = limiter_run M acts (sweep_rl now s)"

fun limiter_entry :: "string \<Rightarrow> event \<Rightarrow> (limiter_op \<times> result option) list" where
  "limiter_entry p (LimitOp q rq res) = (if q = p then [(LimTake rq, Some res)] else [])"
| "limiter_entry p (LimitSweep q now) = (if q = p then [(LimSweep now, None)] else [])"
| "limiter_entry p ev = []"

definition limiter_ops :: "string \<Rightarrow> event list \<Rightarrow> limiter_op list" where
  "limiter_ops p tr = map fst (concat (map (limiter_entry p) tr))"

definition limiter_answers :: "string \<Rightarrow> event list \<Rightarrow> result list" where
  "limiter_answers p tr = List.map_filter snd (concat (map (limiter_entry p) tr))"

lemma ops_snoc [simp]:
  "cache_ops p [] = []" "limiter_ops p [] = []" "limiter_answers p [] = []"
  "cache_ops p (tr @ [ev]) = cache_ops p tr @ cache_op p ev"
  "limiter_ops p (tr @ [ev]) = limiter_ops p tr @ map fst (limiter_entry p ev)"
  "limiter_answers p (tr @ [ev]) = limiter_answers p tr @ List.map_filter snd (limiter_entry p ev)"
  by (simp_all add: cache_ops_def limiter_ops_def limiter_answers_def map_filter_def)

lemma store_run_append: "store_run (xs @ ys) s = Option.bind (store_run xs s) (store_run ys)"
  by (induction xs arbitrary: s) (auto simp: bind_assoc split: Option.bind_splits)

lemma limiter_run_append:
  "limiter_run M (xs @ ys) s = (fst (limiter_run M xs s) @ fst (limiter_run M ys (snd (limiter_run M xs s))),
    snd (limiter_run M ys (snd (limiter_run M xs s))))"
proof (induction xs arbitrary: s)
  case (Cons act xs)
  then show ?case by (cases act) (simp_all add: Let_def split_beta)
qed simp

lemma effect_store:
  "effect_on M ev P = Some P' \<Longrightarrow> store_run (cache_op p ev) (nstore (P p)) = Some (nstore (P' p))"
  by (cases ev) (auto simp: markDown_frame isDown_frame split: if_splits prod.splits)

lemma effect_limiter:
  "effect_on M ev P = Some P' \<Longrightarrow> limiter_run M (map fst (limiter_entry p ev)) (nrl (P p))
    = (List.map_filter snd (limiter_entry p ev), nrl (P' p))"
  by (cases ev) (auto simp: markDown_frame isDown_frame map_filter_def split: if_splits prod.splits)

lemma irun_store:
  "irun E s tr s' \<Longrightarrow> store_run (cache_ops p tr) (nstore (procs (iw s) p)) = Some (nstore (procs (iw s') p))"
proof (induction rule: irun.induct)
  case (irun_next s tr s' ev s'')
  then show ?case using effect_store [OF istep_effect [OF irun_next.hyps(2)], of p]
    by (simp add: store_run_append)
qed simp

lemma irun_limiter:
  "irun E s tr s' \<Longrightarrow> limiter_run (fpu_of (arch E)) (limiter_ops p tr) (nrl (procs (iw s) p))
    = (limiter_answers p tr, nrl (procs (iw s') p))"
proof (induction rule: irun.induct)
  case (irun_next s tr s' ev s'')
  then show ?case using effect_limiter [OF istep_effect [OF irun_next.hyps(2)], of p]
    by (simp add: limiter_run_append)
qed simp

section \<open>Processes stay well formed\<close>

text \<open>
  The invariant of a process under interleaving: \<open>node_inv\<close> without the agreement of ring and
  peer map, which a \<open>join\<close> or \<open>leave\<close> halfway through breaks.
\<close>

definition node_wf :: "fpu \<Rightarrow> node \<Rightarrow> bool" where
  "node_wf M n \<longleftrightarrow> ring_reachable (nring n) \<and> store_inv (nstore n) \<and> rl_inv M (nrl n) \<and> gm_ok (npeers n)
    \<and> cID (ncfg n) \<in> set (Nodes (nring n)) \<and> gm_get (downUntil n) (cID (ncfg n)) = None
    \<and> 1 \<le> cReplicas (ncfg n) \<and> 0 < cBreakFor (ncfg n)"

lemma node_inv_wf: "node_inv M n \<Longrightarrow> node_wf M n"
  unfolding node_inv_def node_wf_def by blast

definition procs_wf :: "env \<Rightarrow> world \<Rightarrow> bool" where
  "procs_wf E w \<longleftrightarrow> (\<forall>p. node_wf (fpu_of (arch E)) (procs w p))"

lemma procs_wfD: "procs_wf E w \<Longrightarrow> node_wf (fpu_of (arch E)) (procs w p)"
  by (simp add: procs_wf_def)

text \<open>What a step may ask of the limiter and of the ring.\<close>

fun event_ok :: "env \<Rightarrow> (string \<Rightarrow> node) \<Rightarrow> event \<Rightarrow> bool" where
  "event_ok E P (LimitOp p q res) = (\<exists>k b. q = req_at (clock E k) b \<and> rl_valid b)"
| "event_ok E P (RingRemove p nid) = (nid \<noteq> cID (ncfg (P p)))"
| "event_ok E P ev = True"

text \<open>What a thread remembers of the checks it has made.\<close>

fun thread_wf :: "(string \<Rightarrow> node) \<Rightarrow> string \<times> thread \<Rightarrow> bool" where
  "thread_wf P (me, MemberT (LeaveRing nid)) = (nid \<noteq> cID (ncfg (P me)))"
| "thread_wf P (me, TakeT (TakeLocal b)) = rl_valid b"
| "thread_wf P (me, Repair nid b WTaken) = False"
| "thread_wf P mt = True"

lemma effect_ncfg: "effect_on M ev P = Some P' \<Longrightarrow> ncfg (P' p) = ncfg (P p)"
  by (cases ev) (auto simp: markDown_frame isDown_frame split: if_splits prod.splits)

lemma markDown_wf: "node_wf M n \<Longrightarrow> node_wf M (markDown now nid n)"
  by (auto simp: node_wf_def markDown_def)

lemma isDown_wf: "node_wf M n \<Longrightarrow> node_wf M (snd (isDown now nid n))"
  by (auto simp: node_wf_def isDown_def split: option.splits)

lemma exec_inv: "store_inv s \<Longrightarrow> store_exec act s = Some s' \<Longrightarrow> store_inv s'"
  using store_exec_refines [of s act] by fastforce

lemma effect_wf:
  assumes "effect_on (fpu_of (arch E)) ev P = Some P'" "event_ok E P ev" "\<forall>p. node_wf (fpu_of (arch E)) (P p)"
  shows "node_wf (fpu_of (arch E)) (P' p)"
proof (cases ev)
  case (CacheOp q act)
  then obtain s where s: "store_exec act (nstore (P q)) = Some s" "P' = P(q := (P q)\<lparr>nstore := s\<rparr>)"
    using assms(1) by auto
  with exec_inv [OF _ s(1)] assms(3) show ?thesis by (simp add: node_wf_def)
next
  case (LimitOp q rq res)
  obtain k b where rq: "rq = req_at (clock E k) b" "rl_valid b" using assms(2) LimitOp by auto
  obtain s where s: "Take_store (fpu_of (arch E)) (tq_now rq) (tq_key rq) (tq_rate rq) (tq_burst rq) (tq_cost rq)
      (nrl (P q)) = (res, s)" "P' = P(q := (P q)\<lparr>nrl := s\<rparr>)"
    using assms(1) LimitOp by (auto split: prod.splits if_splits)
  have "rl_inv (fpu_of (arch E)) (snd (Take_store (fpu_of (arch E)) (tq_now rq) (tq_key rq) (tq_rate rq)
      (tq_burst rq) (tq_cost rq) (nrl (P q))))"
    using assms(3) rq by (intro go.Take_store_inv) (auto simp: rl_valid_def is_float_def req_at_def node_wf_def)
  then have "rl_inv (fpu_of (arch E)) s" unfolding s(1) by simp
  with assms(3) s(2) show ?thesis by (simp add: node_wf_def)
next
  case (LimitSweep q now)
  then show ?thesis using assms(1,3) by (auto simp: node_wf_def sweep_rl_inv)
next
  case (RingAdd q nid)
  then show ?thesis using assms(1,3) by (auto simp: node_wf_def ring_add Nodes_Add)
next
  case (RingRemove q nid)
  then show ?thesis using assms by (auto simp: node_wf_def ring_remove Nodes_Remove)
next
  case (PeerPut q nid u)
  then show ?thesis using assms(1,3) by (auto simp: node_wf_def)
next
  case (PeerDel q nid)
  then show ?thesis using assms(1,3) by (auto simp: node_wf_def)
qed (use assms in \<open>auto simp: markDown_wf isDown_wf\<close>)

text \<open>Steps ask only what is allowed.\<close>

lemma take_event_ok: "rl_valid b \<Longrightarrow> event_ok E P (take_event E p b res w)"
  by (auto simp: take_event_def)

lemma quiet_events_ok [simp]: "event_ok E P (get_event E p key w)" "event_ok E P (set_event E p b w)"
  "event_ok E P (mark_event E me nid w)" "event_ok E P (check_event E me nid w)"
  by (simp_all add: event_defs)

lemma rpc_event_ok: "rpc_step E c w = Some (c', ev, w') \<Longrightarrow> event_ok E P ev"
proof (induction E c w rule: rpc_step.induct)
  case (2 E p r w)
  then show ?case
    by (auto simp: serve_kv_def serve_take_def Let_def split_beta take_event_ok dest!: parse_valid
        split: if_splits option.splits sum.splits)
qed (auto simp: Let_def split_beta split: option.splits)

lemma call_event_ok: "call_step E lose c w = Some (c', left, ev, w') \<Longrightarrow> event_ok E P ev"
  by (auto simp: call_step_def split: if_splits dest: rpc_event_ok)

lemma write_event_ok: "write_step E me meth b nid lose c w = Some (c', left, ev, w') \<Longrightarrow> event_ok E P ev"
  by (auto simp: write_step_def write_start_def Let_def
      split: wcall.splits rpc.splits if_splits option.splits dest: call_event_ok)

lemma write_taken: "write_step E me meth b nid lose c w = Some (c', left, ev, w') \<Longrightarrow> c' \<noteq> WTaken"
  by (auto simp: write_step_def write_start_def Let_def split: wcall.splits rpc.splits if_splits option.splits)

lemma repair_wf: "thread_wf P (me, Repair nid b c) \<longleftrightarrow> c \<noteq> WTaken"
  by (cases c) simp_all

lemma serving_wf [simp]: "thread_wf P (me, Serving c)"
  "thread_wf P (me, Finished res)" "thread_wf P (me, Ended)" "thread_wf P (me, GetT g)" "thread_wf P (me, WriteT h)"
  by simp_all

lemma repairs_wf: "x \<in> set (repairs me owners nid bo) \<Longrightarrow> thread_wf P x"
  by (auto simp: repairs_def split: option.splits)

lemma get_wf:
  "get_step E me lose t w = Some (t', new, ev, w') \<Longrightarrow> event_ok E P ev \<and> (\<forall>x \<in> set ((me, t') # new). thread_wf P x)"
  by (induction E me lose t w rule: get_step.induct)
    (auto simp: Let_def split_beta repairs_wf
      split: rpc.splits if_splits option.splits sum.splits dest: call_event_ok)

lemma fan_wf:
  "fan_step E me ch meth b owners ws acked failed w = Some (t', new, ev, w')
    \<Longrightarrow> event_ok E P ev \<and> (\<forall>x \<in> set ((me, t') # new). thread_wf P x)"
  by (induction E me ch meth b owners ws acked failed w rule: fan_step.induct)
    (auto simp: Let_def split: wcall.splits if_splits option.splits dest: write_event_ok)

lemma writer_wf:
  "writer_step E me ch t w = Some (t', new, ev, w') \<Longrightarrow> event_ok E P ev \<and> (\<forall>x \<in> set ((me, t') # new). thread_wf P x)"
proof (induction E me ch t w rule: writer_step.induct)
  case (4 E me ch meth b owners ws acked failed w)
  then show ?case using fan_wf by simp
qed (auto simp: Let_def stamp_body_def split_beta fan_out_def split: if_splits option.splits)

lemma take_wf:
  "take_step E me lose t w = Some (t', new, ev, w') \<Longrightarrow> thread_wf P (me, TakeT t)
    \<Longrightarrow> event_ok E P ev \<and> (\<forall>x \<in> set ((me, t') # new). thread_wf P x)"
  by (induction E me lose t w rule: take_step.induct)
    (auto simp: Let_def split_beta take_event_ok
      split: rpc.splits if_splits option.splits sum.splits dest: call_event_ok dest!: parse_valid)

lemma member_wf:
  "member_step E me t w = Some (t', new, ev, w') \<Longrightarrow> thread_wf (procs w) (me, MemberT t)
    \<Longrightarrow> event_ok E (procs w) ev \<and> (\<forall>x \<in> set ((me, t') # new). thread_wf (procs w) x)"
  by (induction E me t w rule: member_step.induct) (auto simp: Let_def split: if_splits option.splits)

lemma status_wf:
  "status_step me t w = Some (t', new, ev, w') \<Longrightarrow> event_ok E P ev \<and> (\<forall>x \<in> set ((me, t') # new). thread_wf P x)"
  by (induction me t w rule: status_step.induct) (auto simp: Let_def split: if_splits)

lemma tstep_wf:
  assumes "tstep E me ch t w = Some (t', new, ev, w')" "thread_wf (procs w) (me, t)"
  shows "event_ok E (procs w) ev \<and> (\<forall>x \<in> set ((me, t') # new). thread_wf (procs w) x)"
  using assms
proof (induction E me ch t w rule: tstep.induct)
  case (6 E me lose nid b c w)
  then show ?case by (auto simp: repair_wf split: wcall.splits dest: write_event_ok write_taken)
next
  case (7 E me lose c w)
  then show ?case
    by (auto simp del: rpc_step.simps split: rpc.splits sum.splits dest: rpc_event_ok)
qed (use writer_wf get_wf take_wf member_wf status_wf in auto)

lemma thread_wf_effect: "effect_on M ev P = Some P' \<Longrightarrow> thread_wf P' x = thread_wf P x"
  by (cases "(P, x)" rule: thread_wf.cases) (auto simp: effect_ncfg)

text \<open>The invariant of a run.\<close>

definition istate_wf :: "env \<Rightarrow> istate \<Rightarrow> bool" where
  "istate_wf E s \<longleftrightarrow> procs_wf E (iw s) \<and> (\<forall>x \<in> set (ithreads s). thread_wf (procs (iw s)) x)"

lemma start_thread_wf: "thread_wf P (me, start_thread me r w)"
  by (simp add: start_thread_def Let_def)

lemma istep_threads_wf:
  assumes "istep E s ev s'" "istate_wf E s"
  shows "event_ok E (procs (iw s)) ev \<and> (\<forall>x \<in> set (ithreads s'). thread_wf (procs (iw s)) x)"
  using assms(1)
proof (cases rule: istep.cases)
  case (istep_arrive me r)
  then show ?thesis using assms(2) by (auto simp: istate_wf_def start_thread_wf)
next
  case (istep_thread i)
  then show ?thesis
  proof (cases rule: advance.cases)
    case (advance_thread me t ch t' new w')
    have "thread_wf (procs (iw s)) (me, t)"
      using assms(2) advance_thread nth_mem [of i "ithreads s"] unfolding istate_wf_def by metis
    note t = tstep_wf [OF \<open>tstep E me ch t (iw s) = Some (t', new, ev, w')\<close> this]
    have "set (ithreads s') \<subseteq> insert (me, t') (set (ithreads s)) \<union> set new"
      using advance_thread set_update_subset_insert [of "ithreads s" i "(me, t')"] by auto
    then show ?thesis using t assms(2) unfolding istate_wf_def by auto
  qed
qed (use assms(2) in \<open>simp_all add: istate_wf_def\<close>)

lemma istep_wf:
  assumes "istep E s ev s'" "istate_wf E s"
  shows "istate_wf E s'"
proof -
  note eff = istep_effect [OF assms(1)] and t = istep_threads_wf [OF assms]
  have "procs_wf E (iw s')"
    unfolding procs_wf_def using effect_wf [OF eff] t assms(2) by (simp add: istate_wf_def procs_wf_def)
  then show ?thesis using t thread_wf_effect [OF eff] by (simp add: istate_wf_def)
qed

lemma irun_wf: "irun E s tr s' \<Longrightarrow> istate_wf E s \<Longrightarrow> istate_wf E s'"
  by (induction rule: irun.induct) (auto intro: istep_wf)

lemma irun_event_ok: "irun E s tr s' \<Longrightarrow> istate_wf E s \<Longrightarrow> ev \<in> set tr \<Longrightarrow> \<exists>P. event_ok E P ev"
  by (induction rule: irun.induct) (auto dest: irun_wf istep_threads_wf)

text \<open>A cluster that has started and has no request yet.\<close>

definition iboot :: "world \<Rightarrow> istate" where
  "iboot w = \<lparr>iw = w, ithreads = []\<rparr>"

lemma iboot_wf: "world_inv E w \<Longrightarrow> istate_wf E (iboot w)"
  by (simp add: istate_wf_def iboot_def procs_wf_def world_inv_def node_inv_wf)

end
