(* ===== verification/InterleavedWork.thy ===== *)
theory InterleavedWork
  imports InterleavedProps
begin

text \<open>
  Concurrent requests finish: a thread that has not finished can always take a step, whatever
  the other threads are doing, and every step of a thread uses up some of the work that was
  bounded when it started, the goroutines, repairs and abandoned calls it starts included.
\<close>

section \<open>The work left\<close>

fun serving_work :: "rpc \<Rightarrow> nat" where
  "serving_work (Returned x) = 1"
| "serving_work (Answered res) = 2"
| "serving_work (Encoding p key ent) = 3"
| "serving_work (InFlight p r) = 4"
| "serving_work (Sending base r) = 5"

fun call_work :: "rpc \<Rightarrow> nat" where
  "call_work (Returned x) = 0"
| "call_work (Answered res) = 1"
| "call_work (Encoding p key ent) = 4"
| "call_work (InFlight p r) = 5"
| "call_work (Sending base r) = 6"

fun write_work :: "wcall \<Rightarrow> nat" where
  "write_work WTaken = 0"
| "write_work (WDone err) = 1"
| "write_work (WCall c) = call_work c + 2"
| "write_work WStart = 9"

definition loop_work :: "string list \<Rightarrow> string list \<Rightarrow> nat" where
  "loop_work owners ids = 3 + 9 * length owners + 10 * length ids"

text \<open>\<open>n\<close> is the number of replicas, which bounds the owners a request will find.\<close>

fun get_work :: "nat \<Rightarrow> get_thread \<Rightarrow> nat" where
  "get_work n (GetArrived r) = 4 + 19 * n"
| "get_work n (GetLoop key owners ids reached) = loop_work owners ids"
| "get_work n (GetUrl key owners nid ids reached) = loop_work owners ids + 9"
| "get_work n (GetCall key owners nid ids reached c) = loop_work owners ids + 2 + call_work c"
| "get_work n (GetFailed key owners nid ids reached) = loop_work owners ids + 1"
| "get_work n (GetHit key owners nid ent) = 2 + 9 * length owners"
| "get_work n (GetReply key nid ent) = 1"

fun writer_work :: "nat \<Rightarrow> write_thread \<Rightarrow> nat" where
  "writer_work n (SetArrived r) = 3 + 9 * n"
| "writer_work n (SetOwners b) = 2 + 9 * n"
| "writer_work n (DelArrived r) = 2 + 9 * n"
| "writer_work n (Fan meth b owners ws acked failed) = 1 + sum_list (map (\<lambda>(nid, c). write_work c) ws)"

fun take_work :: "take_thread \<Rightarrow> nat" where
  "take_work (TakeArrived r) = 10"
| "take_work (TakeLocal b) = 1"
| "take_work (TakeForward p b) = 9"
| "take_work (TakeCall p c) = 2 + call_work c"
| "take_work (TakeFailed p) = 1"

fun member_work :: "member_thread \<Rightarrow> nat" where
  "member_work (MemArrived r) = 4"
| "member_work (JoinRing nid) = 3"
| "member_work (LeaveRing nid) = 3"
| "member_work (MemNodes ok) = 2"
| "member_work (MemPeers ok names) = 1"

fun status_work :: "status_thread \<Rightarrow> nat" where
  "status_work (StatsArrived r) = 2"
| "status_work (StatsLimiter st) = 1"
| "status_work (RingArrived r) = 4"
| "status_work (RingPeers key names) = 3"
| "status_work (RingLen key names peers) = 2"
| "status_work (RingOwners key names peers points) = 1"

fun work :: "nat \<Rightarrow> thread \<Rightarrow> nat" where
  "work n (GetT t) = get_work n t"
| "work n (WriteT t) = writer_work n t"
| "work n (TakeT t) = take_work t"
| "work n (MemberT t) = member_work t"
| "work n (StatusT t) = status_work t"
| "work n (Repair nid b c) = write_work c"
| "work n (Serving c) = serving_work c"
| "work n (Finished res) = 0"
| "work n Ended = 0"

definition replicas :: "(string \<Rightarrow> node) \<Rightarrow> string \<Rightarrow> nat" where
  "replicas P me = nat (cReplicas (ncfg (P me)))"

definition works :: "(string \<Rightarrow> node) \<Rightarrow> (string \<times> thread) list \<Rightarrow> nat" where
  "works P ts = sum_list (map (\<lambda>(me, t). work (replicas P me) t) ts)"

lemma works_simps [simp]:
  "works P [] = 0" "works P ((me, t) # ts) = work (replicas P me) t + works P ts"
  "works P (ts @ us) = works P ts + works P us"
  by (simp_all add: works_def)

lemma works_update:
  "i < length ts \<Longrightarrow> ts ! i = (me, t) \<Longrightarrow> work (replicas P me) t' + k < work (replicas P me) t
    \<Longrightarrow> works P (ts[i := (me, t')]) + k < works P ts"
proof (induction ts arbitrary: i)
  case (Cons x ts)
  then show ?case by (cases i; cases x) auto
qed simp

section \<open>Steps use work up\<close>

lemma rpc_works: "rpc_step E c w = Some (c', ev, w') \<Longrightarrow> serving_work c' < serving_work c \<and> call_work c' < call_work c"
proof (induction E c w rule: rpc_step.induct)
  case (2 E p r w)
  then show ?case
    by (auto simp: serve_kv_def serve_take_def Let_def split_beta split: if_splits option.splits sum.splits)
qed (auto simp: Let_def split_beta split: option.splits)

lemma call_works:
  "call_step E lose c w = Some (c', left, ev, w') \<Longrightarrow> call_work c' + works P (left_behind me left) < call_work c"
  by (cases c) (auto simp: call_step_def simp del: rpc_step.simps split: if_splits dest!: rpc_works)

lemma write_works:
  "write_step E me meth b nid lose c w = Some (c', left, ev, w')
    \<Longrightarrow> write_work c' + works P (left_behind me left) < write_work c"
  by (auto simp: write_step_def write_start_def Let_def simp del: rpc_step.simps
      split: wcall.splits rpc.splits if_splits option.splits dest!: call_works [where P = P and me = me])

lemma repairs_works: "works P (repairs me owners nid bo) \<le> 9 * length owners"
proof -
  have "works P (map (\<lambda>nid. (me, Repair nid b WStart)) ids) = 9 * length ids" for b ids
    by (induction ids) simp_all
  then show ?thesis by (auto simp: repairs_def split: option.splits)
qed

lemma preferLocal_length [simp]: "length (preferLocal owners self) = length owners"
  unfolding preferLocal_def by (induction owners) simp_all

lemma Owners_replicas:
  assumes "procs_wf E w"
  shows "length (Owners (nring (procs w p)) key (cReplicas (ncfg (procs w p)))) \<le> replicas (procs w) p"
proof -
  have "ring_inv (nring (procs w p))"
    using procs_wfD [OF assms, of p] ring_reachable_inv unfolding node_wf_def by blast
  then show ?thesis by (simp add: Owners_length replicas_def)
qed

lemma get_works:
  assumes "get_step E me lose t w = Some (t', new, ev, w')" "procs_wf E w"
  shows "work (replicas (procs w) me) t' + works (procs w) new < get_work (replicas (procs w) me) t"
  using assms
proof (induction E me lose t w rule: get_step.induct)
  case (1 E me lose r w)
  then show ?case using Owners_replicas [of E w me "rQuery r ''key''"]
    by (auto simp: Let_def loop_work_def split: if_splits option.splits)
next
  case (5 E me lose key owners nid ids reached c w)
  then show ?case
    by (auto simp: Let_def split_beta loop_work_def simp del: rpc_step.simps
        split: rpc.splits sum.splits option.splits dest!: call_works [where P = "procs w" and me = me])
next
  case (7 E me lose key owners nid ent w)
  then show ?case using repairs_works [of "procs w" me owners nid] by (auto simp: Let_def split_beta less_Suc_eq_le)
qed (auto simp: Let_def split_beta loop_work_def split: if_splits)


lemma sum_list_write_update:
  "i < length ws \<Longrightarrow> write_work c' + k < write_work (snd (ws ! i))
    \<Longrightarrow> sum_list (map (\<lambda>(nid, c). write_work c) (ws[i := (nid, c')])) + k
      < sum_list (map (\<lambda>(nid, c). write_work c) ws)"
proof (induction ws arbitrary: i)
  case (Cons x ws)
  then show ?case by (cases i; cases x) auto
qed simp

lemma fan_works:
  "fan_step E me ch meth b owners ws acked failed w = Some (t', new, ev, w')
    \<Longrightarrow> work n t' + works P new < writer_work n (Fan meth b owners ws acked failed)"
proof (induction E me ch meth b owners ws acked failed w rule: fan_step.induct)
  case (2 E me i lose meth b owners ws acked failed w)
  then obtain c' left where i: "i < length ws"
      and c: "write_step E me meth b (fst (ws ! i)) lose (snd (ws ! i)) w = Some (c', left, ev, w')"
      and t': "t' = WriteT (Fan meth b owners (ws[i := (fst (ws ! i), c')]) acked failed)" "new = left_behind me left"
    by (auto split: if_splits)
  show ?case using sum_list_write_update [OF i write_works [OF c]] by (simp add: t')
next
  case (3 E me i meth b owners ws acked failed w)
  then obtain err where i: "i < length ws" "snd (ws ! i) = WDone err"
    by (auto simp: Let_def split: if_splits wcall.splits)
  then have "sum_list (map (\<lambda>(nid, c). write_work c) (ws[i := (nid, WTaken)])) + 0
      < sum_list (map (\<lambda>(nid, c). write_work c) ws)" for nid
    by (intro sum_list_write_update) simp_all
  with 3 show ?case by (auto simp: Let_def split: if_splits wcall.splits option.splits)
qed (auto split: if_splits)

lemma fan_out_work: "work n (fan_out meth b owners) = 1 + 9 * length owners"
proof -
  have "sum_list (map (\<lambda>(nid, c). write_work c) (map (\<lambda>nid. (nid, WStart)) owners)) = 9 * length owners"
    by (induction owners) simp_all
  then show ?thesis by (simp add: fan_out_def)
qed

lemma writer_works:
  assumes "writer_step E me ch t w = Some (t', new, ev, w')" "procs_wf E w"
  shows "work (replicas (procs w) me) t' + works (procs w) new < writer_work (replicas (procs w) me) t"
  using assms
proof (induction E me ch t w rule: writer_step.induct)
  case (2 E me ch b w)
  then show ?case using Owners_replicas [of E w me "kb_key b"] by (auto simp: Let_def fan_out_work)
next
  case (3 E me ch r w)
  then show ?case using Owners_replicas [of E w me "rQuery r ''key''"]
    by (auto simp: Let_def fan_out_work split: if_splits option.splits)
next
  case (4 E me ch meth b owners ws acked failed w)
  then show ?case using fan_works by (simp del: writer_work.simps)
qed (auto simp: Let_def stamp_body_def split_beta split: if_splits option.splits)

lemma take_works:
  "take_step E me lose t w = Some (t', new, ev, w') \<Longrightarrow> work n t' + works P new < take_work t"
proof (induction E me lose t w rule: take_step.induct)
  case (4 E me lose primary c w)
  then show ?case
    by (auto simp: Let_def split_beta simp del: rpc_step.simps
        split: rpc.splits sum.splits dest!: call_works [where P = P and me = me])
qed (auto simp: Let_def split_beta split: if_splits option.splits sum.splits)

lemma member_works: "member_step E me t w = Some (t', new, ev, w') \<Longrightarrow> work n t' + works P new < member_work t"
  by (induction E me t w rule: member_step.induct) (auto simp: Let_def split: if_splits option.splits)

lemma status_works: "status_step me t w = Some (t', new, ev, w') \<Longrightarrow> work n t' + works P new < status_work t"
  by (induction me t w rule: status_step.induct) (auto simp: Let_def split: if_splits)

lemma tstep_works:
  assumes "tstep E me ch t w = Some (t', new, ev, w')" "procs_wf E w"
  shows "work (replicas (procs w) me) t' + works (procs w) new < work (replicas (procs w) me) t"
  using assms
proof (induction E me ch t w rule: tstep.induct)
  case (6 E me lose nid b c w)
  then show ?case
    by (auto split: wcall.splits dest!: write_works [where P = "procs w"])
next
  case (7 E me lose c w)
  then show ?case
    by (auto simp del: rpc_step.simps split: rpc.splits sum.splits dest!: rpc_works)
qed (use writer_works get_works take_works member_works status_works in fastforce)+

lemma works_effect: "effect_on M ev P = Some P' \<Longrightarrow> works P' = works P"
  by (auto simp: works_def replicas_def effect_ncfg fun_eq_iff)

lemma advance_works:
  assumes "advance E i s ev s'" "istate_wf E s"
  shows "works (procs (iw s')) (ithreads s') < works (procs (iw s)) (ithreads s)"
  using assms(1)
proof (cases rule: advance.cases)
  case (advance_thread me t ch t' new w')
  have "work (replicas (procs (iw s)) me) t' + works (procs (iw s)) new < work (replicas (procs (iw s)) me) t"
    using tstep_works advance_thread assms(2) by (simp add: istate_wf_def)
  from works_update [OF _ _ this] show ?thesis
    using advance_thread works_effect [OF tstep_effect [OF advance_thread(4)]] by simp
qed

section \<open>No thread waits for another\<close>

fun finished :: "thread \<Rightarrow> bool" where
  "finished (Finished res) = True"
| "finished Ended = True"
| "finished t = False"

lemma local_set_enabled: "procs_wf E w \<Longrightarrow> \<exists>ok w'. local_set E p b w = Some (ok, w')"
proof -
  assume "procs_wf E w"
  then have "store_inv (nstore (procs w p))" using procs_wfD [of E w p] by (simp add: node_wf_def)
  from Set_total [OF this, of "clock E (ticks w)" "kb_key b" "kb_value b" "dur_mul (kb_ttl b) millisecond" "kb_written b"]
  show ?thesis by (auto simp: local_set_eq split: option.splits)
qed

lemma serve_kv_enabled:
  assumes "procs_wf E w"
  shows "serve_kv E p r w \<noteq> None"
proof -
  have "local_set E p b w \<noteq> None" for b using local_set_enabled [OF assms, of p b] by auto
  then show ?thesis by (auto simp: serve_kv_def Let_def split_beta simp del: not_None_eq split: option.splits)
qed

lemma rpc_enabled:
  assumes "procs_wf E w"
  shows "(\<exists>x. c = Returned x) \<or> rpc_step E c w \<noteq> None"
  using serve_kv_enabled [OF assms]
  by (cases c) (auto simp: serve_take_def Let_def split_beta split: sum.splits)

lemma write_enabled:
  assumes "procs_wf E w" "c \<noteq> WTaken" "\<forall>err. c \<noteq> WDone err"
  shows "write_step E me meth b nid False c w \<noteq> None"
proof (cases c)
  case WStart
  have "local_set E me b w \<noteq> None" using local_set_enabled [OF assms(1), of me b] by auto
  then show ?thesis by (auto simp: WStart write_step_def write_start_def Let_def)
next
  case (WCall call)
  then show ?thesis using rpc_enabled [OF assms(1), of call]
    by (cases call) (auto simp: write_step_def call_step_def simp del: rpc_step.simps)
qed (use assms in simp_all)

lemma fan_enabled:
  assumes "procs_wf E w"
  shows "\<exists>ch. fan_step E me ch meth b owners ws acked failed w \<noteq> None"
proof (cases "list_all (\<lambda>(nid, c). c = WTaken) ws")
  case True
  then have "fan_step E me (Go False) meth b owners ws acked failed w \<noteq> None" by simp
  then show ?thesis ..
next
  case False
  then obtain i where i: "i < length ws" "snd (ws ! i) \<noteq> WTaken"
    by (auto simp: list_all_length split_beta)
  show ?thesis
  proof (cases "\<exists>err. snd (ws ! i) = WDone err")
    case True
    then have "fan_step E me (Receive i) meth b owners ws acked failed w \<noteq> None"
      using i by (auto simp: Let_def split: option.splits)
    then show ?thesis ..
  next
    case False
    then have "fan_step E me (Worker i False) meth b owners ws acked failed w \<noteq> None"
      using i write_enabled [OF assms i(2)] by simp
    then show ?thesis ..
  qed
qed

lemma get_enabled:
  assumes "procs_wf E w"
  shows "get_step E me False t w \<noteq> None"
proof (cases "(E, me, False, t, w)" rule: get_step.cases)
  case (5 E' me' lose key owners nid ids reached c w')
  then show ?thesis using rpc_enabled [OF assms, of c]
    by (cases c) (auto simp: call_step_def Let_def split_beta simp del: rpc_step.simps split: sum.splits option.splits)
qed (auto simp: Let_def split_beta split: option.splits)

lemma take_enabled:
  assumes "procs_wf E w"
  shows "take_step E me False t w \<noteq> None"
proof (cases "(E, me, False, t, w)" rule: take_step.cases)
  case (4 E' me' lose primary c w')
  then show ?thesis using rpc_enabled [OF assms, of c]
    by (cases c) (auto simp: call_step_def simp del: rpc_step.simps split: sum.splits)
qed (auto simp: Let_def split_beta split: sum.splits)

lemma writer_enabled:
  assumes "procs_wf E w"
  shows "\<exists>ch. writer_step E me ch t w \<noteq> None"
  using fan_enabled [OF assms] by (cases t) (auto simp: Let_def split_beta split: option.splits)

lemma member_enabled: "member_step E me t w \<noteq> None"
  by (cases t) (auto simp: Let_def split: option.splits)

lemma status_enabled: "status_step me t w \<noteq> None"
  by (cases t) (auto simp: Let_def)

lemma tstep_enabled:
  assumes "procs_wf E w" "\<not> finished t" "thread_wf P (me, t)"
  shows "\<exists>ch. tstep E me ch t w \<noteq> None"
proof (cases t)
  case (WriteT h)
  then show ?thesis using writer_enabled [OF assms(1)] by simp
next
  case (GetT h)
  have "tstep E me (Go False) t w \<noteq> None" using get_enabled [OF assms(1), of me h] GetT by simp
  then show ?thesis ..
next
  case (TakeT h)
  have "tstep E me (Go False) t w \<noteq> None" using take_enabled [OF assms(1), of me h] TakeT by simp
  then show ?thesis ..
next
  case (MemberT h)
  have "tstep E me (Go False) t w \<noteq> None" using member_enabled [of E me h w] MemberT by simp
  then show ?thesis ..
next
  case (StatusT h)
  have "tstep E me (Go False) t w \<noteq> None" using status_enabled [of me h w] StatusT by simp
  then show ?thesis ..
next
  case (Repair nid b c)
  have "tstep E me (Go False) t w \<noteq> None"
    using write_enabled [OF assms(1), of c me "''PUT''" b nid] Repair assms(3) by (auto split: wcall.splits)
  then show ?thesis ..
next
  case (Serving c)
  have "tstep E me (Go False) t w \<noteq> None"
    using rpc_enabled [OF assms(1), of c] Serving by (auto simp del: rpc_step.simps split: rpc.splits sum.splits)
  then show ?thesis ..
qed (use assms(2) in simp_all)

lemma advance_enabled:
  assumes "istate_wf E s" "i < length (ithreads s)" "\<not> finished (snd (ithreads s ! i))"
  shows "\<exists>ev s'. advance E i s ev s'"
proof -
  obtain me t where t: "ithreads s ! i = (me, t)" by force
  have "thread_wf (procs (iw s)) (me, t)"
    using assms(1,2) t nth_mem [of i "ithreads s"] unfolding istate_wf_def by metis
  moreover have "\<not> finished t" "procs_wf E (iw s)" using assms t by (simp_all add: istate_wf_def)
  ultimately obtain ch where "tstep E me ch t (iw s) \<noteq> None" using tstep_enabled by blast
  then obtain t' new ev w' where "tstep E me ch t (iw s) = Some (t', new, ev, w')" by auto
  from advance_thread [OF assms(2) t this] show ?thesis by blast
qed

section \<open>Requests in flight finish\<close>

text \<open>Steps of threads alone, as many as the number says.\<close>

inductive advances :: "env \<Rightarrow> nat \<Rightarrow> istate \<Rightarrow> istate \<Rightarrow> bool" for E where
  advances_none: "advances E 0 s s"
| advances_next: "advances E n s s' \<Longrightarrow> advance E i s' ev s'' \<Longrightarrow> advances E (Suc n) s s''"

lemma advances_wf: "advances E n s s' \<Longrightarrow> istate_wf E s \<Longrightarrow> istate_wf E s'"
  by (induction rule: advances.induct) (auto intro: istep_wf istep_thread)

lemma advances_works:
  "advances E n s s' \<Longrightarrow> istate_wf E s
    \<Longrightarrow> n + works (procs (iw s')) (ithreads s') \<le> works (procs (iw s)) (ithreads s)"
proof (induction rule: advances.induct)
  case (advances_next n s s' i ev s'')
  then show ?case using advance_works [OF advances_next.hyps(2)] advances_wf [OF advances_next.hyps(1)] by simp
qed simp

lemma start_work: "work n (start_thread me r w) \<le> 19 * n + 10"
  by (simp add: start_thread_def Let_def)

end
