(* ===== verification/InterleavedWrites.thy ===== *)
theory InterleavedWrites
  imports InterleavedWork
begin

text \<open>
  What an acknowledgement means when requests interleave: the owners of a \<open>SET\<close> or a \<open>DELETE\<close>
  are those that the coordinator's ring gave at some point (\<open>chosen\<close>), and an owner that counts
  as reached has performed the operation on its store at some step between the request's
  arrival and the answer. The proof follows one thread through a run (\<open>irun_follow\<close>) while the
  others do as they like.
\<close>

section \<open>Following one thread\<close>

lemma advance_other:
  assumes "advance E j s ev s'" "i < length (ithreads s)" "j \<noteq> i"
  shows "i < length (ithreads s') \<and> ithreads s' ! i = ithreads s ! i"
  using assms by (auto elim!: advanceE simp: nth_append)

lemma irun_follow:
  assumes run: "irun E s0 tr s" and wf: "istate_wf E s0"
    and i: "i < length (ithreads s0)" "ithreads s0 ! i = (me, t0)"
    and Q: "\<forall>ev \<in> set tr. Q ev" and start: "J [] t0 (iw s0)"
    and other: "\<And>tr t w ev w'. J tr t w \<Longrightarrow> procs_wf E w \<Longrightarrow> Q ev
      \<Longrightarrow> effect_on (fpu_of (arch E)) ev (procs w) = Some (procs w') \<Longrightarrow> J (tr @ [ev]) t w'"
    and own: "\<And>tr t w ch t' new ev w'. J tr t w \<Longrightarrow> procs_wf E w \<Longrightarrow> Q ev
      \<Longrightarrow> tstep E me ch t w = Some (t', new, ev, w') \<Longrightarrow> J (tr @ [ev]) t' w'"
  shows "i < length (ithreads s) \<and> (\<exists>t. ithreads s ! i = (me, t) \<and> J tr t (iw s))"
  using run wf i Q start
proof (induction rule: irun.induct)
  case (irun_next s tr s' ev s'')
  then obtain t where t: "i < length (ithreads s')" "ithreads s' ! i = (me, t)" "J tr t (iw s')" by auto
  have wf': "procs_wf E (iw s')" using irun_wf irun_next by (auto simp: istate_wf_def)
  have ev: "Q ev" using irun_next.prems by simp
  note J = other [OF t(3) wf' ev istep_effect [OF irun_next.hyps(2)]]
  show ?case using irun_next.hyps(2)
  proof (cases rule: istep.cases)
    case (istep_thread j)
    show ?thesis
    proof (cases "j = i")
      case False
      then show ?thesis using advance_other [OF istep_thread(1) t(1)] t(2) J by auto
    next
      case True
      with istep_thread t show ?thesis
        by (auto elim!: advanceE simp: nth_append intro: own [OF t(3) wf' ev])
    qed
  qed (use t J in \<open>auto simp: nth_append\<close>)
qed auto

section \<open>Writes that were performed\<close>

definition performed :: "string \<Rightarrow> kv_body \<Rightarrow> string \<Rightarrow> event list \<Rightarrow> bool" where
  "performed meth b p tr \<longleftrightarrow>
    (if meth = ''DELETE'' then CacheOp p (OpDelete (kb_key b)) \<in> set tr
     else \<exists>now. CacheOp p (OpSet now (kb_key b) (kb_value b) (dur_mul (kb_ttl b) millisecond) (kb_written b)) \<in> set tr)"

lemma performed_mono: "performed meth b p tr \<Longrightarrow> set tr \<subseteq> set tr' \<Longrightarrow> performed meth b p tr'"
  by (auto simp: performed_def split: if_splits)

lemma performed_set_event [simp]: "meth \<noteq> ''DELETE'' \<Longrightarrow> performed meth b p (tr @ [set_event E p b w])"
  by (auto simp: performed_def set_event_def)

lemma performed_delete [simp]: "performed ''DELETE'' b p (tr @ [CacheOp p (OpDelete (kb_key b))])"
  by (simp add: performed_def)

text \<open>The owner \<open>nid\<close> of a write is reached: the process its name leads to did the operation.\<close>

definition reached_by :: "env \<Rightarrow> string \<Rightarrow> world \<Rightarrow> string \<Rightarrow> kv_body \<Rightarrow> event list \<Rightarrow> string \<Rightarrow> bool" where
  "reached_by E me w meth b tr nid \<longleftrightarrow> (\<exists>p. target E me nid w = Some p \<and> performed meth b p tr)"

lemma reached_mono: "reached_by E me w meth b tr nid \<Longrightarrow> set tr \<subseteq> set tr' \<Longrightarrow> reached_by E me w meth b tr' nid"
  by (auto simp: reached_by_def intro: performed_mono)

lemma reached_snoc: "reached_by E me w meth b tr nid \<Longrightarrow> reached_by E me w meth b (tr @ [ev]) nid"
  by (rule reached_mono) auto

fun call_ok :: "env \<Rightarrow> string \<Rightarrow> world \<Rightarrow> string \<Rightarrow> kv_body \<Rightarrow> event list \<Rightarrow> string \<Rightarrow> rpc \<Rightarrow> bool" where
  "call_ok E me w meth b tr nid (Sending base r) \<longleftrightarrow> r = write_request E meth b
    \<and> nid \<noteq> self_id me w \<and> base = trim_right_char CHR ''/'' (peerURL (procs w me) nid)"
| "call_ok E me w meth b tr nid (InFlight p r) \<longleftrightarrow> r = write_request E meth b \<and> target E me nid w = Some p"
| "call_ok E me w meth b tr nid (Encoding p key ent) \<longleftrightarrow> False"
| "call_ok E me w meth b tr nid (Answered res) \<longleftrightarrow> (rStatus res < 300 \<longrightarrow> reached_by E me w meth b tr nid)"
| "call_ok E me w meth b tr nid (Returned x) \<longleftrightarrow> (write_result x = None \<longrightarrow> reached_by E me w meth b tr nid)"

fun worker_ok :: "env \<Rightarrow> string \<Rightarrow> world \<Rightarrow> string \<Rightarrow> kv_body \<Rightarrow> event list \<Rightarrow> string \<times> wcall \<Rightarrow> bool" where
  "worker_ok E me w meth b tr (nid, WCall c) \<longleftrightarrow> call_ok E me w meth b tr nid c"
| "worker_ok E me w meth b tr (nid, WDone err) \<longleftrightarrow> (err = None \<longrightarrow> reached_by E me w meth b tr nid)"
| "worker_ok E me w meth b tr (nid, c) \<longleftrightarrow> True"

lemma http_error_status [simp]: "rStatus (http_error e st) = st"
  by (simp add: http_error_def)

lemma serve_write:
  assumes "serve_kv E p (write_request E meth b) w = Some (c', ev, w')" "meth = ''PUT'' \<or> meth = ''DELETE''"
  shows "\<exists>res. c' = Answered res \<and> (rStatus res < 300 \<longrightarrow> performed meth b p (tr @ [ev]))"
proof (cases "meth = ''DELETE''")
  case True
  then show ?thesis using assms(1)
    by (auto simp: serve_kv_def write_request_def kv_request_eq Let_def split_beta split: option.splits)
next
  case False
  define pl where "pl = marshal (float_text E) (encode_kv b)"
  have "body_of pl \<in> {None, Some b}" unfolding pl_def by (rule marshal_body)
  then show ?thesis using assms False
    by (auto simp: serve_kv_def write_request_def kv_request_eq pl_def [symmetric] body_of_def
        split: option.splits)
qed

lemma call_ok_step:
  assumes c: "call_ok E me w0 meth b tr nid c" and m: "meth = ''PUT'' \<or> meth = ''DELETE''"
    and s: "call_step E lose c w = Some (c', left, ev, w')"
  shows "call_ok E me w0 meth b (tr @ [ev]) nid c'"
proof (cases lose)
  case True
  then show ?thesis using s by (cases c) (auto simp: call_step_def write_result_def)
next
  case False
  then have step: "rpc_step E c w = Some (c', ev, w')" using s by (auto simp: call_step_def)
  show ?thesis
  proof (cases c)
    case (Sending base r)
    then show ?thesis using step c by (auto simp: target_def write_result_def split: option.splits)
  next
    case (InFlight p r)
    then have "serve_kv E p (write_request E meth b) w = Some (c', ev, w')"
      using step c by (simp add: write_request_def kv_request_eq split: if_splits)
    from serve_write [OF this m, of tr] show ?thesis
      using c InFlight by (auto simp: reached_by_def)
  qed (use step c in \<open>auto simp: write_result_def reached_snoc split: if_splits\<close>)
qed

text \<open>While nobody tells \<open>me\<close> to change members, its peer map stays as it was.\<close>

fun moves :: "string \<Rightarrow> event \<Rightarrow> bool" where
  "moves me (PeerPut p nid u) = (p = me)"
| "moves me (PeerDel p nid) = (p = me)"
| "moves me ev = False"

definition stable :: "string \<Rightarrow> world \<Rightarrow> world \<Rightarrow> bool" where
  "stable me w0 w \<longleftrightarrow> npeers (procs w me) = npeers (procs w0 me) \<and> ncfg (procs w me) = ncfg (procs w0 me)"

lemma effect_stable:
  "effect_on M ev (procs w) = Some (procs w') \<Longrightarrow> \<not> moves me ev \<Longrightarrow> stable me w0 w \<Longrightarrow> stable me w0 w'"
proof -
  assume e: "effect_on M ev (procs w) = Some (procs w')" and m: "\<not> moves me ev"
  have "effect_on M ev P = Some P' \<Longrightarrow> npeers (P' me) = npeers (P me)" for P P'
    using m by (cases ev) (auto simp: markDown_frame isDown_frame split: if_splits prod.splits)
  from this [OF e] effect_ncfg [OF e] show "stable me w0 w \<Longrightarrow> stable me w0 w'" by (simp add: stable_def)
qed

lemma stable_simps:
  "stable me w0 w \<Longrightarrow> self_id me w = self_id me w0" "stable me w0 w \<Longrightarrow> peerURL (procs w me) nid = peerURL (procs w0 me) nid"
  by (simp_all add: stable_def peerURL_def)

lemma worker_ok_step:
  assumes c: "worker_ok E me w0 meth b tr (nid, c)" and m: "meth = ''PUT'' \<or> meth = ''DELETE''"
    and st: "stable me w0 w" and s: "write_step E me meth b nid lose c w = Some (c', left, ev, w')"
  shows "worker_ok E me w0 meth b (tr @ [ev]) (nid, c')"
proof (cases c)
  case WStart
  have t: "nid = self_id me w \<Longrightarrow> target E me nid w0 = Some me" using stable_simps(1) [OF st] by (simp add: target_def)
  show ?thesis
    using s m t unfolding WStart write_step_def write_start_def Let_def
    by (auto simp: stable_simps [OF st] reached_by_def split: if_splits option.splits)
next
  case (WCall call)
  show ?thesis
  proof (cases "\<exists>x. call = Returned x")
    case True
    then show ?thesis using s c by (auto simp: WCall write_step_def reached_snoc)
  next
    case False
    then obtain call' where "call_step E lose call w = Some (call', left, ev, w')" "c' = WCall call'"
      using s by (cases call) (auto simp: WCall write_step_def)
    then show ?thesis using call_ok_step [OF _ m] c WCall by simp
  qed
qed (use s in \<open>simp_all add: write_step_def\<close>)

lemma worker_ok_snoc:
  "worker_ok E me w0 meth b tr x \<Longrightarrow> worker_ok E me w0 meth b (tr @ [ev]) x"
proof (cases "(E, me, w0, meth, b, tr, x)" rule: worker_ok.cases)
  case (1 E' me' w meth' b' tr' nid c)
  then show "worker_ok E me w0 meth b tr x \<Longrightarrow> ?thesis" by (cases c) (auto simp: reached_snoc)
qed (auto simp: reached_snoc)

section \<open>The ring of the coordinator\<close>

text \<open>The ring of a process is determined by the events since some state.\<close>

fun ring_act :: "string \<Rightarrow> event \<Rightarrow> ring_t \<Rightarrow> ring_t" where
  "ring_act me (RingAdd p nid) r = (if p = me then Add nid r else r)"
| "ring_act me (RingRemove p nid) r = (if p = me then Remove nid r else r)"
| "ring_act me ev r = r"

definition ring_after :: "string \<Rightarrow> event list \<Rightarrow> ring_t \<Rightarrow> ring_t" where
  "ring_after me tr r = fold (ring_act me) tr r"

lemma ring_after_simps [simp]:
  "ring_after me [] r = r" "ring_after me (tr @ [ev]) r = ring_act me ev (ring_after me tr r)"
  by (simp_all add: ring_after_def)

lemma effect_ring_act: "effect_on M ev P = Some P' \<Longrightarrow> nring (P' me) = ring_act me ev (nring (P me))"
  by (cases ev) (auto simp: markDown_frame isDown_frame split: if_splits prod.splits)

lemma irun_ring:
  "irun E s tr s' \<Longrightarrow> nring (procs (iw s') me) = ring_after me tr (nring (procs (iw s) me))
    \<and> ncfg (procs (iw s') me) = ncfg (procs (iw s) me)"
proof (induction rule: irun.induct)
  case (irun_next s tr s' ev s'')
  then show ?case
    using effect_ring_act [OF istep_effect [OF irun_next.hyps(2)], of me]
      effect_ncfg [OF istep_effect [OF irun_next.hyps(2)], of me] by simp
qed simp

lemma irun_trans:
  assumes "irun E s tr s1" "irun E s1 tr' s2"
  shows "irun E s (tr @ tr') s2"
  using assms(2,1)
proof (induction rule: irun.induct)
  case (irun_next s1 tr' s2 ev s3)
  then show ?case using irun.irun_next [of E s "tr @ tr'"] by simp
qed simp

lemma irun_split:
  "irun E s tr s' \<Longrightarrow> tr = tr1 @ tr2 \<Longrightarrow> \<exists>s1. irun E s tr1 s1 \<and> irun E s1 tr2 s'"
proof (induction arbitrary: tr2 rule: irun.induct)
  case (irun_start s)
  then show ?case using irun.irun_start by blast
next
  case (irun_next s tr s' ev s'')
  show ?case
  proof (cases tr2 rule: rev_cases)
    case Nil
    then show ?thesis using irun.irun_next [OF irun_next.hyps] irun_next.prems irun.irun_start by auto
  next
    case (snoc tr3 ev')
    then obtain s1 where "irun E s tr1 s1" "irun E s1 tr3 s'" using irun_next by auto
    then show ?thesis using irun.irun_next [OF _ irun_next.hyps(2)] snoc irun_next.prems by auto
  qed
qed

text \<open>The owners were read off the coordinator's ring at some point of the run.\<close>

definition chosen :: "string \<Rightarrow> world \<Rightarrow> kv_body \<Rightarrow> event list \<Rightarrow> string list \<Rightarrow> bool" where
  "chosen me w b tr owners \<longleftrightarrow> (\<exists>tr1 tr2. tr = tr1 @ tr2
    \<and> owners = Owners (ring_after me tr1 (nring (procs w me))) (kb_key b) (cReplicas (ncfg (procs w me))))"

lemma chosen_snoc: "chosen me w b tr owners \<Longrightarrow> chosen me w b (tr @ [ev]) owners"
  unfolding chosen_def by (metis append_assoc)

lemma chosen_now:
  "nring (procs w me) = ring_after me tr (nring (procs w0 me)) \<Longrightarrow> stable me w0 w
    \<Longrightarrow> chosen me w0 b (tr @ [ev]) (Owners (nring (procs w me)) (kb_key b) (cReplicas (ncfg (procs w me))))"
  unfolding chosen_def stable_def by metis

lemma chosen_state:
  assumes "irun E s tr s'" "chosen me (iw s) b tr owners"
  shows "\<exists>tr1 s1 tr2. tr = tr1 @ tr2 \<and> irun E s tr1 s1 \<and> irun E s1 tr2 s'
    \<and> owners = Owners (nring (procs (iw s1) me)) (kb_key b) (cReplicas (ncfg (procs (iw s1) me)))"
proof -
  obtain tr1 tr2 where tr: "tr = tr1 @ tr2" and
    o: "owners = Owners (ring_after me tr1 (nring (procs (iw s) me))) (kb_key b) (cReplicas (ncfg (procs (iw s) me)))"
    using assms(2) unfolding chosen_def by blast
  obtain s1 where "irun E s tr1 s1" "irun E s1 tr2 s'" using irun_split [OF assms(1) tr] by blast
  then show ?thesis using tr o irun_ring [of E s tr1 s1 me] by metis
qed

section \<open>The fan-out\<close>

definition taken :: "(string \<times> wcall) list \<Rightarrow> string list" where
  "taken ws = map fst (filter (\<lambda>x. snd x = WTaken) ws)"

lemma taken_update:
  "i < length ws \<Longrightarrow> snd (ws ! i) \<noteq> WTaken
    \<Longrightarrow> mset (taken (ws[i := (nid, c)])) = (if c = WTaken then add_mset nid (mset (taken ws)) else mset (taken ws))"
  unfolding taken_def
proof (induction ws arbitrary: i)
  case (Cons x ws)
  then show ?case by (cases i) auto
qed simp

lemma taken_all: "list_all (\<lambda>(nid, c). c = WTaken) ws \<Longrightarrow> taken ws = map fst ws"
  by (induction ws) (auto simp: taken_def)

definition fan_ok :: "env \<Rightarrow> string \<Rightarrow> world \<Rightarrow> string \<Rightarrow> kv_body \<Rightarrow> event list \<Rightarrow> string list \<Rightarrow> (string \<times> wcall) list
    \<Rightarrow> nat \<Rightarrow> string list \<Rightarrow> bool" where
  "fan_ok E me w meth b tr owners ws acked failed \<longleftrightarrow> map fst ws = owners
    \<and> (\<forall>x \<in> set ws. worker_ok E me w meth b tr x)
    \<and> (\<exists>oks. length oks = acked \<and> (\<forall>nid \<in> set oks. reached_by E me w meth b tr nid)
        \<and> mset (oks @ failed) = mset (taken ws))"

lemma fan_ok_snoc: "fan_ok E me w meth b tr owners ws acked failed
    \<Longrightarrow> fan_ok E me w meth b (tr @ [ev]) owners ws acked failed"
  unfolding fan_ok_def using worker_ok_snoc reached_snoc by metis

lemma fan_ok_start: "fan_ok E me w meth b tr owners (map (\<lambda>nid. (nid, WStart)) owners) 0 []"
  by (auto simp: fan_ok_def taken_def comp_def filter_empty_conv)

text \<open>What the answer of a finished fan-out says.\<close>

definition answers_write :: "env \<Rightarrow> string \<Rightarrow> world \<Rightarrow> string \<Rightarrow> kv_body \<Rightarrow> event list \<Rightarrow> response \<Rightarrow> bool" where
  "answers_write E me w meth b tr res \<longleftrightarrow> (\<exists>owners acked failed. res = fan_reply meth b owners acked failed
    \<and> chosen me w b tr owners \<and> acked + length failed = length owners \<and> set failed \<subseteq> set owners
    \<and> (\<forall>nid \<in> set owners - set failed. reached_by E me w meth b tr nid))"

lemma answers_snoc: "answers_write E me w meth b tr res \<Longrightarrow> answers_write E me w meth b (tr @ [ev]) res"
  unfolding answers_write_def using reached_snoc chosen_snoc by metis

lemma fan_ok_done:
  assumes "fan_ok E me w meth b tr owners ws acked failed" "list_all (\<lambda>(nid, c). c = WTaken) ws"
    and "chosen me w b tr owners"
  shows "answers_write E me w meth b tr (fan_reply meth b owners acked failed)"
proof -
  have "taken ws = owners" using assms(1) taken_all [OF assms(2)] by (simp add: fan_ok_def)
  then obtain oks where oks: "length oks = acked" "\<forall>nid \<in> set oks. reached_by E me w meth b tr nid"
      "mset (oks @ failed) = mset owners"
    using assms(1) unfolding fan_ok_def by metis
  have "length (oks @ failed) = length owners" "set (oks @ failed) = set owners"
    using oks(3) mset_eq_length mset_eq_setD by blast+
  then show ?thesis using oks assms(3) unfolding answers_write_def
    by (intro exI [of _ owners] exI [of _ acked] exI [of _ failed]) auto
qed

lemma fan_ok_update:
  assumes f: "fan_ok E me w meth b tr owners ws acked failed" and i: "i < length ws" "fst (ws ! i) = nid"
    and n: "snd (ws ! i) \<noteq> WTaken" "c \<noteq> WTaken" and c: "worker_ok E me w meth b (tr @ [ev]) (nid, c)"
  shows "fan_ok E me w meth b (tr @ [ev]) owners (ws[i := (nid, c)]) acked failed"
proof -
  have "map fst (ws[i := (nid, c)]) = map fst ws" using i by (simp add: map_update list_update_same_conv)
  moreover have "set (ws[i := (nid, c)]) \<subseteq> insert (nid, c) (set ws)" by (rule set_update_subset_insert)
  ultimately show ?thesis
    using fan_ok_snoc [OF f, of ev] c unfolding fan_ok_def taken_update [OF i(1) n(1)] if_not_P [OF n(2)] by auto
qed

lemma fan_ok_receive:
  assumes f: "fan_ok E me w meth b tr owners ws acked failed" and i: "i < length ws" "ws ! i = (nid, WDone err)"
  shows "fan_ok E me w meth b (tr @ [ev]) owners (ws[i := (nid, WTaken)])
    (if err = None then acked + 1 else acked) (if err = None then failed else failed @ [nid])"
proof -
  have m: "map fst (ws[i := (nid, WTaken)]) = map fst ws" using i by (simp add: map_update list_update_same_conv)
  have s: "set (ws[i := (nid, WTaken)]) \<subseteq> insert (nid, WTaken) (set ws)" by (rule set_update_subset_insert)
  have t: "mset (taken (ws[i := (nid, WTaken)])) = add_mset nid (mset (taken ws))"
    using taken_update [OF i(1), of nid WTaken] i(2) by simp
  obtain oks where oks: "length oks = acked" "\<forall>nid \<in> set oks. reached_by E me w meth b tr nid"
      "mset (oks @ failed) = mset (taken ws)"
    using f by (auto simp: fan_ok_def)
  have "worker_ok E me w meth b tr (nid, WDone err)" using f i nth_mem [OF i(1)] by (auto simp: fan_ok_def)
  then have "err = None \<Longrightarrow> reached_by E me w meth b tr nid" by simp
  with oks have "\<exists>oks'. length oks' = (if err = None then acked + 1 else acked)
      \<and> (\<forall>nid \<in> set oks'. reached_by E me w meth b tr nid)
      \<and> mset (oks' @ (if err = None then failed else failed @ [nid])) = add_mset nid (mset (taken ws))"
    by (intro exI [of _ "if err = None then nid # oks else oks"]) auto
  then obtain oks' where oks': "length oks' = (if err = None then acked + 1 else acked)"
      "\<forall>nid \<in> set oks'. reached_by E me w meth b (tr @ [ev]) nid"
      "mset (oks' @ (if err = None then failed else failed @ [nid])) = mset (taken (ws[i := (nid, WTaken)]))"
    unfolding t using reached_snoc by metis
  have "worker_ok E me w meth b (tr @ [ev]) x" if "x \<in> set (ws[i := (nid, WTaken)])" for x
    using s that f worker_ok_snoc [of E me w meth b tr x ev] by (auto simp: fan_ok_def)
  with m oks' f show ?thesis unfolding fan_ok_def by metis
qed

section \<open>The thread of a write\<close>

text \<open>The write of a \<open>SET\<close>: its body, with its own stamp or one of the coordinator's clock.\<close>

definition stamped :: "env \<Rightarrow> request \<Rightarrow> kv_body set" where
  "stamped E r = {fst (stamp_body E b0 v) | b0 v. body_of (rBody r) = Some b0}"

lemma stampedD:
  assumes "b \<in> stamped E r" "body_of (rBody r) = Some b0"
  shows "\<exists>k. b = b0\<lparr>kb_written := if kb_written b0 = 0 then unix_nano (clock E k) else kb_written b0\<rparr>"
proof -
  obtain v where "b = fst (stamp_body E b0 v)" using assms by (auto simp: stamped_def)
  then show ?thesis by (intro exI [of _ "ticks v"]) (simp add: stamp_body_def tick_def)
qed

definition write_bodies :: "env \<Rightarrow> string \<Rightarrow> request \<Rightarrow> kv_body set" where
  "write_bodies E meth r = (if meth = ''DELETE'' then {zero_kv\<lparr>kb_key := rQuery r ''key''\<rparr>} else stamped E r)"

fun write_at :: "env \<Rightarrow> string \<Rightarrow> world \<Rightarrow> string \<Rightarrow> request \<Rightarrow> event list \<Rightarrow> thread \<Rightarrow> bool" where
  "write_at E me w meth r tr (WriteT (SetArrived r')) \<longleftrightarrow> meth = ''PUT'' \<and> r' = r"
| "write_at E me w meth r tr (WriteT (DelArrived r')) \<longleftrightarrow> meth = ''DELETE'' \<and> r' = r"
| "write_at E me w meth r tr (WriteT (SetOwners b)) \<longleftrightarrow> meth = ''PUT'' \<and> b \<in> stamped E r"
| "write_at E me w meth r tr (WriteT (Fan meth' b owners ws acked failed)) \<longleftrightarrow> meth' = meth
    \<and> b \<in> write_bodies E meth r \<and> chosen me w b tr owners \<and> fan_ok E me w meth b tr owners ws acked failed"
| "write_at E me w meth r tr (Finished res) \<longleftrightarrow>
    (rStatus res = 200 \<longrightarrow> (\<exists>b \<in> write_bodies E meth r. answers_write E me w meth b tr res))"
| "write_at E me w meth r tr t \<longleftrightarrow> False"

lemma stamp_bodies: "body_of (rBody r) = Some b0 \<Longrightarrow> fst (stamp_body E b0 w) \<in> stamped E r"
  by (auto simp: stamped_def)

lemma write_at_other: "write_at E me w meth r tr t \<Longrightarrow> write_at E me w meth r (tr @ [ev]) t"
  by (cases "(E, me, w, meth, r, tr, t)" rule: write_at.cases) (auto simp: fan_ok_snoc chosen_snoc intro: answers_snoc)

lemma write_at_own:
  assumes at: "write_at E me w0 meth r tr t" and m: "meth = ''PUT'' \<or> meth = ''DELETE''"
    and st: "stable me w0 w" and ring: "nring (procs w me) = ring_after me tr (nring (procs w0 me))"
    and s: "tstep E me ch t w = Some (t', new, ev, w')"
  shows "write_at E me w0 meth r (tr @ [ev]) t'"
proof (cases "(E, me, w0, meth, r, tr, t)" rule: write_at.cases)
  case (1 E' me' w1 meth' r1 tr' r')
  then show ?thesis using at s stamp_bodies
    by (auto simp: body_of_def [symmetric] Let_def split_beta split: if_splits option.splits)
next
  case (2 E' me' w1 meth' r1 tr' r')
  then show ?thesis
    using at s chosen_now [OF ring st, of "zero_kv\<lparr>kb_key := rQuery r ''key''\<rparr>" Quiet]
    by (auto simp: write_bodies_def Let_def fan_out_def fan_ok_start split: if_splits option.splits)
next
  case (3 E' me' w1 meth' r1 tr' b)
  then show ?thesis using at s chosen_now [OF ring st, of b Quiet]
    by (auto simp: write_bodies_def Let_def fan_out_def fan_ok_start)
next
  case (4 E' me' w1 meth' r1 tr' meth2 b owners ws acked failed)
  then have t: "t = WriteT (Fan meth b owners ws acked failed)" and b: "b \<in> write_bodies E meth r" "chosen me w0 b tr owners"
    and f: "fan_ok E me w0 meth b tr owners ws acked failed" using at by auto
  have s': "fan_step E me ch meth b owners ws acked failed w = Some (t', new, ev, w')" using s t by simp
  show ?thesis
  proof (cases ch)
    case (Go lose)
    then show ?thesis using s' b(1) answers_snoc [OF fan_ok_done [OF f _ b(2)], of Quiet] by (auto intro!: bexI [of _ b] split: if_splits)
  next
    case (Worker i lose)
    then obtain c' left where i: "i < length ws"
        and c: "write_step E me meth b (fst (ws ! i)) lose (snd (ws ! i)) w = Some (c', left, ev, w')"
        and t': "t' = WriteT (Fan meth b owners (ws[i := (fst (ws ! i), c')]) acked failed)"
      using s' by (auto split: if_splits)
    have "worker_ok E me w0 meth b tr (fst (ws ! i), snd (ws ! i))" using f i by (simp add: fan_ok_def)
    note ok = worker_ok_step [OF this m st c]
    have "snd (ws ! i) \<noteq> WTaken" using c by (auto simp: write_step_def)
    from fan_ok_update [OF f i refl this write_taken [OF c] ok] show ?thesis using b by (simp add: t' chosen_snoc)
  next
    case (Receive i)
    then obtain nid err where i: "i < length ws" "ws ! i = (nid, WDone err)"
      using s' by (cases "ws ! i") (auto simp: Let_def split: if_splits wcall.splits)
    show ?thesis using s' Receive i b fan_ok_receive [OF f i, of ev]
      by (auto simp: Let_def chosen_snoc split: if_splits option.splits)
  qed
next
  case (5 E' me' w1 meth' r1 tr' res)
  then show ?thesis using s by (cases ch) auto
qed (use at in simp_all)

lemma irun_write:
  assumes run: "irun E s0 tr s" and wf: "istate_wf E s0"
    and i: "i < length (ithreads s0)" "ithreads s0 ! i = (me, t0)"
    and m: "meth = ''PUT'' \<or> meth = ''DELETE''" and t0: "write_at E me (iw s0) meth r [] t0"
    and still: "\<forall>ev \<in> set tr. \<not> moves me ev"
    and fin: "ithreads s ! i = (me, Finished res)" "rStatus res = 200"
  shows "\<exists>b \<in> write_bodies E meth r. answers_write E me (iw s0) meth b tr res"
proof -
  let ?J = "\<lambda>tr t w. write_at E me (iw s0) meth r tr t \<and> stable me (iw s0) w
    \<and> nring (procs w me) = ring_after me tr (nring (procs (iw s0) me))"
  have "i < length (ithreads s) \<and> (\<exists>t. ithreads s ! i = (me, t) \<and> ?J tr t (iw s))"
  proof (rule irun_follow [where J = ?J, OF run wf i still])
    show "?J [] t0 (iw s0)" using t0 by (simp add: stable_def)
  next
    fix tr t ev and w w' :: world
    assume "?J tr t w" "\<not> moves me ev" "effect_on (fpu_of (arch E)) ev (procs w) = Some (procs w')"
    then show "?J (tr @ [ev]) t w'"
      using write_at_other effect_stable effect_ring_act by fastforce
  next
    fix tr t ch t' new ev and w w' :: world
    assume J: "?J tr t w" and "\<not> moves me ev"
      and step: "tstep E me ch t w = Some (t', new, ev, w')"
    then show "?J (tr @ [ev]) t' w'"
      using write_at_own [OF _ m _ _ step] effect_stable [OF tstep_effect [OF step]]
        effect_ring_act [OF tstep_effect [OF step], of me] by auto
  qed
  then show ?thesis using fin by auto
qed

end
