(* ===== verification/InterleavedReads.thy ===== *)
theory InterleavedReads
  imports InterleavedWrites
begin

text \<open>
  What a read returns when requests interleave: every version (key, value and stamp) that a
  store holds, that a goroutine is about to write, that travels in a message or that a client
  is given is that of a write that a coordinator took from a request, with the request's stamp
  or the one it gave it (\<open>took\<close>), or came with a request to the internal endpoint (\<open>brought\<close>).
  Nothing is invented, and no value is ever paired with the stamp of another write. The thread of
  a \<open>GET\<close> keeps to its key (\<open>keyed\<close>).
\<close>

type_synonym version = "string \<times> string \<times> int"

definition body_version :: "kv_body \<Rightarrow> version" where
  "body_version b = (kb_key b, kb_value b, kb_written b)"

definition entry_version :: "string \<Rightarrow> entry \<Rightarrow> version" where
  "entry_version key ent = (key, Value ent, WrittenAt ent)"

definition item_version :: "item \<Rightarrow> version" where
  "item_version it = (ikey it, ivalue it, iwritten it)"

lemmas version_defs = body_version_def entry_version_def item_version_def

text \<open>
  The coordinator \<open>p\<close> takes the request \<open>r\<close> as the write \<open>b\<close> at some step of a run: from then on
  \<open>b\<close> carries the request's stamp or the one the clock gave it at that step.
\<close>

definition took :: "env \<Rightarrow> istate \<Rightarrow> event list \<Rightarrow> istate \<Rightarrow> string \<Rightarrow> request \<Rightarrow> kv_body \<Rightarrow> bool" where
  "took E s0 tr s p r b \<longleftrightarrow> (\<exists>tr1 s1 i ev s2 tr2. tr = tr1 @ ev # tr2 \<and> irun E s0 tr1 s1
    \<and> i < length (ithreads s1) \<and> ithreads s1 ! i = (p, WriteT (SetArrived r))
    \<and> advance E i s1 ev s2 \<and> ithreads s2 ! i = (p, WriteT (SetOwners b)) \<and> irun E s2 tr2 s)"

lemma took_snoc: "took E s0 tr s p r b \<Longrightarrow> istep E s ev s' \<Longrightarrow> took E s0 (tr @ [ev]) s' p r b"
  unfolding took_def by (metis append_Cons append_assoc irun_next)

lemma took_now:
  assumes "irun E s0 tr s" "i < length (ithreads s)" "ithreads s ! i = (p, WriteT (SetArrived r))"
    and "advance E i s ev s'" "ithreads s' ! i = (p, WriteT (SetOwners b))"
  shows "took E s0 (tr @ [ev]) s' p r b"
  using assms irun_start unfolding took_def by blast

text \<open>What was taken is the body of the request with one of the two stamps.\<close>

lemma took_body:
  assumes "took E s0 tr s p r b"
  shows "\<exists>b0 k. body_of (rBody r) = Some b0
    \<and> b = b0\<lparr>kb_written := if kb_written b0 = 0 then unix_nano (clock E k) else kb_written b0\<rparr>"
proof -
  obtain s1 i ev s2 where s: "ithreads s1 ! i = (p, WriteT (SetArrived r))" "advance E i s1 ev s2"
      "ithreads s2 ! i = (p, WriteT (SetOwners b))"
    using assms unfolding took_def by blast
  from s(2) show ?thesis
  proof (cases rule: advance.cases)
    case (advance_thread me t ch t' new w')
    then have "me = p" "t = WriteT (SetArrived r)" "t' = WriteT (SetOwners b)"
      using s by (simp_all add: nth_append)
    then have "tstep E p ch (WriteT (SetArrived r)) (iw s1) = Some (WriteT (SetOwners b), new, ev, w')"
      using advance_thread by (simp only:)
    then show ?thesis
      by (auto simp: body_of_def [symmetric] Let_def split_beta stamp_body_def tick_def
          split: if_splits option.splits)
  qed
qed

text \<open>The requests that arrived at a process for \<open>handleSet\<close>, and the versions that were taken.\<close>

definition set_requests :: "event list \<Rightarrow> string \<Rightarrow> request set" where
  "set_requests tr p = {r. Arrive p r \<in> set tr \<and> rPath r \<in> {''/v1/set'', ''/set''}}"

definition brought :: "env \<Rightarrow> istate \<Rightarrow> event list \<Rightarrow> istate \<Rightarrow> version set" where
  "brought E s0 tr s =
    {body_version b | b p r. r \<in> set_requests tr p \<and> took E s0 tr s p r b}
    \<union> {body_version b | b p r. Arrive p r \<in> set tr \<and> rPath r = ''/internal/kv'' \<and> body_of (rBody r) = Some b}"

lemma set_requests_snoc: "set_requests tr p \<subseteq> set_requests (tr @ [ev]) p"
  by (auto simp: set_requests_def)

lemma brought_snoc: "istep E s ev s' \<Longrightarrow> brought E s0 tr s \<subseteq> brought E s0 (tr @ [ev]) s'"
  using took_snoc set_requests_snoc unfolding brought_def by fastforce

section \<open>Messages\<close>

text \<open>A response whose reply is a hit carries an admitted version.\<close>

definition reply_from :: "version set \<Rightarrow> response \<Rightarrow> bool" where
  "reply_from S res \<longleftrightarrow> (\<forall>g. rReply res = BJson (encode_get g) \<and> gr_found g
    \<longrightarrow> (gr_key g, gr_value g, gr_written g) \<in> S)"

lemma reply_from_text [simp]: "reply_from S (http_error e st)"
  by (simp add: reply_from_def http_error_def)

lemma reply_from_other: "k \<noteq> ''key'' \<Longrightarrow> reply_from S (writeJSON st (JObj ((k, v) # kvs)))"
  by (simp add: reply_from_def writeJSON_def encode_get_def)

lemma reply_from_write [simp]: "reply_from S (fan_reply meth b owners acked failed)"
  by (simp add: reply_from_def fan_reply_def writeJSON_def encode_write_def encode_get_def)

lemma encode_get_inj: "encode_get g = encode_get g' \<Longrightarrow> g = g'"
  by (cases g; cases g'; cases "gr_ttl g"; cases "gr_ttl g'")
    (auto simp: encode_get_def omit_str_def omit_int_def split: if_splits)

lemma reply_from_miss [simp]: "reply_from S (miss_resp key)"
  by (auto simp: reply_from_def miss_resp_def writeJSON_def dest!: encode_get_inj)

lemma payload_version [simp]:
  "gr_found (getPayload now key nid ent)" "gr_value (getPayload now key nid ent) = Value ent"
  "gr_key (getPayload now key nid ent) = key" "gr_written (getPayload now key nid ent) = WrittenAt ent"
  by (simp_all add: getPayload_def)

lemma reply_from_hit [simp]:
  "reply_from S (writeJSON st (encode_get (getPayload now key nid ent))) \<longleftrightarrow> entry_version key ent \<in> S"
  unfolding reply_from_def writeJSON_def entry_version_def
  by (auto dest!: encode_get_inj)

lemma reply_from_ok [simp]: "what \<noteq> ''key'' \<Longrightarrow> reply_from S (ok_resp what x nid)"
  by (simp add: ok_resp_def reply_from_other)

lemma reply_from_take [simp]: "reply_from S (take_resp p q res)"
  by (simp add: take_resp_def encode_rlresp_def reply_from_other)

lemma reply_from_limited: "reply_from S res \<Longrightarrow> reply_from S \<lparr>rStatus = st, rReply = limit_body ft (rReply res)\<rparr>"
  by (auto simp: reply_from_def limit_body_def split: body.splits if_splits)

lemma reply_from_status [simp]:
  "reply_from S (handleHealth me r w)" "reply_from S (writeJSON 200 (members_reply ok c names peers))"
  "reply_from S (writeJSON 200 (stats_reply c st n))" "reply_from S (writeJSON 200 (ring_reply c names peers points key owners))"
  by (simp_all add: handleHealth_def members_reply_def stats_reply_def ring_reply_def status_defs reply_from_other)

lemma decode_encode_get_cases: "decode_get (encode_get g) \<in> {None, Some g}"
  by (cases g, cases "gr_ttl g")
    (auto simp: decode_get_def decode_struct_def encode_get_def omit_int_def omit_str_def tags_fold
      field_defs zero_defs)

text \<open>A request that writes carries an admitted version.\<close>

definition request_from :: "version set \<Rightarrow> request \<Rightarrow> bool" where
  "request_from S r \<longleftrightarrow> (rPath r = ''/internal/kv'' \<and> rMethod r = ''PUT''
    \<longrightarrow> (\<forall>b. body_of (rBody r) = Some b \<longrightarrow> body_version b \<in> S))"

fun call_from :: "version set \<Rightarrow> rpc \<Rightarrow> bool" where
  "call_from S (Sending base r) = request_from S r"
| "call_from S (InFlight p r) = request_from S r"
| "call_from S (Encoding p key ent) = (entry_version key ent \<in> S)"
| "call_from S (Answered res) = reply_from S res"
| "call_from S (Returned x) = (\<forall>res. x = Inr res \<longrightarrow> reply_from S res)"

text \<open>A call that reads \<open>key\<close> brings back a version of that key.\<close>

fun read_from :: "version set \<Rightarrow> string \<Rightarrow> rpc \<Rightarrow> bool" where
  "read_from S key (Sending base r) = (r = kv_request ''GET'' key empty_payload)"
| "read_from S key (InFlight p r) = (r = kv_request ''GET'' key empty_payload)"
| "read_from S key (Encoding p k ent) = (k = key \<and> entry_version key ent \<in> S)"
| "read_from S key (Answered res) = (\<forall>g. read_result (Inr res) = Inr (Some g) \<longrightarrow> (key, gr_value g, gr_written g) \<in> S)"
| "read_from S key (Returned x) = (\<forall>g. read_result x = Inr (Some g) \<longrightarrow> (key, gr_value g, gr_written g) \<in> S)"

fun get_from :: "version set \<Rightarrow> get_thread \<Rightarrow> bool" where
  "get_from S (GetCall key owners nid ids reached c) = (read_from S key c \<and> call_from S c)"
| "get_from S (GetHit key owners nid ent) = (entry_version key ent \<in> S)"
| "get_from S (GetReply key nid ent) = (entry_version key ent \<in> S)"
| "get_from S t = True"

definition wcall_from :: "version set \<Rightarrow> wcall \<Rightarrow> bool" where
  "wcall_from S c \<longleftrightarrow> (\<forall>call. c = WCall call \<longrightarrow> call_from S call)"

fun thread_from :: "request set \<Rightarrow> version set \<Rightarrow> thread \<Rightarrow> bool" where
  "thread_from A S (GetT t) = get_from S t"
| "thread_from A S (WriteT (SetArrived r)) = (r \<in> A)"
| "thread_from A S (WriteT (SetOwners b)) = (body_version b \<in> S)"
| "thread_from A S (WriteT (DelArrived r)) = True"
| "thread_from A S (WriteT (Fan meth b owners ws acked failed)) =
    ((meth \<noteq> ''DELETE'' \<longrightarrow> body_version b \<in> S) \<and> (\<forall>x \<in> set ws. wcall_from S (snd x)))"
| "thread_from A S (TakeT (TakeCall p c)) = call_from S c"
| "thread_from A S (Repair nid b c) = (body_version b \<in> S \<and> wcall_from S c)"
| "thread_from A S (Serving c) = call_from S c"
| "thread_from A S (Finished res) = reply_from S res"
| "thread_from A S t = True"

lemma reply_from_mono: "reply_from S res \<Longrightarrow> S \<subseteq> S' \<Longrightarrow> reply_from S' res"
  by (auto simp: reply_from_def)

lemma call_from_mono: "call_from S c \<Longrightarrow> S \<subseteq> S' \<Longrightarrow> call_from S' c"
  by (cases c) (auto simp: request_from_def intro: reply_from_mono)

lemma read_from_mono: "read_from S key c \<Longrightarrow> S \<subseteq> S' \<Longrightarrow> read_from S' key c"
  by (cases c) auto

lemma wcall_from_mono: "wcall_from S c \<Longrightarrow> S \<subseteq> S' \<Longrightarrow> wcall_from S' c"
  by (auto simp: wcall_from_def intro: call_from_mono)

lemma thread_from_mono: "thread_from A S t \<Longrightarrow> S \<subseteq> S' \<Longrightarrow> A \<subseteq> A' \<Longrightarrow> thread_from A' S' t"
proof (cases "(A, S, t)" rule: thread_from.cases)
  case (1 A1 S1 g)
  then show "thread_from A S t \<Longrightarrow> S \<subseteq> S' \<Longrightarrow> A \<subseteq> A' \<Longrightarrow> ?thesis"
    by (cases g) (auto intro: call_from_mono read_from_mono)
qed (auto intro: call_from_mono reply_from_mono wcall_from_mono)

section \<open>Stores\<close>

definition store_from :: "version set \<Rightarrow> store \<Rightarrow> bool" where
  "store_from S s \<longleftrightarrow> (\<forall>it \<in> set (entries s). item_version it \<in> S)"

definition procs_from :: "version set \<Rightarrow> (string \<Rightarrow> node) \<Rightarrow> bool" where
  "procs_from S P \<longleftrightarrow> (\<forall>p. store_from S (nstore (P p)))"

fun op_from :: "version set \<Rightarrow> event \<Rightarrow> bool" where
  "op_from S (CacheOp p (OpSet now key v ttl wr)) = ((key, v, wr) \<in> S)"
| "op_from S ev = True"

lemma lru_exec_items:
  "it \<in> set (lru_exec cap act l) \<Longrightarrow> it \<in> set l \<or> (\<exists>now key v ttl wr. act = OpSet now key v ttl wr
    \<and> item_version it = (key, v, wr))"
  by (cases act)
    (auto simp: lru_get_def lru_set_def lru_delete_def lru_sweep_def set_without item_version_def Let_def
      split: option.splits if_splits dest: lookup_SomeD in_set_takeD)

lemma exec_from:
  assumes "store_inv s" "store_exec act s = Some s'" "store_from S s" "op_from S (CacheOp p act)"
  shows "store_from S s'"
proof -
  obtain s1 where "store_exec act s = Some s1" "entries s1 = lru_exec (capacity s) act (entries s)"
    using store_exec_refines [OF assms(1)] by metis
  with assms(2) have "entries s' = lru_exec (capacity s) act (entries s)" by simp
  with assms(3,4) show ?thesis unfolding store_from_def using lru_exec_items by fastforce
qed

lemma effect_from:
  assumes "effect_on M ev P = Some P'" "\<forall>p. store_inv (nstore (P p))" "procs_from S P" "op_from S ev"
  shows "procs_from S P'"
proof (cases ev)
  case (CacheOp p act)
  then obtain s where s: "store_exec act (nstore (P p)) = Some s" "P' = P(p := (P p)\<lparr>nstore := s\<rparr>)"
    using assms(1) by auto
  then have "store_from S s"
    using exec_from [of "nstore (P p)" act s S p] assms(2-4) CacheOp by (simp add: procs_from_def)
  then show ?thesis using s(2) assms(3) by (simp add: procs_from_def)
qed (use assms in \<open>auto simp: procs_from_def markDown_frame isDown_frame split: if_splits prod.splits\<close>)

text \<open>A hit gives a version of the store.\<close>

lemma local_get_from:
  assumes "procs_wf E w" "procs_from S (procs w)" "local_get E p key w = ((ent, True), w')"
  shows "entry_version key ent \<in> S"
proof -
  have inv: "store_inv (nstore (procs w p))" using procs_wfD [OF assms(1)] by (simp add: node_wf_def)
  have "fst (Get (clock E (ticks w)) key (nstore (procs w p))) = (ent, True)"
    using assms(3) by (simp add: local_get_def tick_def Let_def split_beta)
  then have "peek (clock E (ticks w)) key (nstore (procs w p)) = Some ent"
    by (simp add: Get_result [OF inv] split: option.splits)
  then obtain it where "lookup key (entries (nstore (procs w p))) = Some it" "ent = entry_of it"
    by (auto simp: peek_def split: option.splits if_splits)
  then show ?thesis using assms(2) lookup_SomeD [of key _ it]
    by (auto simp: procs_from_def store_from_def version_defs entry_of_def)
qed

section \<open>Steps\<close>

lemma op_from_events [simp]: "op_from S (get_event E p key w)" "op_from S (take_event E p rb res w)"
  "op_from S (mark_event E me nid w)" "op_from S (check_event E me nid w)"
  "op_from S (set_event E p b w) \<longleftrightarrow> body_version b \<in> S"
  by (simp_all add: event_defs body_version_def)

lemma serve_kv_from:
  assumes w: "procs_wf E w" "procs_from S (procs w)" and r: "rPath r = ''/internal/kv''" "request_from S r"
    and s: "serve_kv E p r w = Some (c', ev, w')"
  shows "call_from S c' \<and> op_from S ev"
proof (cases "rMethod r = ''GET''")
  case True
  obtain ent ok w1 where g: "local_get E p (rQuery r ''key'') w = ((ent, ok), w1)" by (metis prod.exhaust)
  have "ok \<Longrightarrow> entry_version (rQuery r ''key'') ent \<in> S" using local_get_from [OF w] g by auto
  then show ?thesis using s True g by (auto simp: serve_kv_def Let_def split: option.splits if_splits)
next
  case False
  have "rMethod r = ''PUT'' \<Longrightarrow> body_of (rBody r) = Some b \<Longrightarrow> body_version b \<in> S" for b
    using r by (simp add: request_from_def)
  then show ?thesis using s False unfolding serve_kv_def
    by (auto simp: body_of_def [symmetric] Let_def split_beta split: option.splits if_splits)
qed

lemma rpc_from:
  assumes w: "procs_wf E w" "procs_from S (procs w)" and c: "call_from S c"
    and s: "rpc_step E c w = Some (c', ev, w')"
  shows "call_from S c' \<and> op_from S ev"
proof (cases c)
  case (InFlight p r)
  show ?thesis
  proof (cases "rPath r = ''/internal/kv''")
    case True
    then show ?thesis using serve_kv_from [OF w True] s c InFlight by simp
  next
    case False
    then show ?thesis using s InFlight
      by (auto simp: serve_take_def Let_def split_beta split: if_splits sum.splits)
  qed
qed (use s c in \<open>auto simp: Let_def split_beta split: option.splits\<close>)

lemma call_from_step:
  assumes "procs_wf E w" "procs_from S (procs w)" "call_from S c" "call_step E lose c w = Some (c', left, ev, w')"
  shows "call_from S c' \<and> op_from S ev \<and> (\<forall>l \<in> set left. call_from S l)"
proof (cases lose)
  case True
  then show ?thesis using assms(3,4) by (cases c) (auto simp: call_step_def)
next
  case False
  then show ?thesis using assms(4) rpc_from [OF assms(1-3)] by (auto simp: call_step_def)
qed

lemma read_text [simp]: "rStatus res = st \<Longrightarrow> rReply res = BText t \<Longrightarrow> read_result (Inr res) = Inr (Some g) \<longleftrightarrow> False"
  by (simp add: read_result_def split: if_splits)

lemma read_payload:
  "read_result (Inr (writeJSON 200 (encode_get (getPayload now key nid ent)))) = Inr (Some g)
    \<Longrightarrow> gr_value g = Value ent \<and> gr_written g = WrittenAt ent"
  using decode_encode_get_cases [of "getPayload now key nid ent"]
  by (auto simp: read_result_def writeJSON_def split: option.splits if_splits)

lemma read_from_step:
  assumes w: "procs_wf E w" "procs_from S (procs w)" and c: "read_from S key c"
    and s: "call_step E lose c w = Some (c', left, ev, w')"
  shows "read_from S key c'"
proof (cases lose)
  case True
  then show ?thesis using s by (cases c) (auto simp: call_step_def read_result_def)
next
  case False
  then have step: "rpc_step E c w = Some (c', ev, w')" using s by (auto simp: call_step_def)
  show ?thesis
  proof (cases c)
    case (InFlight p r)
    obtain ent ok w1 where g: "local_get E p key w = ((ent, ok), w1)" by (metis prod.exhaust)
    have "ok \<Longrightarrow> entry_version key ent \<in> S" using local_get_from [OF w] g by auto
    then show ?thesis using step c InFlight g
      by (auto simp: serve_kv_def kv_request_eq Let_def read_result_def miss_resp_def writeJSON_def http_error_def
          split: option.splits if_splits)
  next
    case (Sending base r)
    then show ?thesis using step c by (auto simp: read_result_def split: option.splits)
  next
    case (Encoding p k ent)
    then show ?thesis using step c read_payload
      by (auto simp: Let_def split_beta entry_version_def)
  qed (use step c in auto)
qed

lemma request_from_write: "meth \<noteq> ''DELETE'' \<longrightarrow> body_version b \<in> S \<Longrightarrow> request_from S (write_request E meth b)"
  using marshal_body [of "float_text E" b] by (auto simp: request_from_def write_request_def kv_request_eq)

lemma write_from:
  assumes w: "procs_wf E w" "procs_from S (procs w)" and b: "meth \<noteq> ''DELETE'' \<longrightarrow> body_version b \<in> S"
    and c: "wcall_from S c" and s: "write_step E me meth b nid lose c w = Some (c', left, ev, w')"
  shows "wcall_from S c' \<and> op_from S ev \<and> (\<forall>l \<in> set left. call_from S l)"
proof (cases c)
  case WStart
  then show ?thesis using s b request_from_write [OF b, of E]
    by (auto simp: write_step_def write_start_def Let_def wcall_from_def split: if_splits option.splits)
next
  case (WCall call)
  show ?thesis
  proof (cases "\<exists>x. call = Returned x")
    case True
    then show ?thesis using s by (auto simp: WCall write_step_def wcall_from_def)
  next
    case False
    then obtain call' where call': "call_step E lose call w = Some (call', left, ev, w')" "c' = WCall call'"
      using s by (cases call) (auto simp: WCall write_step_def)
    have "call_from S call" using c WCall by (simp add: wcall_from_def)
    from call_from_step [OF w this call'(1)] show ?thesis by (simp add: wcall_from_def call'(2))
  qed
qed (use s in \<open>simp_all add: write_step_def\<close>)

section \<open>Threads\<close>

abbreviation all_from :: "(string \<Rightarrow> request set) \<Rightarrow> version set \<Rightarrow> (string \<times> thread) list \<Rightarrow> bool" where
  "all_from R S ts \<equiv> \<forall>x \<in> set ts. thread_from (R (fst x)) S (snd x)"

lemma left_from: "\<forall>l \<in> set left. call_from S l \<Longrightarrow> all_from R S (left_behind me left)"
  by auto

lemma repairs_from:
  assumes "entry_version key ent \<in> S"
  shows "all_from R S (repairs me owners nid (repair_body now key ent))"
  using assms by (auto simp: repairs_def repair_body_def wcall_from_def version_defs Let_def
      split: option.splits if_splits)

lemma entry_read_version: "entry_version key (entry_read now g) = (key, gr_value g, gr_written g)"
  by (simp add: entry_version_def entry_read_def)

lemma get_from_step:
  assumes w: "procs_wf E w" "procs_from S (procs w)" and t: "get_from S t"
    and s: "get_step E me lose t w = Some (t', new, ev, w')"
  shows "thread_from A S t' \<and> op_from S ev \<and> all_from R S new"
proof (cases "(E, me, lose, t, w)" rule: get_step.cases)
  case (1 E' me' lose' r w1)
  then show ?thesis using s by (auto simp: Let_def split: if_splits option.splits)
next
  case (3 E' me' lose' key owners nid ids reached w1)
  obtain ent ok w2 where g: "local_get E me key w = ((ent, ok), w2)" by (metis prod.exhaust)
  have "ok \<Longrightarrow> entry_version key ent \<in> S" using local_get_from [OF w] g by auto
  then show ?thesis using s 3 g by (auto simp: split_beta Let_def split: if_splits)
next
  case (5 E' me' lose' key owners nid ids reached c w1)
  show ?thesis
  proof (cases "\<exists>x. c = Returned x")
    case True
    then show ?thesis using s t 5
      by (auto simp: Let_def split_beta entry_read_version split: sum.splits option.splits)
  next
    case False
    then obtain c' left where c': "call_step E lose c w = Some (c', left, ev, w')"
        "t' = GetT (GetCall key owners nid ids reached c')" "new = left_behind me left"
      using s 5 by (cases c) (auto simp del: rpc_step.simps)
    have c: "read_from S key c" "call_from S c" using t 5 by simp_all
    show ?thesis
      using call_from_step [OF w c(2) c'(1)] read_from_step [OF w c(1) c'(1)] by (auto simp: c')
  qed
next
  case (7 E' me' lose' key owners nid ent w1)
  then have "entry_version key ent \<in> S" using t by simp
  from repairs_from [OF this, of me owners nid "fst (tick E w)"] this
  show ?thesis using s 7 by (auto simp: Let_def split_beta)
qed (use s t in \<open>auto simp: Let_def split_beta kv_request_eq request_from_def split: if_splits\<close>)

lemma wcall_from_simps [simp]: "wcall_from S WStart" "wcall_from S WTaken" "wcall_from S (WDone err)"
  "wcall_from S (WCall c) = call_from S c"
  by (simp_all add: wcall_from_def)

lemma fan_from:
  assumes w: "procs_wf E w" "procs_from S (procs w)"
    and t: "thread_from A S (WriteT (Fan meth b owners ws acked failed))"
    and s: "fan_step E me ch meth b owners ws acked failed w = Some (t', new, ev, w')"
  shows "thread_from A S t' \<and> op_from S ev \<and> all_from R S new"
proof (cases ch)
  case (Worker i lose)
  then obtain c' left where i: "i < length ws"
      and c: "write_step E me meth b (fst (ws ! i)) lose (snd (ws ! i)) w = Some (c', left, ev, w')"
      and t': "t' = WriteT (Fan meth b owners (ws[i := (fst (ws ! i), c')]) acked failed)" "new = left_behind me left"
    using s by (auto split: if_splits)
  have b: "meth \<noteq> ''DELETE'' \<longrightarrow> body_version b \<in> S" "wcall_from S (snd (ws ! i))" using t i by simp_all
  have "\<forall>x \<in> set (ws[i := (fst (ws ! i), c')]). wcall_from S (snd x)"
    using t write_from [OF w b c] set_update_subset_insert [of ws i "(fst (ws ! i), c')"] by auto
  with b t' write_from [OF w b c] show ?thesis by auto
next
  case (Receive i)
  have "\<forall>x \<in> set (ws[i := (fst (ws ! i), WTaken)]). wcall_from S (snd x)"
    using t set_update_subset_insert [of ws i "(fst (ws ! i), WTaken)"] by auto
  then show ?thesis using s t Receive by (auto simp: Let_def split: if_splits wcall.splits option.splits)
qed (use s in \<open>auto split: if_splits\<close>)


lemma writer_from:
  assumes w: "procs_wf E w" "procs_from S (procs w)" and t: "thread_from A S (WriteT t)"
    and s: "writer_step E me ch t w = Some (t', new, ev, w')"
    and taken: "\<And>r b. t = SetArrived r \<Longrightarrow> t' = WriteT (SetOwners b) \<Longrightarrow> body_version b \<in> S"
  shows "thread_from A S t' \<and> op_from S ev \<and> all_from R S new"
proof (cases t)
  case (SetArrived r)
  then show ?thesis using s taken
    by (auto simp: body_of_def [symmetric] Let_def split_beta split: if_splits option.splits)
next
  case (Fan meth b owners ws acked failed)
  then show ?thesis using fan_from [OF w] s t by simp
qed (use s t in \<open>auto simp: Let_def fan_out_def split: if_splits option.splits\<close>)

lemma take_from:
  assumes w: "procs_wf E w" "procs_from S (procs w)" and t: "thread_from A S (TakeT t)"
    and s: "take_step E me lose t w = Some (t', new, ev, w')"
  shows "thread_from A S t' \<and> op_from S ev \<and> all_from R S new"
proof (cases "(E, me, lose, t, w)" rule: take_step.cases)
  case (4 E' me' lose' primary c w1)
  show ?thesis
  proof (cases "\<exists>x. c = Returned x")
    case True
    then show ?thesis using s t 4 by (auto simp: reply_from_limited split: sum.splits)
  next
    case False
    then obtain c' left where c': "call_step E lose c w = Some (c', left, ev, w')"
        "t' = TakeT (TakeCall primary c')" "new = left_behind me left"
      using s 4 by (cases c) (auto simp del: rpc_step.simps)
    have "call_from S c" using t 4 by simp
    from call_from_step [OF w this c'(1)] show ?thesis by (auto simp: c')
  qed
qed (use s t in \<open>auto simp: Let_def split_beta forward_request_def request_from_def split: if_splits option.splits sum.splits\<close>)

lemma member_from: "member_step E me t w = Some (t', new, ev, w') \<Longrightarrow> thread_from A S t' \<and> op_from S ev \<and> new = []"
  by (cases t) (auto simp: Let_def split: if_splits option.splits)

lemma status_from: "status_step me t w = Some (t', new, ev, w') \<Longrightarrow> thread_from A S t' \<and> op_from S ev \<and> new = []"
  by (cases t) (auto simp: Let_def split: if_splits)

lemma tstep_from:
  assumes w: "procs_wf E w" "procs_from S (procs w)" and t: "thread_from A S t"
    and s: "tstep E me ch t w = Some (t', new, ev, w')"
    and taken: "\<And>r b. t = WriteT (SetArrived r) \<Longrightarrow> t' = WriteT (SetOwners b) \<Longrightarrow> body_version b \<in> S"
  shows "thread_from A S t' \<and> op_from S ev \<and> all_from R S new"
proof (cases t)
  case (Repair nid b c)
  show ?thesis
  proof (cases "\<exists>err. c = WDone err")
    case True
    then show ?thesis using s Repair by (cases ch) auto
  next
    case False
    then obtain c' left lose where c': "write_step E me ''PUT'' b nid lose c w = Some (c', left, ev, w')"
        "t' = Repair nid b c'" "new = left_behind me left"
      using s Repair by (cases ch; cases c) auto
    have b: "''PUT'' \<noteq> ''DELETE'' \<longrightarrow> body_version b \<in> S" "wcall_from S c" using t Repair by simp_all
    from write_from [OF w b c'(1)] show ?thesis using b by (auto simp: c')
  qed
next
  case (Serving c)
  show ?thesis
  proof (cases "\<exists>x. c = Returned x")
    case True
    then show ?thesis using s t Serving by (cases ch) (auto split: sum.splits)
  next
    case False
    then obtain c' where c': "rpc_step E c w = Some (c', ev, w')" "t' = Serving c'" "new = []"
      using s Serving by (cases ch; cases c) (auto simp del: rpc_step.simps)
    have "call_from S c" using t Serving by simp
    from rpc_from [OF w this c'(1)] show ?thesis by (simp add: c')
  qed
next
  case (WriteT h)
  then show ?thesis using writer_from [OF w, of A h me ch t' new ev w' R] s t taken by simp
next
  case (GetT h)
  then show ?thesis using get_from_step [OF w] s t by (cases ch) auto
next
  case (TakeT h)
  then show ?thesis using take_from [OF w] s t by (cases ch) auto
next
  case (MemberT h)
  then show ?thesis using member_from s by (cases ch) fastforce+
next
  case (StatusT h)
  then show ?thesis using status_from s by (cases ch) fastforce+
qed (use s in \<open>cases ch; simp\<close>)+

section \<open>Runs\<close>

definition istate_from :: "(string \<Rightarrow> request set) \<Rightarrow> version set \<Rightarrow> istate \<Rightarrow> bool" where
  "istate_from R S s \<longleftrightarrow> procs_from S (procs (iw s)) \<and> all_from R S (ithreads s)"

lemma start_from:
  assumes "Arrive me r \<in> set tr"
  shows "thread_from (set_requests tr me) (brought E s0 tr s) (start_thread me r w)"
proof -
  have "rPath r = ''/internal/kv'' \<Longrightarrow> body_of (rBody r) = Some b \<Longrightarrow> body_version b \<in> brought E s0 tr s" for b
    using assms unfolding brought_def by blast
  then have "rPath r = ''/internal/kv'' \<Longrightarrow> request_from (brought E s0 tr s) r"
    by (simp add: request_from_def)
  moreover have "rPath r \<in> {''/v1/set'', ''/set''} \<Longrightarrow> r \<in> set_requests tr me"
    using assms by (simp add: set_requests_def)
  moreover have "rPath r \<noteq> ''/internal/kv'' \<Longrightarrow> request_from S r" for S by (simp add: request_from_def)
  ultimately show ?thesis
    by (simp add: start_thread_def Let_def)
qed

lemma all_from_mono:
  "all_from R S ts \<Longrightarrow> S \<subseteq> S' \<Longrightarrow> (\<And>p. R p \<subseteq> R' p) \<Longrightarrow> all_from R' S' ts"
proof
  fix x assume "all_from R S ts" "S \<subseteq> S'" "\<And>p. R p \<subseteq> R' p" "x \<in> set ts"
  then show "thread_from (R' (fst x)) S' (snd x)"
    using thread_from_mono [of "R (fst x)" S "snd x" S' "R' (fst x)"] by simp
qed

lemma procs_from_mono: "procs_from S P \<Longrightarrow> S \<subseteq> S' \<Longrightarrow> procs_from S' P"
  by (auto simp: procs_from_def store_from_def)

lemma istep_from:
  assumes run: "irun E s0 tr s" and s: "istep E s ev s'" and wf: "istate_wf E s"
    and st: "istate_from (set_requests tr) (brought E s0 tr s) s"
  shows "istate_from (set_requests (tr @ [ev])) (brought E s0 (tr @ [ev]) s') s'"
proof -
  let ?S' = "brought E s0 (tr @ [ev]) s'" and ?R' = "set_requests (tr @ [ev])"
  have w: "procs_wf E (iw s)" using wf by (simp add: istate_wf_def)
  have st: "procs_from (brought E s0 tr s) (procs (iw s))"
      "all_from (set_requests tr) (brought E s0 tr s) (ithreads s)"
    using st unfolding istate_from_def by blast+
  note w = w procs_from_mono [OF st(1) brought_snoc [OF s]]
  have old: "all_from ?R' ?S' (ithreads s)"
    by (rule all_from_mono [OF st(2) brought_snoc [OF s] set_requests_snoc])
  have "op_from ?S' ev \<and> all_from ?R' ?S' (ithreads s')"
    using s
  proof (cases rule: istep.cases)
    case (istep_arrive me r)
    then show ?thesis using old start_from [of me r "tr @ [ev]" E s0 s' "iw s"] by auto
  next
    case (istep_thread i)
    then show ?thesis
    proof (cases rule: advance.cases)
      case (advance_thread me t ch t' new w')
      have t: "thread_from (?R' me) ?S' t"
        using old advance_thread nth_mem [of i "ithreads s"] by (metis fst_conv snd_conv)
      have taken: "body_version b \<in> ?S'" if b: "t = WriteT (SetArrived r)" "t' = WriteT (SetOwners b)" for r b
      proof -
        have "took E s0 (tr @ [ev]) s' me r b"
          using took_now [OF run _ _ istep_thread] advance_thread b by (simp add: nth_append)
        moreover have "r \<in> ?R' me" using t b by simp
        ultimately show ?thesis unfolding brought_def by blast
      qed
      have sub: "set (ithreads s') \<subseteq> insert (me, t') (set (ithreads s)) \<union> set new"
        using advance_thread set_update_subset_insert [of "ithreads s" i "(me, t')"] by auto
      have "thread_from (?R' me) ?S' t'" "op_from ?S' ev" "all_from ?R' ?S' new"
        using tstep_from [OF w t \<open>tstep E me ch t (iw s) = Some (t', new, ev, w')\<close>] taken by blast+
      with sub old show ?thesis by (metis (no_types, lifting) UnE fst_conv insertE snd_conv subset_iff)
    qed
  qed (use old in auto)
  moreover have "\<forall>p. store_inv (nstore (procs (iw s) p))" using procs_wfD [OF w(1)] by (simp add: node_wf_def)
  ultimately show ?thesis
    using effect_from [OF istep_effect [OF s] _ w(2)] unfolding istate_from_def by blast
qed

lemma irun_from:
  "irun E s tr s' \<Longrightarrow> istate_wf E s \<Longrightarrow> istate_from (\<lambda>_. {}) {} s
    \<Longrightarrow> istate_from (set_requests tr) (brought E s tr s') s'"
proof (induction rule: irun.induct)
  case (irun_start s)
  then show ?case
    unfolding istate_from_def
    by (blast intro: procs_from_mono [OF _ empty_subsetI] thread_from_mono [OF _ empty_subsetI empty_subsetI])
next
  case (irun_next s tr s' ev s'')
  then show ?case using istep_from irun_wf by blast
qed

text \<open>The thread of a \<open>GET\<close> keeps to the key it was asked for.\<close>

fun keyed :: "string \<Rightarrow> thread \<Rightarrow> bool" where
  "keyed key (GetT (GetArrived r)) \<longleftrightarrow> rQuery r ''key'' = key"
| "keyed key (GetT (GetLoop k owners ids reached)) \<longleftrightarrow> k = key"
| "keyed key (GetT (GetUrl k owners nid ids reached)) \<longleftrightarrow> k = key"
| "keyed key (GetT (GetCall k owners nid ids reached c)) \<longleftrightarrow> k = key"
| "keyed key (GetT (GetFailed k owners nid ids reached)) \<longleftrightarrow> k = key"
| "keyed key (GetT (GetHit k owners nid ent)) \<longleftrightarrow> k = key"
| "keyed key (GetT (GetReply k nid ent)) \<longleftrightarrow> k = key"
| "keyed key (Finished res) \<longleftrightarrow> (\<forall>g. rReply res = BJson (encode_get g) \<and> gr_found g \<longrightarrow> gr_key g = key)"
| "keyed key t \<longleftrightarrow> False"

lemma keyed_simps [simp]: "keyed key (Finished (http_error e st))" "keyed key (Finished (miss_resp k))"
  "keyed key (Finished (writeJSON st (encode_get (getPayload now key nid ent))))"
  by (auto simp: http_error_def miss_resp_def writeJSON_def dest!: encode_get_inj)

lemma keyed_get:
  assumes k: "keyed key (GetT t)" and s: "get_step E me lose t w = Some (t', new, ev, w')"
  shows "keyed key t'"
proof (cases t)
  case (GetArrived r)
  then show ?thesis using k s by (auto simp: Let_def simp del: keyed.simps(8) split: if_splits option.splits)
next
  case (GetLoop x1 x2 ids x4)
  show ?thesis
  proof (cases ids)
    case (Cons nid rest)
    obtain ent ok w2 where g: "local_get E me key w = ((ent, ok), w2)" by (metis prod.exhaust)
    show ?thesis using k s GetLoop Cons g by (auto simp: Let_def split: if_splits prod.splits)
  qed (use k s GetLoop in \<open>auto simp del: keyed.simps(8) split: if_splits\<close>)
next
  case (GetCall x1 x2 x3 x4 x5 c)
  then show ?thesis using k s
    by (cases c) (auto simp: Let_def split_beta simp del: rpc_step.simps split: sum.splits option.splits)
qed (use k s in \<open>auto simp: Let_def split_beta simp del: keyed.simps(8) split: if_splits\<close>)

lemma keyed_step:
  assumes "keyed key t" "tstep E me ch t w = Some (t', new, ev, w')"
  shows "keyed key t'"
proof (cases t)
  case (GetT g)
  then show ?thesis using assms keyed_get [of key g E me] by (cases ch) auto
next
  case (Finished res)
  then show ?thesis using assms by (cases ch) auto
qed (use assms in simp_all)

lemma irun_keyed:
  assumes "irun E s tr s'" "istate_wf E s" "i < length (ithreads s)" "ithreads s ! i = (me, GetT (GetArrived rg))"
  shows "i < length (ithreads s') \<and> (\<exists>t. ithreads s' ! i = (me, t) \<and> keyed (rQuery rg ''key'') t)"
proof (rule irun_follow [where J = "\<lambda>_ t _. keyed (rQuery rg ''key'') t" and Q = "\<lambda>_. True", OF assms])
  show "\<And>tr t w ch t' new ev w'. keyed (rQuery rg ''key'') t \<Longrightarrow> procs_wf E w \<Longrightarrow> True
    \<Longrightarrow> tstep E me ch t w = Some (t', new, ev, w') \<Longrightarrow> keyed (rQuery rg ''key'') t'"
    using keyed_step by blast
qed simp_all

lemma boot_from: "boot w \<Longrightarrow> istate_from (\<lambda>_. {}) {} (iboot w)"
proof -
  assume "boot w"
  then have "entries (nstore (procs w p)) = []" for p
  proof -
    obtain c where "New_node c = Inr (procs w p)" using \<open>boot w\<close> unfolding boot_def by metis
    then show ?thesis by (auto simp: New_node_eq New_refines)
  qed
  then show ?thesis by (simp add: istate_from_def iboot_def procs_from_def store_from_def)
qed

end
