(* ===== verification/InterleavedTakes.thy ===== *)
theory InterleavedTakes
  imports InterleavedReads
begin

text \<open>
  Rate limiting under interleaving. The takes that reach a limiter form one sequential run,
  so its bound holds for them in whatever order they came; and no answer is given twice: the
  positive answers that clients hold, that travel or that nobody waits for any more are at
  most as many as the takes that a limiter has allowed.
\<close>

section \<open>Positive answers\<close>

definition says_yes :: "response \<Rightarrow> bool" where
  "says_yes res \<longleftrightarrow> (\<exists>kvs. rReply res = BJson (JObj ((''allowed'', JBool True) # kvs)))"

lemma says_yes_take [simp]: "says_yes (take_resp p q res) \<longleftrightarrow> Allowed res"
  by (simp add: says_yes_def take_resp_def writeJSON_def encode_rlresp_def)

lemma says_yes_text [simp]: "\<not> says_yes (http_error e st)"
  by (simp add: says_yes_def http_error_def)

lemma says_yes_json: "k \<noteq> ''allowed'' \<Longrightarrow> \<not> says_yes (writeJSON st (JObj ((k, v) # kvs)))"
  by (simp add: says_yes_def writeJSON_def)

lemma says_yes_other [simp]:
  "\<not> says_yes (miss_resp key)" "what \<noteq> ''allowed'' \<Longrightarrow> \<not> says_yes (ok_resp what x nid)"
  "\<not> says_yes (writeJSON st (encode_get g))" "\<not> says_yes (fan_reply meth b owners acked failed)"
  "\<not> says_yes (handleHealth me r w)" "\<not> says_yes (writeJSON 200 (members_reply ok c names peers))"
  "\<not> says_yes (writeJSON 200 (stats_reply c sts n))"
  "\<not> says_yes (writeJSON 200 (ring_reply c names peers points key owners))"
  by (simp_all add: says_yes_json miss_resp_def ok_resp_def encode_get_def fan_reply_def encode_write_def
      handleHealth_def members_reply_def stats_reply_def ring_reply_def status_defs)

lemma says_yes_limited [simp]:
  "says_yes \<lparr>rStatus = st, rReply = limit_body ft (rReply res)\<rparr> \<Longrightarrow> says_yes res"
  by (auto simp: says_yes_def limit_body_def split: body.splits if_splits)

fun call_yes :: "rpc \<Rightarrow> bool" where
  "call_yes (Answered res) = says_yes res"
| "call_yes (Returned x) = (\<exists>res. x = Inr res \<and> says_yes res)"
| "call_yes c = False"

text \<open>The thread holds a positive answer.\<close>

fun holds_yes :: "thread \<Rightarrow> bool" where
  "holds_yes (TakeT (TakeCall p c)) = call_yes c"
| "holds_yes (Serving c) = call_yes c"
| "holds_yes (Finished res) = says_yes res"
| "holds_yes t = False"

definition count_yes :: "(string \<times> thread) list \<Rightarrow> nat" where
  "count_yes ts = length (filter (\<lambda>x. holds_yes (snd x)) ts)"

fun allowing :: "event \<Rightarrow> bool" where
  "allowing (LimitOp p q res) = Allowed res"
| "allowing ev = False"

definition new_yes :: "thread \<Rightarrow> event \<Rightarrow> thread \<Rightarrow> (string \<times> thread) list \<Rightarrow> bool" where
  "new_yes t ev t' new \<longleftrightarrow> (holds_yes t' \<longrightarrow> holds_yes t \<or> allowing ev) \<and> (\<forall>x \<in> set new. \<not> holds_yes (snd x))"

lemma rpc_yes: "rpc_step E c w = Some (c', ev, w') \<Longrightarrow> call_yes c' \<Longrightarrow> call_yes c \<or> allowing ev"
proof (induction E c w rule: rpc_step.induct)
  case (2 E p r w)
  then show ?case
    by (auto simp: serve_kv_def serve_take_def take_event_def Let_def split_beta
        split: if_splits option.splits sum.splits)
qed (auto simp: Let_def split_beta split: option.splits)

lemma call_yes_step:
  assumes "call_step E lose c w = Some (c', left, ev, w')"
  shows "(call_yes c' \<longrightarrow> call_yes c \<or> allowing ev) \<and> (\<forall>l \<in> set left. \<not> call_yes l)"
proof (cases lose)
  case True
  then show ?thesis using assms by (cases c) (auto simp: call_step_def)
next
  case False
  then show ?thesis using assms by (auto simp: call_step_def dest: rpc_yes)
qed

lemma write_yes:
  assumes "write_step E me meth b nid lose c w = Some (c', left, ev, w')"
  shows "\<forall>l \<in> set left. \<not> call_yes l"
proof (cases "\<exists>call. c = WCall call \<and> (\<forall>x. call \<noteq> Returned x)")
  case True
  then obtain call call' where "call_step E lose call w = Some (call', left, ev, w')"
    using assms by (auto simp: write_step_def split: rpc.splits)
  then show ?thesis using call_yes_step by blast
next
  case False
  then show ?thesis using assms by (auto simp: write_step_def split: wcall.splits rpc.splits)
qed

lemma repairs_yes: "x \<in> set (repairs me owners nid bo) \<Longrightarrow> \<not> holds_yes (snd x)"
  by (auto simp: repairs_def split: option.splits)

lemma get_yes: "get_step E me lose t w = Some (t', new, ev, w') \<Longrightarrow> new_yes (GetT t) ev t' new"
  by (induction E me lose t w rule: get_step.induct)
    (auto simp: new_yes_def Let_def split_beta simp del: rpc_step.simps dest: repairs_yes dest!: call_yes_step
      split: rpc.splits if_splits option.splits sum.splits)

lemma fan_yes:
  "fan_step E me ch meth b owners ws acked failed w = Some (t', new, ev, w')
    \<Longrightarrow> new_yes (WriteT (Fan meth b owners ws acked failed)) ev t' new"
  by (induction E me ch meth b owners ws acked failed w rule: fan_step.induct)
    (auto simp: new_yes_def Let_def split: wcall.splits if_splits option.splits dest!: write_yes)

lemma writer_yes: "writer_step E me ch t w = Some (t', new, ev, w') \<Longrightarrow> new_yes (WriteT t) ev t' new"
proof (induction E me ch t w rule: writer_step.induct)
  case (4 E me ch meth b owners ws acked failed w)
  then show ?case using fan_yes by simp
qed (auto simp: new_yes_def Let_def stamp_body_def split_beta fan_out_def split: if_splits option.splits)

lemma take_yes: "take_step E me lose t w = Some (t', new, ev, w') \<Longrightarrow> new_yes (TakeT t) ev t' new"
  by (induction E me lose t w rule: take_step.induct)
    (auto simp: new_yes_def Let_def split_beta take_event_def simp del: rpc_step.simps
      split: rpc.splits if_splits option.splits sum.splits dest!: call_yes_step)

lemma member_yes: "member_step E me t w = Some (t', new, ev, w') \<Longrightarrow> new_yes (MemberT t) ev t' new"
  by (cases t) (auto simp: new_yes_def Let_def split: if_splits option.splits)

lemma status_yes: "status_step me t w = Some (t', new, ev, w') \<Longrightarrow> new_yes (StatusT t) ev t' new"
  by (cases t) (auto simp: new_yes_def Let_def split: if_splits)

lemma tstep_yes:
  assumes "tstep E me ch t w = Some (t', new, ev, w')"
  shows "new_yes t ev t' new"
  using assms
proof (induction E me ch t w rule: tstep.induct)
  case (6 E me lose nid b c w)
  then show ?case by (auto simp: new_yes_def split: wcall.splits dest!: write_yes)
next
  case (7 E me lose c w)
  then show ?case
    by (auto simp: new_yes_def simp del: rpc_step.simps split: rpc.splits sum.splits dest!: rpc_yes)
qed (use writer_yes get_yes take_yes member_yes status_yes in auto)

lemma start_yes: "\<not> holds_yes (start_thread me r w)"
  by (simp add: start_thread_def Let_def)

lemma count_yes_update:
  "i < length ts \<Longrightarrow> ts ! i = (me, t) \<Longrightarrow> (holds_yes t' \<longrightarrow> holds_yes t \<or> n = 1) \<Longrightarrow> n \<le> 1
    \<Longrightarrow> count_yes (ts[i := (me, t')]) \<le> count_yes ts + n"
proof (induction ts arbitrary: i)
  case (Cons x ts)
  then show ?case by (cases i) (auto simp: count_yes_def)
qed simp

lemma istep_yes:
  assumes "istep E s ev s'"
  shows "count_yes (ithreads s') \<le> count_yes (ithreads s) + (if allowing ev then 1 else 0)"
  using assms
proof (cases rule: istep.cases)
  case (istep_thread i)
  then show ?thesis
  proof (cases rule: advance.cases)
    case (advance_thread me t ch t' new w')
    have y: "new_yes t ev t' new" using tstep_yes advance_thread by blast
    then have "filter (\<lambda>x. holds_yes (snd x)) new = []" by (auto simp: new_yes_def filter_empty_conv)
    moreover have "count_yes ((ithreads s)[i := (me, t')])
        \<le> count_yes (ithreads s) + (if allowing ev then 1 else 0)"
      using y advance_thread by (intro count_yes_update) (auto simp: new_yes_def)
    ultimately show ?thesis using advance_thread by (simp add: count_yes_def)
  qed
qed (auto simp: count_yes_def start_yes)

lemma irun_yes:
  "irun E s tr s' \<Longrightarrow> count_yes (ithreads s') \<le> count_yes (ithreads s) + length (filter allowing tr)"
proof (induction rule: irun.induct)
  case (irun_next s tr s' ev s'')
  then show ?case using istep_yes [OF irun_next.hyps(2)] by (auto split: if_splits)
qed simp

section \<open>The takes of one limiter\<close>

fun take_of :: "string \<Rightarrow> event \<Rightarrow> (take_req \<times> result) list" where
  "take_of p (LimitOp q rq res) = (if q = p then [(rq, res)] else [])"
| "take_of p ev = []"

definition takes_at :: "string \<Rightarrow> event list \<Rightarrow> (take_req \<times> result) list" where
  "takes_at p tr = concat (map (take_of p) tr)"

lemma takes_at_snoc [simp]: "takes_at p [] = []" "takes_at p (tr @ [ev]) = takes_at p tr @ take_of p ev"
  by (simp_all add: takes_at_def)

lemma effect_takes:
  "effect_on M ev P = Some P' \<Longrightarrow> \<forall>now. ev \<noteq> LimitSweep p now
    \<Longrightarrow> rl_takes M (map fst (take_of p ev)) (nrl (P p)) = (map snd (take_of p ev), nrl (P' p))"
  by (cases ev) (auto simp: markDown_frame isDown_frame split: if_splits prod.splits)

lemma irun_takes:
  "irun E s tr s' \<Longrightarrow> \<forall>now. LimitSweep p now \<notin> set tr
    \<Longrightarrow> rl_takes (fpu_of (arch E)) (map fst (takes_at p tr)) (nrl (procs (iw s) p))
      = (map snd (takes_at p tr), nrl (procs (iw s') p))"
proof (induction rule: irun.induct)
  case (irun_next s tr s' ev s'')
  moreover have "\<forall>now. ev \<noteq> LimitSweep p now" using irun_next.prems by auto
  ultimately show ?case using effect_takes [OF istep_effect [OF irun_next.hyps(2)]]
    by (simp add: rl_takes_append)
qed simp

lemma takes_at_in: "(rq, res) \<in> set (takes_at p tr) \<longleftrightarrow> LimitOp p rq res \<in> set tr"
proof -
  have "(rq, res) \<in> set (take_of p ev) \<longleftrightarrow> ev = LimitOp p rq res" for ev by (cases ev) auto
  then show ?thesis by (auto simp: takes_at_def)
qed

lemma answers_pairs: "answers key (map fst ts) (map snd ts) = map snd (filter (\<lambda>t. tq_key (fst t) = key) ts)"
  unfolding answers_def by (induction ts) auto

lemma requests_pairs: "requests key (map fst ts) = map fst (filter (\<lambda>t. tq_key (fst t) = key) ts)"
  unfolding requests_def by (induction ts) auto

text \<open>What one key is granted in a run, whatever the other keys do.\<close>

definition granted_in :: "string \<Rightarrow> string \<Rightarrow> event list \<Rightarrow> rat" where
  "granted_in p key tr = sum_list (map (\<lambda>(rq, res). if Allowed res then max 0 (tq_cost rq) else 0)
    (filter (\<lambda>t. tq_key (fst t) = key) (takes_at p tr)))"

lemma granted_in_eq:
  "granted_in p key tr = granted (requests key (map fst (takes_at p tr)))
    (answers key (map fst (takes_at p tr)) (map snd (takes_at p tr)))"
proof -
  have "sum_list (map (\<lambda>(rq, res). if Allowed res then max 0 (tq_cost rq) else 0) ts)
      = granted (map fst ts) (map snd ts)" for ts
    unfolding granted_def by (induction ts) auto
  then show ?thesis by (simp add: granted_in_def answers_pairs requests_pairs)
qed

lemma irun_granted:
  assumes run: "irun E s tr s'" and wf: "istate_wf E s"
    and same: "\<And>rq res. LimitOp q rq res \<in> set tr \<Longrightarrow> tq_key rq = key
      \<Longrightarrow> tq_rate rq = r \<and> tq_burst rq = b \<and> t0 \<le> tq_now rq \<and> tq_now rq \<le> T"
    and sweep: "\<forall>now. LimitSweep q now \<notin> set tr"
    and fresh: "rl_bucket_of key (nrl (procs (iw s) q)) = None"
    and room: "int (card (set (order (nrl (procs (iw s) q))) \<union> tq_key ` fst ` set (takes_at q tr)))
      \<le> rl_capacity (nrl (procs (iw s) q))"
    and some: "LimitOp q rq0 res0 \<in> set tr" "tq_key rq0 = key"
  shows "granted_in q key tr \<le> b + r * (1 + eps64) ^ 3 * (of_int (T - t0) / 1000000000)
    + of_nat (length (filter (\<lambda>t. tq_key (fst t) = key) (takes_at q tr))) * (2 * (b * eps64 + eta64) + eta64)"
proof -
  let ?M = "fpu_of (arch E)" and ?s = "nrl (procs (iw s) q)"
  define qs where "qs = map fst (takes_at q tr)"
  have valid: "\<exists>k b. rq = req_at (clock E k) b \<and> rl_valid b" if "LimitOp q rq res \<in> set tr" for rq res
    using irun_event_ok [OF run wf that] by auto
  have mem: "\<exists>res. LimitOp q rq res \<in> set tr" if "rq \<in> set qs" for rq
    using that unfolding qs_def by (metis (no_types, lifting) imageE list.set_map prod.collapse takes_at_in)
  have ok: "\<forall>rq \<in> set qs. req_ok ?M rq"
    using mem valid by (fastforce simp: req_ok_def req_at_def rl_valid_def is_float_def)
  have inv: "rl_inv ?M ?s" using wf procs_wfD [of E "iw s" q] by (simp add: istate_wf_def node_wf_def)
  have "tq_key ` fst ` set (takes_at q tr) = tq_key ` set qs" by (auto simp: qs_def)
  with room have "int (card (set (order ?s) \<union> tq_key ` set qs)) \<le> rl_capacity ?s" by simp
  from go.rl_takes_isolated [OF inv ok this, of key]
  have "answers key qs (map snd (takes_at q tr)) = lone_takes ?M (requests key qs) None"
    using irun_takes [OF run sweep] fresh by (simp add: qs_def)
  then have "granted_in q key tr = granted (requests key qs) (lone_takes ?M (requests key qs) None)"
    by (simp add: granted_in_eq qs_def)
  also have "\<dots> \<le> b + r * (1 + eps64) ^ 3 * (of_int (T - t0) / 1000000000)
      + of_nat (length (requests key qs)) * (2 * (b * eps64 + eta64) + eta64)"
  proof (rule bounded_go.lone_takes_bound)
    have "tq_rate rq0 = r" "tq_burst rq0 = b" using same [OF some] by simp_all
    moreover obtain k bd where "rq0 = req_at (clock E k) bd" "rl_valid bd" using valid [OF some(1)] by blast
    ultimately show "0 \<le> r" "0 \<le> b" "rnd ?M b = b" by (auto simp: req_at_def rl_valid_def is_float_def)
    show "\<forall>rq \<in> set (requests key qs). tq_rate rq = r \<and> tq_burst rq = b \<and> t0 \<le> tq_now rq \<and> tq_now rq \<le> T"
    proof
      fix rq assume "rq \<in> set (requests key qs)"
      then obtain res where rq: "LimitOp q rq res \<in> set tr" "tq_key rq = key"
        using mem by (auto simp: requests_def)
      show "tq_rate rq = r \<and> tq_burst rq = b \<and> t0 \<le> tq_now rq \<and> tq_now rq \<le> T" using same [OF rq] .
    qed
    have "rq0 \<in> set qs" using some(1) unfolding qs_def by (metis fst_conv image_eqI list.set_map takes_at_in)
    then show "requests key qs \<noteq> []" using some(2) by (auto simp: requests_def filter_empty_conv)
  qed
  finally show ?thesis by (simp add: qs_def requests_pairs)
qed

end
