(* ===== verification/InterleavedRefine.thy ===== *)
theory InterleavedRefine
  imports InterleavedWork
begin

text \<open>
  The two models of the handlers agree: whatever \<open>serve\<close> of \<open>Cluster\<close> does in one step, with the
  losses and orders its environment prescribes, the threads of \<open>Interleaved\<close> can do step by
  step when nothing else runs in between, with the same answer, the same processes and the
  read repairs in flight as threads of their own. The worlds differ only in the bookkeeping
  of \<open>Cluster\<close> (network calls counted, repairs pending), which the threads leave alone.
\<close>

section \<open>Worlds without the bookkeeping\<close>

definition bare :: "nat \<Rightarrow> repair list \<Rightarrow> world \<Rightarrow> world" where
  "bare c ps w = w\<lparr>calls := c, pending := ps\<rparr>"

lemma bare_simps [simp]:
  "procs (bare c ps w) = procs w" "ticks (bare c ps w) = ticks w"
  "bare c ps (w\<lparr>calls := k\<rparr>) = bare c ps w" "bare c ps (w\<lparr>pending := qs\<rparr>) = bare c ps w"
  "upd me n (bare c ps w) = bare c ps (upd me n w)"
  by (simp_all add: bare_def upd_def)

lemma bare_prims [simp]:
  "fst (tick E (bare c ps w)) = fst (tick E w)" "snd (tick E (bare c ps w)) = bare c ps (snd (tick E w))"
  "fst (local_get E p key (bare c ps w)) = fst (local_get E p key w)"
  "snd (local_get E p key (bare c ps w)) = bare c ps (snd (local_get E p key w))"
  "local_set E p b (bare c ps w) = map_option (\<lambda>(ok, w'). (ok, bare c ps w')) (local_set E p b w)"
  "fst (local_delete p key (bare c ps w)) = fst (local_delete p key w)"
  "snd (local_delete p key (bare c ps w)) = bare c ps (snd (local_delete p key w))"
  "fst (local_take E p rb (bare c ps w)) = fst (local_take E p rb w)"
  "snd (local_take E p rb (bare c ps w)) = bare c ps (snd (local_take E p rb w))"
  "mark_down E me nid (bare c ps w) = bare c ps (mark_down E me nid w)"
  "fst (is_down E me nid (bare c ps w)) = fst (is_down E me nid w)"
  "snd (is_down E me nid (bare c ps w)) = bare c ps (snd (is_down E me nid w))"
  by (simp_all add: tick_def local_get_def local_set_eq local_delete_def local_take_def mark_down_def is_down_def
      Let_def split_beta bare_def upd_def option.map_comp comp_def split: option.splits)

section \<open>Calls\<close>

inductive serves_to :: "env \<Rightarrow> rpc \<Rightarrow> world \<Rightarrow> rpc \<Rightarrow> world \<Rightarrow> bool" for E where
  serves_refl: "serves_to E c w c w"
| serves_step: "rpc_step E c w = Some (c1, ev, w1) \<Longrightarrow> serves_to E c1 w1 c' w' \<Longrightarrow> serves_to E c w c' w'"

inductive calls_to :: "env \<Rightarrow> rpc \<Rightarrow> world \<Rightarrow> rpc \<Rightarrow> world \<Rightarrow> bool" for E where
  calls_refl: "calls_to E c w c w"
| calls_step: "call_step E lose c w = Some (c1, [], ev, w1) \<Longrightarrow> calls_to E c1 w1 c' w' \<Longrightarrow> calls_to E c w c' w'"

lemma serves_calls: "serves_to E c w c' w' \<Longrightarrow> calls_to E c w c' w'"
proof (induction rule: serves_to.induct)
  case (serves_step c w c1 ev w1 c' w')
  have "call_step E False c w = Some (c1, [], ev, w1)" using serves_step.hyps(1) by (simp add: call_step_def)
  then show ?case using serves_step.IH by (rule calls_step)
qed (rule calls_refl)

lemma calls_trans: "calls_to E c w c1 w1 \<Longrightarrow> calls_to E c1 w1 c2 w2 \<Longrightarrow> calls_to E c w c2 w2"
  by (induction rule: calls_to.induct) (auto intro: calls_step)

lemma kv_serves:
  assumes "handleInternalKV E p r w = Some (res, w')" "rPath r = ''/internal/kv''"
  shows "serves_to E (InFlight p r) (bare c ps w) (Answered res) (bare c ps w')"
proof -
  have one: "rpc_step E (InFlight p r) (bare c ps w) = Some (Answered res, ev, bare c ps w')
      \<Longrightarrow> serves_to E (InFlight p r) (bare c ps w) (Answered res) (bare c ps w')" for ev
    by (rule serves_step [OF _ serves_refl])
  show ?thesis
  proof (cases "rMethod r = ''GET'' \<and> validateKey (rQuery r ''key'') = None
      \<and> snd (fst (local_get E p (rQuery r ''key'') w))")
    case True
    define ent where "ent = fst (fst (local_get E p (rQuery r ''key'') w))"
    define w1 where "w1 = snd (local_get E p (rQuery r ''key'') w)"
    have res: "res = writeJSON 200 (encode_get (getPayload (fst (tick E w1)) (rQuery r ''key'') (self_id p w) ent))"
        "w' = snd (tick E w1)"
      using assms True by (auto simp: handleInternalKV_def Let_def split_beta ent_def w1_def)
    have s1: "rpc_step E (InFlight p r) (bare c ps w)
        = Some (Encoding p (rQuery r ''key'') ent, get_event E p (rQuery r ''key'') (bare c ps w), bare c ps w1)"
      using True assms(2) by (simp add: serve_kv_def Let_def split_beta ent_def w1_def)
    have "self_id p w1 = self_id p w" by (simp add: w1_def procs_local_get)
    then have "rpc_step E (Encoding p (rQuery r ''key'') ent) (bare c ps w1) = Some (Answered res, Quiet, bare c ps w')"
      by (simp add: res split_beta Let_def)
    from serves_step [OF s1 serves_step [OF this serves_refl]] show ?thesis .
  next
    case False
    have "\<exists>ev. rpc_step E (InFlight p r) (bare c ps w) = Some (Answered res, ev, bare c ps w')"
      using assms False
      by (auto simp: handleInternalKV_def serve_kv_def Let_def split_beta split: option.splits if_splits)
    then show ?thesis using one by blast
  qed
qed

lemma take_serves:
  assumes "handleInternalRateLimitTake E p r w = (res, w')" "rPath r \<noteq> ''/internal/kv''"
  shows "serves_to E (InFlight p r) (bare c ps w) (Answered res) (bare c ps w')"
proof -
  have "\<exists>ev. rpc_step E (InFlight p r) (bare c ps w) = Some (Answered res, ev, bare c ps w')"
    using assms by (auto simp: handleInternalRateLimitTake_def serve_take_def Let_def split_beta
        split: if_splits sum.splits)
  then show ?thesis by (auto intro: serves_step serves_refl)
qed

lemma client_calls:
  assumes "client_do E base r w = Some (x, w')"
  shows "calls_to E (Sending base r) (bare c ps w) (Returned x) (bare c ps w')"
proof (cases "route E base")
  case None
  then have "call_step E False (Sending base r) (bare c ps w) = Some (Returned x, [], Quiet, bare c ps w')"
    using assms by (auto simp: client_do_def call_step_def)
  then show ?thesis by (rule calls_step [OF _ calls_refl])
next
  case (Some p)
  show ?thesis
  proof (cases "fault E (calls w) = DropRequest")
    case True
    then have "call_step E True (Sending base r) (bare c ps w) = Some (Returned x, [], Quiet, bare c ps w')"
      using assms Some by (auto simp: client_do_def call_step_def)
    then show ?thesis by (rule calls_step [OF _ calls_refl])
  next
    case False
    define w1 where "w1 = w\<lparr>calls := Suc (calls w)\<rparr>"
    define h where "h = (if rPath r = ''/internal/kv'' then handleInternalKV E p r w1
        else Some (handleInternalRateLimitTake E p r w1))"
    have "client_do E base r w = (case h of None \<Rightarrow> None
        | Some (res, w2) \<Rightarrow> Some (if fault E (calls w) = DropResponse then Inl ''timeout'' else Inr res, w2))"
      using Some False by (simp add: client_do_def w1_def h_def Let_def)
    then obtain res where h: "h = Some (res, w')"
        and x: "x = (if fault E (calls w) = DropResponse then Inl ''timeout'' else Inr res)"
      using assms by (auto split: option.splits)
    have send: "call_step E False (Sending base r) (bare c ps w) = Some (InFlight p r, [], Quiet, bare c ps w)"
      using Some by (simp add: call_step_def)
    have "serves_to E (InFlight p r) (bare c ps w1) (Answered res) (bare c ps w')"
      using h kv_serves take_serves unfolding h_def by (auto split: if_splits)
    then have serve: "calls_to E (InFlight p r) (bare c ps w) (Answered res) (bare c ps w')"
      using serves_calls by (simp add: w1_def)
    have "call_step E (fault E (calls w) = DropResponse) (Answered res) (bare c ps w')
        = Some (Returned x, [], Quiet, bare c ps w')"
      by (simp add: call_step_def x)
    from calls_step [OF send calls_trans [OF serve calls_step [OF this calls_refl]]] show ?thesis .
  qed
qed

section \<open>One thread alone\<close>

inductive solo :: "env \<Rightarrow> string \<Rightarrow> thread \<Rightarrow> world \<Rightarrow> (string \<times> thread) list \<Rightarrow> thread \<Rightarrow> world \<Rightarrow> bool" for E me where
  solo_refl: "solo E me t w [] t w"
| solo_step: "tstep E me ch t w = Some (t1, new, ev, w1) \<Longrightarrow> solo E me t1 w1 ns t' w'
    \<Longrightarrow> solo E me t w (new @ ns) t' w'"

lemma solo_one: "tstep E me ch t w = Some (t', new, ev, w') \<Longrightarrow> solo E me t w new t' w'"
  using solo_step [OF _ solo_refl] by fastforce

lemma solo_trans: "solo E me t w ns t1 w1 \<Longrightarrow> solo E me t1 w1 ns' t2 w2 \<Longrightarrow> solo E me t w (ns @ ns') t2 w2"
proof (induction rule: solo.induct)
  case (solo_step ch t w t1 new ev w1 ns t' w')
  then show ?case using solo.solo_step [OF solo_step.hyps(1)] by simp
qed simp

lemma solo_quiet: "solo E me t w [] t1 w1 \<Longrightarrow> solo E me t1 w1 ns t2 w2 \<Longrightarrow> solo E me t w ns t2 w2"
  using solo_trans by fastforce

lemma solo_run:
  "solo E me t w ns t' w' \<Longrightarrow> i < length ts \<Longrightarrow> ts ! i = (me, t)
    \<Longrightarrow> irun E s tr \<lparr>iw = w, ithreads = ts\<rparr>
    \<Longrightarrow> \<exists>tr'. irun E s tr' \<lparr>iw = w', ithreads = ts[i := (me, t')] @ ns\<rparr>"
proof (induction arbitrary: ts tr rule: solo.induct)
  case (solo_refl t w)
  then show ?case by (metis append_Nil2 list_update_id)
next
  case (solo_step ch t w t1 new ev w1 ns t' w')
  let ?s = "\<lparr>iw = w, ithreads = ts\<rparr>"
  have "advance E i ?s ev (?s\<lparr>iw := w1, ithreads := (ithreads ?s)[i := (me, t1)] @ new\<rparr>)"
    using solo_step.prems solo_step.hyps(1) by (intro advance_thread) simp_all
  then have run: "irun E s (tr @ [ev]) \<lparr>iw = w1, ithreads = ts[i := (me, t1)] @ new\<rparr>"
    using irun_next [OF solo_step.prems(3) istep_thread] by simp
  obtain tr' where "irun E s tr' \<lparr>iw = w', ithreads = (ts[i := (me, t1)] @ new)[i := (me, t')] @ ns\<rparr>"
    using solo_step.IH [OF _ _ run] solo_step.prems(1) by (auto simp: nth_append)
  then show ?case using solo_step.prems(1) by (auto simp: list_update_append)
qed

text \<open>A call inside a thread.\<close>

lemma calls_get:
  "calls_to E c w c' w' \<Longrightarrow> solo E me (GetT (GetCall key owners nid ids reached c)) w []
    (GetT (GetCall key owners nid ids reached c')) w'"
proof (induction rule: calls_to.induct)
  case (calls_step lose c w c1 ev w1 c' w')
  have "tstep E me (Go lose) (GetT (GetCall key owners nid ids reached c)) w
      = Some (GetT (GetCall key owners nid ids reached c1), [], ev, w1)"
    using calls_step.hyps(1) by (cases c) (auto simp: call_step_def split: if_splits)
  from solo_quiet [OF solo_one [OF this] calls_step.IH] show ?case .
qed (rule solo_refl)

lemma calls_take:
  "calls_to E c w c' w' \<Longrightarrow> solo E me (TakeT (TakeCall p c)) w [] (TakeT (TakeCall p c')) w'"
proof (induction rule: calls_to.induct)
  case (calls_step lose c w c1 ev w1 c' w')
  have "tstep E me (Go lose) (TakeT (TakeCall p c)) w = Some (TakeT (TakeCall p c1), [], ev, w1)"
    using calls_step.hyps(1) by (cases c) (auto simp: call_step_def split: if_splits)
  from solo_quiet [OF solo_one [OF this] calls_step.IH] show ?case .
qed (rule solo_refl)

lemma serves_thread: "serves_to E c w c' w' \<Longrightarrow> solo E me (Serving c) w [] (Serving c') w'"
proof (induction rule: serves_to.induct)
  case (serves_step c w c1 ev w1 c' w')
  have "tstep E me (Go False) (Serving c) w = Some (Serving c1, [], ev, w1)"
    using serves_step.hyps(1) by (cases c) auto
  from solo_quiet [OF solo_one [OF this] serves_step.IH] show ?case .
qed (rule solo_refl)

text \<open>The steps of \<open>writeOwner\<close>, wherever they happen.\<close>

inductive writes_to :: "env \<Rightarrow> string \<Rightarrow> string \<Rightarrow> kv_body \<Rightarrow> string \<Rightarrow> wcall \<Rightarrow> world \<Rightarrow> wcall \<Rightarrow> world \<Rightarrow> bool"
  for E me meth b nid where
  writes_refl: "writes_to E me meth b nid c w c w"
| writes_step: "write_step E me meth b nid lose c w = Some (c1, [], ev, w1)
    \<Longrightarrow> writes_to E me meth b nid c1 w1 c' w' \<Longrightarrow> writes_to E me meth b nid c w c' w'"

lemma writes_trans: "writes_to E me meth b nid c w c1 w1 \<Longrightarrow> writes_to E me meth b nid c1 w1 c2 w2
    \<Longrightarrow> writes_to E me meth b nid c w c2 w2"
  by (induction rule: writes_to.induct) (auto intro: writes_step)

lemma calls_write: "calls_to E c w c' w' \<Longrightarrow> writes_to E me meth b nid (WCall c) w (WCall c') w'"
proof (induction rule: calls_to.induct)
  case (calls_step lose c w c1 ev w1 c' w')
  have "write_step E me meth b nid lose (WCall c) w = Some (WCall c1, [], ev, w1)"
    using calls_step.hyps(1) by (cases c) (auto simp: write_step_def call_step_def split: if_splits)
  then show ?case using calls_step.IH by (rule writes_step)
qed (rule writes_refl)

lemma owner_writes:
  assumes "writeOwner E me meth nid b w = Some (err, w')"
  shows "writes_to E me meth b nid WStart (bare c ps w) (WDone err) (bare c ps w')"
proof (cases "nid = self_id me w \<or> trim_right_char CHR ''/'' (peerURL (procs w me) nid) = ''''")
  case True
  then have "\<exists>ev. write_step E me meth b nid False WStart (bare c ps w) = Some (WDone err, [], ev, bare c ps w')"
    using assms by (auto simp: writeOwner_def write_step_def write_start_def Let_def split_beta
        split: if_splits option.splits)
  then show ?thesis by (auto intro: writes_step writes_refl)
next
  case False
  define base where "base = trim_right_char CHR ''/'' (peerURL (procs w me) nid)"
  obtain x where x: "client_do E base (write_request E meth b) w = Some (x, w')" "err = write_result x"
    using assms False unfolding base_def
    by (auto simp: writeOwner_def write_request_def write_result_def Let_def split: option.splits sum.splits)
  have s1: "write_step E me meth b nid False WStart (bare c ps w)
      = Some (WCall (Sending base (write_request E meth b)), [], Quiet, bare c ps w)"
    using False by (auto simp: write_step_def write_start_def base_def Let_def)
  have s2: "write_step E me meth b nid False (WCall (Returned x)) (bare c ps w') = Some (WDone err, [], Quiet, bare c ps w')"
    by (simp add: write_step_def x(2))
  from writes_step [OF s1 writes_trans [OF calls_write [OF client_calls [OF x(1)]] writes_step [OF s2 writes_refl]]]
  show ?thesis .
qed

section \<open>Reads\<close>

text \<open>The repairs that a step of \<open>Cluster\<close> leaves in flight, as threads.\<close>

definition repair_thread :: "repair \<Rightarrow> string \<times> thread" where
  "repair_thread p = (rp_from p, Repair (rp_to p) (rp_body p) WStart)"

definition new_repairs :: "world \<Rightarrow> world \<Rightarrow> (string \<times> thread) list" where
  "new_repairs w w' = map repair_thread (drop (length (pending w)) (pending w'))"

lemma new_repairs_same [simp]: "pending w' = pending w \<Longrightarrow> new_repairs w w' = []"
  by (simp add: new_repairs_def)

lemma pending_frame [simp]:
  "pending (upd me n w) = pending w" "pending (snd (local_get E p key w)) = pending w"
  "pending (snd (local_delete p key w)) = pending w" "pending (snd (local_take E p rb w)) = pending w"
  "pending (mark_down E me nid w) = pending w" "pending (snd (is_down E me nid w)) = pending w"
  by (simp_all add: upd_def local_get_def local_delete_def local_take_def mark_down_def is_down_def tick_def
      Let_def split_beta)

lemma pending_set: "local_set E p b w = Some (ok, w') \<Longrightarrow> pending w' = pending w"
  by (auto simp: local_set_eq upd_def split: option.splits)

lemma pending_client: "client_do E base r w = Some (x, w') \<Longrightarrow> pending w' = pending w"
  by (auto simp: client_do_def handleInternalKV_def handleInternalRateLimitTake_def Let_def split_beta
      dest: pending_set split: option.splits if_splits sum.splits)

lemma pending_write: "writeOwner E me meth nid b w = Some (err, w') \<Longrightarrow> pending w' = pending w"
  by (auto simp: writeOwner_def Let_def split_beta dest: pending_set pending_client
      split: option.splits if_splits sum.splits)

lemma pending_read: "readOwner E me nid key w = Some (x, w') \<Longrightarrow> pending w' = pending w"
  by (auto simp: readOwner_def Let_def split_beta dest!: pending_client
      split: option.splits if_splits sum.splits)

text \<open>What \<open>readOwner\<close> returns once the call has been made, and the state the thread is then in.\<close>

definition read_outcome :: "env \<Rightarrow> string + response \<Rightarrow> world \<Rightarrow> (string + (entry \<times> bool)) \<times> world \<Rightarrow> bool" where
  "read_outcome E y w2 xw \<longleftrightarrow> (case read_result y of
      Inl e \<Rightarrow> (\<exists>e'. xw = (Inl e', w2))
    | Inr None \<Rightarrow> xw = (Inr (zero_entry, False), w2)
    | Inr (Some g) \<Rightarrow> xw = (Inr (entry_read (fst (tick E w2)) g, True), snd (tick E w2)))"

fun after_read :: "string \<Rightarrow> string list \<Rightarrow> string \<Rightarrow> string list \<Rightarrow> bool \<Rightarrow> string + (entry \<times> bool) \<Rightarrow> thread" where
  "after_read key owners nid ids reached (Inl e) = GetT (GetFailed key owners nid ids reached)"
| "after_read key owners nid ids reached (Inr (ent, ok)) =
    GetT (if ok then GetHit key owners nid ent else GetLoop key owners ids True)"

lemma after_read_Inr: "after_read key owners nid ids reached (Inr eo) =
    GetT (if snd eo then GetHit key owners nid (fst eo) else GetLoop key owners ids True)"
  by (cases eo) simp

lemma returned_solo:
  assumes "read_outcome E y w2 (x, w')"
  shows "solo E me (GetT (GetCall key owners nid ids reached (Returned y))) (bare c ps w2) []
    (after_read key owners nid ids reached x) (bare c ps w')"
proof -
  have "tstep E me (Go False) (GetT (GetCall key owners nid ids reached (Returned y))) (bare c ps w2)
      = continue (after_read key owners nid ids reached x) (bare c ps w')"
    using assms by (auto simp: read_outcome_def Let_def split_beta split: sum.splits option.splits)
  then show ?thesis by (rule solo_one)
qed

lemma remote_read_solo:
  assumes r: "readOwner E me nid key w = Some (x, w')" and far: "nid \<noteq> self_id me w" "\<not> fst (is_down E me nid w)"
    and w1: "w1 = snd (is_down E me nid w)"
  shows "solo E me (GetT (GetUrl key owners nid ids reached)) (bare c ps w1) []
    (after_read key owners nid ids reached x) (bare c ps w')"
proof (cases "peerURL (procs w1 me) nid = ''''")
  case True
  then have "x = Inl ''unknown peer''" "w' = w1"
    using r far w1 by (auto simp: readOwner_def Let_def split_beta)
  moreover have "tstep E me (Go False) (GetT (GetUrl key owners nid ids reached)) (bare c ps w1)
      = continue (GetT (GetFailed key owners nid ids reached)) (bare c ps w1)"
    using True by simp
  ultimately show ?thesis using solo_one by fastforce
next
  case False
  define url where "url = trim_right_char CHR ''/'' (peerURL (procs w1 me) nid)"
  define req where "req = kv_request ''GET'' key empty_payload"
  obtain y w2 where y: "client_do E url req w1 = Some (y, w2)"
    using r far False
    by (auto simp: readOwner_def Let_def split_beta w1 [symmetric] url_def req_def split: option.splits)
  have "tstep E me (Go False) (GetT (GetUrl key owners nid ids reached)) (bare c ps w1)
      = continue (GetT (GetCall key owners nid ids reached (Sending url req))) (bare c ps w1)"
    using False by (simp add: url_def req_def)
  note s = solo_quiet [OF solo_one [OF this] calls_get [OF client_calls [OF y]]]
  have "read_outcome E y w2 (x, w')"
    using r far False y
    by (auto simp: readOwner_def read_outcome_def read_result_def entry_read_def Let_def split_beta w1 [symmetric]
        url_def [symmetric] req_def [symmetric] split: option.splits sum.splits if_splits)
  from solo_quiet [OF s returned_solo [OF this]] show ?thesis .
qed

lemma readOwner_solo:
  assumes "readOwner E me nid key w = Some (x, w')"
  shows "solo E me (GetT (GetLoop key owners (nid # ids) reached)) (bare c ps w) []
    (after_read key owners nid ids reached x) (bare c ps w')"
proof (cases "nid = self_id me w")
  case True
  then show ?thesis using assms
    by (intro solo_one [where ch = "Go False" and ev = "get_event E me key (bare c ps w)"])
      (auto simp: readOwner_def Let_def split_beta after_read_Inr)
next
  case False
  define w1 where "w1 = snd (is_down E me nid w)"
  show ?thesis
  proof (cases "fst (is_down E me nid w)")
    case True
    then show ?thesis using assms False
      by (intro solo_one [where ch = "Go False" and ev = "check_event E me nid (bare c ps w)"])
        (auto simp: readOwner_def Let_def split_beta)
  next
    case up: False
    have "tstep E me (Go False) (GetT (GetLoop key owners (nid # ids) reached)) (bare c ps w)
        = Some (GetT (GetUrl key owners nid ids reached), [], check_event E me nid (bare c ps w), bare c ps w1)"
      using False up by (simp add: split_beta Let_def w1_def)
    from solo_quiet [OF solo_one [OF this] remote_read_solo [OF assms False up w1_def]] show ?thesis .
  qed
qed

lemma repairs_of: "repairs me owners nid (repair_body (fst (tick E w)) key ent)
    = new_repairs w (readRepair E me key ent owners nid w)"
  "bare c ps (readRepair E me key ent owners nid w) = bare c ps (snd (tick E w))"
  by (auto simp: repairs_def repair_body_def readRepair_def new_repairs_def repair_thread_def Let_def split_beta
      comp_def)

lemma get_loop_solo:
  "get_loop E me key owners ids reached w = Some (res, w') \<Longrightarrow>
    solo E me (GetT (GetLoop key owners ids reached)) (bare c ps w) (new_repairs w w') (Finished res) (bare c ps w')"
proof (induction ids arbitrary: reached w)
  case Nil
  then have "tstep E me (Go False) (GetT (GetLoop key owners [] reached)) (bare c ps w)
      = continue (Finished res) (bare c ps w')" "w' = w" by auto
  then show ?case using solo_one by fastforce
next
  case (Cons nid ids)
  obtain x w1 where x: "readOwner E me nid key w = Some (x, w1)"
    using Cons.prems by (auto split: option.splits)
  have p: "pending w1 = pending w" using pending_read [OF x] .
  then have rep: "new_repairs w1 v = new_repairs w v" for v by (simp add: new_repairs_def)
  note s1 = readOwner_solo [OF x, of owners ids reached c ps]
  show ?case
  proof (cases x)
    case (Inl e)
    have "tstep E me (Go False) (GetT (GetFailed key owners nid ids reached)) (bare c ps w1)
        = Some (GetT (GetLoop key owners ids reached), [], mark_event E me nid (bare c ps w1), bare c ps (mark_down E me nid w1))"
      by simp
    note s2 = solo_quiet [OF s1 [unfolded Inl, simplified] solo_one [OF this]]
    have "get_loop E me key owners ids reached (mark_down E me nid w1) = Some (res, w')"
      using Cons.prems x Inl by simp
    from solo_quiet [OF s2 Cons.IH [OF this]] show ?thesis by (simp add: new_repairs_def p)
  next
    case (Inr eo)
    obtain ent ok where eo: "eo = (ent, ok)" by force
    show ?thesis
    proof (cases ok)
      case False
      have "get_loop E me key owners ids True w1 = Some (res, w')" using Cons.prems x Inr eo False by simp
      from solo_quiet [OF s1 [unfolded Inr eo, simplified False, simplified] Cons.IH [OF this]]
      show ?thesis by (simp add: rep)
    next
      case True
      define w2 where "w2 = readRepair E me key ent owners nid w1"
      have res: "res = writeJSON 200 (encode_get (getPayload (fst (tick E w2)) key nid ent))" "w' = snd (tick E w2)"
        using Cons.prems x Inr eo True by (auto simp: Let_def split_beta w2_def)
      have "tstep E me (Go False) (GetT (GetHit key owners nid ent)) (bare c ps w1)
          = Some (GetT (GetReply key nid ent), new_repairs w1 w2, Quiet, bare c ps w2)"
        by (simp add: split_beta Let_def repairs_of w2_def)
      note s2 = solo_quiet [OF s1 [unfolded Inr eo, simplified True, simplified] solo_one [OF this]]
      have "tstep E me (Go False) (GetT (GetReply key nid ent)) (bare c ps w2) = continue (Finished res) (bare c ps w')"
        by (simp add: split_beta Let_def res)
      from solo_trans [OF s2 solo_one [OF this]] show ?thesis by (simp add: rep res new_repairs_def p)
    qed
  qed
qed

lemma handleGet_solo:
  assumes "handleGet E me r w = Some (res, w')"
  shows "solo E me (GetT (GetArrived r)) (bare c ps w) (new_repairs w w') (Finished res) (bare c ps w')"
proof (cases "rMethod r = ''GET'' \<and> validateKey (rQuery r ''key'') = None
    \<and> Owners (nring (procs w me)) (rQuery r ''key'') (cReplicas (ncfg (procs w me))) \<noteq> []")
  case False
  then have "tstep E me (Go False) (GetT (GetArrived r)) (bare c ps w) = continue (Finished res) (bare c ps w')" "w' = w"
    using assms by (auto simp: handleGet_def Let_def split: if_splits option.splits)
  then show ?thesis using solo_one by fastforce
next
  case True
  define owners where "owners = Owners (nring (procs w me)) (rQuery r ''key'') (cReplicas (ncfg (procs w me)))"
  have "tstep E me (Go False) (GetT (GetArrived r)) (bare c ps w)
      = continue (GetT (GetLoop (rQuery r ''key'') owners (preferLocal owners (self_id me w)) False)) (bare c ps w)"
    using True by (simp add: Let_def owners_def)
  moreover have "get_loop E me (rQuery r ''key'') owners (preferLocal owners (self_id me w)) False w = Some (res, w')"
    using assms True by (simp add: handleGet_def Let_def owners_def)
  ultimately show ?thesis using solo_quiet [OF solo_one get_loop_solo] by blast
qed

section \<open>Writes\<close>

lemma writes_fan:
  "writes_to E me meth b nid c w c' w' \<Longrightarrow>
    solo E me (WriteT (Fan meth b owners (us @ (nid, c) # vs) acked failed)) w []
      (WriteT (Fan meth b owners (us @ (nid, c') # vs) acked failed)) w'"
proof (induction rule: writes_to.induct)
  case (writes_step lose c w c1 ev w1 c' w')
  have "tstep E me (Worker (length us) lose) (WriteT (Fan meth b owners (us @ (nid, c) # vs) acked failed)) w
      = Some (WriteT (Fan meth b owners (us @ (nid, c1) # vs) acked failed), [], ev, w1)"
    using writes_step.hyps(1) by simp
  from solo_quiet [OF solo_one [OF this] writes_step.IH] show ?case .
qed (rule solo_refl)

definition starts :: "(string \<times> wcall) list \<Rightarrow> string list" where
  "starts ws = concat (map (\<lambda>(nid, c). case c of WStart \<Rightarrow> [nid] | _ \<Rightarrow> []) ws)"

definition dones :: "(string \<times> wcall) list \<Rightarrow> (string \<times> string option) list" where
  "dones ws = concat (map (\<lambda>(nid, c). case c of WDone err \<Rightarrow> [(nid, err)] | _ \<Rightarrow> []) ws)"

lemma starts_dones_simps [simp]:
  "starts [] = []" "dones [] = []" "starts (us @ vs) = starts us @ starts vs" "dones (us @ vs) = dones us @ dones vs"
  "starts ((nid, WStart) # ws) = nid # starts ws" "starts ((nid, WDone err) # ws) = starts ws"
  "starts ((nid, WTaken) # ws) = starts ws" "dones ((nid, WStart) # ws) = dones ws"
  "dones ((nid, WDone err) # ws) = (nid, err) # dones ws" "dones ((nid, WTaken) # ws) = dones ws"
  by (simp_all add: starts_def dones_def)

lemma starts_split: "nid \<in> set (starts ws) \<Longrightarrow> \<exists>us vs. ws = us @ (nid, WStart) # vs"
  by (auto simp: starts_def split: wcall.splits dest: split_list)

lemma dones_split: "(nid, err) \<in> set (dones ws) \<Longrightarrow> \<exists>us vs. ws = us @ (nid, WDone err) # vs"
  by (auto simp: dones_def split: wcall.splits dest: split_list)

definition settled :: "(string \<times> wcall) list \<Rightarrow> bool" where
  "settled ws \<longleftrightarrow> (\<forall>x \<in> set ws. snd x = WStart \<or> (\<exists>err. snd x = WDone err) \<or> snd x = WTaken)"

lemma settled_taken: "settled ws \<Longrightarrow> starts ws = [] \<Longrightarrow> dones ws = [] \<Longrightarrow> list_all (\<lambda>(nid, c). c = WTaken) ws"
proof (induction ws)
  case (Cons x ws)
  obtain nid c where x: "x = (nid, c)" by force
  from Cons show ?case by (cases c) (auto simp: x settled_def)
qed simp

lemma run_writes_solo:
  "run_writes E me meth b ids w = Some (rs, w') \<Longrightarrow> settled ws \<Longrightarrow> mset (starts ws) = mset ids
    \<Longrightarrow> \<exists>ws'. solo E me (WriteT (Fan meth b owners ws acked failed)) (bare c ps w) []
          (WriteT (Fan meth b owners ws' acked failed)) (bare c ps w')
        \<and> settled ws' \<and> starts ws' = [] \<and> mset (dones ws') = mset rs + mset (dones ws) \<and> pending w' = pending w"
proof (induction ids arbitrary: w rs ws)
  case Nil
  then show ?case using solo_refl by fastforce
next
  case (Cons nid ids)
  obtain err w1 rs1 where w1: "writeOwner E me meth nid b w = Some (err, w1)"
      "run_writes E me meth b ids w1 = Some (rs1, w')" "rs = (nid, err) # rs1"
    using Cons.prems(1) by (auto split: option.splits)
  have "nid \<in> set (starts ws)" using Cons.prems(3) by (metis list.set_intros(1) set_mset_mset)
  then obtain us vs where ws: "ws = us @ (nid, WStart) # vs" using starts_split by blast
  note s1 = writes_fan [OF owner_writes [OF w1(1)], of owners us vs acked failed c ps]
  define ws1 where "ws1 = us @ (nid, WDone err) # vs"
  have "settled ws1" "mset (starts ws1) = mset ids" using Cons.prems(2,3) by (auto simp: ws ws1_def settled_def)
  from Cons.IH [OF w1(2) this] obtain ws' where
      "solo E me (WriteT (Fan meth b owners ws1 acked failed)) (bare c ps w1) []
          (WriteT (Fan meth b owners ws' acked failed)) (bare c ps w')"
      and ws': "settled ws'" "starts ws' = []" "mset (dones ws') = mset rs1 + mset (dones ws1)" "pending w' = pending w1"
    by blast
  from solo_quiet [OF s1 [folded ws1_def] this(1)] ws' show ?case
    using pending_write [OF w1(1)] by (intro exI [of _ ws']) (auto simp: ws ws1_def w1(3))
qed

lemma collect_solo:
  "collect E me rs acked failed w = ((acked', failed'), w') \<Longrightarrow> settled ws \<Longrightarrow> starts ws = []
    \<Longrightarrow> mset (dones ws) = mset rs
    \<Longrightarrow> \<exists>ws'. solo E me (WriteT (Fan meth b owners ws acked failed)) (bare c ps w) []
          (WriteT (Fan meth b owners ws' acked' failed')) (bare c ps w')
        \<and> list_all (\<lambda>(nid, c). c = WTaken) ws' \<and> pending w' = pending w"
proof (induction rs arbitrary: acked failed w ws)
  case Nil
  then show ?case using settled_taken solo_refl by fastforce
next
  case (Cons r rs)
  obtain nid err where r: "r = (nid, err)" by force
  have "(nid, err) \<in> set (dones ws)" using Cons.prems(4) r by (metis list.set_intros(1) set_mset_mset)
  then obtain us vs where ws: "ws = us @ (nid, WDone err) # vs" using dones_split by blast
  define ws1 where "ws1 = us @ (nid, WTaken) # vs"
  have ws1: "settled ws1" "starts ws1 = []" "mset (dones ws1) = mset rs"
    using Cons.prems(2-4) by (auto simp: ws ws1_def settled_def r)
  show ?case
  proof (cases err)
    case None
    have "tstep E me (Receive (length us)) (WriteT (Fan meth b owners ws acked failed)) (bare c ps w)
        = continue (WriteT (Fan meth b owners ws1 (acked + 1) failed)) (bare c ps w)"
      by (simp add: ws ws1_def None Let_def)
    note s1 = solo_one [OF this]
    have "collect E me rs (acked + 1) failed w = ((acked', failed'), w')" using Cons.prems(1) r None by simp
    from Cons.IH [OF this ws1] show ?thesis using solo_quiet [OF s1] by blast
  next
    case (Some e)
    have "tstep E me (Receive (length us)) (WriteT (Fan meth b owners ws acked failed)) (bare c ps w)
        = Some (WriteT (Fan meth b owners ws1 acked (failed @ [nid])), [], mark_event E me nid (bare c ps w),
            bare c ps (mark_down E me nid w))"
      by (simp add: ws ws1_def Some Let_def)
    note s1 = solo_one [OF this]
    have "collect E me rs acked (failed @ [nid]) (mark_down E me nid w) = ((acked', failed'), w')"
      using Cons.prems(1) r Some by simp
    from Cons.IH [OF this ws1] show ?thesis using solo_quiet [OF s1] by auto
  qed
qed

lemma fanout_solo:
  assumes env: "env_ok E" and f: "fanout E me meth owners b w = Some ((acked, failed), w')"
  shows "solo E me (fan_out meth b owners) (bare c ps w) []
      (Finished (writeJSON (if acked = 0 \<and> (meth = ''DELETE'' \<longrightarrow> 0 < length owners) then 503 else 200)
        (encode_write \<lparr>wr_key = kb_key b, wr_acked = acked, wr_replicas = owners, wr_failed = failed\<rparr>))) (bare c ps w')
    \<and> pending w' = pending w"
proof -
  define ids where "ids = run_order E (calls w) owners"
  define ws where "ws = map (\<lambda>nid. (nid, WStart)) owners"
  obtain rs w1 where rs: "run_writes E me meth b ids w = Some (rs, w1)"
    using f by (auto simp: fanout_def ids_def split: option.splits)
  obtain acked0 failed0 w2 where "collect E me (arrival E (calls w) rs) 0 [] w1 = ((acked0, failed0), w2)"
    by (metis prod.exhaust)
  with f rs have c: "collect E me (arrival E (calls w) rs) 0 [] w1 = ((acked, failed0), w')"
      and failed: "failed = sort failed0"
    by (simp_all add: fanout_def ids_def)
  have "starts ws = owners" "dones ws = []" unfolding ws_def by (induction owners) simp_all
  moreover have "mset ids = mset owners" using env by (simp add: env_ok_def ids_def)
  moreover have "settled ws" by (auto simp: settled_def ws_def)
  ultimately obtain ws1 where s1: "solo E me (WriteT (Fan meth b owners ws 0 [])) (bare c ps w) []
      (WriteT (Fan meth b owners ws1 0 [])) (bare c ps w1)"
      and ws1: "settled ws1" "starts ws1 = []" "mset (dones ws1) = mset rs" "pending w1 = pending w"
    using run_writes_solo [OF rs, of ws owners 0 "[]" c ps] by auto
  have "mset (dones ws1) = mset (arrival E (calls w) rs)" using ws1(3) env by (simp add: env_ok_def)
  from collect_solo [OF c ws1(1,2) this, of meth b owners c ps] obtain ws2 where
      s2: "solo E me (WriteT (Fan meth b owners ws1 0 [])) (bare c ps w1) []
        (WriteT (Fan meth b owners ws2 acked failed0)) (bare c ps w')"
      and ws2: "list_all (\<lambda>(nid, c). c = WTaken) ws2" "pending w' = pending w1" by blast
  have "tstep E me (Go False) (WriteT (Fan meth b owners ws2 acked failed0)) (bare c ps w')
      = continue (Finished (fan_reply meth b owners acked failed0)) (bare c ps w')"
    using ws2(1) by simp
  from solo_quiet [OF solo_quiet [OF s1 s2] solo_one [OF this]] show ?thesis
    using ws1(4) ws2(2) by (simp add: fan_out_def ws_def fan_reply_def failed)
qed

lemma handleSet_solo:
  assumes "env_ok E" "handleSet E me r w = Some (res, w')"
  shows "solo E me (WriteT (SetArrived r)) (bare c ps w) [] (Finished res) (bare c ps w') \<and> pending w' = pending w"
proof (cases "rMethod r = ''PUT'' \<or> rMethod r = ''POST''")
  case False
  then have "tstep E me (Go False) (WriteT (SetArrived r)) (bare c ps w) = continue (Finished res) (bare c ps w')" "w' = w"
    using assms(2) by (auto simp: handleSet_def)
  then show ?thesis using solo_one by fastforce
next
  case m: True
  show ?thesis
  proof (cases "\<exists>b0. Option.bind (readJSON (rBody r)) decode_kv = Some b0 \<and> validateKey (kb_key b0) = None
      \<and> validateValue (kb_value b0) = None \<and> \<not> kb_ttl b0 < 0")
    case False
    then have "tstep E me (Go False) (WriteT (SetArrived r)) (bare c ps w) = continue (Finished res) (bare c ps w')" "w' = w"
      using assms(2) m by (auto simp: handleSet_def Let_def split: option.splits if_splits)
    then show ?thesis using solo_one by fastforce
  next
    case True
    then obtain b0 where b0: "Option.bind (readJSON (rBody r)) decode_kv = Some b0" "validateKey (kb_key b0) = None"
        "validateValue (kb_value b0) = None" "\<not> kb_ttl b0 < 0" by blast
    obtain b w1 where b: "stamp_body E b0 w = (b, w1)" by force
    have b': "stamp_body E b0 (bare c ps w) = (b, bare c ps w1)" "pending w1 = pending w"
      using b by (auto simp: stamp_body_def Let_def split_beta split: if_splits)
    define owners where "owners = Owners (nring (procs w1 me)) (kb_key b) (cReplicas (ncfg (procs w1 me)))"
    obtain acked failed where f: "fanout E me ''PUT'' owners b w1 = Some ((acked, failed), w')"
        and res: "res = writeJSON (if acked = 0 then 503 else 200)
          (encode_write \<lparr>wr_key = kb_key b, wr_acked = acked, wr_replicas = owners, wr_failed = failed\<rparr>)"
      using assms(2) m b0 b by (auto simp: handleSet_def owners_def Let_def split: option.splits prod.splits)
    have "tstep E me (Go False) (WriteT (SetArrived r)) (bare c ps w) = continue (WriteT (SetOwners b)) (bare c ps w1)"
      using m b0 b' by auto
    note s1 = solo_one [OF this]
    have "tstep E me (Go False) (WriteT (SetOwners b)) (bare c ps w1) = continue (fan_out ''PUT'' b owners) (bare c ps w1)"
      by (simp add: owners_def Let_def)
    note s2 = solo_quiet [OF s1 solo_one [OF this]]
    show ?thesis using solo_quiet [OF s2] fanout_solo [OF assms(1) f, of c ps] b'(2) by (auto simp: res)
  qed
qed

lemma handleDelete_solo:
  assumes "env_ok E" "handleDelete E me r w = Some (res, w')"
  shows "solo E me (WriteT (DelArrived r)) (bare c ps w) [] (Finished res) (bare c ps w') \<and> pending w' = pending w"
proof (cases "rMethod r = ''DELETE'' \<and> validateKey (rQuery r ''key'') = None")
  case False
  then have "tstep E me (Go False) (WriteT (DelArrived r)) (bare c ps w) = continue (Finished res) (bare c ps w')" "w' = w"
    using assms(2) by (auto simp: handleDelete_def Let_def split: option.splits if_splits)
  then show ?thesis using solo_one by fastforce
next
  case True
  define key where "key = rQuery r ''key''"
  define owners where "owners = Owners (nring (procs w me)) key (cReplicas (ncfg (procs w me)))"
  define b where "b = zero_kv\<lparr>kb_key := key\<rparr>"
  obtain acked failed where f: "fanout E me ''DELETE'' owners b w = Some ((acked, failed), w')"
      and res: "res = writeJSON (if acked = 0 \<and> 0 < length owners then 503 else 200)
        (encode_write \<lparr>wr_key = kb_key b, wr_acked = acked, wr_replicas = owners, wr_failed = failed\<rparr>)"
    using assms(2) True by (auto simp: handleDelete_def owners_def b_def key_def Let_def split: option.splits prod.splits)
  have "tstep E me (Go False) (WriteT (DelArrived r)) (bare c ps w) = continue (fan_out ''DELETE'' b owners) (bare c ps w)"
    using True by (simp add: owners_def b_def key_def Let_def)
  note s1 = solo_one [OF this]
  show ?thesis using solo_quiet [OF s1] fanout_solo [OF assms(1) f, of c ps] by (simp add: res)
qed

section \<open>Takes, membership and status\<close>

lemma forward_solo:
  assumes f: "forwardRateLimit E me q b w = Some (x, w1)"
  shows "solo E me (TakeT (TakeForward q b)) (bare c ps w) []
      (case x of Inl e \<Rightarrow> TakeT (TakeFailed q) | Inr res \<Rightarrow> Finished res) (bare c ps w1) \<and> pending w1 = pending w"
proof (cases "trim_right_char CHR ''/'' (peerURL (procs w me) q) = ''''")
  case True
  then have "tstep E me (Go False) (TakeT (TakeForward q b)) (bare c ps w) = continue (TakeT (TakeFailed q)) (bare c ps w)"
    by simp
  from solo_one [OF this] show ?thesis using f True by (auto simp: forwardRateLimit_def)
next
  case False
  define base where "base = trim_right_char CHR ''/'' (peerURL (procs w me) q)"
  obtain y where y: "client_do E base (forward_request E b) w = Some (y, w1)"
      "x = (case y of Inl e \<Rightarrow> Inl e | Inr rs \<Rightarrow>
         Inr \<lparr>rStatus = rStatus rs, rReply = limit_body (float_text E) (rReply rs)\<rparr>)"
    using f False by (auto simp: forwardRateLimit_def base_def forward_request_def Let_def
        split: option.splits sum.splits)
  have "tstep E me (Go False) (TakeT (TakeForward q b)) (bare c ps w)
      = continue (TakeT (TakeCall q (Sending base (forward_request E b)))) (bare c ps w)"
    using False by (simp add: base_def Let_def)
  note s = solo_quiet [OF solo_one [OF this] calls_take [OF client_calls [OF y(1)]]]
  have "tstep E me (Go False) (TakeT (TakeCall q (Returned y))) (bare c ps w1)
      = continue (case x of Inl e \<Rightarrow> TakeT (TakeFailed q) | Inr res \<Rightarrow> Finished res) (bare c ps w1)"
    by (cases y) (simp_all add: y(2))
  from solo_quiet [OF s solo_one [OF this]] show ?thesis using pending_client [OF y(1)] by simp
qed

text \<open>A take that was accepted and whose key has a primary.\<close>

lemma accepted_take_solo:
  assumes h: "handleRateLimitTake E me r w = Some (res, w')" and m: "rMethod r = ''POST'' \<or> rMethod r = ''PUT''"
    and b: "parseRateLimitBody (rBody r) = Inr b" and q: "Primary (nring (procs w me)) (rb_key b) = q" "q \<noteq> ''''"
  shows "solo E me (TakeT (TakeArrived r)) (bare c ps w) [] (Finished res) (bare c ps w') \<and> pending w' = pending w"
proof (cases "q = self_id me w")
  case True
  have res: "res = take_resp q (self_id me w) (fst (local_take E me b w))" "w' = snd (local_take E me b w)"
    using h m b q True by (auto simp: handleRateLimitTake_def Let_def split_beta)
  have s1: "tstep E me (Go False) (TakeT (TakeArrived r)) (bare c ps w) = continue (TakeT (TakeLocal b)) (bare c ps w)"
    using m b q True by auto
  have s2: "tstep E me (Go False) (TakeT (TakeLocal b)) (bare c ps w)
      = Some (Finished res, [], take_event E me b (fst (local_take E me b w)) (bare c ps w), bare c ps w')"
    by (simp add: split_beta Let_def res True)
  from solo_quiet [OF solo_one [OF s1] solo_one [OF s2]] show ?thesis by (simp add: res)
next
  case False
  obtain x w1 where f: "forwardRateLimit E me q b w = Some (x, w1)"
    using h m b q False by (auto simp: handleRateLimitTake_def Let_def split: option.splits)
  have s1: "tstep E me (Go False) (TakeT (TakeArrived r)) (bare c ps w) = continue (TakeT (TakeForward q b)) (bare c ps w)"
    using m b q False by auto
  note fwd = forward_solo [OF f, of c ps]
  note s2 = solo_quiet [OF solo_one [OF s1] fwd [THEN conjunct1]]
  show ?thesis
  proof (cases x)
    case (Inl e)
    then have res: "res = http_error ''primary unreachable'' 503" "w' = mark_down E me q w1"
      using h m b q False f by (auto simp: handleRateLimitTake_def Let_def)
    have "tstep E me (Go False) (TakeT (TakeFailed q)) (bare c ps w1)
        = Some (Finished res, [], mark_event E me q (bare c ps w1), bare c ps w')"
      by (simp add: res)
    from solo_quiet [OF s2 [unfolded Inl, simplified] solo_one [OF this]] show ?thesis using fwd by (simp add: res)
  next
    case (Inr res')
    then have "res = res'" "w' = w1" using h m b q False f by (auto simp: handleRateLimitTake_def Let_def)
    then show ?thesis using s2 fwd Inr by simp
  qed
qed

lemma handleTake_solo:
  assumes "handleRateLimitTake E me r w = Some (res, w')"
  shows "solo E me (TakeT (TakeArrived r)) (bare c ps w) [] (Finished res) (bare c ps w') \<and> pending w' = pending w"
proof (cases "\<exists>b. (rMethod r = ''POST'' \<or> rMethod r = ''PUT'') \<and> parseRateLimitBody (rBody r) = Inr b
    \<and> Primary (nring (procs w me)) (rb_key b) \<noteq> ''''")
  case True
  then show ?thesis using accepted_take_solo [OF assms] by blast
next
  case False
  then have "tstep E me (Go False) (TakeT (TakeArrived r)) (bare c ps w) = continue (Finished res) (bare c ps w')" "w' = w"
    using assms by (auto simp: handleRateLimitTake_def Let_def split: sum.splits if_splits)
  from solo_one [OF this(1)] this(2) show ?thesis by simp
qed

lemma mem_reply_solo:
  "solo E me (MemberT (MemNodes ok)) v [] (Finished (writeJSON 200
    (members_reply ok (ncfg (procs v me)) (Nodes (nring (procs v me))) (snapshotPeers (procs v me))))) v"
proof -
  have "tstep E me (Go False) (MemberT (MemNodes ok)) v = continue (MemberT (MemPeers ok (Nodes (nring (procs v me))))) v"
    by simp
  moreover have "tstep E me (Go False) (MemberT (MemPeers ok names)) v = continue (Finished (writeJSON 200
      (members_reply ok (ncfg (procs v me)) names (snapshotPeers (procs v me))))) v" for names
    by (simp add: Let_def)
  ultimately show ?thesis using solo_quiet [OF solo_one solo_one] by blast
qed

lemma upd_upd [simp]: "upd me n (upd me n' w) = upd me n w"
  by (simp add: upd_def)

lemma members_json_eq: "members_reply True (ncfg n) (Nodes (nring n)) (snapshotPeers n) = members_json n"
  by (simp add: members_reply_def members_json_def)

text \<open>A join and a leave: the peer map, the ring, and the answer.\<close>

lemma join_solo:
  assumes w1: "w1 = upd me (n\<lparr>npeers := gm_put x url (npeers n)\<rparr>) w" "n = procs w me"
    and w': "w' = upd me ((procs w1 me)\<lparr>nring := Add x (nring (procs w1 me))\<rparr>) w1"
    and s: "tstep E me (Go False) (MemberT (MemArrived r)) (bare c ps w) = Some (MemberT (JoinRing x), [], PeerPut me x url, bare c ps w1)"
  shows "solo E me (MemberT (MemArrived r)) (bare c ps w) [] (Finished (writeJSON 200 (members_json (procs w' me)))) (bare c ps w')
    \<and> pending w' = pending w"
proof -
  have "tstep E me (Go False) (MemberT (JoinRing x)) (bare c ps w1) = Some (MemberT (MemNodes True), [], RingAdd me x, bare c ps w')"
    by (simp add: w' Let_def)
  from solo_quiet [OF solo_quiet [OF solo_one [OF s] solo_one [OF this]] mem_reply_solo] show ?thesis
    by (simp add: members_json_eq) (simp add: w' w1)
qed

lemma leave_solo:
  assumes w1: "w1 = upd me (n\<lparr>npeers := gm_del x (npeers n), downUntil := gm_del x (downUntil n)\<rparr>) w" "n = procs w me"
    and w': "w' = upd me ((procs w1 me)\<lparr>nring := Remove x (nring (procs w1 me))\<rparr>) w1"
    and s: "tstep E me (Go False) (MemberT (MemArrived r)) (bare c ps w) = Some (MemberT (LeaveRing x), [], PeerDel me x, bare c ps w1)"
  shows "solo E me (MemberT (MemArrived r)) (bare c ps w) [] (Finished (writeJSON 200 (members_json (procs w' me)))) (bare c ps w')
    \<and> pending w' = pending w"
proof -
  have "tstep E me (Go False) (MemberT (LeaveRing x)) (bare c ps w1) = Some (MemberT (MemNodes True), [], RingRemove me x, bare c ps w')"
    by (simp add: w' Let_def)
  from solo_quiet [OF solo_quiet [OF solo_one [OF s] solo_one [OF this]] mem_reply_solo] show ?thesis
    by (simp add: members_json_eq) (simp add: w' w1)
qed

lemma handleMembers_solo:
  assumes "handleMembers E me r w = (res, w')"
  shows "solo E me (MemberT (MemArrived r)) (bare c ps w) [] (Finished res) (bare c ps w') \<and> pending w' = pending w"
proof -
  define n where "n = procs w me"
  have one: ?thesis if "tstep E me (Go False) (MemberT (MemArrived r)) (bare c ps w) = continue (Finished res) (bare c ps w')"
      "w' = w"
    using solo_one [OF that(1)] that(2) by simp
  consider (get) "rMethod r = ''GET''"
    | (put) b where "rMethod r = ''PUT'' \<or> rMethod r = ''POST''" "Option.bind (readJSON (rBody r)) decode_member = Some b"
        "trim_space (mb_id b) \<noteq> ''''" "trim_space (mb_url b) \<noteq> ''''" "uri_ok E (trim_space (mb_url b))"
    | (del) "rMethod r = ''DELETE''" "trim_space (rQuery r ''id'') \<noteq> ''''" "trim_space (rQuery r ''id'') \<noteq> cID (ncfg n)"
    | (err) "rMethod r \<noteq> ''GET''"
        "rMethod r = ''PUT'' \<or> rMethod r = ''POST'' \<Longrightarrow> (case Option.bind (readJSON (rBody r)) decode_member of
          None \<Rightarrow> True | Some b \<Rightarrow> trim_space (mb_id b) = '''' \<or> trim_space (mb_url b) = '''' \<or> \<not> uri_ok E (trim_space (mb_url b)))"
        "rMethod r = ''DELETE'' \<Longrightarrow> trim_space (rQuery r ''id'') = '''' \<or> trim_space (rQuery r ''id'') = cID (ncfg n)"
    by (cases "Option.bind (readJSON (rBody r)) decode_member") auto
  then show ?thesis
  proof cases
    case get
    have "tstep E me (Go False) (MemberT (MemArrived r)) (bare c ps w) = continue (MemberT (MemNodes False)) (bare c ps w)"
      using get by (simp add: Let_def)
    note s = solo_quiet [OF solo_one [OF this] mem_reply_solo]
    have "res = writeJSON 200 (members_reply False (ncfg n) (Nodes (nring n)) (snapshotPeers n))" "w' = w"
      using assms get by (auto simp: handleMembers_def members_reply_def Let_def n_def)
    then show ?thesis using s by (simp add: n_def)
  next
    case (put b)
    define x where "x = trim_space (mb_id b)"
    define w1 where "w1 = upd me (n\<lparr>npeers := gm_put x (trim_space (mb_url b)) (npeers n)\<rparr>) w"
    have w': "w' = upd me ((procs w1 me)\<lparr>nring := Add x (nring (procs w1 me))\<rparr>) w1"
        "res = writeJSON 200 (members_json (procs w' me))"
      using assms put by (auto simp: handleMembers_def join_def Let_def x_def n_def w1_def)
    have "tstep E me (Go False) (MemberT (MemArrived r)) (bare c ps w)
        = Some (MemberT (JoinRing x), [], PeerPut me x (trim_space (mb_url b)), bare c ps w1)"
      using put by (auto simp: Let_def x_def n_def w1_def)
    from join_solo [OF w1_def n_def w'(1) this] show ?thesis by (simp add: w'(2))
  next
    case del
    define x where "x = trim_space (rQuery r ''id'')"
    define w1 where "w1 = upd me (n\<lparr>npeers := gm_del x (npeers n), downUntil := gm_del x (downUntil n)\<rparr>) w"
    have w': "w' = upd me ((procs w1 me)\<lparr>nring := Remove x (nring (procs w1 me))\<rparr>) w1"
        "res = writeJSON 200 (members_json (procs w' me))"
      using assms del by (auto simp: handleMembers_def leave_def Let_def x_def n_def w1_def)
    have "tstep E me (Go False) (MemberT (MemArrived r)) (bare c ps w)
        = Some (MemberT (LeaveRing x), [], PeerDel me x, bare c ps w1)"
      using del by (simp add: Let_def x_def n_def w1_def)
    from leave_solo [OF w1_def n_def w'(1) this] show ?thesis by (simp add: w'(2))
  next
    case err
    show ?thesis
      by (rule one; use assms err in \<open>auto simp: handleMembers_def join_def leave_def Let_def n_def
          split: option.splits if_splits\<close>)
  qed
qed

lemma handleStats_solo: "solo E me (StatusT (StatsArrived r)) v [] (Finished (handleStats me r v)) v"
proof (cases "rMethod r = ''GET''")
  case False
  then have "tstep E me (Go False) (StatusT (StatsArrived r)) v = continue (Finished (handleStats me r v)) v"
    by (simp add: handleStats_def)
  then show ?thesis by (rule solo_one)
next
  case True
  have "tstep E me (Go False) (StatusT (StatsArrived r)) v = continue (StatusT (StatsLimiter (Stats (nstore (procs v me))))) v"
    using True by simp
  moreover have "tstep E me (Go False) (StatusT (StatsLimiter (Stats (nstore (procs v me))))) v
      = continue (Finished (handleStats me r v)) v"
    using True by (simp add: handleStats_def stats_reply_def Let_def)
  ultimately show ?thesis using solo_quiet [OF solo_one solo_one] by blast
qed

lemma handleRing_solo: "solo E me (StatusT (RingArrived r)) v [] (Finished (handleRing me r v)) v"
proof (cases "rMethod r = ''GET''")
  case False
  then have "tstep E me (Go False) (StatusT (RingArrived r)) v = continue (Finished (handleRing me r v)) v"
    by (simp add: handleRing_def)
  then show ?thesis by (rule solo_one)
next
  case True
  define key where "key = rQuery r ''key''"
  define names where "names = Nodes (nring (procs v me))"
  define peers where "peers = snapshotPeers (procs v me)"
  define points where "points = Len_ring (nring (procs v me))"
  have s: "tstep E me (Go False) (StatusT (RingArrived r)) v = continue (StatusT (RingPeers key names)) v"
    "tstep E me (Go False) (StatusT (RingPeers key names)) v = continue (StatusT (RingLen key names peers)) v"
    "tstep E me (Go False) (StatusT (RingLen key names peers)) v = continue (StatusT (RingOwners key names peers points)) v"
    "tstep E me (Go False) (StatusT (RingOwners key names peers points)) v = continue (Finished (handleRing me r v)) v"
    using True by (simp_all add: key_def names_def peers_def points_def handleRing_def ring_reply_def ring_resp_of_def Let_def)
  from solo_quiet [OF solo_one [OF s(1)] solo_quiet [OF solo_one [OF s(2)] solo_quiet [OF solo_one [OF s(3)]
        solo_one [OF s(4)]]]]
  show ?thesis .
qed

lemma internal_solo:
  assumes "serves_to E (InFlight me r) v (Answered res) v'"
  shows "solo E me (Serving (InFlight me r)) v [] (Finished res) v'"
proof -
  have s2: "tstep E me (Go False) (Serving (Answered res)) v' = continue (Serving (Returned (Inr res))) v'"
    and s3: "tstep E me (Go False) (Serving (Returned (Inr res))) v' = continue (Finished res) v'" by simp_all
  from solo_quiet [OF serves_thread [OF assms] solo_quiet [OF solo_one [OF s2] solo_one [OF s3]]] show ?thesis .
qed

section \<open>Whole requests\<close>

lemma serve_solo:
  assumes env: "env_ok E" and s: "serve E me r w = Some (res, w')"
  shows "solo E me (start_thread me r (bare c ps w)) (bare c ps w) (new_repairs w w') (Finished res) (bare c ps w')"
proof -
  have h: "handleHealth me r (bare c ps w) = handleHealth me r w" "handleStats me r (bare c ps w) = handleStats me r w"
    "handleRing me r (bare c ps w) = handleRing me r w"
    by (simp_all add: handleHealth_def handleStats_def handleRing_def)
  consider (health) "rPath r = ''/health''" | (stats) "rPath r = ''/stats''" | (ring) "rPath r = ''/ring''"
    | (get) "rPath r = ''/v1/get'' \<or> rPath r = ''/get''" | (set) "rPath r = ''/v1/set'' \<or> rPath r = ''/set''"
    | (del) "rPath r = ''/v1/delete'' \<or> rPath r = ''/delete''" | (kv) "rPath r = ''/internal/kv''"
    | (take) "rPath r = ''/v1/ratelimit/take''" | (itake) "rPath r = ''/internal/ratelimit/take''"
    | (members) "rPath r = ''/admin/members''"
    | (other) "rPath r \<notin> {''/health'', ''/stats'', ''/ring'', ''/v1/get'', ''/get'', ''/v1/set'', ''/set'', ''/v1/delete'',
        ''/delete'', ''/internal/kv'', ''/v1/ratelimit/take'', ''/internal/ratelimit/take'', ''/admin/members''}"
    by blast
  then show ?thesis
  proof cases
    case health
    then have "res = handleHealth me r w" "w' = w" using s by (auto simp: serve_def)
    then show ?thesis using health solo_refl [of E me "Finished res" "bare c ps w"] h by (simp add: start_thread_def)
  next
    case stats
    then have "res = handleStats me r w" "w' = w" using s by (auto simp: serve_def)
    then show ?thesis using stats handleStats_solo [of E me r "bare c ps w"] h by (simp add: start_thread_def)
  next
    case ring
    then have "res = handleRing me r w" "w' = w" using s by (auto simp: serve_def)
    then show ?thesis using ring handleRing_solo [of E me r "bare c ps w"] h by (simp add: start_thread_def)
  next
    case get
    then show ?thesis using s handleGet_solo [of E me r w res w' c ps] by (auto simp: serve_def start_thread_def)
  next
    case set
    then show ?thesis using s handleSet_solo [OF env, of me r w res w' c ps] by (auto simp: serve_def start_thread_def)
  next
    case del
    then show ?thesis using s handleDelete_solo [OF env, of me r w res w' c ps] by (auto simp: serve_def start_thread_def)
  next
    case kv
    then have k: "handleInternalKV E me r w = Some (res, w')" using s by (simp add: serve_def)
    then have "pending w' = pending w"
      by (auto simp: handleInternalKV_def Let_def split_beta dest: pending_set split: option.splits if_splits)
    then show ?thesis using internal_solo [OF kv_serves [OF k kv, of c ps]] kv by (simp add: start_thread_def)
  next
    case take
    then show ?thesis using s handleTake_solo [of E me r w res w' c ps] by (auto simp: serve_def start_thread_def)
  next
    case itake
    then have k: "handleInternalRateLimitTake E me r w = (res, w')" using s by (simp add: serve_def)
    then have "pending w' = pending w"
      by (auto simp: handleInternalRateLimitTake_def Let_def split_beta split: if_splits sum.splits)
    then show ?thesis using internal_solo [OF take_serves [OF k, of c ps]] itake by (simp add: start_thread_def)
  next
    case members
    then have "handleMembers E me r w = (res, w')" using s by (simp add: serve_def)
    from handleMembers_solo [OF this, of c ps] members show ?thesis by (simp add: start_thread_def)
  next
    case other
    then have "res = http_error ''404 page not found'' 404" "w' = w" using s by (auto simp: serve_def)
    then show ?thesis using other solo_refl [of E me "Finished res" "bare c ps w"] by (simp add: start_thread_def)
  qed
qed

lemma serve_is_a_run:
  assumes "env_ok E" "serve E me r w = Some (res, w')"
  shows "\<exists>tr v'. irun E (iboot w) tr \<lparr>iw = v', ithreads = (me, Finished res) # new_repairs w w'\<rparr>
    \<and> procs v' = procs w' \<and> ticks v' = ticks w'"
proof -
  define c ps where "c = calls w" and "ps = pending w"
  have w: "bare c ps w = w" by (simp add: bare_def c_def ps_def)
  have "irun E (iboot w) ([] @ [Arrive me r]) (iboot w\<lparr>ithreads := ithreads (iboot w) @ [(me, start_thread me r (iw (iboot w)))]\<rparr>)"
    by (rule irun_next [OF irun_start istep_arrive])
  then have start: "irun E (iboot w) [Arrive me r] \<lparr>iw = w, ithreads = [(me, start_thread me r w)]\<rparr>"
    by (simp add: iboot_def)
  have "solo E me (start_thread me r w) w (new_repairs w w') (Finished res) (bare c ps w')"
    using serve_solo [OF assms, of c ps] by (simp add: w)
  from solo_run [OF this _ _ start, of 0] obtain tr where
    "irun E (iboot w) tr \<lparr>iw = bare c ps w', ithreads = (me, Finished res) # new_repairs w w'\<rparr>" by auto
  moreover have "procs (bare c ps w') = procs w'" "ticks (bare c ps w') = ticks w'" by simp_all
  ultimately show ?thesis by blast
qed

lemma writes_repair:
  "writes_to E me meth b nid x v x' v' \<Longrightarrow> meth = ''PUT'' \<Longrightarrow> \<forall>err. x \<noteq> WDone err \<Longrightarrow> x' = WDone err
    \<Longrightarrow> solo E me (Repair nid b x) v [] Ended v'"
proof (induction rule: writes_to.induct)
  case (writes_step lose c w c1 ev w1 c' w')
  have s: "tstep E me (Go lose) (Repair nid b c) w = Some (Repair nid b c1, [], ev, w1)"
    using writes_step.hyps(1) writes_step.prems(1,2) by (cases c) auto
  show ?case
  proof (cases "\<exists>err. c1 = WDone err")
    case True
    then have "c' = c1 \<and> w' = w1" using writes_step.hyps(2)
      by (auto elim: writes_to.cases simp: write_step_def)
    moreover have "tstep E me (Go False) (Repair nid b c1) w1 = continue Ended w1" using True by auto
    ultimately show ?thesis using solo_quiet [OF solo_one [OF s] solo_one] by blast
  next
    case False
    then show ?thesis using solo_quiet [OF solo_one [OF s] writes_step.IH] writes_step.prems by blast
  qed
qed simp

lemma repair_solo:
  assumes "run_repair E i w = Some w'" "i < length (pending w)"
  shows "solo E (rp_from (pending w ! i)) (snd (repair_thread (pending w ! i))) (bare c ps w) [] Ended (bare c ps w')"
proof -
  define p where "p = pending w ! i"
  obtain err where e: "writeOwner E (rp_from p) ''PUT'' (rp_to p) (rp_body p)
      (w\<lparr>pending := take i (pending w) @ drop (i + 1) (pending w)\<rparr>) = Some (err, w')"
    using assms by (auto simp: run_repair_def Let_def p_def)
  show ?thesis unfolding p_def [symmetric] repair_thread_def snd_conv
    using writes_repair [OF owner_writes [OF e, of c ps]] by simp
qed

end
