(* ===== verification/InterleavedTheorems.thy ===== *)
theory InterleavedTheorems
  imports InterleavedWrites InterleavedTakes InterleavedRefine ClusterDemo
begin

text \<open>
  The properties of concurrent requests, each applied to a run of the cluster of
  \<open>ClusterDemo\<close> whose steps are given one by one.
\<close>

section \<open>Runs, step by step\<close>

lemma run_arrive:
  "irun E s tr \<lparr>iw = w, ithreads = ts\<rparr>
    \<Longrightarrow> irun E s (tr @ [Arrive me r]) \<lparr>iw = w, ithreads = ts @ [(me, start_thread me r w)]\<rparr>"
  using irun_next [OF _ istep_arrive [of E "\<lparr>iw = w, ithreads = ts\<rparr>" me r]] by simp

lemma run_thread:
  assumes "irun E s tr \<lparr>iw = w, ithreads = ts\<rparr>" "i < length ts" "ts ! i = (me, t)"
    and "tstep E me ch t w = Some (t', new, ev, w')"
  shows "irun E s (tr @ [ev]) \<lparr>iw = w', ithreads = ts[i := (me, t')] @ new\<rparr>"
  using irun_next [OF assms(1) istep_thread [OF advance_thread [of i "\<lparr>iw = w, ithreads = ts\<rparr>" me t E ch t' new ev w']]]
    assms(2-4) by simp

section \<open>Runs of the demo cluster\<close>

definition demo_set_start :: istate where
  "demo_set_start = \<lparr>iw = demo_world, ithreads = [(''a'', WriteT (SetArrived demo_put))]\<rparr>"

lemma demo_set_start_wf: "istate_wf demo_env demo_set_start"
  using iboot_wf [OF demo_inv] by (simp add: demo_set_start_def istate_wf_def iboot_def)

lemma demo_with_simps [simp]:
  "ncfg (procs (demo_with b) p) = effective (demo_config p)" "npeers (procs (demo_with b) p) = demo_peers"
  using demo_with_members [of b] by (simp_all add: same_members_def)

definition demo_fan :: "wcall \<Rightarrow> wcall \<Rightarrow> nat \<Rightarrow> string list \<Rightarrow> thread" where
  "demo_fan c1 c2 acked failed
    = WriteT (Fan ''PUT'' demo_body [''a'', ''b''] [(''a'', c1), (''b'', c2)] acked failed)"

text \<open>A write through \<open>a\<close>, owned by \<open>a\<close> and \<open>b\<close>, until \<open>b\<close> has answered.\<close>

lemma demo_set_prefix:
  "\<exists>ok w2. local_set demo_env ''b'' demo_body (demo_with demo_body) = Some (ok, w2)
    \<and> irun demo_env demo_set_start
      [Quiet, Quiet, set_event demo_env ''a'' demo_body demo_world, Quiet, Quiet,
        set_event demo_env ''b'' demo_body (demo_with demo_body)]
      \<lparr>iw = w2, ithreads = [(''a'', demo_fan (WDone None)
        (WCall (Answered (ok_resp ''applied'' ok (self_id ''b'' (demo_with demo_body))))) 0 [])]\<rparr>"
proof -
  let ?E = demo_env and ?w = "demo_with demo_body"
  define rq where "rq = write_request ?E ''PUT'' demo_body"
  note b = demo_put_body [unfolded body_of_def]
  have r0: "irun ?E demo_set_start [] \<lparr>iw = demo_world, ithreads = [(''a'', WriteT (SetArrived demo_put))]\<rparr>"
    using irun_start [of ?E demo_set_start] by (simp add: demo_set_start_def)
  have s1: "tstep ?E ''a'' (Go False) (WriteT (SetArrived demo_put)) demo_world
      = continue (WriteT (SetOwners demo_body)) demo_world"
    using demo_put_ok b by (auto simp: put_ok_def body_of_def stamp_body_def)
  note r1 = run_thread [OF r0 _ _ s1, where i = 0, simplified]
  have s2: "tstep ?E ''a'' (Go False) (WriteT (SetOwners demo_body)) demo_world
      = continue (demo_fan WStart WStart 0 []) demo_world"
    using demo_owners by (simp add: demo_fan_def fan_out_def)
  note r2 = run_thread [OF r1 _ _ s2, where i = 0, simplified]
  obtain ok where ok: "local_set ?E ''a'' demo_body demo_world = Some (ok, ?w)"
    using demo_with_set by blast
  have s3: "tstep ?E ''a'' (Worker 0 False) (demo_fan WStart WStart 0 []) demo_world
      = Some (demo_fan (WDone None) WStart 0 [], [], set_event ?E ''a'' demo_body demo_world, ?w)"
    using ok by (simp add: demo_fan_def write_step_def write_start_def)
  note r3 = run_thread [OF r2 _ _ s3, where i = 0, simplified]
  have s4: "tstep ?E ''a'' (Worker 1 False) (demo_fan (WDone None) WStart 0 []) ?w
      = continue (demo_fan (WDone None) (WCall (Sending ''http://b'' rq)) 0 []) ?w"
    by (simp add: demo_fan_def write_step_def write_start_def peerURL_def demo_trim rq_def)
  note r4 = run_thread [OF r3 _ _ s4, where i = 0, simplified]
  have s5: "tstep ?E ''a'' (Worker 1 False) (demo_fan (WDone None) (WCall (Sending ''http://b'' rq)) 0 []) ?w
      = continue (demo_fan (WDone None) (WCall (InFlight ''b'' rq)) 0 []) ?w"
    by (simp add: demo_fan_def write_step_def call_step_def)
  note r5 = run_thread [OF r4 _ _ s5, where i = 0, simplified]
  obtain ok2 w2 where w2: "local_set ?E ''b'' demo_body ?w = Some (ok2, w2)"
    using local_set_SomeE [OF demo_with_inv] by metis
  define a where "a = Answered (ok_resp ''applied'' ok2 (self_id ''b'' ?w))"
  have "serve_kv ?E ''b'' rq ?w = Some (a, set_event ?E ''b'' demo_body ?w, w2)"
    using w2 fits_body [OF demo_fits]
    by (simp add: serve_kv_def rq_def write_request_def kv_request_eq body_of_def a_def)
  then have s6: "tstep ?E ''a'' (Worker 1 False) (demo_fan (WDone None) (WCall (InFlight ''b'' rq)) 0 []) ?w
      = Some (demo_fan (WDone None) (WCall a) 0 [], [], set_event ?E ''b'' demo_body ?w, w2)"
    by (simp add: demo_fan_def write_step_def call_step_def rq_def write_request_def kv_request_eq)
  note r6 = run_thread [OF r5 _ _ s6, where i = 0, simplified]
  show ?thesis using w2 r6 unfolding a_def by blast
qed

text \<open>The answer of \<open>b\<close> is lost, so \<open>b\<close> counts as failed.\<close>

lemma demo_set_run:
  "\<exists>tr w'. irun demo_env demo_set_start tr
      \<lparr>iw = w', ithreads = [(''a'', Finished (fan_reply ''PUT'' demo_body [''a'', ''b''] 1 [''b'']))]\<rparr>
    \<and> (\<forall>ev \<in> set tr. \<not> moves ''a'' ev)"
proof -
  let ?E = demo_env
  obtain w2 ok2 tr where r6: "irun ?E demo_set_start tr \<lparr>iw = w2, ithreads = [(''a'', demo_fan (WDone None)
      (WCall (Answered (ok_resp ''applied'' ok2 (self_id ''b'' (demo_with demo_body))))) 0 [])]\<rparr>"
    and tr: "\<forall>ev \<in> set tr. \<not> moves ''a'' ev"
    using demo_set_prefix by (auto simp: event_defs)
  have s7: "tstep ?E ''a'' (Worker 1 True) (demo_fan (WDone None) (WCall (Answered x)) 0 []) w2
      = continue (demo_fan (WDone None) (WCall (Returned (Inl ''timeout''))) 0 []) w2" for x
    by (simp add: demo_fan_def write_step_def call_step_def)
  note r7 = run_thread [OF r6 _ _ s7, where i = 0, simplified]
  have s8: "tstep ?E ''a'' (Worker 1 False) (demo_fan (WDone None) (WCall (Returned (Inl ''timeout''))) 0 []) w2
      = continue (demo_fan (WDone None) (WDone (Some ''timeout'')) 0 []) w2"
    by (simp add: demo_fan_def write_step_def write_result_def)
  note r8 = run_thread [OF r7 _ _ s8, where i = 0, simplified]
  have s9: "tstep ?E ''a'' (Receive 1) (demo_fan (WDone None) (WDone (Some ''timeout'')) 0 []) w2
      = Some (demo_fan (WDone None) WTaken 0 [''b''], [], mark_event ?E ''a'' ''b'' w2, mark_down ?E ''a'' ''b'' w2)"
    by (simp add: demo_fan_def Let_def)
  note r9 = run_thread [OF r8 _ _ s9, where i = 0, simplified]
  have s10: "tstep ?E ''a'' (Receive 0) (demo_fan (WDone None) WTaken 0 [''b'']) w3 = continue (demo_fan WTaken WTaken 1 [''b'']) w3" for w3
    by (simp add: demo_fan_def)
  note r10 = run_thread [OF r9 _ _ s10, where i = 0, simplified]
  have s11: "tstep ?E ''a'' (Go False) (demo_fan WTaken WTaken 1 [''b'']) w3
      = continue (Finished (fan_reply ''PUT'' demo_body [''a'', ''b''] 1 [''b''])) w3" for w3
    by (simp add: demo_fan_def)
  note r11 = run_thread [OF r10 _ _ s11, where i = 0, simplified]
  show ?thesis by (intro exI conjI, rule r11 [folded One_nat_def]) (use tr in \<open>auto simp: event_defs\<close>)
qed

text \<open>A read through \<open>a\<close> of an entry that \<open>a\<close> holds.\<close>

lemma demo_get_steps:
  assumes run: "irun demo_env s tr \<lparr>iw = w, ithreads = ts\<rparr>" and i: "i < length ts" "ts ! i = (''a'', GetT (GetArrived demo_get))"
    and w: "world_inv demo_env w" "slot ''k'' ''a'' w = Some it" "permanent it" "self_id ''a'' w = ''a''"
    and own: "Owners (nring (procs w ''a'')) ''k'' (cReplicas (ncfg (procs w ''a''))) = [''a'', ''b'']"
  shows "\<exists>w' ts'. irun demo_env s (tr @ [Quiet, get_event demo_env ''a'' ''k'' w, Quiet, Quiet]) \<lparr>iw = w', ithreads = ts'\<rparr>
    \<and> i < length ts' \<and> ts' ! i = (''a'', Finished (writeJSON 200 (encode_get (getPayload (clock demo_env (ticks w + 2)) ''k'' ''a'' (entry_of it)))))"
proof -
  let ?E = demo_env
  have s5: "tstep ?E ''a'' (Go False) (GetT (GetArrived demo_get)) w
      = continue (GetT (GetLoop ''k'' [''a'', ''b''] [''a'', ''b''] False)) w"
    using own w(4) by (simp add: preferLocal_def Let_def)
  note r5 = run_thread [OF run i s5]
  obtain w2 where w2: "local_get ?E ''a'' ''k'' w = ((entry_of it, True), w2)" using local_get_hit [OF w(1-3)] by blast
  then have ticks: "ticks w2 = ticks w + 1" by (auto simp: local_get_def tick_def split_beta Let_def upd_def)
  have s6: "tstep ?E ''a'' (Go False) (GetT (GetLoop ''k'' [''a'', ''b''] [''a'', ''b''] False)) w
      = Some (GetT (GetHit ''k'' [''a'', ''b''] ''a'' (entry_of it)), [], get_event ?E ''a'' ''k'' w, w2)"
    using w2 w(4) by simp
  note r6 = run_thread [OF r5 _ _ s6, where i = i]
  have s7: "tstep ?E ''a'' (Go False) (GetT (GetHit ''k'' [''a'', ''b''] ''a'' (entry_of it))) w2
      = Some (GetT (GetReply ''k'' ''a'' (entry_of it)),
          repairs ''a'' [''a'', ''b''] ''a'' (repair_body (clock ?E (ticks w + 1)) ''k'' (entry_of it)), Quiet, snd (tick ?E w2))"
    by (simp add: tick_def ticks Let_def)
  note r7 = run_thread [OF r6 _ _ s7, where i = i]
  have s8: "tstep ?E ''a'' (Go False) (GetT (GetReply ''k'' ''a'' (entry_of it))) (snd (tick ?E w2))
      = continue (Finished (writeJSON 200 (encode_get (getPayload (clock ?E (ticks w + 2)) ''k'' ''a'' (entry_of it)))))
          (snd (tick ?E (snd (tick ?E w2))))"
    by (simp add: tick_def ticks Let_def)
  note r8 = run_thread [OF r7 _ _ s8, where i = i]
  show ?thesis by (intro exI conjI, rule r8 [simplified append_assoc append_Cons append_Nil]) (use i(1) in \<open>simp_all add: nth_append\<close>)
qed

text \<open>A write that has reached \<open>a\<close> only, and a read through \<open>a\<close> that overlaps with it.\<close>

lemma demo_get_run:
  "\<exists>tr s tr' s'. irun demo_env (iboot demo_world) tr s \<and> 1 < length (ithreads s)
    \<and> ithreads s ! 1 = (''a'', GetT (GetArrived demo_get)) \<and> irun demo_env s tr' s'
    \<and> ithreads s' ! 1 = (''a'', Finished (writeJSON 200 (encode_get (getPayload (clock demo_env 4) ''k'' ''a'' (entry_of (slot_item demo_body))))))"
proof -
  let ?E = demo_env
  define fan where "fan c1 = WriteT (Fan ''PUT'' demo_body [''a'', ''b''] [(''a'', c1), (''b'', WStart)] 0 [])" for c1
  note b = demo_put_body [unfolded body_of_def]
  have r0: "irun ?E (iboot demo_world) [] \<lparr>iw = demo_world, ithreads = []\<rparr>"
    using irun_start [of ?E "iboot demo_world"] by (simp add: iboot_def)
  have st: "start_thread ''a'' demo_put w = WriteT (SetArrived demo_put)" "start_thread ''a'' demo_get w = GetT (GetArrived demo_get)"
    for w by (simp_all add: start_thread_def demo_put_def demo_get_def)
  note r0a = run_arrive [OF r0, where me = "''a''" and r = demo_put, simplified st, simplified]
  have s1: "tstep ?E ''a'' (Go False) (WriteT (SetArrived demo_put)) demo_world
      = continue (WriteT (SetOwners demo_body)) demo_world"
    using demo_put_ok b by (auto simp: put_ok_def body_of_def stamp_body_def)
  note r1 = run_thread [OF r0a _ _ s1, where i = 0, simplified]
  have s2: "tstep ?E ''a'' (Go False) (WriteT (SetOwners demo_body)) demo_world = continue (fan WStart) demo_world"
    using demo_owners by (simp add: fan_def fan_out_def)
  note r2 = run_thread [OF r1 _ _ s2, where i = 0, simplified]
  obtain ok where ok: "local_set ?E ''a'' demo_body demo_world = Some (ok, demo_with demo_body)"
    using demo_with_set by blast
  let ?w = "demo_with demo_body"
  have s3: "tstep ?E ''a'' (Worker 0 False) (fan WStart) demo_world
      = Some (fan (WDone None), [], set_event ?E ''a'' demo_body demo_world, ?w)"
    using ok by (simp add: fan_def write_step_def write_start_def)
  note r3 = run_thread [OF r2 _ _ s3, where i = 0, simplified]
  note r4 = run_arrive [OF r3, where me = "''a''" and r = demo_get, simplified st, simplified]
  have "slot ''k'' ''a'' ?w = Some (slot_item demo_body)"
    using demo_with_slot [of demo_body] by (simp add: slot_item_def expiry_def dur_mul_def wrap64_def)
  moreover have "permanent (slot_item demo_body)"
    by (simp add: permanent_def slot_item_def in_int64_def min_int64_def max_int64_def)
  ultimately show ?thesis
    using r4 demo_get_steps [OF irun_start, of 1 "[(''a'', fan (WDone None)), (''a'', GetT (GetArrived demo_get))]" ?w "slot_item demo_body"]
      demo_with_inv demo_with_owners [of demo_body "''a''"]
    by fastforce
qed

text \<open>A take at its primary.\<close>

lemma demo_take_run:
  "\<exists>tr s res. irun demo_env (iboot demo_world) tr s \<and> tr = [Arrive ''a'' demo_take, Quiet, LimitOp ''a'' (req_at 1 demo_rl) res]
    \<and> ithreads s = [(''a'', Finished (take_resp ''a'' ''a'' res))]"
proof -
  let ?E = demo_env
  have r0: "irun ?E (iboot demo_world) [] \<lparr>iw = demo_world, ithreads = []\<rparr>"
    using irun_start [of ?E "iboot demo_world"] by (simp add: iboot_def)
  have st: "start_thread ''a'' demo_take w = TakeT (TakeArrived demo_take)" for w
    by (simp add: start_thread_def demo_take_def)
  note r1 = run_arrive [OF r0, where me = "''a''" and r = demo_take, simplified st, simplified]
  have "parseRateLimitBody (rBody demo_take) = Inr demo_rl" "rMethod demo_take = ''POST''"
    using demo_take_ok [of "''a''"] by (simp_all add: take_ok_def demo_take_def)
  then have s2: "tstep ?E ''a'' (Go False) (TakeT (TakeArrived demo_take)) demo_world
      = continue (TakeT (TakeLocal demo_rl)) demo_world"
    using demo_primary by (simp add: demo_rl_def)
  note r2 = run_thread [OF r1 _ _ s2, where i = 0, simplified]
  obtain res w1 where t: "local_take ?E ''a'' demo_rl demo_world = (res, w1)" by force
  have s3: "tstep ?E ''a'' (Go False) (TakeT (TakeLocal demo_rl)) demo_world
      = Some (Finished (take_resp ''a'' ''a'' res), [], LimitOp ''a'' (req_at 1 demo_rl) res, w1)"
    using t by (simp add: take_event_def)
  note r3 = run_thread [OF r2 _ _ s3, where i = 0, simplified]
  show ?thesis by (intro exI conjI, rule r3) simp_all
qed

text \<open>
  C9. The one-step handlers are interleavings: whenever \<open>serve\<close> answers a request, with the
  losses and orders its environment prescribes, the threads can give the same answer step by
  step, leaving every process and the clock as \<open>serve\<close> does and the read repairs it puts in
  flight as threads that have not started.
\<close>

theorem atomic_requests_are_interleavings:
  assumes "env_ok E" "serve E me r w = Some (res, w')"
  shows "\<exists>tr v'. irun E (iboot w) tr \<lparr>iw = v', ithreads = (me, Finished res) # new_repairs w w'\<rparr>
    \<and> procs v' = procs w' \<and> ticks v' = ticks w'"
  using assms by (rule serve_is_a_run)

theorem atomic_requests_are_interleavings_witness:
  "\<exists>res w' tr v'. serve demo_env ''a'' demo_put demo_world = Some (res, w')
    \<and> irun demo_env (iboot demo_world) tr \<lparr>iw = v', ithreads = (''a'', Finished res) # new_repairs demo_world w'\<rparr>
    \<and> procs v' = procs w'"
proof -
  obtain res w' where s: "serve demo_env ''a'' demo_put demo_world = Some (res, w')"
    using serve_runs [OF demo_inv] by blast
  from atomic_requests_are_interleavings [OF demo_env_ok s] s show ?thesis by blast
qed

text \<open>
  C31. Under every interleaving each process stays well formed: it is on its own ring and is
  never marked down by itself, its store and its limiter keep their invariants and bounds,
  and it finds an owner for every key. (Only the agreement of ring and peer map is lost
  while a \<open>join\<close> or \<open>leave\<close> is halfway through.)
\<close>

theorem interleaved_processes_stay_well_formed:
  assumes "boot w" "irun E (iboot w) tr s"
  shows "self_id p (iw s) \<in> set (Nodes (nring (procs (iw s) p)))
    \<and> gm_get (downUntil (procs (iw s) p)) (self_id p (iw s)) = None
    \<and> store_inv (nstore (procs (iw s) p)) \<and> rl_inv (fpu_of (arch E)) (nrl (procs (iw s) p))
    \<and> int (Len_store (nstore (procs (iw s) p))) \<le> capacity (nstore (procs (iw s) p))
    \<and> Owners (nring (procs (iw s) p)) key (cReplicas (ncfg (procs (iw s) p))) \<noteq> []"
proof -
  have "world_inv E w" using assms(1) by (intro cluster_reach_inv reach_boot)
  then have "istate_wf E s" using irun_wf [OF assms(2)] iboot_wf by blast
  then have n: "node_wf (fpu_of (arch E)) (procs (iw s) p)" by (simp add: istate_wf_def procs_wfD)
  then have ring: "ring_inv (nring (procs (iw s) p))" using ring_reachable_inv by (auto simp: node_wf_def)
  have "set (Nodes (nring (procs (iw s) p))) \<noteq> {}" using n by (auto simp: node_wf_def)
  then have "0 < Size (nring (procs (iw s) p))" by (simp add: Size_def Nodes_def gm.len_keys)
  with n have "0 < length (Owners (nring (procs (iw s) p)) key (cReplicas (ncfg (procs (iw s) p))))"
    by (simp add: Owners_length [OF ring] node_wf_def)
  then show ?thesis
    using n len_items [of "nstore (procs (iw s) p)"] store_invD(6) [of "nstore (procs (iw s) p)"]
    by (auto simp: node_wf_def Len_store_def)
qed

theorem interleaved_processes_stay_well_formed_witness:
  "\<exists>s :: istate. ithreads s \<noteq> [] \<and> Owners (nring (procs (iw s) ''b'')) ''k'' (cReplicas (ncfg (procs (iw s) ''b''))) \<noteq> []"
proof -
  obtain tr s res where run: "irun demo_env (iboot demo_world) tr s"
      and s: "ithreads s = [(''a'', Finished (take_resp ''a'' ''a'' res))]"
    using demo_take_run by blast
  have "ithreads s \<noteq> []" using s by simp
  moreover have "Owners (nring (procs (iw s) ''b'')) ''k'' (cReplicas (ncfg (procs (iw s) ''b''))) \<noteq> []"
    using interleaved_processes_stay_well_formed [OF demo_boot run, of "''b''" "''k''"] by (elim conjE)
  ultimately show ?thesis by blast
qed

lemma advances_first: "advances E n s1 s' \<Longrightarrow> advance E i s ev s1 \<Longrightarrow> advances E (Suc n) s s'"
proof (induction rule: advances.induct)
  case (advances_none s1)
  then show ?case using advances.advances_next [OF advances.advances_none] by blast
next
  case (advances_next n s1 s' j ev' s'')
  then show ?case using advances.advances_next by blast
qed

lemma all_finish:
  "istate_wf E s \<Longrightarrow> \<exists>n s'. advances E n s s' \<and> (\<forall>x \<in> set (ithreads s'). finished (snd x))"
proof (induction "works (procs (iw s)) (ithreads s)" arbitrary: s rule: less_induct)
  case less
  show ?case
  proof (cases "\<forall>x \<in> set (ithreads s). finished (snd x)")
    case True
    then show ?thesis using advances_none by blast
  next
    case False
    then obtain i where i: "i < length (ithreads s)" "\<not> finished (snd (ithreads s ! i))"
      by (auto simp: in_set_conv_nth)
    obtain ev s1 where a: "advance E i s ev s1" using advance_enabled [OF less.prems i] by blast
    have wf: "istate_wf E s1" using istep_wf [OF istep_thread [OF a] less.prems] .
    obtain n s' where n: "advances E n s1 s'" "\<forall>x \<in> set (ithreads s'). finished (snd x)"
      using less.hyps [OF advance_works [OF a less.prems] wf] by blast
    show ?thesis using advances_first [OF n(1) a] n(2) by blast
  qed
qed

text \<open>
  C12. Concurrent requests finish. In every state of every interleaving each thread that has
  not finished can take a step, so that no request ever waits for another; the steps that
  the threads in flight (with the goroutines, repairs and abandoned calls they start) can
  still take are bounded, a new request by 19 per replica and 10; and they can all finish.
\<close>

theorem concurrent_requests_finish:
  assumes "boot w" "irun E (iboot w) tr s"
  shows "(\<forall>i < length (ithreads s). finished (snd (ithreads s ! i)) \<or> (\<exists>ev s'. advance E i s ev s'))
    \<and> (\<forall>n s'. advances E n s s' \<longrightarrow> n \<le> works (procs (iw s)) (ithreads s))
    \<and> (\<exists>n s'. advances E n s s' \<and> (\<forall>x \<in> set (ithreads s'). finished (snd x)))
    \<and> work (replicas (procs (iw s)) me) (start_thread me r (iw s)) \<le> 19 * replicas (procs (iw s)) me + 10"
proof -
  have "world_inv E w" using assms(1) by (intro cluster_reach_inv reach_boot)
  then have wf: "istate_wf E s" using irun_wf [OF assms(2)] iboot_wf by blast
  then show ?thesis
    using advance_enabled [OF wf] advances_works [OF _ wf] all_finish [OF wf] start_work by fastforce
qed

theorem concurrent_requests_finish_witness:
  "(\<exists>ev s. advance demo_env 0 demo_set_start ev s)
    \<and> (\<nexists>n s. advances demo_env n demo_set_start s \<and> 48 < n)
    \<and> (\<exists>n s. 0 < n \<and> advances demo_env n demo_set_start s \<and> (\<forall>x \<in> set (ithreads s). finished (snd x)))"
proof -
  let ?s = demo_set_start
  have t: "ithreads ?s = [(''a'', start_thread ''a'' demo_put demo_world)]" "iw ?s = demo_world"
    by (simp_all add: demo_set_start_def start_thread_def demo_put_def)
  have "irun demo_env (iboot demo_world) [Arrive ''a'' demo_put] ?s"
    using run_arrive [of demo_env "iboot demo_world" "[]" demo_world "[]" "''a''" demo_put]
      irun_start [of demo_env "iboot demo_world"] t
    by (simp add: iboot_def demo_set_start_def)
  note c = concurrent_requests_finish [OF demo_boot this, where me = "''a''" and r = demo_put]
  have flying: "\<not> finished (snd (ithreads ?s ! 0))" by (simp add: demo_set_start_def)
  have "replicas (procs demo_world) ''a'' = 2" by (simp add: replicas_def)
  then have "works (procs (iw ?s)) (ithreads ?s) \<le> 48"
    using c by (simp add: t)
  then have "\<nexists>n s. advances demo_env n ?s s \<and> 48 < n" using c by (meson order_trans not_less)
  moreover have "\<exists>ev s. advance demo_env 0 ?s ev s" using c flying by (simp add: t(1))
  moreover obtain n s where n: "advances demo_env n ?s s" "\<forall>x \<in> set (ithreads s). finished (snd x)"
    using c by blast
  moreover have "n \<noteq> 0" using n flying by (auto elim: advances.cases simp: demo_set_start_def)
  ultimately show ?thesis by blast
qed

section \<open>Acknowledged writes\<close>

lemma fan_reply_names:
  assumes "fan_reply meth b owners acked failed = fan_reply meth' b' owners' acked' failed'"
  shows "owners = owners' \<and> set failed = set failed'"
proof -
  have strings: "map JStr xs = map JStr ys \<longleftrightarrow> xs = ys" for xs ys by (simp add: inj_map_eq_map inj_def)
  have "string_list_json xs = string_list_json ys \<Longrightarrow> xs = ys" for xs ys
    by (auto simp: string_list_json_def strings split: if_splits)
  moreover have "string_list_json owners = string_list_json owners'" "sort failed = sort failed'"
    using assms by (simp_all add: fan_reply_def writeJSON_def encode_write_def strings)
  ultimately show ?thesis by (metis set_sort)
qed

text \<open>
  C1. While other requests interleave with a \<open>SET\<close> in any way, and any calls are lost, an
  answer of status 200 means what it says. It names the owners of the key, as many as the
  replica count asks for, that the coordinator's ring gave at some point between the arrival of
  the request and the answer; at least one has acknowledged; and every owner that the answer
  does not list as failed has executed the write: the process its name leads to performed
  \<open>Set\<close> with the key, value and lifetime of the request and its stamp (one reading of the
  clock, the same on every owner, when the request has none) between the arrival and the
  answer. The coordinator's peer map, which leads from names to processes, does not change
  meanwhile.
\<close>

theorem concurrent_acks_are_performed:
  assumes "istate_wf E s" "irun E s tr s'"
    and "i < length (ithreads s)" "ithreads s ! i = (me, WriteT (SetArrived r))"
    and "\<forall>ev \<in> set tr. \<not> moves me ev"
    and "ithreads s' ! i = (me, Finished res)" "rStatus res = 200"
  shows "\<exists>b owners acked failed tr1 v tr2. b \<in> stamped E r \<and> res = fan_reply ''PUT'' b owners acked failed
    \<and> tr = tr1 @ tr2 \<and> irun E s tr1 v \<and> irun E v tr2 s'
    \<and> owners = Owners (nring (procs (iw v) me)) (kb_key b) (cReplicas (ncfg (procs (iw v) me)))
    \<and> 0 < acked \<and> acked + length failed = length owners \<and> set failed \<subseteq> set owners
    \<and> (\<forall>nid \<in> set owners - set failed. \<exists>p now. target E me nid (iw s) = Some p
        \<and> CacheOp p (OpSet now (kb_key b) (kb_value b) (dur_mul (kb_ttl b) millisecond) (kb_written b)) \<in> set tr)"
proof -
  obtain b where b: "b \<in> stamped E r" "answers_write E me (iw s) ''PUT'' b tr res"
    using irun_write [OF assms(2,1,3,4) _ _ assms(5-7), of "''PUT''" r] by (auto simp: write_bodies_def)
  then obtain owners acked failed where res: "res = fan_reply ''PUT'' b owners acked failed"
      and own: "chosen me (iw s) b tr owners" "acked + length failed = length owners" "set failed \<subseteq> set owners"
      and each: "\<forall>nid \<in> set owners - set failed. \<exists>p now. target E me nid (iw s) = Some p
        \<and> CacheOp p (OpSet now (kb_key b) (kb_value b) (dur_mul (kb_ttl b) millisecond) (kb_written b)) \<in> set tr"
    unfolding answers_write_def reached_by_def performed_def by auto
  have "0 < acked" using assms(7) by (simp add: res fan_reply_def writeJSON_def split: if_splits)
  with b(1) res own(2,3) each chosen_state [OF assms(2) own(1)] show ?thesis by blast
qed

theorem concurrent_acks_are_performed_witness:
  "\<exists>tr now. CacheOp ''a'' (OpSet now ''k'' ''v'' 0 7) \<in> set tr
    \<and> (\<exists>w'. irun demo_env demo_set_start tr
      \<lparr>iw = w', ithreads = [(''a'', Finished (fan_reply ''PUT'' demo_body [''a'', ''b''] 1 [''b'']))]\<rparr>)"
proof -
  obtain tr w' where run: "irun demo_env demo_set_start tr
      \<lparr>iw = w', ithreads = [(''a'', Finished (fan_reply ''PUT'' demo_body [''a'', ''b''] 1 [''b'']))]\<rparr>"
      and still: "\<forall>ev \<in> set tr. \<not> moves ''a'' ev"
    using demo_set_run by blast
  have start: "0 < length (ithreads demo_set_start)" "ithreads demo_set_start ! 0 = (''a'', WriteT (SetArrived demo_put))"
      "iw demo_set_start = demo_world"
    by (simp_all add: demo_set_start_def)
  have fin: "ithreads \<lparr>iw = w', ithreads = [(''a'', Finished (fan_reply ''PUT'' demo_body [''a'', ''b''] 1 [''b'']))]\<rparr> ! 0
      = (''a'', Finished (fan_reply ''PUT'' demo_body [''a'', ''b''] 1 [''b'']))" by simp
  have ok: "rStatus (fan_reply ''PUT'' demo_body [''a'', ''b''] 1 [''b'']) = 200"
    by (simp add: fan_reply_def writeJSON_def)
  obtain b owners acked failed where b: "b \<in> stamped demo_env demo_put"
      and res: "fan_reply ''PUT'' demo_body [''a'', ''b''] 1 [''b''] = fan_reply ''PUT'' b owners acked failed"
      and each: "\<forall>nid \<in> set owners - set failed. \<exists>p now. target demo_env ''a'' nid demo_world = Some p
        \<and> CacheOp p (OpSet now (kb_key b) (kb_value b) (dur_mul (kb_ttl b) millisecond) (kb_written b)) \<in> set tr"
    using concurrent_acks_are_performed [OF demo_set_start_wf run start(1,2) still fin ok]
    unfolding start(3) by blast
  have b_eq: "b = demo_body" using stampedD [OF b demo_put_body] by auto
  have names: "owners = [''a'', ''b'']" "set failed = set [''b'']"
    using fan_reply_names [OF res [symmetric]] by (rule conjunct1, rule conjunct2)
  then have mem: "''a'' \<in> set owners - set failed" by simp
  obtain p now where t: "target demo_env ''a'' ''a'' demo_world = Some p"
      and c: "CacheOp p (OpSet now (kb_key b) (kb_value b) (dur_mul (kb_ttl b) millisecond) (kb_written b)) \<in> set tr"
    using each [rule_format, OF mem] by blast
  have "p = ''a''" using t by (simp add: target_def)
  moreover have "dur_mul 0 millisecond = 0" by (simp add: dur_mul_def wrap64_def)
  ultimately have "CacheOp ''a'' (OpSet now ''k'' ''v'' 0 7) \<in> set tr" using c by (simp add: b_eq)
  with run show ?thesis by blast
qed

section \<open>Reads\<close>

text \<open>
  C2. In every interleaving, a value that a \<open>GET\<close> gives a client is a value of the key that
  was asked for, and value and stamp are those of one write: of a \<open>SET\<close> that had arrived at
  some coordinator and been stamped there, with its own stamp if it brought one and otherwise
  with the reading of the clock that the coordinator sent to the owners too; or of a request
  that had arrived at the internal endpoint, with the stamp it brought. Reads that overlap with
  writes, repairs, deletes and lost calls never return a mixture of two writes.
\<close>

theorem concurrent_reads_return_written_versions:
  assumes "boot w" "irun E (iboot w) tr s"
    and "i < length (ithreads s)" "ithreads s ! i = (me, GetT (GetArrived rg))"
    and "irun E s tr' s'" "ithreads s' ! i = (me, Finished res)"
    and "rReply res = BJson (encode_get g)" "gr_found g"
  shows "gr_key g = rQuery rg ''key'' \<and> (\<exists>p r b0 b. Arrive p r \<in> set (tr @ tr') \<and> body_of (rBody r) = Some b0
    \<and> kb_key b = gr_key g \<and> kb_value b = gr_value g \<and> kb_written b = gr_written g
    \<and> (rPath r \<in> {''/v1/set'', ''/set''} \<and> took E (iboot w) (tr @ tr') s' p r b
        \<and> (\<exists>k. b = b0\<lparr>kb_written := if kb_written b0 = 0 then unix_nano (clock E k) else kb_written b0\<rparr>)
      \<or> rPath r = ''/internal/kv'' \<and> b = b0))"
proof -
  have wf: "istate_wf E (iboot w)" using assms(1) iboot_wf by (blast intro: cluster_reach_inv reach_boot)
  note run = irun_trans [OF assms(2,5)]
  have key: "gr_key g = rQuery rg ''key''" "i < length (ithreads s')"
    using irun_keyed [OF assms(5) irun_wf [OF assms(2) wf] assms(3,4)] assms(6-8) by auto
  let ?S = "brought E (iboot w) (tr @ tr') s'"
  have "all_from (set_requests (tr @ tr')) ?S (ithreads s')"
    using irun_from [OF run wf boot_from [OF assms(1)]] by (simp add: istate_from_def)
  then have "reply_from ?S res" using nth_mem [OF key(2)] assms(6) by fastforce
  then have v: "(gr_key g, gr_value g, gr_written g) \<in> ?S" using assms(7,8) by (simp add: reply_from_def)
  show ?thesis
  proof (intro conjI key(1))
    from v consider (set) p r b where "r \<in> set_requests (tr @ tr') p" "took E (iboot w) (tr @ tr') s' p r b"
        "(gr_key g, gr_value g, gr_written g) = body_version b"
      | (internal) p r b where "Arrive p r \<in> set (tr @ tr')" "rPath r = ''/internal/kv''" "body_of (rBody r) = Some b"
        "(gr_key g, gr_value g, gr_written g) = body_version b"
      unfolding brought_def by blast
    then show "\<exists>p r b0 b. Arrive p r \<in> set (tr @ tr') \<and> body_of (rBody r) = Some b0
      \<and> kb_key b = gr_key g \<and> kb_value b = gr_value g \<and> kb_written b = gr_written g
      \<and> (rPath r \<in> {''/v1/set'', ''/set''} \<and> took E (iboot w) (tr @ tr') s' p r b
          \<and> (\<exists>k. b = b0\<lparr>kb_written := if kb_written b0 = 0 then unix_nano (clock E k) else kb_written b0\<rparr>)
        \<or> rPath r = ''/internal/kv'' \<and> b = b0)"
    proof cases
      case set
      obtain b0 k where b: "body_of (rBody r) = Some b0"
          "b = b0\<lparr>kb_written := if kb_written b0 = 0 then unix_nano (clock E k) else kb_written b0\<rparr>"
        using took_body [OF set(2)] by blast
      have "kb_key b = gr_key g" "kb_value b = gr_value g" "kb_written b = gr_written g"
        using set(3) by (simp_all add: body_version_def)
      moreover have "Arrive p r \<in> set (tr @ tr')" "rPath r \<in> {''/v1/set'', ''/set''}"
        using set(1) by (simp_all add: set_requests_def)
      ultimately show ?thesis using b set(2) by blast
    next
      case internal
      have "kb_key b = gr_key g" "kb_value b = gr_value g" "kb_written b = gr_written g"
        using internal(4) by (simp_all add: body_version_def)
      with internal(1-3) show ?thesis by blast
    qed
  qed
qed

theorem concurrent_reads_return_written_versions_witness:
  "\<exists>tr s p r b. irun demo_env (iboot demo_world) tr s \<and> Arrive p r \<in> set tr
    \<and> body_of (rBody r) = Some b \<and> kb_key b = ''k'' \<and> kb_value b = ''v''"
proof -
  obtain tr s tr' s' where run: "irun demo_env (iboot demo_world) tr s" "irun demo_env s tr' s'"
      and len: "1 < length (ithreads s)" "ithreads s ! 1 = (''a'', GetT (GetArrived demo_get))"
      and s': "ithreads s' ! 1 = (''a'', Finished (writeJSON 200 (encode_get (getPayload (clock demo_env 4) ''k'' ''a'' (entry_of (slot_item demo_body))))))"
    using demo_get_run by blast
  have "rReply (writeJSON 200 j) = BJson j" for j by (simp add: writeJSON_def)
  from concurrent_reads_return_written_versions [OF demo_boot run(1) len run(2) s' this] irun_trans [OF run]
  show ?thesis by (fastforce simp: entry_of_def slot_item_def)
qed

section \<open>Takes\<close>

text \<open>
  C11. However takes interleave, and whichever answers are lost, a limiter grants one key no
  more than its burst and its rate over the time of the run allow (up to the rounding of
  binary64, the same slack per take as for a single bucket), as long as the idle sweep does
  not run there and the keys fit its capacity; and the clients told yes are no more than
  the takes that were allowed.
\<close>

theorem concurrent_takes_keep_the_rate:
  assumes "boot w" "irun E (iboot w) tr s"
    and "\<forall>rq res. LimitOp q rq res \<in> set tr \<longrightarrow> tq_key rq = key
      \<longrightarrow> tq_rate rq = r \<and> tq_burst rq = b \<and> t0 \<le> tq_now rq \<and> tq_now rq \<le> T"
    and "\<forall>now. LimitSweep q now \<notin> set tr"
    and "int (card (tq_key ` fst ` set (takes_at q tr))) \<le> rl_capacity (nrl (procs w q))"
    and "LimitOp q some_req some_res \<in> set tr" "tq_key some_req = key"
  shows "granted_in q key tr \<le> b + r * (1 + eps64) ^ 3 * (of_int (T - t0) / 1000000000)
      + of_nat (length (filter (\<lambda>t. tq_key (fst t) = key) (takes_at q tr))) * (2 * (b * eps64 + eta64) + eta64)
    \<and> length (filter (\<lambda>x. \<exists>res. snd x = Finished res \<and> says_yes res) (ithreads s)) \<le> length (filter allowing tr)"
proof
  have "world_inv E w" using assms(1) by (intro cluster_reach_inv reach_boot)
  then have wf: "istate_wf E (iboot w)" by (rule iboot_wf)
  obtain c where "New_node c = Inr (procs w q)" using assms(1) unfolding boot_def by metis
  then have new: "order (nrl (procs w q)) = []" "rl_bucket_of key (nrl (procs w q)) = None"
    by (auto simp: New_node_eq NewStore_def rl_bucket_of_def gm_empty_def gm_get_def)
  show "granted_in q key tr \<le> b + r * (1 + eps64) ^ 3 * (of_int (T - t0) / 1000000000)
      + of_nat (length (filter (\<lambda>t. tq_key (fst t) = key) (takes_at q tr))) * (2 * (b * eps64 + eta64) + eta64)"
    using assms(3-5) new
    by (intro irun_granted [OF assms(2) wf _ _ _ _ assms(6,7)]) (auto simp: iboot_def)
  have "length (filter (\<lambda>x. \<exists>res. snd x = Finished res \<and> says_yes res) ts) \<le> count_yes ts" for ts :: "(string \<times> thread) list"
    unfolding count_yes_def by (induction ts) auto
  then show "length (filter (\<lambda>x. \<exists>res. snd x = Finished res \<and> says_yes res) (ithreads s)) \<le> length (filter allowing tr)"
    using irun_yes [OF assms(2)] order_trans by (fastforce simp: iboot_def count_yes_def)
qed

theorem concurrent_takes_keep_the_rate_witness:
  "\<exists>tr (s :: istate) res. ithreads s = [(''a'', Finished (take_resp ''a'' ''a'' res))]
    \<and> tr = [Arrive ''a'' demo_take, Quiet, LimitOp ''a'' (req_at 1 demo_rl) res]
    \<and> granted_in ''a'' ''k'' tr \<le> 2 + (2 * (2 * eps64 + eta64) + eta64)"
proof -
  obtain tr s res where run: "irun demo_env (iboot demo_world) tr s"
      and tr: "tr = [Arrive ''a'' demo_take, Quiet, LimitOp ''a'' (req_at 1 demo_rl) res]"
      and s: "ithreads s = [(''a'', Finished (take_resp ''a'' ''a'' res))]"
    using demo_take_run by blast
  have take: "takes_at ''a'' tr = [(req_at 1 demo_rl, res)]" by (simp add: tr takes_at_def)
  have "granted_in ''a'' ''k'' tr \<le> 2 + 1 * (1 + eps64) ^ 3 * (of_int (1 - 1) / 1000000000)
      + of_nat (length (filter (\<lambda>t. tq_key (fst t) = ''k'') (takes_at ''a'' tr))) * (2 * (2 * eps64 + eta64) + eta64)"
    by (rule concurrent_takes_keep_the_rate [where some_req = "req_at 1 demo_rl" and some_res = res,
          OF demo_boot run, THEN conjunct1])
      (simp_all add: take NewStore_def, simp_all add: tr req_at_def demo_rl_def)
  also have "\<dots> = 2 + (2 * (2 * eps64 + eta64) + eta64)" by (simp add: take req_at_def demo_rl_def)
  finally show ?thesis using tr s by blast
qed

section \<open>A join and a leave that overlap\<close>

text \<open>
  C18. \<open>join\<close> and \<open>leave\<close> each change the peer map and the ring in two separate critical
  sections (\<open>node.go\<close>, lines 689-692 and 706-710). A join and a leave of the same member that
  overlap can both be answered with success and leave the member on the ring without a URL:
  its keys are then owned by a member that no request can reach.
\<close>

theorem join_and_leave_race:
  fixes r1 r2 :: request and w :: world
  assumes join: "rPath r1 = ''/admin/members''" "rMethod r1 = ''PUT''"
      "Option.bind (readJSON (rBody r1)) decode_member = Some b"
      "trim_space (mb_id b) = x" "trim_space (mb_url b) = u" "x \<noteq> ''''" "u \<noteq> ''''" "uri_ok E u"
    and leave: "rPath r2 = ''/admin/members''" "rMethod r2 = ''DELETE''" "trim_space (rQuery r2 ''id'') = x"
      "x \<noteq> self_id me w"
  shows "\<exists>tr w' res1 res2. irun E (iboot w) tr \<lparr>iw = w', ithreads = [(me, Finished res1), (me, Finished res2)]\<rparr>
    \<and> rStatus res1 = 200 \<and> rStatus res2 = 200
    \<and> x \<in> set (Nodes (nring (procs w' me))) \<and> peerURL (procs w' me) x = ''''"
proof -
  define n where "n = procs w me"
  define w1 where "w1 = upd me (n\<lparr>npeers := gm_put x u (npeers n)\<rparr>) w"
  define w2 where "w2 = upd me ((procs w1 me)\<lparr>npeers := gm_del x (npeers (procs w1 me)),
    downUntil := gm_del x (downUntil (procs w1 me))\<rparr>) w1"
  define w3 where "w3 = upd me ((procs w2 me)\<lparr>nring := Remove x (nring (procs w2 me))\<rparr>) w2"
  define w4 where "w4 = upd me ((procs w3 me)\<lparr>nring := Add x (nring (procs w3 me))\<rparr>) w3"
  have t1: "start_thread me r1 w = MemberT (MemArrived r1)" and t2: "start_thread me r2 w = MemberT (MemArrived r2)"
    using join(1) leave(1) by (simp_all add: start_thread_def)
  have r0: "irun E (iboot w) [] \<lparr>iw = w, ithreads = []\<rparr>" using irun_start [of E "iboot w"] by (simp add: iboot_def)
  have r2: "irun E (iboot w) [Arrive me r1, Arrive me r2]
      \<lparr>iw = w, ithreads = [(me, MemberT (MemArrived r1)), (me, MemberT (MemArrived r2))]\<rparr>"
    using run_arrive [OF run_arrive [OF r0, of me r1], of me r2] by (simp add: t1 t2)
  have s3: "tstep E me (Go False) (MemberT (MemArrived r1)) w = Some (MemberT (JoinRing x), [], PeerPut me x u, w1)"
    using join by (simp add: w1_def n_def Let_def)
  note r3 = run_thread [OF r2 _ _ s3, where i = 0, simplified]
  have s4: "tstep E me (Go False) (MemberT (MemArrived r2)) w1 = Some (MemberT (LeaveRing x), [], PeerDel me x, w2)"
    using leave join by (simp add: w1_def w2_def n_def Let_def)
  note r4 = run_thread [OF r3 _ _ s4, where i = 1, simplified]
  have s5: "tstep E me (Go False) (MemberT (LeaveRing x)) w2 = Some (MemberT (MemNodes True), [], RingRemove me x, w3)"
    by (simp add: w3_def Let_def)
  note r5 = run_thread [OF r4 _ _ s5, where i = 1, simplified]
  have s6: "tstep E me (Go False) (MemberT (JoinRing x)) w3 = Some (MemberT (MemNodes True), [], RingAdd me x, w4)"
    by (simp add: w4_def Let_def)
  note r6 = run_thread [OF r5 _ _ s6, where i = 0, simplified]
  have s7: "tstep E me (Go False) (MemberT (MemNodes True)) w4
      = continue (MemberT (MemPeers True (Nodes (nring (procs w4 me))))) w4" by simp
  have s8: "tstep E me (Go False) (MemberT (MemPeers True names)) w4 = continue (Finished (writeJSON 200
      (members_reply True (ncfg (procs w4 me)) names (snapshotPeers (procs w4 me))))) w4" for names
    by (simp add: Let_def)
  note r7 = run_thread [OF r6 _ _ s7, where i = 0, simplified]
  note r8 = run_thread [OF r7 _ _ s8, where i = 0, simplified]
  note r9 = run_thread [OF r8 _ _ s7, where i = 1, simplified]
  note r10 = run_thread [OF r9 _ _ s8, where i = 1, simplified]
  have "x \<in> set (Nodes (nring (procs w4 me)))" using join(6) by (simp add: w4_def Nodes_Add)
  moreover have "peerURL (procs w4 me) x = ''''"
    by (simp add: w4_def w3_def w2_def peerURL_def gm.get_del)
  ultimately show ?thesis
    using r10 by (intro exI [of _ "[Arrive me r1, Arrive me r2, PeerPut me x u, PeerDel me x, RingRemove me x, RingAdd me x,
      Quiet, Quiet, Quiet, Quiet]"] exI [of _ w4] exI conjI) (auto simp: writeJSON_def)
qed

definition demo_join :: request where
  "demo_join = \<lparr>rPath = ''/admin/members'', rMethod = ''PUT'', rQuery = (\<lambda>_. ''''),
    rBody = \<lparr>pl_len = 30, pl_json = Some (JObj [(''id'', JStr ''d''), (''url'', JStr ''http://d'')])\<rparr>\<rparr>"

definition demo_leave :: request where
  "demo_leave = \<lparr>rPath = ''/admin/members'', rMethod = ''DELETE'',
    rQuery = (\<lambda>q. if q = ''id'' then ''d'' else ''''), rBody = empty_payload\<rparr>"

theorem join_and_leave_race_witness:
  "\<exists>tr s. irun demo_env (iboot demo_world) tr s \<and> ''d'' \<in> set (Nodes (nring (procs (iw s) ''a'')))
    \<and> peerURL (procs (iw s) ''a'') ''d'' = ''''"
proof -
  have json: "Option.bind (readJSON (rBody demo_join)) decode_member = Some \<lparr>mb_id = ''d'', mb_url = ''http://d''\<rparr>"
    by (simp add: demo_join_def readJSON_def maxValueBytes_def decode_member_def decode_struct_def fold_defs field_defs zero_defs)
  have trim: "trim_space ''d'' = ''d''" "trim_space ''http://d'' = ''http://d''" by code_simp+
  show ?thesis
    using join_and_leave_race [where ?r1.0 = demo_join and ?r2.0 = demo_leave and x = "''d''" and u = "''http://d''"
        and E = demo_env and me = "''a''" and w = demo_world, OF _ _ json]
    by (fastforce simp: demo_join_def demo_leave_def demo_env_def trim)
qed

end
