(* ===== verification/Convergence.thy ===== *)
theory Convergence
  imports InterleavedTheorems
begin

text \<open>
  Replicas of a key in a running cluster: however the requests, repairs, sweeps and the traffic
  on other keys interleave, two processes that have performed the same writes of a key agree on
  it, and both hold the newest. First for a sequence of operations on one abstract cache that has
  room for all its keys, then for the processes of a run.
\<close>

section \<open>One cache\<close>

text \<open>The keys and the versions of one key that a sequence of operations sets.\<close>

fun set_key :: "store_op \<Rightarrow> string set" where
  "set_key (OpSet now k v ttl wr) = {k}"
| "set_key a = {}"

fun set_version :: "string \<Rightarrow> store_op \<Rightarrow> (string \<times> int) set" where
  "set_version key (OpSet now k v ttl wr) = (if k = key then {(v, wr)} else {})"
| "set_version key a = {}"

definition keys_set :: "store_op list \<Rightarrow> string set" where
  "keys_set acts = (\<Union>a \<in> set acts. set_key a)"

definition versions_set :: "string \<Rightarrow> store_op list \<Rightarrow> (string \<times> int) set" where
  "versions_set key acts = (\<Union>a \<in> set acts. set_version key a)"

lemma sets_snoc [simp]:
  "keys_set (acts @ [a]) = keys_set acts \<union> set_key a" "keys_set [] = {}"
  "versions_set key (acts @ [a]) = versions_set key acts \<union> set_version key a" "versions_set key [] = {}"
  by (auto simp: keys_set_def versions_set_def)

lemma set_key_finite [simp]: "finite (set_key a)"
  by (cases a) simp_all

lemma keys_set_finite [simp]: "finite (keys_set acts)"
  by (simp add: keys_set_def)

lemma set_key_iff: "k \<in> set_key a \<longleftrightarrow> (\<exists>now v ttl wr. a = OpSet now k v ttl wr)"
  by (cases a) auto

lemma set_version_iff: "(v, wr) \<in> set_version key a \<longleftrightarrow> (\<exists>now ttl. a = OpSet now key v ttl wr)"
  by (cases a) auto

text \<open>Nobody deletes the key or gives it a lifetime.\<close>

fun lasting :: "string \<Rightarrow> store_op \<Rightarrow> bool" where
  "lasting key (OpSet now k v ttl wr) = (k = key \<longrightarrow> ttl \<le> 0)"
| "lasting key (OpDelete k) = (k \<noteq> key)"
| "lasting key a = True"

definition newest :: "string \<Rightarrow> (string \<times> int) set \<Rightarrow> item list \<Rightarrow> bool" where
  "newest key V l \<longleftrightarrow>
    (case lookup key l of
       None \<Rightarrow> V = {}
     | Some it \<Rightarrow> is_zero (iexpires it) \<and> (ivalue it, iwritten it) \<in> V \<and> (\<forall>(v, wr) \<in> V. wr \<le> iwritten it))"

lemma newest_get: "newest key V l \<Longrightarrow> newest key V (snd (lru_get now k l))"
  by (cases "k = key")
    (auto simp: newest_def lru_get_def expired_def dest: lookup_SomeD split: option.splits)

lemma newest_sweep: "distinct (map ikey l) \<Longrightarrow> newest key V l \<Longrightarrow> newest key V (lru_sweep now l)"
  by (auto simp: newest_def lru_sweep_def lookup_filter expired_def split: option.splits)

lemma newest_set:
  assumes "newest key V l" "ttl \<le> 0"
  shows "newest key (insert (v, wr) V) (snd (lru_set cap now key v ttl wr l))"
  using assms by (auto simp: newest_def lru_set_def Let_def expiry_def is_zero_def split: option.splits)

lemma newest_set_other:
  assumes "newest key V l" "k \<noteq> key" "lookup k l = None \<longrightarrow> length l < nat cap"
  shows "newest key V (snd (lru_set cap now k v ttl wr l))"
proof (cases "lookup k l")
  case None
  then have "length l \<le> nat cap - 1" using assms(3) by linarith
  then have "take (nat cap - 1) l = l" by (rule take_all)
  with None have "lookup key (snd (lru_set cap now k v ttl wr l)) = lookup key l"
    using assms(2) by (simp add: lru_set_def Let_def)
  then show ?thesis using assms(1) by (simp only: newest_def)
next
  case (Some it)
  then have "lookup key (snd (lru_set cap now k v ttl wr l)) = lookup key l"
    using assms(2) by (simp add: lru_set_def Let_def)
  then show ?thesis using assms(1) by (simp only: newest_def)
qed

lemma lru_keys: "ikey ` set (lru_exec cap a l) \<subseteq> ikey ` set l \<union> set_key a"
proof -
  have w: "set (without k l) \<subseteq> set l" for k by (auto simp: without_def)
  show ?thesis
  proof (cases a)
    case (OpGet now k)
    have "set (snd (lru_get now k l)) \<subseteq> set l"
      using w [of k] lookup_SomeD [of k l] by (cases "lookup k l") (auto simp: lru_get_def)
    then show ?thesis using OpGet by auto
  next
    case (OpSet now k v ttl wr)
    let ?it = "\<lparr>ikey = k, ivalue = v, iexpires = expiry now ttl, iwritten = wr\<rparr>"
    have "set (snd (lru_set cap now k v ttl wr l)) \<subseteq> insert ?it (set l)"
      using w [of k] set_take_subset [of "nat cap - 1" l]
      by (cases "lookup k l") (auto simp: lru_set_def Let_def)
    then have "ikey ` set (snd (lru_set cap now k v ttl wr l)) \<subseteq> ikey ` insert ?it (set l)" by (rule image_mono)
    then show ?thesis using OpSet by simp
  next
    case (OpDelete k)
    then show ?thesis using image_mono [OF w [of k], of ikey] by (auto simp: lru_delete_def)
  next
    case (OpSweep now)
    then show ?thesis by (auto simp: lru_sweep_def)
  qed
qed

lemma room_left:
  assumes "lru_ok cap l" "ikey ` set l \<subseteq> K" "finite K" "int (card (insert k K)) \<le> cap" "lookup k l = None"
  shows "length l < nat cap"
proof -
  have "length l = card (ikey ` set l)"
    using distinct_card [of "map ikey l"] assms(1) by (simp add: lru_ok_def)
  also have "\<dots> < card (insert k K)"
    using assms(2,3,5) by (intro psubset_card_mono) (auto simp: lookup_None_iff)
  finally show ?thesis using assms(4) by linarith
qed

lemma lru_ok_exec: "lru_ok cap l \<Longrightarrow> 1 \<le> cap \<Longrightarrow> lru_ok cap (lru_exec cap a l)"
  by (cases a) (auto simp: lru_ok_get lru_ok_set lru_ok_delete lru_ok_sweep)

lemma exec_newest:
  assumes "newest key (versions_set key acts) l" "lru_ok cap l" "ikey ` set l \<subseteq> keys_set acts"
    and "lasting key a" "int (card (keys_set (acts @ [a]))) \<le> cap"
  shows "newest key (versions_set key (acts @ [a])) (lru_exec cap a l)"
proof (cases a)
  case (OpGet now k)
  then show ?thesis using assms(1) by (simp add: newest_get)
next
  case (OpSet now k v ttl wr)
  show ?thesis
  proof (cases "k = key")
    case True
    then show ?thesis using newest_set [OF assms(1)] assms(4) OpSet by simp
  next
    case False
    then show ?thesis
      using newest_set_other [OF assms(1) False] room_left [OF assms(2,3), of k] assms(5) OpSet by simp
  qed
next
  case (OpDelete k)
  then show ?thesis using assms(1,4) by (simp add: newest_def lru_delete_def)
next
  case (OpSweep now)
  then show ?thesis using assms(1,2) by (simp add: newest_sweep lru_ok_def)
qed

text \<open>A cache with room for all its keys holds the newest version of a lasting key.\<close>

lemma run_newest:
  assumes "1 \<le> cap" "list_all (lasting key) acts" "int (card (keys_set acts)) \<le> cap"
  shows "newest key (versions_set key acts) (fold (lru_exec cap) acts [])
    \<and> lru_ok cap (fold (lru_exec cap) acts []) \<and> ikey ` set (fold (lru_exec cap) acts []) \<subseteq> keys_set acts"
  using assms(2,3)
proof (induction acts rule: rev_induct)
  case Nil
  then show ?case using assms(1) by (simp add: newest_def lru_ok_def)
next
  case (snoc a acts)
  let ?l = "fold (lru_exec cap) acts []"
  have "card (keys_set acts) \<le> card (keys_set (acts @ [a]))" by (intro card_mono) auto
  then have IH: "newest key (versions_set key acts) ?l" "lru_ok cap ?l" "ikey ` set ?l \<subseteq> keys_set acts"
    using snoc by auto
  show ?case
    using exec_newest [OF IH, of a] lru_ok_exec [OF IH(2) assms(1), of a] lru_keys [of cap a ?l] IH(3) snoc.prems by auto
qed

text \<open>Two lists that hold the newest of the same versions hold the same, if stamps tell them apart.\<close>

lemma newest_unique:
  assumes "newest key V l" "newest key V l'" "inj_on snd V"
  shows "map_option (\<lambda>it. (ivalue it, iwritten it)) (lookup key l) = map_option (\<lambda>it. (ivalue it, iwritten it)) (lookup key l')"
proof (cases "lookup key l")
  case None
  then show ?thesis using assms(1,2) by (auto simp: newest_def split: option.splits)
next
  case (Some it)
  with assms(1) have it: "(ivalue it, iwritten it) \<in> V" "\<forall>(v, wr) \<in> V. wr \<le> iwritten it" by (auto simp: newest_def)
  with assms(2) obtain it' where it': "lookup key l' = Some it'" "(ivalue it', iwritten it') \<in> V"
      "\<forall>(v, wr) \<in> V. wr \<le> iwritten it'" by (auto simp: newest_def split: option.splits)
  then have "iwritten it = iwritten it'" using it by fastforce
  with inj_onD [OF assms(3) _ it(1) it'(2)] have "(ivalue it, iwritten it) = (ivalue it', iwritten it')" by simp
  then show ?thesis using Some it'(1) by simp
qed

section \<open>The cluster\<close>

text \<open>The versions of a key that a process has been asked to store in a run, and its keys.\<close>

definition writes_at :: "string \<Rightarrow> string \<Rightarrow> event list \<Rightarrow> (string \<times> int) set" where
  "writes_at p key tr = {(v, wr). \<exists>now ttl. CacheOp p (OpSet now key v ttl wr) \<in> set tr}"

definition keys_at :: "string \<Rightarrow> event list \<Rightarrow> string set" where
  "keys_at p tr = {k. \<exists>now v ttl wr. CacheOp p (OpSet now k v ttl wr) \<in> set tr}"

lemma cache_ops_iff: "a \<in> set (cache_ops p tr) \<longleftrightarrow> CacheOp p a \<in> set tr"
proof -
  have "a \<in> set (cache_op p ev) \<longleftrightarrow> ev = CacheOp p a" for ev by (cases ev) auto
  then show ?thesis by (auto simp: cache_ops_def)
qed

lemma writes_at_ops: "writes_at p key tr = versions_set key (cache_ops p tr)"
proof (intro set_eqI)
  fix x
  show "x \<in> writes_at p key tr \<longleftrightarrow> x \<in> versions_set key (cache_ops p tr)"
    by (cases x) (simp add: writes_at_def versions_set_def set_version_iff cache_ops_iff Bex_def, blast)
qed

lemma keys_at_ops: "keys_at p tr = keys_set (cache_ops p tr)"
proof (intro set_eqI)
  fix k
  show "k \<in> keys_at p tr \<longleftrightarrow> k \<in> keys_set (cache_ops p tr)"
    by (simp add: keys_at_def keys_set_def set_key_iff cache_ops_iff Bex_def, blast)
qed

lemma ops_newest:
  assumes "boot w" "store_run (cache_ops p tr) (nstore (procs w p)) = Some s"
    and "\<forall>a. CacheOp p a \<in> set tr \<longrightarrow> lasting key a" "int (card (keys_at p tr)) \<le> capacity (nstore (procs w p))"
  shows "newest key (writes_at p key tr) (entries s)"
proof -
  obtain c where "New_node c = Inr (procs w p)" using assms(1) unfolding boot_def by metis
  then have inv: "store_inv (nstore (procs w p))" "entries (nstore (procs w p)) = []" by (auto simp: New_node_eq New_refines)
  have e: "entries s = fold (lru_exec (capacity (nstore (procs w p)))) (cache_ops p tr) []"
    using store_run_refines [OF inv(1), of "cache_ops p tr"] inv(2) assms(2) by auto
  have "1 \<le> capacity (nstore (procs w p))" using inv(1) by (rule store_invD)
  moreover have "list_all (lasting key) (cache_ops p tr)" using assms(3) by (simp add: list_all_iff cache_ops_iff)
  ultimately show ?thesis
    using run_newest [of "capacity (nstore (procs w p))" key "cache_ops p tr"] assms(4) by (simp add: e writes_at_ops keys_at_ops)
qed

lemma process_newest:
  assumes "boot w" "irun E (iboot w) tr s"
    and "\<forall>a. CacheOp p a \<in> set tr \<longrightarrow> lasting key a" "int (card (keys_at p tr)) \<le> capacity (nstore (procs w p))"
  shows "newest key (writes_at p key tr) (entries (nstore (procs (iw s) p)))"
proof (rule ops_newest [OF assms(1) _ assms(3,4)])
  show "store_run (cache_ops p tr) (nstore (procs w p)) = Some (nstore (procs (iw s) p))"
    using irun_store [OF assms(2), of p] by (simp add: iboot_def)
qed

text \<open>
  C4. Replicas converge in the running cluster. Take any interleaving of requests, fan-outs, read
  repairs, janitors and lost calls from the start, and a key that nobody deletes or gives a
  lifetime, whose different values have different stamps. Two processes that were asked to store
  the same versions of it, each in any order, any number of times and among any traffic on keys
  they have room for, hold the same value and stamp: those of the newest version.
\<close>

theorem concurrent_replicas_converge:
  assumes "boot w" "irun E (iboot w) tr s"
    and "\<forall>x \<in> {p, q}. \<forall>a. CacheOp x a \<in> set tr \<longrightarrow> lasting key a"
    and "\<forall>x \<in> {p, q}. int (card (keys_at x tr)) \<le> capacity (nstore (procs w x))"
    and "writes_at p key tr = writes_at q key tr" "inj_on snd (writes_at p key tr)"
  shows "stored key (nstore (procs (iw s) p)) = stored key (nstore (procs (iw s) q))
    \<and> (case stored key (nstore (procs (iw s) p)) of
         None \<Rightarrow> writes_at p key tr = {}
       | Some (v, wr) \<Rightarrow> (v, wr) \<in> writes_at p key tr \<and> (\<forall>(v', wr') \<in> writes_at p key tr. wr' \<le> wr))"
proof -
  have p: "newest key (writes_at p key tr) (entries (nstore (procs (iw s) p)))"
    and q: "newest key (writes_at p key tr) (entries (nstore (procs (iw s) q)))"
    using process_newest [OF assms(1,2), of p key] process_newest [OF assms(1,2), of q key] assms(3-5) by simp_all
  have "stored key (nstore (procs (iw s) p)) = stored key (nstore (procs (iw s) q))"
    using newest_unique [OF p q assms(6)] by (simp add: stored_def)
  with p show ?thesis by (auto simp: stored_def newest_def split: option.splits)
qed

section \<open>Two writes, in two orders\<close>

text \<open>A write sent straight to a process, and performed there.\<close>

lemma run_direct:
  assumes "irun demo_env (iboot demo_world) tr s" "fits demo_env b"
  shows "\<exists>s' now. irun demo_env (iboot demo_world) (tr @ [Arrive p (write_request demo_env ''PUT'' b),
    CacheOp p (OpSet now (kb_key b) (kb_value b) (dur_mul (kb_ttl b) millisecond) (kb_written b))]) s'"
proof -
  obtain w ts where s: "s = \<lparr>iw = w, ithreads = ts\<rparr>" by (cases s)
  let ?r = "write_request demo_env ''PUT'' b"
  have st: "start_thread p ?r w = Serving (InFlight p ?r)" by (simp add: start_thread_def write_request_def kv_request_eq)
  note r1 = run_arrive [OF assms(1) [unfolded s], of p ?r, unfolded st]
  have "istate_wf demo_env s" using irun_wf [OF assms(1) iboot_wf [OF demo_inv]] .
  then have "store_inv (nstore (procs w p))" using procs_wfD by (auto simp: s istate_wf_def node_wf_def)
  then have "local_set demo_env p b w \<noteq> None"
    using Set_total [of "nstore (procs w p)"] by (auto simp: local_set_def tick_def Let_def split: option.splits)
  then obtain ok w' where l: "local_set demo_env p b w = Some (ok, w')" by auto
  have "tstep demo_env p (Go False) (Serving (InFlight p ?r)) w
      = Some (Serving (Answered (ok_resp ''applied'' ok (self_id p w))), [], set_event demo_env p b w, w')"
    using l fits_body [OF assms(2)] assms(2)
    by (simp add: serve_kv_def write_request_def kv_request_eq body_of_def fits_def)
  from run_thread [OF r1 _ _ this, of "length ts"] show ?thesis
    unfolding set_event_def by auto
qed

theorem concurrent_replicas_converge_witness:
  "\<exists>tr s. irun demo_env (iboot demo_world) tr s \<and> writes_at ''a'' ''k'' tr = {(''v'', 7), (''w'', 8)}
    \<and> stored ''k'' (nstore (procs (iw s) ''a'')) = Some (''w'', 8) \<and> stored ''k'' (nstore (procs (iw s) ''b'')) = Some (''w'', 8)"
proof -
  let ?E = demo_env and ?v = "demo_body" and ?w = "demo_body\<lparr>kb_value := ''w'', kb_written := 8\<rparr>"
  have f: "fits ?E ?v" "fits ?E ?w" by (rule demo_fits, rule fits_small) (simp_all add: in_int64_def min_int64_def max_int64_def)
  have "dur_mul 0 millisecond = 0" by (simp add: dur_mul_def wrap64_def)
  then have put: "\<exists>s' n. irun ?E (iboot demo_world) (tr @ [Arrive p (write_request ?E ''PUT'' b),
      CacheOp p (OpSet n ''k'' (kb_value b) 0 (kb_written b))]) s'" if "irun ?E (iboot demo_world) tr s" "b = ?v \<or> b = ?w" for tr s b p
    using run_direct [OF that(1), of b p] that(2) f by auto
  obtain s1 n1 where r1: "irun ?E (iboot demo_world) ([] @ [Arrive ''a'' (write_request ?E ''PUT'' ?v),
      CacheOp ''a'' (OpSet n1 ''k'' (kb_value ?v) 0 (kb_written ?v))]) s1"
    using put [OF irun_start, of ?v "''a''"] by blast
  obtain s2 n2 where r2: "irun ?E (iboot demo_world) (([] @ [Arrive ''a'' (write_request ?E ''PUT'' ?v),
      CacheOp ''a'' (OpSet n1 ''k'' (kb_value ?v) 0 (kb_written ?v))]) @ [Arrive ''b'' (write_request ?E ''PUT'' ?w),
      CacheOp ''b'' (OpSet n2 ''k'' (kb_value ?w) 0 (kb_written ?w))]) s2"
    using put [OF r1, of ?w "''b''"] by blast
  obtain s3 n3 where r3: "irun ?E (iboot demo_world) ((([] @ [Arrive ''a'' (write_request ?E ''PUT'' ?v),
      CacheOp ''a'' (OpSet n1 ''k'' (kb_value ?v) 0 (kb_written ?v))]) @ [Arrive ''b'' (write_request ?E ''PUT'' ?w),
      CacheOp ''b'' (OpSet n2 ''k'' (kb_value ?w) 0 (kb_written ?w))]) @ [Arrive ''a'' (write_request ?E ''PUT'' ?w),
      CacheOp ''a'' (OpSet n3 ''k'' (kb_value ?w) 0 (kb_written ?w))]) s3"
    using put [OF r2, of ?w "''a''"] by blast
  obtain s4 n4 tr where r4: "irun ?E (iboot demo_world) tr s4"
    and tr: "tr = [Arrive ''a'' (write_request ?E ''PUT'' ?v), CacheOp ''a'' (OpSet n1 ''k'' ''v'' 0 7),
      Arrive ''b'' (write_request ?E ''PUT'' ?w), CacheOp ''b'' (OpSet n2 ''k'' ''w'' 0 8),
      Arrive ''a'' (write_request ?E ''PUT'' ?w), CacheOp ''a'' (OpSet n3 ''k'' ''w'' 0 8),
      Arrive ''b'' (write_request ?E ''PUT'' ?v), CacheOp ''b'' (OpSet n4 ''k'' ''v'' 0 7)]"
    using put [OF r3, of ?v "''b''"] by auto
  have ops: "CacheOp x a \<in> set tr \<longleftrightarrow> x = ''a'' \<and> (a = OpSet n1 ''k'' ''v'' 0 7 \<or> a = OpSet n3 ''k'' ''w'' 0 8)
      \<or> x = ''b'' \<and> (a = OpSet n2 ''k'' ''w'' 0 8 \<or> a = OpSet n4 ''k'' ''v'' 0 7)" for x a
    by (auto simp: tr)
  have W: "writes_at ''a'' ''k'' tr = {(''v'', 7), (''w'', 8)}" "writes_at ''b'' ''k'' tr = {(''v'', 7), (''w'', 8)}"
    by (auto simp: writes_at_def ops)
  have K: "keys_at ''a'' tr = {''k''}" "keys_at ''b'' tr = {''k''}" by (auto simp: keys_at_def ops)
  have C: "capacity (nstore (procs demo_world x)) = 4" for x by (simp add: New_store_def)
  have L: "\<forall>x \<in> {''a'', ''b''}. \<forall>a. CacheOp x a \<in> set tr \<longrightarrow> lasting ''k'' a" by (auto simp: ops)
  have "inj_on snd (writes_at ''a'' ''k'' tr)" by (simp add: W)
  note c = concurrent_replicas_converge [OF demo_boot r4 L _ _ this, unfolded W C, simplified, unfolded K, simplified]
  then obtain v wr where st: "stored ''k'' (nstore (procs (iw s4) ''a'')) = Some (v, wr)" by (auto split: option.splits)
  with c have "v = ''w''" "wr = 8" by auto
  with c st r4 W show ?thesis by (intro exI [of _ tr] exI [of _ s4]) auto
qed

end
