(* ===== verification/Freshness.thy ===== *)
theory Freshness
  imports Convergence
begin

text \<open>
  What a client may count on after a \<open>SET\<close> that every owner acknowledged: a \<open>GET\<close> that
  arrives later, at any process that knows the same members, does not answer a miss or an older
  version, whatever runs in between and beside it. The processes of the owners hold the version
  or a newer one that was written from the acknowledgement on (\<open>Convergence\<close>); the thread of the
  \<open>GET\<close> is followed through the run, and whatever it reads comes from one of them.
\<close>

section \<open>A process that holds one of some versions\<close>

text \<open>\<open>G\<close> is the set of the versions (value and stamp) that are good enough.\<close>

definition fresh_store :: "string \<Rightarrow> (string \<times> int) set \<Rightarrow> store \<Rightarrow> bool" where
  "fresh_store key G s \<longleftrightarrow>
    (\<exists>it. lookup key (entries s) = Some it \<and> is_zero (iexpires it) \<and> (ivalue it, iwritten it) \<in> G)"

lemma newest_fresh:
  "newest key V (entries s) \<Longrightarrow> (v, wr) \<in> V \<Longrightarrow> fresh_store key {(v', n) \<in> V. wr \<le> n} s"
  by (auto simp: newest_def fresh_store_def split: option.splits)

lemma local_get_fresh:
  assumes "procs_wf E w" "fresh_store key G (nstore (procs w p))" "local_get E p key w = ((ent, ok), w')"
  shows "ok \<and> (Value ent, WrittenAt ent) \<in> G"
proof -
  have inv: "store_inv (nstore (procs w p))" using procs_wfD [OF assms(1)] by (simp add: node_wf_def)
  have "fst (Get (clock E (ticks w)) key (nstore (procs w p))) = (ent, ok)"
    using assms(3) by (simp add: local_get_def tick_def Let_def split_beta)
  with assms(2) show ?thesis
    by (auto simp: Get_result [OF inv] peek_def fresh_store_def expired_def entry_of_def)
qed

section \<open>One call\<close>

definition fresh_answer :: "(string \<times> int) set \<Rightarrow> string + response \<Rightarrow> bool" where
  "fresh_answer G x \<longleftrightarrow>
    (case read_result x of Inl e \<Rightarrow> True | Inr None \<Rightarrow> False | Inr (Some g) \<Rightarrow> (gr_value g, gr_written g) \<in> G)"

fun fresh_call :: "env \<Rightarrow> string \<Rightarrow> world \<Rightarrow> string \<Rightarrow> (string \<times> int) set \<Rightarrow> string \<Rightarrow> rpc \<Rightarrow> bool" where
  "fresh_call E me w key G nid (Sending base r) \<longleftrightarrow> r = kv_request ''GET'' key empty_payload
    \<and> nid \<noteq> self_id me w \<and> base = trim_right_char CHR ''/'' (peerURL (procs w me) nid)"
| "fresh_call E me w key G nid (InFlight p r) \<longleftrightarrow> r = kv_request ''GET'' key empty_payload
    \<and> target E me nid w = Some p"
| "fresh_call E me w key G nid (Encoding p k ent) \<longleftrightarrow> (Value ent, WrittenAt ent) \<in> G"
| "fresh_call E me w key G nid (Answered res) \<longleftrightarrow> fresh_answer G (Inr res)"
| "fresh_call E me w key G nid (Returned x) \<longleftrightarrow> fresh_answer G x"

text \<open>The processes of the owners \<open>T\<close>, as \<open>me\<close> knew them in \<open>w0\<close>, hold a version of \<open>G\<close>.\<close>

definition fresh_owners :: "env \<Rightarrow> string \<Rightarrow> world \<Rightarrow> string \<Rightarrow> (string \<times> int) set \<Rightarrow> string set \<Rightarrow> world \<Rightarrow> bool" where
  "fresh_owners E me w0 key G T w \<longleftrightarrow>
    (\<forall>nid \<in> T. \<forall>p. target E me nid w0 = Some p \<longrightarrow> fresh_store key G (nstore (procs w p)))"

lemma fresh_errors [simp]: "fresh_answer G (Inl e)"
  by (simp add: fresh_answer_def read_result_def)

lemma fresh_payload:
  "(Value ent, WrittenAt ent) \<in> G \<Longrightarrow> fresh_answer G (Inr (writeJSON 200 (encode_get (getPayload now key nid ent))))"
  using decode_encode_get_cases [of "getPayload now key nid ent"]
  by (auto simp: fresh_answer_def read_result_def writeJSON_def getPayload_def)

lemma fresh_refused:
  "st \<noteq> 404 \<Longrightarrow> fresh_answer G (Inr (http_error e st))"
  by (simp add: fresh_answer_def read_result_def http_error_def)

lemma fresh_call_step:
  assumes wf: "procs_wf E w" and f: "fresh_owners E me w0 key G T w" "nid \<in> T"
    and c: "fresh_call E me w0 key G nid c" and s: "call_step E lose c w = Some (c', left, ev, w')"
  shows "fresh_call E me w0 key G nid c'"
proof (cases lose)
  case True
  then show ?thesis using s by (cases c) (auto simp: call_step_def)
next
  case False
  then have step: "rpc_step E c w = Some (c', ev, w')" using s by (auto simp: call_step_def)
  show ?thesis
  proof (cases c)
    case (Sending base r)
    then show ?thesis using step c by (auto simp: target_def split: option.splits)
  next
    case (InFlight p r)
    obtain ent ok w1 where g: "local_get E p key w = ((ent, ok), w1)" by (metis prod.exhaust)
    have "fresh_store key G (nstore (procs w p))" using f c InFlight by (auto simp: fresh_owners_def)
    then have "ok \<and> (Value ent, WrittenAt ent) \<in> G" using local_get_fresh [OF wf _ g] by simp
    then show ?thesis using step c InFlight g
      by (auto simp: serve_kv_def kv_request_eq Let_def fresh_refused split: option.splits if_splits)
  next
    case (Encoding p k ent)
    then show ?thesis using step c by (auto simp: Let_def split_beta fresh_payload)
  qed (use step c in auto)
qed

section \<open>The thread of the read\<close>

definition fresh_reply :: "string \<Rightarrow> (string \<times> int) set \<Rightarrow> response \<Rightarrow> bool" where
  "fresh_reply key G res \<longleftrightarrow> rStatus res = 503
    \<or> (\<exists>g. res = writeJSON 200 (encode_get g) \<and> gr_found g \<and> gr_key g = key \<and> (gr_value g, gr_written g) \<in> G)"

fun read_at :: "env \<Rightarrow> string \<Rightarrow> world \<Rightarrow> request \<Rightarrow> (string \<times> int) set \<Rightarrow> string set \<Rightarrow> thread \<Rightarrow> bool" where
  "read_at E me w rg G T (GetT (GetArrived r)) \<longleftrightarrow> r = rg"
| "read_at E me w rg G T (GetT (GetLoop key owners ids reached)) \<longleftrightarrow>
    key = rQuery rg ''key'' \<and> set ids \<subseteq> T \<and> \<not> reached"
| "read_at E me w rg G T (GetT (GetUrl key owners nid ids reached)) \<longleftrightarrow>
    key = rQuery rg ''key'' \<and> set (nid # ids) \<subseteq> T \<and> \<not> reached \<and> nid \<noteq> self_id me w"
| "read_at E me w rg G T (GetT (GetCall key owners nid ids reached c)) \<longleftrightarrow>
    key = rQuery rg ''key'' \<and> set (nid # ids) \<subseteq> T \<and> \<not> reached \<and> fresh_call E me w key G nid c"
| "read_at E me w rg G T (GetT (GetFailed key owners nid ids reached)) \<longleftrightarrow>
    key = rQuery rg ''key'' \<and> set ids \<subseteq> T \<and> \<not> reached"
| "read_at E me w rg G T (GetT (GetHit key owners nid ent)) \<longleftrightarrow> key = rQuery rg ''key'' \<and> (Value ent, WrittenAt ent) \<in> G"
| "read_at E me w rg G T (GetT (GetReply key nid ent)) \<longleftrightarrow> key = rQuery rg ''key'' \<and> (Value ent, WrittenAt ent) \<in> G"
| "read_at E me w rg G T (Finished res) \<longleftrightarrow> fresh_reply (rQuery rg ''key'') G res"
| "read_at E me w rg G T t \<longleftrightarrow> False"

lemma fresh_reply_simps [simp]:
  "fresh_reply key G (http_error e 503)"
  "(Value ent, WrittenAt ent) \<in> G \<Longrightarrow> fresh_reply key G (writeJSON 200 (encode_get (getPayload now key nid ent)))"
  by (auto simp: fresh_reply_def getPayload_def)

lemma read_own:
  assumes wf: "procs_wf E w" and f: "fresh_owners E me w0 (rQuery rg ''key'') G T w" and st: "stable me w0 w"
    and own: "set (Owners (nring (procs w me)) (rQuery rg ''key'') (cReplicas (ncfg (procs w me)))) \<subseteq> T"
    and rg: "rMethod rg = ''GET''" "validateKey (rQuery rg ''key'') = None"
    and t: "read_at E me w0 rg G T t" and s: "tstep E me ch t w = Some (t', new, ev, w')"
  shows "read_at E me w0 rg G T t'"
proof (cases "(E, me, w0, rg, G, T, t)" rule: read_at.cases)
  case (1 E' me' w1 rg' G' T' r)
  then show ?thesis using s t own rg by (cases ch) (auto simp: Let_def split: if_splits)
next
  case (2 E' me' w1 rg' G' T' key owners ids reached)
  show ?thesis
  proof (cases ids)
    case Nil
    then show ?thesis using s t 2 by (cases ch) auto
  next
    case (Cons nid rest)
    obtain ent ok w2 where g: "local_get E me key w = ((ent, ok), w2)" by (metis prod.exhaust)
    have "nid = self_id me w \<Longrightarrow> fresh_store key G (nstore (procs w me))"
      using f t 2 Cons stable_simps(1) [OF st] by (auto simp: fresh_owners_def target_def)
    then have "nid = self_id me w \<Longrightarrow> ok \<and> (Value ent, WrittenAt ent) \<in> G" using local_get_fresh [OF wf _ g] by simp
    then show ?thesis using s t 2 Cons g stable_simps(1) [OF st]
      by (cases ch) (auto simp: Let_def split_beta split: if_splits)
  qed
next
  case (3 E' me' w1 rg' G' T' key owners nid ids reached)
  then show ?thesis using s t stable_simps(2) [OF st] by (cases ch) (auto simp: Let_def split: if_splits)
next
  case (4 E' me' w1 rg' G' T' key owners nid ids reached c)
  then obtain lose where s': "get_step E me lose (GetCall key owners nid ids reached c) w = Some (t', new, ev, w')"
    using s by (cases ch) auto
  show ?thesis
  proof (cases "\<exists>x. c = Returned x")
    case True
    then show ?thesis using s' t 4
      by (auto simp: Let_def split_beta fresh_answer_def entry_read_def split: sum.splits option.splits)
  next
    case False
    then obtain c' left where c': "call_step E lose c w = Some (c', left, ev, w')"
        "t' = GetT (GetCall key owners nid ids reached c')"
      using s' by (cases c) (auto simp del: rpc_step.simps)
    then show ?thesis using fresh_call_step [OF wf f _ _ c'(1), of nid] t 4 by auto
  qed
next
  case (8 E' me' w1 rg' G' T' res)
  then show ?thesis using s by (cases ch) auto
qed (use s t in \<open>cases ch; auto simp: Let_def split_beta\<close>)+

section \<open>The run\<close>

text \<open>The events that change the ring of a process.\<close>

fun reshapes :: "string \<Rightarrow> event \<Rightarrow> bool" where
  "reshapes me (RingAdd p nid) = (p = me)"
| "reshapes me (RingRemove p nid) = (p = me)"
| "reshapes me ev = False"

lemma ring_act_still [simp]: "\<not> reshapes me ev \<Longrightarrow> ring_act me ev r = r"
  by (cases ev) auto

text \<open>Nothing shortens the life of the key, and every process has room for the keys it is sent.\<close>

definition roomy :: "world \<Rightarrow> string \<Rightarrow> event list \<Rightarrow> bool" where
  "roomy w key tr \<longleftrightarrow> (\<forall>p. (\<forall>a. CacheOp p a \<in> set tr \<longrightarrow> lasting key a)
    \<and> int (card (keys_at p tr)) \<le> capacity (nstore (procs w p)))"

lemma keys_at_finite: "finite (keys_at p tr)"
  by (simp add: keys_at_ops)

lemma keys_at_mono: "set tr \<subseteq> set tr' \<Longrightarrow> keys_at p tr \<subseteq> keys_at p tr'"
  unfolding keys_at_def by blast

lemma roomy_mono: "roomy w key tr' \<Longrightarrow> set tr \<subseteq> set tr' \<Longrightarrow> roomy w key tr"
proof -
  assume r: "roomy w key tr'" and s: "set tr \<subseteq> set tr'"
  have "card (keys_at p tr) \<le> card (keys_at p tr')" for p
    using keys_at_finite keys_at_mono [OF s] by (rule card_mono)
  with r s show ?thesis unfolding roomy_def by (meson in_mono of_nat_mono order_trans)
qed

lemma performed_version:
  "performed ''PUT'' b p tr \<Longrightarrow> set tr \<subseteq> set tr' \<Longrightarrow> (kb_value b, kb_written b) \<in> writes_at p (kb_key b) tr'"
  by (auto simp: performed_def writes_at_def)

text \<open>The versions of a key that were written to any store, and those not older than \<open>n\<close>.\<close>

definition written :: "string \<Rightarrow> event list \<Rightarrow> (string \<times> int) set" where
  "written key tr = (\<Union>p. writes_at p key tr)"

definition since :: "int \<Rightarrow> (string \<times> int) set \<Rightarrow> (string \<times> int) set" where
  "since n W = {(v, wr) \<in> W. n \<le> wr}"

lemma written_mono: "set tr \<subseteq> set tr' \<Longrightarrow> written key tr \<subseteq> written key tr'"
  by (auto simp: written_def writes_at_def)

lemma fresh_store_mono: "fresh_store key G s \<Longrightarrow> G \<subseteq> G' \<Longrightarrow> fresh_store key G' s"
  by (auto simp: fresh_store_def)

lemma owners_stay_fresh:
  assumes "boot w" "roomy w (kb_key b) tr" "set tr1 \<subseteq> set tr" "set tr \<subseteq> set tr'"
    and "\<forall>p. store_run (cache_ops p tr) (nstore (procs w p)) = Some (nstore (procs w' p))"
    and "\<forall>nid \<in> T. reached_by E a v ''PUT'' b tr1 nid" "\<forall>nid \<in> T. target E me nid w0 = target E a nid v"
  shows "fresh_owners E me w0 (kb_key b) (since (kb_written b) (written (kb_key b) tr')) T w'"
  unfolding fresh_owners_def
proof (intro ballI allI impI)
  fix nid p
  assume "nid \<in> T" "target E me nid w0 = Some p"
  then have "performed ''PUT'' b p tr1" using assms(6,7) by (auto simp: reached_by_def)
  note v = performed_version [OF this assms(3)]
  have "newest (kb_key b) (writes_at p (kb_key b) tr) (entries (nstore (procs w' p)))"
    using assms(2,5) by (intro ops_newest [OF assms(1)]) (auto simp: roomy_def)
  note f = newest_fresh [OF this v]
  have "writes_at p (kb_key b) tr \<subseteq> written (kb_key b) tr'"
    using written_mono [OF assms(4), of "kb_key b"] unfolding written_def by blast
  then show "fresh_store (kb_key b) (since (kb_written b) (written (kb_key b) tr')) (nstore (procs w' p))"
    by (intro fresh_store_mono [OF f]) (auto simp: since_def)
qed

lemma run_fresh:
  assumes w0: "boot w0" "irun E (iboot w0) tr0 s0" and run: "irun E s0 tr1 s1"
    and j: "j < length (ithreads s0)" "ithreads s0 ! j = (me, GetT (GetArrived rg))"
    and rg: "rMethod rg = ''GET''" "rQuery rg ''key'' = kb_key b" "validateKey (kb_key b) = None"
    and own: "set (Owners (nring (procs (iw s0) me)) (kb_key b) (cReplicas (ncfg (procs (iw s0) me)))) \<subseteq> T"
    and T: "\<forall>nid \<in> T. reached_by E a v ''PUT'' b tr nid" "\<forall>nid \<in> T. target E me nid (iw s0) = target E a nid v"
    and tr: "set tr \<subseteq> set tr0" and room: "roomy w0 (kb_key b) (tr0 @ tr1)"
    and still: "\<forall>ev \<in> set tr1. \<not> moves me ev \<and> \<not> reshapes me ev"
    and fin: "ithreads s1 ! j = (me, Finished res)"
  shows "fresh_reply (kb_key b) (since (kb_written b) (written (kb_key b) (tr0 @ tr1))) res"
proof -
  let ?G = "since (kb_written b) (written (kb_key b) (tr0 @ tr1))"
  let ?J = "\<lambda>tr' t w. read_at E me (iw s0) rg ?G T t \<and> stable me (iw s0) w
    \<and> nring (procs w me) = nring (procs (iw s0) me) \<and> set tr' \<subseteq> set tr1
    \<and> (\<forall>p. store_run (cache_ops p (tr0 @ tr')) (nstore (procs w0 p)) = Some (nstore (procs w p)))"
  have "world_inv E w0" using w0(1) by (intro cluster_reach_inv reach_boot)
  then have wf: "istate_wf E s0" using irun_wf [OF w0(2)] iboot_wf by blast
  have still': "\<forall>ev \<in> set tr1. (\<not> moves me ev \<and> \<not> reshapes me ev) \<and> ev \<in> set tr1" using still by blast
  have other: "stable me (iw s0) w' \<and> nring (procs w' me) = nring (procs (iw s0) me) \<and> set (tr' @ [ev]) \<subseteq> set tr1
      \<and> (\<forall>p. store_run (cache_ops p (tr0 @ tr' @ [ev])) (nstore (procs w0 p)) = Some (nstore (procs w' p)))"
    if "?J tr' t w" "(\<not> moves me ev \<and> \<not> reshapes me ev) \<and> ev \<in> set tr1"
      "effect_on (fpu_of (arch E)) ev (procs w) = Some (procs w')" for tr' t w ev w'
    using that effect_stable [OF that(3), of me "iw s0"] effect_ring_act [OF that(3), of me] effect_store [OF that(3)]
      ops_snoc(4) [of _ "tr0 @ tr'" ev]
    by (simp add: store_run_append)
  have "j < length (ithreads s1) \<and> (\<exists>t. ithreads s1 ! j = (me, t) \<and> ?J tr1 t (iw s1))"
  proof (rule irun_follow [where J = ?J, OF run wf j still'])
    show "?J [] (GetT (GetArrived rg)) (iw s0)"
      using irun_store [OF w0(2)] by (simp add: stable_def iboot_def)
  next
    fix tr' t ev and w w' :: world
    assume J: "?J tr' t w" and "(\<not> moves me ev \<and> \<not> reshapes me ev) \<and> ev \<in> set tr1"
      "effect_on (fpu_of (arch E)) ev (procs w) = Some (procs w')"
    from other [OF this] J show "?J (tr' @ [ev]) t w'" by simp
  next
    fix tr' t ch t' new ev and w w' :: world
    assume J: "?J tr' t w" and wf: "procs_wf E w" and ev: "(\<not> moves me ev \<and> \<not> reshapes me ev) \<and> ev \<in> set tr1"
      and step: "tstep E me ch t w = Some (t', new, ev, w')"
    have r: "roomy w0 (kb_key b) (tr0 @ tr')" using J by (intro roomy_mono [OF room]) auto
    have f: "fresh_owners E me (iw s0) (rQuery rg ''key'') ?G T w"
      unfolding rg(2) using J tr by (intro owners_stay_fresh [OF w0(1) r _ _ _ T]) auto
    from J have st: "stable me (iw s0) w" and t: "read_at E me (iw s0) rg ?G T t"
      and ring: "nring (procs w me) = nring (procs (iw s0) me)" by blast+
    have "ncfg (procs w me) = ncfg (procs (iw s0) me)" using st by (simp only: stable_def)
    with own have own': "set (Owners (nring (procs w me)) (rQuery rg ''key'') (cReplicas (ncfg (procs w me)))) \<subseteq> T"
      by (simp only: ring rg(2))
    have "validateKey (rQuery rg ''key'') = None" by (simp only: rg(2,3))
    from read_own [OF wf f st own' rg(1) this t step] have "read_at E me (iw s0) rg ?G T t'" .
    with other [OF J ev tstep_effect [OF step]] show "?J (tr' @ [ev]) t' w'" by simp
  qed
  then show ?thesis using fin rg(2) by auto
qed

text \<open>
  C3. An acknowledged write is read. Let a \<open>SET\<close> have been answered by a fan-out that no owner
  failed, and let a \<open>GET\<close> of the key arrive after that, at any process whose ring and peer map
  lead to the same owners. Whatever other requests, fan-outs, repairs, sweeps and lost calls
  interleave with the two, the \<open>GET\<close> is answered with 503, when it could not get through, or
  with a hit: a value and a stamp that were written together for the key, where the stamp is
  newer than that of the \<open>SET\<close> or is that stamp, and then the value is the one of the \<open>SET\<close>
  (unless another value of the key was written with the same stamp). So it is never answered
  with a miss or an older version. (The key is not deleted or given a lifetime, the processes
  have room for the keys they are sent, and the two coordinators' members do not change while
  they serve the two requests.)
\<close>

theorem acknowledged_writes_are_read:
  assumes "boot w" "irun E (iboot w) tr0 s0"
    and "i < length (ithreads s0)" "ithreads s0 ! i = (a, WriteT (SetArrived rq))" "body_of (rBody rq) = Some b"
    and "irun E s0 tr1 s1" "\<forall>ev \<in> set tr1. \<not> moves a ev"
    and "ithreads s1 ! i = (a, Finished (fan_reply ''PUT'' b owners acked []))" "0 < acked"
    and "j < length (ithreads s1)" "ithreads s1 ! j = (c, GetT (GetArrived rg))"
    and "rMethod rg = ''GET''" "rQuery rg ''key'' = kb_key b" "validateKey (kb_key b) = None"
    and "set (Owners (nring (procs (iw s1) c)) (kb_key b) (cReplicas (ncfg (procs (iw s1) c)))) \<subseteq> set owners"
    and "\<forall>nid \<in> set owners. target E c nid (iw s1) = target E a nid (iw s0)"
    and "irun E s1 tr2 s2" "\<forall>ev \<in> set tr2. \<not> moves c ev \<and> \<not> reshapes c ev"
    and "roomy w (kb_key b) (tr0 @ tr1 @ tr2)" "ithreads s2 ! j = (c, Finished res)"
  shows "\<exists>b' \<in> stamped E rq. (\<forall>nid \<in> set owners. reached_by E a (iw s0) ''PUT'' b' tr1 nid)
    \<and> (rStatus res = 503 \<or> (\<exists>g. res = writeJSON 200 (encode_get g) \<and> gr_found g \<and> gr_key g = kb_key b
        \<and> (gr_value g, gr_written g) \<in> written (kb_key b) (tr0 @ tr1 @ tr2)
        \<and> (kb_written b' < gr_written g \<or> gr_written g = kb_written b'
            \<and> (inj_on snd (written (kb_key b) (tr0 @ tr1 @ tr2)) \<longrightarrow> gr_value g = kb_value b))))"
proof -
  have wf: "istate_wf E s0"
    using irun_wf [OF assms(2)] iboot_wf assms(1) by (blast intro: cluster_reach_inv reach_boot)
  have ok: "rStatus (fan_reply ''PUT'' b owners acked []) = 200" using assms(9) by (simp add: fan_reply_def writeJSON_def)
  obtain b' where b': "b' \<in> stamped E rq" and ans: "answers_write E a (iw s0) ''PUT'' b' tr1 (fan_reply ''PUT'' b owners acked [])"
    using irun_write [OF assms(6) wf assms(3,4) _ _ assms(7,8) ok, of "''PUT''" rq] by (auto simp: write_bodies_def)
  then obtain owners' acked' failed' where eq: "fan_reply ''PUT'' b owners acked [] = fan_reply ''PUT'' b' owners' acked' failed'"
      and len: "acked' + length failed' = length owners'"
      and each: "\<forall>nid \<in> set owners' - set failed'. reached_by E a (iw s0) ''PUT'' b' tr1 nid"
    unfolding answers_write_def by blast
  then have T: "\<forall>nid \<in> set owners. reached_by E a (iw s0) ''PUT'' b' tr1 nid" using fan_reply_names [OF eq] by simp
  have "rStatus (fan_reply ''PUT'' b' owners' acked' failed') = 200" using ok by (simp only: eq)
  then have "owners' \<noteq> []" using len by (auto simp: fan_reply_def writeJSON_def)
  then obtain nid where "nid \<in> set owners" using fan_reply_names [OF eq] by (cases owners') auto
  then obtain p where p: "performed ''PUT'' b' p tr1" using T by (auto simp: reached_by_def)
  have bs: "kb_key b = kb_key b'" "kb_value b = kb_value b'" using stampedD [OF b' assms(5)] by auto
  let ?W = "written (kb_key b') (tr0 @ tr1 @ tr2)"
  have in_W: "(kb_value b', kb_written b') \<in> ?W"
    using performed_version [OF p, of "tr0 @ tr1 @ tr2"] unfolding written_def by auto
  have "irun E (iboot w) (tr0 @ tr1) s1" using assms(2,6) by (rule irun_trans)
  from run_fresh [OF assms(1) this assms(17,10,11,12) _ _ _ T assms(16)]
  have f: "fresh_reply (kb_key b') (since (kb_written b') ?W) res"
    using assms(13-15,18-20) by (simp add: bs(1))
  have "kb_written b' < n \<or> n = kb_written b' \<and> (inj_on snd ?W \<longrightarrow> v = kb_value b')"
    if "(v, n) \<in> since (kb_written b') ?W" for v n
    using that in_W inj_onD [of snd ?W "(v, n)" "(kb_value b', kb_written b')"] by (auto simp: since_def)
  then show ?thesis using b' T f unfolding fresh_reply_def bs by (intro bexI [of _ b'] conjI) (auto simp: since_def)
qed

lemma demo_acked_run:
  "\<exists>w2 tr. irun demo_env demo_set_start tr
      \<lparr>iw = w2, ithreads = [(''a'', Finished (fan_reply ''PUT'' demo_body [''a'', ''b''] 2 []))]\<rparr>
    \<and> world_inv demo_env w2 \<and> procs w2 ''a'' = procs (demo_with demo_body) ''a''
    \<and> set tr = {Quiet, set_event demo_env ''a'' demo_body demo_world, set_event demo_env ''b'' demo_body (demo_with demo_body)}"
proof -
  let ?E = demo_env
  obtain w2 ok where set: "local_set ?E ''b'' demo_body (demo_with demo_body) = Some (ok, w2)"
    and r6: "irun ?E demo_set_start
      [Quiet, Quiet, set_event ?E ''a'' demo_body demo_world, Quiet, Quiet, set_event ?E ''b'' demo_body (demo_with demo_body)]
      \<lparr>iw = w2, ithreads = [(''a'', demo_fan (WDone None)
        (WCall (Answered (ok_resp ''applied'' ok (self_id ''b'' (demo_with demo_body))))) 0 [])]\<rparr>"
    using demo_set_prefix by blast
  define res where "res = ok_resp ''applied'' ok (self_id ''b'' (demo_with demo_body))"
  have s7: "tstep ?E ''a'' (Worker 1 False) (demo_fan (WDone None) (WCall (Answered res)) 0 []) w2
      = continue (demo_fan (WDone None) (WCall (Returned (Inr res))) 0 []) w2"
    by (simp add: demo_fan_def write_step_def call_step_def)
  note r7 = run_thread [OF r6 [folded res_def] _ _ s7, where i = 0, simplified]
  have s8: "tstep ?E ''a'' (Worker 1 False) (demo_fan (WDone None) (WCall (Returned (Inr res))) 0 []) w2
      = continue (demo_fan (WDone None) (WDone None) 0 []) w2"
    by (simp add: demo_fan_def write_step_def write_result_def res_def ok_resp_def writeJSON_def)
  note r8 = run_thread [OF r7 _ _ s8, where i = 0, simplified]
  have s9: "tstep ?E ''a'' (Receive 0) (demo_fan (WDone None) (WDone None) 0 []) w2
      = continue (demo_fan WTaken (WDone None) 1 []) w2"
    by (simp add: demo_fan_def Let_def)
  note r9 = run_thread [OF r8 _ _ s9, where i = 0, simplified]
  have s10: "tstep ?E ''a'' (Receive 1) (demo_fan WTaken (WDone None) 1 []) w2 = continue (demo_fan WTaken WTaken 2 []) w2"
    by (simp add: demo_fan_def)
  note r10 = run_thread [OF r9 [simplified One_nat_def [symmetric]] _ _ s10, where i = 0, simplified]
  have s11: "tstep ?E ''a'' (Go False) (demo_fan WTaken WTaken 2 []) w2
      = continue (Finished (fan_reply ''PUT'' demo_body [''a'', ''b''] 2 [])) w2"
    by (simp add: demo_fan_def)
  note r11 = run_thread [OF r10 _ _ s11, where i = 0, simplified]
  have w2: "world_inv ?E w2"
    using local_set_applied [OF demo_with_inv [of demo_body], of "''b''" demo_body] unfolding set rep_rel_def by blast+
  obtain ok' s' where "w2 = upd ''b'' ((procs (demo_with demo_body) ''b'')\<lparr>nstore := s'\<rparr>) ((demo_with demo_body)\<lparr>ticks := ticks (demo_with demo_body) + 1\<rparr>)"
    using local_set_SomeE [OF demo_with_inv [of demo_body], of demo_body "''b''"] set by (metis option.inject prod.inject)
  then have a: "procs w2 ''a'' = procs (demo_with demo_body) ''a''" by (simp add: upd_def)
  show ?thesis by (intro exI conjI, rule r11, rule w2, rule a) auto
qed

lemma demo_ops:
  assumes "set tr = {Quiet, set_event demo_env ''a'' demo_body demo_world, set_event demo_env ''b'' demo_body (demo_with demo_body)}"
    and "CacheOp p x \<in> set ([Arrive ''a'' demo_put] @ (tr @ [Arrive ''a'' demo_get]) @ [Quiet, get_event demo_env ''a'' ''k'' w, Quiet, Quiet])"
  shows "(\<exists>n. x = OpSet n ''k'' ''v'' 0 7) \<or> (\<exists>n. x = OpGet n ''k'')"
  using assms(2) by (auto simp: assms(1) event_defs dur_mul_def wrap64_def)

lemma demo_room:
  assumes "set tr = {Quiet, set_event demo_env ''a'' demo_body demo_world, set_event demo_env ''b'' demo_body (demo_with demo_body)}"
  shows "roomy demo_world ''k'' ([Arrive ''a'' demo_put] @ (tr @ [Arrive ''a'' demo_get]) @ [Quiet, get_event demo_env ''a'' ''k'' w, Quiet, Quiet])"
    (is "roomy _ _ ?full")
  unfolding roomy_def
proof (intro allI conjI impI)
  fix p x
  show "lasting ''k'' x" if "CacheOp p x \<in> set ?full" using demo_ops [OF assms that] by (elim disjE exE) auto
  have "keys_at p ?full \<subseteq> {''k''}" using demo_ops [OF assms] unfolding keys_at_def by blast
  then have "card (keys_at p ?full) \<le> 1" using card_mono [of "{''k''}"] by simp
  then show "int (card (keys_at p ?full)) \<le> capacity (nstore (procs demo_world p))" by (simp add: New_store_def)
qed

lemma demo_written:
  assumes "set tr = {Quiet, set_event demo_env ''a'' demo_body demo_world, set_event demo_env ''b'' demo_body (demo_with demo_body)}"
  shows "written ''k'' ([Arrive ''a'' demo_put] @ (tr @ [Arrive ''a'' demo_get]) @ [Quiet, get_event demo_env ''a'' ''k'' w, Quiet, Quiet])
    \<subseteq> {(''v'', 7)}"
  using demo_ops [OF assms] unfolding written_def writes_at_def by blast

theorem acknowledged_writes_are_read_witness:
  "\<exists>tr s res g. irun demo_env demo_set_start tr s \<and> ithreads s ! 1 = (''a'', Finished res)
    \<and> res = writeJSON 200 (encode_get g) \<and> gr_found g \<and> gr_key g = ''k'' \<and> gr_value g = ''v'' \<and> gr_written g = 7"
proof -
  let ?E = demo_env and ?w = "demo_with demo_body" and ?f = "fan_reply ''PUT'' demo_body [''a'', ''b''] 2 []"
  obtain w2 tr where r: "irun ?E demo_set_start tr \<lparr>iw = w2, ithreads = [(''a'', Finished ?f)]\<rparr>"
    and w2: "world_inv ?E w2" and a: "procs w2 ''a'' = procs ?w ''a''"
    and tr: "set tr = {Quiet, set_event ?E ''a'' demo_body demo_world, set_event ?E ''b'' demo_body ?w}"
    using demo_acked_run by blast
  have slot: "slot ''k'' ''a'' w2 = Some (slot_item demo_body)" "permanent (slot_item demo_body)"
    using demo_with_slot [of demo_body] a
    by (simp_all add: slot_def slot_item_def expiry_def dur_mul_def wrap64_def permanent_def in_int64_def min_int64_def max_int64_def)
  have st: "start_thread ''a'' demo_put v = WriteT (SetArrived demo_put)" "start_thread ''a'' demo_get v = GetT (GetArrived demo_get)"
    for v by (simp_all add: start_thread_def demo_put_def demo_get_def)
  have r0: "irun ?E (iboot demo_world) [Arrive ''a'' demo_put] demo_set_start"
    using run_arrive [of ?E "iboot demo_world" "[]" demo_world "[]" "''a''" demo_put] irun_start [of ?E "iboot demo_world"]
    by (simp add: iboot_def demo_set_start_def st)
  note r1 = run_arrive [OF r, where me = "''a''" and r = demo_get, unfolded st, simplified]
  let ?s1 = "\<lparr>iw = w2, ithreads = [(''a'', Finished ?f), (''a'', GetT (GetArrived demo_get))]\<rparr>"
  obtain w' ts' res where r2: "irun ?E ?s1 [Quiet, get_event ?E ''a'' ''k'' w2, Quiet, Quiet] \<lparr>iw = w', ithreads = ts'\<rparr>"
    and res: "ts' ! 1 = (''a'', Finished res)" "rStatus res = 200"
    using demo_get_steps [OF irun_start [of ?E ?s1], of 1 "slot_item demo_body"] w2 slot demo_with_owners [of demo_body "''a''"]
    by (auto simp: writeJSON_def a)
  note room = demo_room [OF tr, of w2]
  have w: "self_id ''a'' w2 = ''a''" "nring (procs w2 ''a'') = nring (procs ?w ''a'')" by (simp_all add: a)
  have own: "Owners (nring (procs w2 ''a'')) ''k'' (cReplicas (ncfg (procs w2 ''a''))) = [''a'', ''b'']"
    using demo_with_owners [of demo_body "''a''"] by (simp add: a)
  have names: "\<forall>nid \<in> set [''a'', ''b'']. target ?E ''a'' nid (iw ?s1) = target ?E ''a'' nid (iw demo_set_start)"
    by (simp add: target_def peerURL_def a demo_set_start_def)
  have get: "rQuery demo_get ''key'' = kb_key demo_body" by simp
  let ?full = "[Arrive ''a'' demo_put] @ (tr @ [Arrive ''a'' demo_get]) @ [Quiet, get_event ?E ''a'' ''k'' w2, Quiet, Quiet]"
  have "\<exists>b' \<in> stamped ?E demo_put. (\<forall>nid \<in> set [''a'', ''b'']. reached_by ?E ''a'' (iw demo_set_start) ''PUT'' b' (tr @ [Arrive ''a'' demo_get]) nid)
    \<and> (rStatus res = 503 \<or> (\<exists>g. res = writeJSON 200 (encode_get g) \<and> gr_found g \<and> gr_key g = kb_key demo_body
        \<and> (gr_value g, gr_written g) \<in> written (kb_key demo_body) ?full
        \<and> (kb_written b' < gr_written g \<or> gr_written g = kb_written b'
            \<and> (inj_on snd (written (kb_key demo_body) ?full) \<longrightarrow> gr_value g = kb_value demo_body))))"
    by (rule acknowledged_writes_are_read [where i = 0 and j = 1 and a = "''a''" and c = "''a''" and w = demo_world and acked = 2,
          OF demo_boot r0 _ _ demo_put_body r1 _ _ _ _ _ demo_get_simps(1) get _ _ names r2])
      (use room own res in \<open>simp_all add: demo_set_start_def tr event_defs\<close>)
  then obtain g where g: "res = writeJSON 200 (encode_get g)" "gr_found g"
      "gr_key g = ''k''" "(gr_value g, gr_written g) \<in> written ''k'' ?full"
    using res(2) by auto
  then have "gr_value g = ''v''" "gr_written g = 7" using demo_written [OF tr, of w2] by blast+
  then show ?thesis using irun_trans [OF r1 r2] res(1) g(1-3) by (intro exI conjI) auto
qed

end
