(* ===== verification/Load.thy ===== *)
theory Load
  imports Bench
begin

text \<open>
  \<open>runPhase\<close> of \<open>cmd/ratebench/main.go\<close>: a test server behind the middleware, a producer that
  turns the ticks of a ticker into jobs of a bounded channel and drops the tick when the channel
  is full, workers that take a job, send a request and count its answer, and the main goroutine,
  which after the duration closes \<open>stop\<close>, waits for the producer, closes \<open>jobs\<close> and waits for the
  workers. A step is one access to a channel, to a counter or to the slice under its mutex, or a
  step of a request inside the middleware (\<open>mw_exec\<close>). A send on the closed channel panics.
  The cluster behind it moves only when a request of the run asks it: a run has no other traffic
  and no idle sweep of a limiter.
\<close>

section \<open>The server under test\<close>

definition load_middleware :: "(string \<Rightarrow> string) \<Rightarrow> string list \<Rightarrow> rat \<Rightarrow> rat \<Rightarrow> mw_config" where
  "load_middleware getenv addrs r b =
    mw_defaults getenv
      \<lparr>mAddrs = Some addrs, mRate = r, mBurst = b, mCost = 1, mAPIKeyHeader = ''X-API-Key'', mMaxInFlight = 0,
       mDisabled = False, mDryRun = False, mKeyFunc = None\<rparr>"

definition load_request :: "string \<Rightarrow> api_request" where
  "load_request apiKey = \<lparr>aHeader = (\<lambda>h. if h = ''X-API-Key'' then apiKey else '''')\<rparr>"

definition status_of :: "verdict \<Rightarrow> int" where
  "status_of v = (case v of Served \<Rightarrow> 200 | TooManyConcurrent \<Rightarrow> 429 | RateLimited s d \<Rightarrow> 429)"

section \<open>The goroutines of a run\<close>

datatype producer = Selecting | Offering | Returned | Panicked

text \<open>\<open>Awaiting k\<close>: \<open>client.Do\<close> with the request that is thread \<open>k\<close> of the server.\<close>

datatype load_worker = Ranging | Awaiting nat | Recording int duration | Counting int | Exited

datatype load_main = Sleeping | Stopped | Drained | Reported

record load =
  ld_mw :: mw_state
  ld_stop :: bool
  ld_tick :: bool
  ld_jobs :: nat
  ld_closed :: bool
  ld_prod :: producer
  ld_workers :: "load_worker list"
  ld_lats :: "duration list"
  ld_allowed :: nat
  ld_denied :: nat
  ld_main :: load_main

definition load_start :: "world \<Rightarrow> load" where
  "load_start w = \<lparr>ld_mw = mw_start w, ld_stop = False, ld_tick = False, ld_jobs = 0, ld_closed = False,
    ld_prod = Selecting, ld_workers = replicate 128 Ranging, ld_lats = [], ld_allowed = 0, ld_denied = 0,
    ld_main = Sleeping\<rparr>"

text \<open>
  The scheduler's choices: the ticker fires; the producer goes on, its \<open>select\<close> taking \<open>stop\<close> or
  the tick when it has both; a worker goes on, its request being sent, refused, answered after
  some time or given up; a request goes on inside the server; the main goroutine goes on.
\<close>

datatype worker_choice = Send | Refuse | Answer duration | GiveUp

datatype load_choice = Fire | Produce bool | Work nat worker_choice | Serve nat | Main

section \<open>The steps\<close>

definition produce :: "bool \<Rightarrow> load \<Rightarrow> load option" where
  "produce stopped s =
    (case ld_prod s of
       Selecting \<Rightarrow>
         (if stopped then (if ld_stop s then Some (s\<lparr>ld_prod := Returned\<rparr>) else None)
          else if ld_tick s then Some (s\<lparr>ld_tick := False, ld_prod := Offering\<rparr>) else None)
     | Offering \<Rightarrow>
         (if ld_closed s then Some (s\<lparr>ld_prod := Panicked\<rparr>)
          else if ld_jobs s < 1024 then Some (s\<lparr>ld_jobs := ld_jobs s + 1, ld_prod := Selecting\<rparr>)
          else Some (s\<lparr>ld_prod := Selecting\<rparr>))
     | _ \<Rightarrow> None)"

text \<open>The answer to request \<open>k\<close>, once there is one; without the middleware it is 200.\<close>

definition answer_of :: "mw_config option \<Rightarrow> nat \<Rightarrow> load \<Rightarrow> int option" where
  "answer_of c k s =
    (case c of
       None \<Rightarrow> Some 200
     | Some cfg \<Rightarrow> (case snd (threads (ld_mw s) ! k) of Done v \<Rightarrow> Some (status_of v) | _ \<Rightarrow> None))"

definition work_on :: "mw_config option \<Rightarrow> string \<Rightarrow> nat \<Rightarrow> worker_choice \<Rightarrow> load \<Rightarrow> load option" where
  "work_on c apiKey i ch s =
    (if i < length (ld_workers s) then
       (let next = (\<lambda>pc s. s\<lparr>ld_workers := (ld_workers s)[i := pc]\<rparr>)
        in case ld_workers s ! i of
             Ranging \<Rightarrow>
               (if 0 < ld_jobs s then
                  (let s1 = s\<lparr>ld_jobs := ld_jobs s - 1\<rparr>
                   in if ch = Send then
                        Some (next (Awaiting (length (threads (ld_mw s))))
                          (if c = None then s1
                           else s1\<lparr>ld_mw := (ld_mw s)\<lparr>threads := threads (ld_mw s) @ [(load_request apiKey, Arrived)]\<rparr>\<rparr>))
                      else if ch = Refuse then Some s1
                      else None)
                else if ld_closed s then Some (next Exited s)
                else None)
           | Awaiting k \<Rightarrow>
               (case ch of
                  Answer dt \<Rightarrow> (case answer_of c k s of None \<Rightarrow> None | Some st \<Rightarrow> Some (next (Recording st dt) s))
                | GiveUp \<Rightarrow> Some (next Ranging s)
                | _ \<Rightarrow> None)
           | Recording st dt \<Rightarrow> Some (next (Counting st) (s\<lparr>ld_lats := ld_lats s @ [dt]\<rparr>))
           | Counting st \<Rightarrow>
               Some (next Ranging
                 (if st = 429 then s\<lparr>ld_denied := ld_denied s + 1\<rparr>
                  else if st = 200 then s\<lparr>ld_allowed := ld_allowed s + 1\<rparr>
                  else s))
           | Exited \<Rightarrow> None)
     else None)"

definition run_main :: "load \<Rightarrow> load option" where
  "run_main s =
    (case ld_main s of
       Sleeping \<Rightarrow> Some (s\<lparr>ld_stop := True, ld_main := Stopped\<rparr>)
     | Stopped \<Rightarrow> (if ld_prod s = Returned then Some (s\<lparr>ld_closed := True, ld_main := Drained\<rparr>) else None)
     | Drained \<Rightarrow> (if list_all (\<lambda>x. x = Exited) (ld_workers s) then Some (s\<lparr>ld_main := Reported\<rparr>) else None)
     | Reported \<Rightarrow> None)"

definition load_exec ::
  "env \<Rightarrow> (nat \<Rightarrow> loss) \<Rightarrow> mw_config option \<Rightarrow> string \<Rightarrow> load_choice \<Rightarrow> load \<Rightarrow> load option" where
  "load_exec E lost c apiKey ch s =
    (case ch of
       Fire \<Rightarrow> (if ld_prod s \<in> {Selecting, Offering} \<and> \<not> ld_tick s then Some (s\<lparr>ld_tick := True\<rparr>) else None)
     | Produce stopped \<Rightarrow> produce stopped s
     | Work i wch \<Rightarrow> work_on c apiKey i wch s
     | Serve k \<Rightarrow> (case c of None \<Rightarrow> None | Some cfg \<Rightarrow> map_option (\<lambda>m. s\<lparr>ld_mw := m\<rparr>) (mw_exec E lost cfg k (ld_mw s)))
     | Main \<Rightarrow> run_main s)"

inductive load_reach :: "env \<Rightarrow> (nat \<Rightarrow> loss) \<Rightarrow> mw_config option \<Rightarrow> string \<Rightarrow> world \<Rightarrow> load \<Rightarrow> bool"
  for E lost c apiKey w where
  load_reach_start: "load_reach E lost c apiKey w (load_start w)"
| load_reach_step: "load_reach E lost c apiKey w s \<Longrightarrow> load_exec E lost c apiKey ch s = Some s'
    \<Longrightarrow> load_reach E lost c apiKey w s'"

section \<open>The report\<close>

record load_report =
  lr_allowed :: nat
  lr_denied :: nat
  lr_rate :: "(rat \<times> rat) option"
  lr_percentiles :: "duration \<times> duration"
  lr_samples :: nat
  lr_fail_open :: int

definition report :: "goarch \<Rightarrow> rat \<Rightarrow> duration \<Rightarrow> int \<Rightarrow> load \<Rightarrow> load_report" where
  "report a goal dur failOpenBefore s =
    \<lparr>lr_allowed = ld_allowed s, lr_denied = ld_denied s, lr_rate = rate_report a (ld_allowed s) goal dur,
     lr_percentiles = percentiles (ld_lats s), lr_samples = length (ld_lats s),
     lr_fail_open = fail_open (ld_mw s) - failOpenBefore\<rparr>"

section \<open>Waiting for the cluster\<close>

text \<open>\<open>waitHealthy\<close> of ratebench: the last error is that of a failed request only.\<close>

fun rate_round :: "(string \<Rightarrow> string + int) \<Rightarrow> string list \<Rightarrow> nat \<Rightarrow> string option \<Rightarrow> nat \<times> string option" where
  "rate_round get [] ok lastErr = (ok, lastErr)"
| "rate_round get (a # as) ok lastErr =
    (case get (trim_right_char CHR ''/'' a @ ''/health'') of
       Inl e \<Rightarrow> rate_round get as ok (Some e)
     | Inr status \<Rightarrow> rate_round get as (if status = 200 then ok + 1 else ok) lastErr)"

partial_function (option) rate_wait_loop ::
  "(nat \<Rightarrow> string \<Rightarrow> string + int) \<Rightarrow> (nat \<Rightarrow> time) \<Rightarrow> string list \<Rightarrow> time \<Rightarrow> nat \<Rightarrow> string option \<Rightarrow> string option option" where
  "rate_wait_loop get clk addrs deadline k lastErr =
    (if time_before (clk k) deadline then
       (case rate_round (get k) addrs 0 lastErr of
          (ok, lastErr') \<Rightarrow>
            if ok = length addrs then Some None
            else rate_wait_loop get clk addrs deadline (Suc k) lastErr')
     else Some (Some (''not healthy: '' @ (case lastErr of None \<Rightarrow> ''<nil>'' | Some e \<Rightarrow> e))))"

definition rate_waitHealthy ::
  "(nat \<Rightarrow> string \<Rightarrow> string + int) \<Rightarrow> (nat \<Rightarrow> time) \<Rightarrow> string list \<Rightarrow> duration \<Rightarrow> string option option" where
  "rate_waitHealthy get clk addrs d = rate_wait_loop get clk addrs (time_add (clk 0) d) 1 None"

section \<open>How the benchmarks start\<close>

text \<open>An exit status, or the addresses to run against.\<close>

definition bench_addrs :: "(string \<Rightarrow> string) \<Rightarrow> string option \<Rightarrow> string list" where
  "bench_addrs getenv addrs = splitCSV (flag_value addrs (env_or getenv ''RINGCACHE_ADDRS''
    ''http://127.0.0.1:8080,http://127.0.0.1:8081,http://127.0.0.1:8082''))"

definition bench_start ::
  "(string \<Rightarrow> string) \<Rightarrow> string option \<Rightarrow> (nat \<Rightarrow> string \<Rightarrow> string + int) \<Rightarrow> (nat \<Rightarrow> time) \<Rightarrow> (int + string list) option" where
  "bench_start getenv addrs get clk =
    (let bases = bench_addrs getenv addrs
     in if bases = [] then Some (Inl 2)
        else map_option (\<lambda>err. if err \<noteq> None then Inl 1 else Inr bases) (waitHealthy get clk bases (15 * second)))"

definition rate_start ::
  "(string \<Rightarrow> string) \<Rightarrow> string option \<Rightarrow> (nat \<Rightarrow> string \<Rightarrow> string + int) \<Rightarrow> (nat \<Rightarrow> time) \<Rightarrow> (int + string list) option" where
  "rate_start getenv addrs get clk =
    (let addrList = bench_addrs getenv addrs
     in map_option (\<lambda>err. if err \<noteq> None then Inl 1 else Inr addrList) (rate_waitHealthy get clk addrList (15 * second)))"

end
