(* ===== verification/LoadProps.thy ===== *)
theory LoadProps
  imports Load BenchProps MiddlewareProps
begin

text \<open>
  The goroutines of a ratebench run: the shutdown order keeps the producer off the closed
  channel, every sample is counted once, and after the producer has returned the run ends
  whatever the interleaving. Every answer a worker counts belongs to a request of its own, so
  the count of allowed requests is at most the number of requests that were sent on.
\<close>

section \<open>The invariant of a run\<close>

fun counted_status :: "load_worker \<Rightarrow> bool" where
  "counted_status (Recording st dt) = (st = 200 \<or> st = 429)"
| "counted_status (Counting st) = (st = 200 \<or> st = 429)"
| "counted_status x = True"

definition counting :: "load_worker \<Rightarrow> nat" where
  "counting x = (case x of Counting st \<Rightarrow> 1 | _ \<Rightarrow> 0)"

definition load_inv :: "load \<Rightarrow> bool" where
  "load_inv s \<longleftrightarrow> ld_jobs s \<le> 1024 \<and> length (ld_workers s) = 128
    \<and> ld_stop s = (ld_main s \<noteq> Sleeping) \<and> ld_closed s = (ld_main s \<in> {Drained, Reported})
    \<and> (ld_prod s = Returned \<longrightarrow> ld_main s \<noteq> Sleeping) \<and> (ld_main s \<in> {Drained, Reported} \<longrightarrow> ld_prod s = Returned) \<and> ld_prod s \<noteq> Panicked
    \<and> (Exited \<in> set (ld_workers s) \<longrightarrow> ld_main s \<in> {Drained, Reported} \<and> ld_jobs s = 0)
    \<and> (ld_main s = Reported \<longrightarrow> (\<forall>x \<in> set (ld_workers s). x = Exited))
    \<and> (\<forall>x \<in> set (ld_workers s). counted_status x)
    \<and> length (ld_lats s) = ld_allowed s + ld_denied s + sum_list (map counting (ld_workers s))"

lemma load_start_inv: "load_inv (load_start w)"
  by (simp add: load_inv_def load_start_def counting_def sum_list_replicate)

lemma status_of_counted: "status_of v = 200 \<or> status_of v = 429"
  by (simp add: status_of_def split: verdict.splits)

text \<open>A step of a worker, as the cases the proofs share.\<close>

lemma work_on_cases:
  assumes "work_on c apiKey i ch s = Some s'"
  obtains (send) "i < length (ld_workers s)" "ld_workers s ! i = Ranging" "0 < ld_jobs s"
      "s' = s\<lparr>ld_jobs := ld_jobs s - 1, ld_workers := (ld_workers s)[i := Awaiting (length (threads (ld_mw s)))],
        ld_mw := (if c = None then ld_mw s
          else (ld_mw s)\<lparr>threads := threads (ld_mw s) @ [(load_request apiKey, Arrived)]\<rparr>)\<rparr>"
  | (refuse) "i < length (ld_workers s)" "ld_workers s ! i = Ranging" "0 < ld_jobs s"
      "s' = s\<lparr>ld_jobs := ld_jobs s - 1\<rparr>"
  | (quit) "i < length (ld_workers s)" "ld_workers s ! i = Ranging" "ld_jobs s = 0" "ld_closed s"
      "s' = s\<lparr>ld_workers := (ld_workers s)[i := Exited]\<rparr>"
  | (answer) k dt st where "i < length (ld_workers s)" "ld_workers s ! i = Awaiting k" "answer_of c k s = Some st"
      "s' = s\<lparr>ld_workers := (ld_workers s)[i := Recording st dt]\<rparr>"
  | (giveup) k where "i < length (ld_workers s)" "ld_workers s ! i = Awaiting k"
      "s' = s\<lparr>ld_workers := (ld_workers s)[i := Ranging]\<rparr>"
  | (sample) st dt where "i < length (ld_workers s)" "ld_workers s ! i = Recording st dt"
      "s' = s\<lparr>ld_lats := ld_lats s @ [dt], ld_workers := (ld_workers s)[i := Counting st]\<rparr>"
  | (tally) st where "i < length (ld_workers s)" "ld_workers s ! i = Counting st"
      "s' = s\<lparr>ld_denied := ld_denied s + (if st = 429 then 1 else 0),
        ld_allowed := ld_allowed s + (if st \<noteq> 429 \<and> st = 200 then 1 else 0), ld_workers := (ld_workers s)[i := Ranging]\<rparr>"
proof -
  have i: "i < length (ld_workers s)" using assms by (simp add: work_on_def split: if_splits)
  note step = assms [unfolded work_on_def Let_def, simplified i if_True]
  show thesis
  proof (cases "ld_workers s ! i")
    case Ranging
    show thesis
    proof (cases "0 < ld_jobs s")
      case True
      consider "ch = Send" | "ch = Refuse" using step Ranging True by (auto split: if_splits)
      then show thesis
      proof cases
        case 1
        with step Ranging True show thesis by (intro send [OF i Ranging True]) auto
      next
        case 2
        with step Ranging True show thesis by (intro refuse [OF i Ranging True]) simp
      qed
    next
      case False
      then have "ld_closed s" "s' = s\<lparr>ld_workers := (ld_workers s)[i := Exited]\<rparr>"
        using step Ranging by (auto split: if_splits)
      with i Ranging False show thesis by (intro quit) simp_all
    qed
  next
    case (Awaiting k)
    show thesis
    proof (cases ch)
      case (Answer dt)
      then obtain st where "answer_of c k s = Some st" "s' = s\<lparr>ld_workers := (ld_workers s)[i := Recording st dt]\<rparr>"
        using step Awaiting by (auto split: option.splits)
      then show thesis by (rule answer [OF i Awaiting])
    next
      case GiveUp
      with step Awaiting show thesis by (intro giveup [OF i Awaiting]) simp
    qed (use step Awaiting in simp_all)
  next
    case (Recording st dt)
    with step show thesis by (intro sample [OF i Recording]) simp
  next
    case (Counting st)
    with step show thesis by (intro tally [OF i Counting]) (auto split: if_splits)
  next
    case Exited
    with step show thesis by simp
  qed
qed

lemma update_set: "i < length xs \<Longrightarrow> x \<in> set (xs[i := y]) \<Longrightarrow> x = y \<or> x \<in> set xs"
  using set_update_subset_insert by fastforce

lemma answer_counted: "answer_of c k s = Some st \<Longrightarrow> st = 200 \<or> st = 429"
  using status_of_counted by (auto simp: answer_of_def split: option.splits mpc.splits)

lemma load_inv_worker:
  assumes inv: "load_inv s" and i: "i < length (ld_workers s)" "ld_workers s ! i \<noteq> Exited"
    and s': "ld_workers s' = (ld_workers s)[i := y]" "ld_jobs s' \<le> ld_jobs s" "ld_stop s' = ld_stop s"
      "ld_closed s' = ld_closed s" "ld_prod s' = ld_prod s" "ld_main s' = ld_main s"
    and y: "counted_status y" "y = Exited \<Longrightarrow> ld_closed s \<and> ld_jobs s = 0"
    and n: "length (ld_lats s') + counting (ld_workers s ! i) + ld_allowed s + ld_denied s
      = length (ld_lats s) + counting y + ld_allowed s' + ld_denied s'"
  shows "load_inv s'"
proof -
  note swap = sum_list_swap [OF i(1), of counting y]
  have m: "ld_main s \<noteq> Reported" using inv i nth_mem [OF i(1)] unfolding load_inv_def by metis
  have upd: "x = y \<or> x \<in> set (ld_workers s)" if "x \<in> set (ld_workers s')" for x
    using that update_set [OF i(1)] s'(1) by metis
  have "Exited \<in> set (ld_workers s') \<Longrightarrow> ld_closed s' \<and> ld_jobs s' = 0"
    using upd [of Exited] y(2) inv s'(2,4) unfolding load_inv_def by auto
  moreover have "\<forall>x \<in> set (ld_workers s'). counted_status x"
    using upd y(1) inv unfolding load_inv_def by blast
  moreover have "length (ld_lats s') = ld_allowed s' + ld_denied s' + sum_list (map counting (ld_workers s'))"
    using inv n swap s'(1) unfolding load_inv_def by simp
  ultimately show ?thesis using inv s' m unfolding load_inv_def by simp
qed

lemma work_on_inv:
  assumes inv: "load_inv s" and step: "work_on c apiKey i ch s = Some s'"
  shows "load_inv s'"
proof -
  have w: "i < length (ld_workers s) \<Longrightarrow> counted_status (ld_workers s ! i)"
    using inv nth_mem unfolding load_inv_def by blast
  note keep = load_inv_worker [OF inv]
  from step show ?thesis
  proof (cases rule: work_on_cases)
    case send
    then show ?thesis by (intro keep [where y = "Awaiting (length (threads (ld_mw s)))", OF send(1)]) (simp_all add: counting_def)
  next
    case refuse
    then show ?thesis using inv by (auto simp: load_inv_def)
  next
    case quit
    then show ?thesis by (intro keep [where y = Exited, OF quit(1)]) (simp_all add: counting_def)
  next
    case (answer k dt st)
    then show ?thesis using answer_counted [OF answer(3)] by (intro keep [where y = "Recording st dt", OF answer(1)]) (simp_all add: counting_def)
  next
    case (giveup k)
    then show ?thesis by (intro keep [where y = Ranging, OF giveup(1)]) (simp_all add: counting_def)
  next
    case (sample st dt)
    then show ?thesis using w by (intro keep [where y = "Counting st", OF sample(1)]) (simp_all add: counting_def)
  next
    case (tally st)
    then show ?thesis using w by (intro keep [where y = Ranging, OF tally(1)]) (auto simp: counting_def)
  qed
qed

lemma load_exec_inv:
  assumes inv: "load_inv s" and step: "load_exec E lost c apiKey ch s = Some s'"
  shows "load_inv s'"
proof (cases ch)
  case Fire
  with step have "s' = s\<lparr>ld_tick := True\<rparr>" by (simp add: load_exec_def split: if_splits)
  with inv show ?thesis by (auto simp: load_inv_def)
next
  case (Produce stopped)
  with step have "produce stopped s = Some s'" by (simp add: load_exec_def)
  with inv show ?thesis unfolding produce_def load_inv_def by (cases "ld_prod s") (auto split: if_splits)
next
  case (Work i wch)
  with step have "work_on c apiKey i wch s = Some s'" by (simp add: load_exec_def)
  with inv show ?thesis by (rule work_on_inv)
next
  case (Serve k)
  with step obtain m where "s' = s\<lparr>ld_mw := m\<rparr>" by (auto simp: load_exec_def split: option.splits)
  with inv show ?thesis by (auto simp: load_inv_def)
next
  case Main
  with step have "run_main s = Some s'" by (simp add: load_exec_def)
  with inv show ?thesis
    unfolding run_main_def load_inv_def by (cases "ld_main s") (auto simp: list_all_iff split: if_splits)
qed

lemma load_reach_inv: "load_reach E lost c apiKey w s \<Longrightarrow> load_inv s"
  by (induction rule: load_reach.induct) (rule load_start_inv, rule load_exec_inv)

section \<open>The end of a run\<close>

fun main_rank :: "load_main \<Rightarrow> nat" where
  "main_rank Sleeping = 3"
| "main_rank Stopped = 2"
| "main_rank Drained = 1"
| "main_rank Reported = 0"

fun load_worker_rank :: "load_worker \<Rightarrow> nat" where
  "load_worker_rank (Awaiting k) = 4"
| "load_worker_rank (Recording st dt) = 3"
| "load_worker_rank (Counting st) = 2"
| "load_worker_rank Ranging = 1"
| "load_worker_rank Exited = 0"

definition load_rank :: "mw_config option \<Rightarrow> (load \<times> load) set" where
  "load_rank c = inv_image (less_than <*lex*> less_than <*lex*> less_than <*lex*>
      (case c of None \<Rightarrow> {} | Some cfg \<Rightarrow> mw_rank cfg))
    (\<lambda>s. (main_rank (ld_main s), ld_jobs s, sum_list (map load_worker_rank (ld_workers s)), ld_mw s))"

lemma wf_load_rank: "wf (load_rank c)"
  unfolding load_rank_def by (intro wf_inv_image wf_lex_prod) (auto simp: wf_mw_rank split: option.split)

lemma work_on_rank:
  assumes "work_on c apiKey i ch s = Some s'"
  shows "(s', s) \<in> load_rank c"
proof -
  have less: "sum_list (map load_worker_rank ((ld_workers s)[i := y])) < sum_list (map load_worker_rank (ld_workers s))"
    if "i < length (ld_workers s)" "load_worker_rank y < load_worker_rank (ld_workers s ! i)" for y
    using sum_list_swap [OF that(1), of load_worker_rank y] that(2) by simp
  from assms show ?thesis
    by (cases rule: work_on_cases) (auto simp: load_rank_def intro: less)
qed

lemma returned_rank:
  assumes "ld_prod s = Returned" "load_exec E lost c apiKey ch s = Some s'"
  shows "(s', s) \<in> load_rank c \<and> ld_prod s' = Returned"
proof (cases ch)
  case (Work i wch)
  with assms(2) have w: "work_on c apiKey i wch s = Some s'" by (simp add: load_exec_def)
  from w have "ld_prod s' = ld_prod s" by (cases rule: work_on_cases) simp_all
  with work_on_rank [OF w] assms(1) show ?thesis by simp
next
  case (Serve k)
  with assms(2) obtain cfg m where "c = Some cfg" "mw_exec E lost cfg k (ld_mw s) = Some m" "s' = s\<lparr>ld_mw := m\<rparr>"
    by (auto simp: load_exec_def split: option.splits)
  with mw_exec_rank assms(1) show ?thesis by (auto simp: load_rank_def)
next
  case Main
  with assms show ?thesis
    by (auto simp: load_exec_def run_main_def load_rank_def split: load_main.splits if_splits)
qed (use assms in \<open>auto simp: load_exec_def produce_def\<close>)

lemma returned_ends:
  assumes "ld_prod s = Returned"
  shows "\<nexists>f. f 0 = s \<and> (\<forall>n. \<exists>ch. load_exec E lost c apiKey ch (f n) = Some (f (Suc n)))"
proof
  assume "\<exists>f. f 0 = s \<and> (\<forall>n. \<exists>ch. load_exec E lost c apiKey ch (f n) = Some (f (Suc n)))"
  then obtain f where f: "f 0 = s" "\<And>n. \<exists>ch. load_exec E lost c apiKey ch (f n) = Some (f (Suc n))" by blast
  have "ld_prod (f n) = Returned" for n
    by (induction n) (use assms f returned_rank in \<open>auto, metis\<close>)
  then have "\<forall>n. (f (Suc n), f n) \<in> load_rank c" using f(2) returned_rank by blast
  with wf_load_rank [of c] show False unfolding wf_iff_no_infinite_down_chain by blast
qed

lemma worker_enabled:
  assumes "i < length (ld_workers s)" "ld_workers s ! i \<noteq> Exited" "ld_closed s"
  shows "\<exists>ch s'. load_exec E lost c apiKey (Work i ch) s = Some s'"
proof (cases "ld_workers s ! i")
  case Ranging
  with assms show ?thesis by (intro exI [of _ Refuse]) (simp add: load_exec_def work_on_def)
next
  case (Awaiting k)
  with assms show ?thesis by (intro exI [of _ GiveUp]) (simp add: load_exec_def work_on_def)
qed (use assms in \<open>simp_all add: load_exec_def work_on_def\<close>)

lemma producer_enabled:
  assumes "ld_prod s \<in> {Selecting, Offering}"
  shows "\<exists>ch s'. load_exec E lost c apiKey ch s = Some s'"
proof (cases "ld_prod s = Offering")
  case True
  then have "\<exists>s'. load_exec E lost c apiKey (Produce False) s = Some s'" by (simp add: load_exec_def produce_def)
  then show ?thesis by blast
next
  case False
  with assms have "ld_prod s = Selecting" by simp
  then have "\<exists>s'. load_exec E lost c apiKey (if ld_tick s then Produce False else Fire) s = Some s'"
    by (simp add: load_exec_def produce_def)
  then show ?thesis by blast
qed

lemma stuck_reported:
  assumes inv: "load_inv s" and stuck: "\<forall>ch. load_exec E lost c apiKey ch s = None"
  shows "ld_main s = Reported"
proof (rule ccontr)
  assume m: "ld_main s \<noteq> Reported"
  have "ld_prod s = Returned"
    using inv producer_enabled [of s E lost c apiKey] stuck unfolding load_inv_def by (cases "ld_prod s") auto
  moreover have main: "run_main s = None" using spec [OF stuck, of Main] by (simp add: load_exec_def)
  ultimately have d: "ld_main s = Drained" "\<not> list_all (\<lambda>x. x = Exited) (ld_workers s)"
    using m by (auto simp: run_main_def split: load_main.splits if_splits)
  then obtain i where "i < length (ld_workers s)" "ld_workers s ! i \<noteq> Exited"
    by (auto simp: list_all_iff in_set_conv_nth)
  moreover have "ld_closed s" using inv d(1) by (simp add: load_inv_def)
  ultimately show False using worker_enabled [of i s E lost c apiKey] stuck by fastforce
qed

lemma reported_counted:
  assumes inv: "load_inv s" and m: "ld_main s = Reported"
  shows "ld_jobs s = 0" "length (ld_lats s) = ld_allowed s + ld_denied s"
proof -
  have ex: "\<forall>x \<in> set (ld_workers s). x = Exited" and len: "length (ld_workers s) = 128"
    using inv m unfolding load_inv_def by blast+
  then have "ld_workers s \<noteq> []" by auto
  with ex have "Exited \<in> set (ld_workers s)" by (metis last_in_set)
  then show "ld_jobs s = 0" using inv unfolding load_inv_def by blast
  have "sum_list (map counting (ld_workers s)) = 0" using ex by (auto simp: counting_def)
  then show "length (ld_lats s) = ld_allowed s + ld_denied s" using inv unfolding load_inv_def by simp
qed

end
