(* ===== verification/LoadTakes.thy ===== *)
theory LoadTakes
  imports LoadProps
begin

text \<open>
  What the takes of a ratebench run do to the cluster, whatever is lost on the way: every take
  that gets through is one request to the limiter of the key's primary, and a client that reads
  an allowed decision has been granted one of them. So the requests that the middleware has
  sent on are paid for by a granted take each, or were let through because the cluster could not
  be read.
\<close>

section \<open>Takes at the primary\<close>

text \<open>
  The processes of \<open>ps\<close> agree that \<open>q\<close> is the primary of the key and know it by a URL that leads
  to it, or nowhere once it is gone.
\<close>

definition agreed :: "env \<Rightarrow> string set \<Rightarrow> string \<Rightarrow> string \<Rightarrow> world \<Rightarrow> bool" where
  "agreed E ps q key w \<longleftrightarrow> q \<noteq> '''' \<and> (\<forall>p \<in> ps. self_id p w = p \<and> Primary (nring (procs w p)) key = q
    \<and> (p \<noteq> q \<longrightarrow> route E (trim_right_char CHR ''/'' (peerURL (procs w p) q)) \<in> {None, Some q}))"

lemma agreed_same: "same_members w w' \<Longrightarrow> agreed E ps q key w \<Longrightarrow> agreed E ps q key w'"
  by (simp add: agreed_def same_members_def peerURL_def)

text \<open>From \<open>w\<close> to \<open>w'\<close> the limiter of \<open>q\<close> served \<open>n\<close> takes for \<open>b\<close>, of which \<open>g\<close> were granted.\<close>

definition takes_by :: "env \<Rightarrow> string \<Rightarrow> rl_body \<Rightarrow> nat \<Rightarrow> nat \<Rightarrow> world \<Rightarrow> world \<Rightarrow> bool" where
  "takes_by E q b n g w w' \<longleftrightarrow> same_members w w' \<and> ticks w + n \<le> ticks w'
    \<and> (\<exists>ts rs. rl_takes (fpu_of (arch E)) (map (\<lambda>t. req_at t b) ts) (nrl (procs w q)) = (rs, nrl (procs w' q))
        \<and> set ts \<subseteq> clock E ` {ticks w..<ticks w'} \<and> length ts = n \<and> length (filter Allowed rs) = g)"

lemma takes_by_none: "same_members w w' \<Longrightarrow> ticks w \<le> ticks w' \<Longrightarrow> nrl (procs w' q) = nrl (procs w q)
    \<Longrightarrow> takes_by E q b 0 0 w w'"
  by (simp add: takes_by_def)

lemma takes_by_trans:
  assumes "takes_by E q b n g w w1" "takes_by E q b n' g' w1 w2"
  shows "takes_by E q b (n + n') (g + g') w w2"
proof -
  obtain ts rs where 1: "rl_takes (fpu_of (arch E)) (map (\<lambda>t. req_at t b) ts) (nrl (procs w q)) = (rs, nrl (procs w1 q))"
      "set ts \<subseteq> clock E ` {ticks w..<ticks w1}" "length ts = n" "length (filter Allowed rs) = g"
    using assms(1) unfolding takes_by_def by blast
  obtain ts' rs' where 2: "rl_takes (fpu_of (arch E)) (map (\<lambda>t. req_at t b) ts') (nrl (procs w1 q)) = (rs', nrl (procs w2 q))"
      "set ts' \<subseteq> clock E ` {ticks w1..<ticks w2}" "length ts' = n'" "length (filter Allowed rs') = g'"
    using assms(2) unfolding takes_by_def by blast
  have le: "ticks w + n \<le> ticks w1" "ticks w1 + n' \<le> ticks w2" "same_members w w2"
    using assms by (simp_all add: takes_by_def same_members_def)
  then have "clock E ` {ticks w..<ticks w1} \<union> clock E ` {ticks w1..<ticks w2} \<subseteq> clock E ` {ticks w..<ticks w2}"
    by auto
  with 1(2) 2(2) have "set (ts @ ts') \<subseteq> clock E ` {ticks w..<ticks w2}" unfolding set_append by blast
  moreover have "rl_takes (fpu_of (arch E)) (map (\<lambda>t. req_at t b) (ts @ ts')) (nrl (procs w q)) = (rs @ rs', nrl (procs w2 q))"
    using 1(1) 2(1) by (simp add: rl_takes_append)
  ultimately show ?thesis
    using le 1(3,4) 2(3,4) unfolding takes_by_def by (intro conjI exI [of _ "ts @ ts'"] exI [of _ "rs @ rs'"]) auto
qed

text \<open>A response that a client reads as an allowed decision.\<close>

definition reads_allowed :: "response \<Rightarrow> bool" where
  "reads_allowed res \<longleftrightarrow> rStatus res = 200
    \<and> (\<exists>j d. rReply res = BJson j \<and> decode_decision j = Some d \<and> d_allowed d)"

lemma not_allowed_error [simp]: "\<not> reads_allowed (http_error e n)"
  by (simp add: reads_allowed_def http_error_def)

lemma limited_allowed: "reads_allowed \<lparr>rStatus = n, rReply = limit_body ft (rReply res)\<rparr> \<Longrightarrow> rStatus res = n
    \<Longrightarrow> reads_allowed res"
  by (auto simp: reads_allowed_def limit_body_def split: body.splits if_splits)

text \<open>A take by the limiter of \<open>q\<close>, and the answer made of it.\<close>

lemma local_take_by:
  assumes "world_inv E w" "rl_valid b" "local_take E q b w = (res, w')"
  shows "takes_by E q b 1 (if Allowed res then 1 else 0) w w'"
    and "reads_allowed (take_resp p s res) \<Longrightarrow> Allowed res" and "world_inv E w'"
proof -
  have t: "Take_store (fpu_of (arch E)) (clock E (ticks w)) (rb_key b) (rb_rate b) (rb_burst b) (rb_cost b)
      (nrl (procs w q)) = (res, nrl (procs w' q))" "same_members w w'"
    using local_take_effect [OF assms(3)] by blast+
  have k: "ticks w' = ticks w + 1" using assms(3) by (auto simp: local_take_def tick_def Let_def split_beta upd_def)
  show "world_inv E w'" using wf.take_ok [OF _ assms(2,1), of q] assms(3) by simp
  show "takes_by E q b 1 (if Allowed res then 1 else 0) w w'"
    unfolding takes_by_def using t k
    by (intro conjI exI [of _ "[clock E (ticks w)]"] exI [of _ "[res]"]) (auto simp: req_at_def same_members_def)
  have "rl_inv (fpu_of (arch E)) (nrl (procs w q))" using world_invD [OF assms(1)] by (rule node_invD)
  then have "is_float (Remaining res) \<and> in_int64 (RetryAfterMs res)"
    by (rule answer_sendable [of _ _ "rb_burst b" "clock E (ticks w)" "rb_key b" "rb_rate b" "rb_cost b"]) (use assms(2) t(1) in \<open>simp_all add: rl_valid_def\<close>)
  then show "reads_allowed (take_resp p s res) \<Longrightarrow> Allowed res"
    by (auto simp: reads_allowed_def take_resp_def writeJSON_def decode_decision_rlresp)
qed

section \<open>A take through a coordinator\<close>

text \<open>At most one take reaches the limiter of \<open>q\<close>, and an allowed answer comes from a granted one.\<close>

definition one_take :: "env \<Rightarrow> string \<Rightarrow> rl_body \<Rightarrow> bool \<Rightarrow> world \<Rightarrow> world \<Rightarrow> bool" where
  "one_take E q b yes w w' \<longleftrightarrow> world_inv E w'
    \<and> (\<exists>n g. takes_by E q b n g w w' \<and> (yes \<longrightarrow> 1 \<le> g))"

lemma no_take:
  "same_members w w' \<Longrightarrow> ticks w \<le> ticks w' \<Longrightarrow> nrl (procs w' q) = nrl (procs w q) \<Longrightarrow> world_inv E w'
    \<Longrightarrow> one_take E q b False w w'"
  using takes_by_none unfolding one_take_def by blast

lemma one_take_served:
  assumes "world_inv E w" "rl_valid b" "local_take E q b w = (res, w')"
  shows "one_take E q b (reads_allowed (take_resp p s res)) w w'"
  using local_take_by [OF assms] unfolding one_take_def
  by (intro conjI exI [of _ 1] exI [of _ "if Allowed res then 1 else 0"]) auto

lemma one_take_mono: "one_take E q b yes w w' \<Longrightarrow> yes' \<longrightarrow> yes \<Longrightarrow> one_take E q b yes' w w'"
  unfolding one_take_def by blast

text \<open>The failure of a call marks the primary down, which is no take.\<close>

lemma one_take_marked:
  assumes "one_take E q b yes w w'"
  shows "one_take E q b False w (mark_down E me nid w')"
proof -
  obtain n g where t: "takes_by E q b n g w w'" "world_inv E w'" using assms unfolding one_take_def by blast
  have m: "world_inv E (mark_down E me nid w')" "same_members w' (mark_down E me nid w')"
    using wf.mark_ok [OF _ t(2)] by simp_all
  have "nrl (procs (mark_down E me nid w') q) = nrl (procs w' q)" "ticks w' \<le> ticks (mark_down E me nid w')"
    by (simp_all add: mark_down_def tick_def upd_def Let_def markDown_frame)
  then have "takes_by E q b 0 0 w' (mark_down E me nid w')" using m(2) by (intro takes_by_none)
  from takes_by_trans [OF t(1) this] m(1) show ?thesis unfolding one_take_def by auto
qed

lemma call_primary:
  assumes w: "world_inv E w" and b: "rl_valid b" and r: "rMethod r = ''POST''" "rPath r = ''/internal/ratelimit/take''"
      "parseRateLimitBody (rBody r) = Inr b"
    and base: "route E base \<in> {None, Some q}" and c: "client_do E base r w = Some (x, w')"
  shows "one_take E q b (\<exists>res. x = Inr res \<and> reads_allowed res) w w'"
proof -
  define w1 where "w1 = w\<lparr>calls := calls w + 1\<rparr>"
  have w1: "world_inv E w1" "same_members w w1" "ticks w1 = ticks w" "procs w1 = procs w"
    using w by (simp_all add: w1_def same_members_def)
  have none: "one_take E q b False w w1" using w1 by (intro no_take) simp_all
  show ?thesis
  proof (cases "route E base = None \<or> fault E (calls w) = DropRequest")
    case True
    then have "w' = w1" "\<exists>e. x = Inl e"
      using c base by (auto simp: client_do_def w1_def Let_def split: option.splits)
    with none show ?thesis by auto
  next
    case False
    then have route: "route E base = Some q" using base by auto
    obtain res w2 where t: "local_take E q b w1 = (res, w2)" by force
    have "handleInternalRateLimitTake E q r w1 = (take_resp (self_id q w1) (self_id q w1) res, w2)"
      using r t by (simp add: handleInternalRateLimitTake_def)
    then have eq: "(if fault E (calls w) = DropResponse then Inl ''timeout''
        else Inr (take_resp (self_id q w1) (self_id q w1) res)) = x" "w' = w2"
      using c route False r(2) by (auto simp: client_do_def w1_def)
    have served: "one_take E q b (reads_allowed (take_resp (self_id q w1) (self_id q w1) res)) w w2"
      using one_take_served [OF w1(1) b t] w1(2-4) by (auto simp: one_take_def takes_by_def same_members_def)
    have "(\<exists>y. x = Inr y \<and> reads_allowed y) \<longrightarrow> reads_allowed (take_resp (self_id q w1) (self_id q w1) res)"
      using eq(1) by (auto split: if_splits)
    with one_take_mono [OF served] eq(2) show ?thesis by blast
  qed
qed

text \<open>The take that another process forwards to the primary.\<close>

lemma forwarded_take:
  assumes w: "world_inv E w" and valid: "rl_valid b"
    and len: "length (json_text (float_text E) (encode_rl b)) \<le> maxValueBytes + 4096"
    and base: "route E (trim_right_char CHR ''/'' (peerURL (procs w me) q)) \<in> {None, Some q}"
    and h: "Some (resp, w') = (case forwardRateLimit E me q b w of
            None \<Rightarrow> None
          | Some (Inl e, w1) \<Rightarrow> Some (http_error ''primary unreachable'' 503, mark_down E me q w1)
          | Some (Inr res, w1) \<Rightarrow> Some (res, w1))"
  shows "one_take E q b (reads_allowed resp) w w'"
proof -
  have idle: "one_take E q b False w w" using w by (intro no_take) (simp_all add: same_members_def)
  define base where "base = trim_right_char CHR ''/'' (peerURL (procs w me) q)"
  define req where "req = \<lparr>rPath = ''/internal/ratelimit/take'', rMethod = ''POST'', rQuery = (\<lambda>_. ''''),
    rBody = marshal (float_text E) (encode_rl b)\<rparr>"
  show ?thesis
  proof (cases "base = ''''")
    case True
    then have "resp = http_error ''primary unreachable'' 503" "w' = mark_down E me q w"
      using h by (simp_all add: forwardRateLimit_def base_def [symmetric])
    with one_take_marked [OF idle] show ?thesis by simp
  next
    case url: False
    obtain x w1 where c: "client_do E base req w = Some (x, w1)"
      using h url by (cases "client_do E base req w")
        (auto simp: forwardRateLimit_def Let_def base_def [symmetric] req_def [symmetric])
    have t: "one_take E q b (\<exists>res. x = Inr res \<and> reads_allowed res) w w1"
      by (rule call_primary [OF w valid _ _ _ base [folded base_def] c]) (simp_all add: req_def parse_forwarded [OF valid len])
    show ?thesis
    proof (cases x)
      case (Inl e)
      then have "resp = http_error ''primary unreachable'' 503" "w' = mark_down E me q w1"
        using h url c by (simp_all add: forwardRateLimit_def base_def [symmetric] req_def [symmetric])
      with one_take_marked [OF t] show ?thesis by simp
    next
      case (Inr res)
      then have "resp = \<lparr>rStatus = rStatus res, rReply = limit_body (float_text E) (rReply res)\<rparr>" "w' = w1"
        using h url c by (simp_all add: forwardRateLimit_def base_def [symmetric] req_def [symmetric])
      then have "reads_allowed resp \<longrightarrow> (\<exists>res. x = Inr res \<and> reads_allowed res)"
        using Inr limited_allowed by blast
      with one_take_mono [OF t] \<open>w' = w1\<close> show ?thesis by blast
    qed
  qed
qed

lemma coordinator_takes:
  assumes w: "world_inv E w" and ag: "agreed E ps q key w" "me \<in> ps"
    and b: "parseRateLimitBody (rBody r) = Inr b" "rb_key b = key"
    and len: "length (json_text (float_text E) (encode_rl b)) \<le> maxValueBytes + 4096"
    and h: "handleRateLimitTake E me r w = Some (resp, w')"
  shows "one_take E q b (reads_allowed resp) w w'"
proof -
  have valid: "rl_valid b" using b(1) by (rule parse_valid)
  have q: "Primary (nring (procs w me)) (rb_key b) = q" "q \<noteq> ''''" "self_id me w = me"
    using ag b(2) by (auto simp: agreed_def)
  have idle: "one_take E q b False w w" using w by (intro no_take) (simp_all add: same_members_def)
  show ?thesis
  proof (cases "rMethod r \<noteq> ''POST'' \<and> rMethod r \<noteq> ''PUT''")
    case True
    then show ?thesis using h idle by (auto simp: handleRateLimitTake_def)
  next
    case m: False
    show ?thesis
    proof (cases "q = me")
      case True
      obtain res w2 where t: "local_take E me b w = (res, w2)" by force
      then have "resp = take_resp q me res" "w' = w2"
        using h m b(1) q True by (auto simp: handleRateLimitTake_def Let_def)
      with one_take_served [OF w valid t] True show ?thesis by simp
    next
      case False
      then have "route E (trim_right_char CHR ''/'' (peerURL (procs w me) q)) \<in> {None, Some q}"
        using ag by (auto simp: agreed_def)
      moreover have "Some (resp, w') = (case forwardRateLimit E me q b w of
            None \<Rightarrow> None
          | Some (Inl e, w1) \<Rightarrow> Some (http_error ''primary unreachable'' 503, mark_down E me q w1)
          | Some (Inr res, w1) \<Rightarrow> Some (res, w1))"
        using h m b(1) q False by (simp add: handleRateLimitTake_def Let_def)
      ultimately show ?thesis by (rule forwarded_take [OF w valid len])
    qed
  qed
qed

section \<open>The client\<close>

lemma attempt_takes:
  assumes w: "world_inv E w" and ag: "agreed E ps q key w"
    and route: "\<forall>p. route E base = Some p \<longrightarrow> p \<in> ps"
    and valid: "rl_valid \<lparr>rb_key = key, rb_rate = r, rb_burst = bb, rb_cost = cost\<rparr>"
    and len: "length (json_text (float_text E) (take_body key r bb cost)) \<le> maxValueBytes + 4096"
      "length (json_text (float_text E) (encode_rl \<lparr>rb_key = key, rb_rate = r, rb_burst = bb, rb_cost = cost\<rparr>))
        \<le> maxValueBytes + 4096"
    and a: "attempt E lost base (take_request E key r bb cost) w = Some (x, w')"
  shows "one_take E q \<lparr>rb_key = key, rb_rate = r, rb_burst = bb, rb_cost = cost\<rparr>
    (\<exists>res. x = Inr res \<and> reads_allowed res) w w'"
proof -
  define w1 where "w1 = w\<lparr>calls := calls w + 1\<rparr>"
  define b where "b = \<lparr>rb_key = key, rb_rate = r, rb_burst = bb, rb_cost = cost\<rparr>"
  define req where "req = take_request E key r bb cost"
  have w1: "world_inv E w1" "same_members w w1" "ticks w1 = ticks w" "procs w1 = procs w"
    using w by (simp_all add: w1_def same_members_def)
  have none: "one_take E q b False w w1" using w1 by (intro no_take) simp_all
  show ?thesis
  proof (cases "route E base = None \<or> lost (calls w) = RequestLost")
    case True
    then have "w' = w1" "\<exists>e. x = Inl e"
      using a by (auto simp: attempt_def w1_def Let_def split: option.splits)
    with none show ?thesis by (auto simp: b_def)
  next
    case False
    then obtain p where p: "route E base = Some p" "p \<in> ps" using route by auto
    have "rPath req = ''/v1/ratelimit/take''" by (simp add: req_def take_request_def)
    then obtain resp w2 where h: "handleRateLimitTake E p req w1 = Some (resp, w2)"
      using a p False by (cases "serve E p req w1") (auto simp: attempt_def w1_def Let_def req_def serve_def)
    then have s: "serve E p req w1 = Some (resp, w2)" using \<open>rPath req = _\<close> by (simp add: serve_def)
    have "one_take E q b (reads_allowed resp) w1 w2"
      using parse_take_body [OF valid len(1)] len(2)
      by (intro coordinator_takes [OF w1(1) agreed_same [OF w1(2) ag] p(2) _ _ _ h])
        (simp_all add: req_def take_request_def b_def)
    then have t: "one_take E q b (reads_allowed resp) w w2"
      using w1(2-4) by (auto simp: one_take_def takes_by_def same_members_def)
    have eq: "(if lost (calls w) = AnswerLost then Inl ''timeout''
        else if lost (calls w) = BodyLost then Inr (resp\<lparr>rReply := BText ''''\<rparr>)
        else Inr (resp\<lparr>rReply := limit_body (float_text E) (rReply resp)\<rparr>)) = x" "w' = w2"
      using a p(1) False s by (simp_all add: attempt_def w1_def req_def Let_def)
    have "(\<exists>res. x = Inr res \<and> reads_allowed res) \<longrightarrow> reads_allowed resp"
      using eq(1) by (auto simp: reads_allowed_def limit_body_def split: if_splits body.splits)
    with one_take_mono [OF t] eq(2) show ?thesis unfolding b_def by blast
  qed
qed

lemma one_take_trans:
  "one_take E q b yes w w1 \<Longrightarrow> one_take E q b yes' w1 w2 \<Longrightarrow> one_take E q b yes' w w2"
  unfolding one_take_def using takes_by_trans by (metis add_leE le_add2 le_trans)

lemma one_take_members: "one_take E q b yes w w' \<Longrightarrow> same_members w w' \<and> world_inv E w'"
  unfolding one_take_def takes_by_def by blast

lemma client_takes:
  assumes "world_inv E w" "agreed E ps q key w"
    and "\<forall>a \<in> set addrs. \<forall>p. route E (trim_right_char CHR ''/'' a) = Some p \<longrightarrow> p \<in> ps"
    and "rl_valid \<lparr>rb_key = key, rb_rate = r, rb_burst = bb, rb_cost = cost\<rparr>"
    and "length (json_text (float_text E) (take_body key r bb cost)) \<le> maxValueBytes + 4096"
      "length (json_text (float_text E) (encode_rl \<lparr>rb_key = key, rb_rate = r, rb_burst = bb, rb_cost = cost\<rparr>))
        \<le> maxValueBytes + 4096"
    and "client_Take E lost addrs key r bb cost w = Some (x, w')"
  shows "one_take E q \<lparr>rb_key = key, rb_rate = r, rb_burst = bb, rb_cost = cost\<rparr>
    (\<exists>d. x = Inr d \<and> d_allowed d) w w'"
proof -
  define b where "b = \<lparr>rb_key = key, rb_rate = r, rb_burst = bb, rb_cost = cost\<rparr>"
  have tries: "one_take E q b (\<exists>d. x = Inr d \<and> d_allowed d) w w'"
    if "try_addrs E lost (take_request E key r bb cost) as e w = Some (x, w')" "set as \<subseteq> set addrs"
      "world_inv E w" "agreed E ps q key w" for as e w
    using that
  proof (induction as arbitrary: e w)
    case Nil
    then show ?case by (auto intro!: no_take simp: same_members_def)
  next
    case (Cons a as)
    obtain y w1 where a: "attempt E lost (trim_right_char CHR ''/'' a) (take_request E key r bb cost) w = Some (y, w1)"
      using Cons.prems(1) by (auto split: option.splits)
    have route: "\<forall>p. route E (trim_right_char CHR ''/'' a) = Some p \<longrightarrow> p \<in> ps"
      using assms(3) Cons.prems(2) by auto
    have t: "one_take E q b (\<exists>res. y = Inr res \<and> reads_allowed res) w w1"
      unfolding b_def by (rule attempt_takes [OF Cons.prems(3,4) route assms(4-6) a])
    then have w1: "world_inv E w1" "agreed E ps q key w1"
      using one_take_members agreed_same Cons.prems(4) by blast+
    have rest: "one_take E q b (\<exists>d. x = Inr d \<and> d_allowed d) w w'"
      if "try_addrs E lost (take_request E key r bb cost) as e' w1 = Some (x, w')" for e'
      using one_take_trans [OF t] Cons.IH [OF that _ w1] Cons.prems(2) by simp
    show ?case
    proof (cases y)
      case (Inl e')
      with Cons.prems(1) a rest show ?thesis by simp
    next
      case (Inr res)
      show ?thesis
      proof (cases "rStatus res = 200 \<and> (\<exists>j d. rReply res = BJson j \<and> decode_decision j = Some d)")
        case True
        then obtain j d where "rReply res = BJson j" "decode_decision j = Some d" "x = Inr d" "w' = w1"
          using Cons.prems(1) a Inr by auto
        with True Inr one_take_mono [OF t] show ?thesis by (auto simp: reads_allowed_def)
      next
        case False
        then obtain e' where "try_addrs E lost (take_request E key r bb cost) as e' w1 = Some (x, w')"
          using Cons.prems(1) a Inr by (auto split: if_splits body.splits option.splits)
        then show ?thesis by (rule rest)
      qed
    qed
  qed
  have "one_take E q b False w w" using assms(1) by (intro no_take) (simp_all add: same_members_def)
  with assms(7) tries [OF _ order_refl assms(1,2)] show ?thesis
    unfolding b_def [symmetric] by (auto simp: client_Take_def split: if_splits)
qed

section \<open>The requests that were sent on\<close>

fun passed :: "mpc \<Rightarrow> bool" where
  "passed (Handling h) = True"
| "passed (Leaving h v) = (v = Served)"
| "passed (Done v) = (v = Served)"
| "passed pc = False"

definition passes :: "mw_state \<Rightarrow> nat" where
  "passes m = sum_list (map (\<lambda>t. of_bool (passed (snd t))) (threads m))"

lemma passes_goto:
  "i < length (threads m) \<Longrightarrow> passes (goto i pc m) + of_bool (passed (snd (threads m ! i))) = passes m + of_bool (passed pc)"
  using sum_list_swap [of i "threads m" "\<lambda>t. of_bool (passed (snd t)) :: nat"] by (simp add: passes_def goto_def)

lemma passes_cong: "threads m' = threads m \<Longrightarrow> passes m' = passes m"
  by (simp add: passes_def)

text \<open>A middleware that limits, and the one key and primary of its requests.\<close>

definition limits :: "mw_config \<Rightarrow> string list \<Rightarrow> rl_body \<Rightarrow> bool" where
  "limits c addrs b \<longleftrightarrow> \<not> mDisabled c \<and> \<not> mDryRun c \<and> mAddrs c = Some addrs
    \<and> mRate c = rb_rate b \<and> mBurst c = rb_burst b \<and> mCost c = rb_cost b"

definition takes_fit :: "env \<Rightarrow> string set \<Rightarrow> string list \<Rightarrow> rl_body \<Rightarrow> bool" where
  "takes_fit E ps addrs b \<longleftrightarrow> rl_valid b
    \<and> (\<forall>a \<in> set addrs. \<forall>p. route E (trim_right_char CHR ''/'' a) = Some p \<longrightarrow> p \<in> ps)
    \<and> length (json_text (float_text E) (take_body (rb_key b) (rb_rate b) (rb_burst b) (rb_cost b))) \<le> maxValueBytes + 4096
    \<and> length (json_text (float_text E) (encode_rl b)) \<le> maxValueBytes + 4096"

lemma rl_body_eta: "\<lparr>rb_key = rb_key b, rb_rate = rb_rate b, rb_burst = rb_burst b, rb_cost = rb_cost b\<rparr> = (b :: rl_body)"
  by simp

lemma client_takes_fit:
  assumes "world_inv E w" "agreed E ps q (rb_key b) w" "takes_fit E ps addrs b"
    and "client_Take E lost addrs (rb_key b) (rb_rate b) (rb_burst b) (rb_cost b) w = Some (x, w')"
  shows "one_take E q b (\<exists>d. x = Inr d \<and> d_allowed d) w w'"
  using client_takes [of E w ps q "rb_key b" addrs "rb_rate b" "rb_burst b" "rb_cost b" lost x w'] assms
  unfolding takes_fit_def rl_body_eta by blast

text \<open>A step of a request inside the middleware that sends it on has been granted, or fails open.\<close>

lemma mw_exec_paid:
  assumes step: "mw_exec E lost c i m = Some m'" and c: "limits c addrs b"
    and key: "\<forall>t \<in> set (threads m). mw_key c (fst t) = rb_key b"
    and w: "world_inv E (mworld m)" "agreed E ps q (rb_key b) (mworld m)" "takes_fit E ps addrs b"
  shows "\<exists>n g. takes_by E q b n g (mworld m) (mworld m') \<and> world_inv E (mworld m')
    \<and> int (passes m') + fail_open m \<le> int (passes m) + int g + fail_open m'"
proof -
  have same: ?thesis if "mworld m' = mworld m" "fail_open m' = fail_open m" "passes m' \<le> passes m"
    using that w(1) takes_by_none [of "mworld m" "mworld m" q E b]
    by (intro exI [of _ 0]) (simp add: same_members_def)
  have go: "passes (goto i pc m1) \<le> passes m" if "i < length (threads m)" "threads m1 = threads m"
    "passed pc \<longrightarrow> passed (snd (threads m ! i))" for pc m1
    using passes_goto [of i m1 pc] passes_cong [OF that(2)] that by (cases "passed pc") simp_all
  from step show ?thesis
  proof (cases rule: mw_exec_cases)
    case (arrived r)
    with c show ?thesis by (intro same) (auto simp: step_arrived_def limits_def intro!: go)
  next
    case (looking r)
    with c show ?thesis by (intro same) (auto simp: step_looking_def limits_def Let_def intro!: go)
  next
    case (loaded r cur)
    then show ?thesis by (intro same) (auto simp: step_loaded_def intro!: go)
  next
    case (asking r h pc w' f)
    have k: "mw_key c r = rb_key b" using key nth_mem [OF asking(1)] asking(2) by fastforce
    obtain x w2 where t: "client_Take E lost addrs (rb_key b) (rb_rate b) (rb_burst b) (rb_cost b) (mworld m) = Some (x, w2)"
      using asking(3) c k by (auto simp: step_asking_def limits_def split: option.splits)
    obtain n g where tk: "takes_by E q b n g (mworld m) w2" "(\<exists>d. x = Inr d \<and> d_allowed d) \<longrightarrow> 1 \<le> g"
        "world_inv E w2"
      using client_takes_fit [OF w t] unfolding one_take_def by blast
    have add: "passes (goto i pc' m1) = passes m + of_bool (passed pc')" if "threads m1 = threads m" for pc' m1
      using passes_goto [of i m1 pc'] passes_cong [OF that] that asking(1,2) by simp
    have "mworld m' = w2 \<and> int (passes m') + fail_open m \<le> int (passes m) + int g + fail_open m'"
    proof (cases x)
      case (Inl e)
      then have "m' = goto i (Handling h) (m\<lparr>mworld := w2, fail_open := fail_open m + 1\<rparr>)"
        using asking(3) c k t by (simp add: step_asking_def limits_def)
      then show ?thesis using add by simp
    next
      case (Inr d)
      then have "m' = goto i (if d_allowed d then Handling h else Leaving h (RateLimited (retry_sec (d_retry d)) d)) (m\<lparr>mworld := w2\<rparr>)"
        using asking(3) c k t by (cases "d_allowed d") (simp_all add: step_asking_def limits_def)
      then show ?thesis using add tk(2) Inr by auto
    qed
    with tk(1,3) show ?thesis by blast
  next
    case (handling r h)
    then show ?thesis by (intro same) (auto intro!: go)
  next
    case (leaving r h v)
    then show ?thesis by (intro same) (auto simp: step_leaving_def intro!: go)
  qed
qed

text \<open>A step of request \<open>i\<close> moves it alone.\<close>

lemma mw_exec_thread:
  assumes "mw_exec E lost c i m = Some m'"
  shows "i < length (threads m) \<and> (\<forall>v. snd (threads m ! i) \<noteq> Done v)
    \<and> (\<exists>pc. threads m' = (threads m)[i := (fst (threads m ! i), pc)])"
proof -
  define moved where "moved ts \<longleftrightarrow> (\<exists>pc. ts = (threads m)[i := (fst (threads m ! i), pc)])" for ts
  have go: "moved (threads (goto i pc m1))" if "threads m1 = threads m" for pc m1
    using that by (auto simp: goto_def moved_def)
  have "moved (threads m')"
    using assms
  proof (cases rule: mw_exec_cases)
    case (arrived r)
    then show ?thesis unfolding arrived(3) step_arrived_def by (auto intro!: go)
  next
    case (looking r)
    then show ?thesis unfolding looking(3) step_looking_def Let_def by (auto intro!: go)
  next
    case (loaded r cur)
    then show ?thesis unfolding loaded(3) step_loaded_def by (auto intro!: go)
  next
    case (leaving r h v)
    then show ?thesis unfolding leaving(3) step_leaving_def by (auto intro!: go)
  qed (auto intro!: go)
  moreover have "i < length (threads m)" "\<forall>v. snd (threads m ! i) \<noteq> Done v"
    using assms by (cases rule: mw_exec_cases; auto)+
  ultimately show ?thesis unfolding moved_def by blast
qed

lemma mw_exec_requests:
  assumes "mw_exec E lost c i m = Some m'"
  shows "map fst (threads m') = map fst (threads m)"
  using mw_exec_thread [OF assms] by (auto simp: map_update list_update_same_conv)

section \<open>What the workers count\<close>

fun wait_of :: "load_worker \<Rightarrow> nat multiset" where
  "wait_of (Awaiting k) = {#k#}"
| "wait_of x = {#}"

fun holds_200 :: "load_worker \<Rightarrow> nat" where
  "holds_200 (Recording st dt) = of_bool (st = 200)"
| "holds_200 (Counting st) = of_bool (st = 200)"
| "holds_200 x = 0"

definition served_at :: "mw_state \<Rightarrow> nat \<Rightarrow> bool" where
  "served_at m k \<longleftrightarrow> k < length (threads m) \<and> snd (threads m ! k) = Done Served"

definition serveds :: "mw_state \<Rightarrow> nat" where
  "serveds m = sum_list (map (\<lambda>t. of_bool (snd t = Done Served)) (threads m))"

definition waits :: "load \<Rightarrow> nat multiset" where
  "waits s = sum_list (map wait_of (ld_workers s))"

text \<open>
  Every worker waits for a request of its own, and the answers counted and about to be counted
  as allowed belong to different requests that were served.
\<close>

definition claims :: "load \<Rightarrow> bool" where
  "claims s \<longleftrightarrow> (\<forall>k \<in># waits s. k < length (threads (ld_mw s))) \<and> (\<forall>k. count (waits s) k \<le> 1)
    \<and> ld_allowed s + sum_list (map holds_200 (ld_workers s)) + size (filter_mset (served_at (ld_mw s)) (waits s))
      \<le> serveds (ld_mw s)"

lemma serveds_passes: "serveds m \<le> passes m"
  unfolding serveds_def passes_def by (intro sum_list_mono) auto

lemma claims_start: "claims (load_start w)"
proof -
  have "sum_list (replicate n ({#} :: nat multiset)) = {#}" for n by (induction n) auto
  then show ?thesis by (simp add: claims_def load_start_def waits_def sum_list_replicate mw_start_def serveds_def)
qed

lemma claims_worker:
  assumes c: "claims s" and i: "i < length (ld_workers s)" and s': "ld_workers s' = (ld_workers s)[i := y]" "ld_mw s' = ld_mw s"
    and y: "wait_of y \<subseteq># wait_of (ld_workers s ! i)"
    and n: "ld_allowed s' + holds_200 y + size (filter_mset (served_at (ld_mw s)) (wait_of y))
      \<le> ld_allowed s + holds_200 (ld_workers s ! i) + size (filter_mset (served_at (ld_mw s)) (wait_of (ld_workers s ! i)))"
  shows "claims s'"
proof -
  have w: "waits s' + wait_of (ld_workers s ! i) = waits s + wait_of y"
    using sum_list_swap [OF i, of wait_of y] by (simp add: waits_def s'(1))
  obtain v where v: "wait_of (ld_workers s ! i) = wait_of y + v" using y by (metis mset_subset_eq_exists_conv)
  have "waits s' + v = waits s" using w unfolding v by (metis add.assoc add.commute add_right_cancel)
  then have sub: "waits s' \<subseteq># waits s" by (metis mset_subset_eq_add_left)
  have h: "sum_list (map holds_200 (ld_workers s')) + holds_200 (ld_workers s ! i) = sum_list (map holds_200 (ld_workers s)) + holds_200 y"
    using sum_list_swap [OF i, of holds_200 y] by (simp add: s'(1))
  have "size (filter_mset P (waits s')) + size (filter_mset P (wait_of (ld_workers s ! i)))
      = size (filter_mset P (waits s)) + size (filter_mset P (wait_of y))" for P
    using arg_cong [OF w, of "\<lambda>x. size (filter_mset P x)"] by simp
  from this [of "served_at (ld_mw s)"] h n c
  have "ld_allowed s' + sum_list (map holds_200 (ld_workers s')) + size (filter_mset (served_at (ld_mw s)) (waits s'))
      \<le> serveds (ld_mw s)"
    unfolding claims_def by linarith
  moreover have "\<forall>k \<in># waits s'. k < length (threads (ld_mw s))" using c sub unfolding claims_def by (meson mset_subset_eqD)
  moreover have "count (waits s') k \<le> 1" for k
    using c sub mset_subset_eq_count [OF sub, of k] le_trans unfolding claims_def by blast
  ultimately show ?thesis by (simp add: claims_def s'(2))
qed

lemma claims_send:
  assumes c: "claims s" and i: "i < length (ld_workers s)" "ld_workers s ! i = Ranging"
    and s': "ld_workers s' = (ld_workers s)[i := Awaiting (length (threads (ld_mw s)))]" "ld_allowed s' = ld_allowed s"
      "ld_mw s' = (ld_mw s)\<lparr>threads := threads (ld_mw s) @ [(r, Arrived)]\<rparr>"
  shows "claims s'"
proof -
  define k where "k = length (threads (ld_mw s))"
  have w: "waits s' = add_mset k (waits s)"
    using sum_list_swap [OF i(1), of wait_of "Awaiting k"] i(2) by (simp add: waits_def s'(1) k_def)
  have h: "sum_list (map holds_200 (ld_workers s')) = sum_list (map holds_200 (ld_workers s))"
    using sum_list_swap [OF i(1), of holds_200 "Awaiting k"] i(2) by (simp add: s'(1) k_def)
  have below: "\<forall>j \<in># waits s. j < k" using c by (simp add: claims_def k_def)
  then have "filter_mset (served_at (ld_mw s')) (waits s) = filter_mset (served_at (ld_mw s)) (waits s)"
    by (intro filter_mset_cong) (auto simp: served_at_def s'(3) k_def nth_append)
  moreover have "\<not> served_at (ld_mw s') k" by (simp add: served_at_def s'(3) k_def)
  moreover have "serveds (ld_mw s') = serveds (ld_mw s)" by (simp add: serveds_def s'(3))
  moreover have "count (waits s) k = 0" using below by (metis count_eq_zero_iff less_irrefl)
  ultimately show ?thesis
    using c below h unfolding claims_def w s'(2) by (auto simp: s'(3) k_def)
qed

lemma filter_or_size: "size (filter_mset (\<lambda>k. P k \<or> k = i) W) \<le> size (filter_mset P W) + count W i"
  by (induction W) auto

lemma claims_serve:
  assumes c: "claims s" and step: "mw_exec E lost cfg i (ld_mw s) = Some m"
  shows "claims (s\<lparr>ld_mw := m\<rparr>)"
proof -
  define m0 where "m0 = ld_mw s"
  obtain pc where i: "i < length (threads m0)" "\<forall>v. snd (threads m0 ! i) \<noteq> Done v"
      and m: "threads m = (threads m0)[i := (fst (threads m0 ! i), pc)]"
    using mw_exec_thread [OF step] unfolding m0_def by blast
  have len: "length (threads m) = length (threads m0)" by (simp add: m)
  have new: "serveds m = serveds m0 + of_bool (pc = Done Served)"
    using sum_list_swap [OF i(1), of "\<lambda>t. of_bool (snd t = Done Served) :: nat" "(fst (threads m0 ! i), pc)"] i(2)
    by (simp add: serveds_def m)
  have at: "served_at m k \<longleftrightarrow> served_at m0 k \<or> k = i \<and> pc = Done Served" for k
    using i by (cases "k = i") (auto simp: served_at_def m)
  have "size (filter_mset (served_at m) (waits s)) \<le> size (filter_mset (served_at m0) (waits s)) + of_bool (pc = Done Served)"
  proof (cases "pc = Done Served")
    case True
    then have "filter_mset (served_at m) (waits s) = filter_mset (\<lambda>k. served_at m0 k \<or> k = i) (waits s)"
      by (intro filter_mset_cong) (simp_all add: at)
    moreover have "count (waits s) i \<le> 1" using c by (simp add: claims_def)
    ultimately show ?thesis using filter_or_size [of "served_at m0" i "waits s"] True by simp
  qed (simp add: at cong: filter_mset_cong)
  with new c show ?thesis unfolding claims_def m0_def [symmetric] by (simp add: waits_def len)
qed

lemma load_exec_claims:
  assumes c: "claims s" and step: "load_exec E lost (Some cfg) apiKey ch s = Some s'"
  shows "claims s'"
proof -
  have same: "claims s'" if "ld_workers s' = ld_workers s" "ld_mw s' = ld_mw s" "ld_allowed s' = ld_allowed s" for s'
    using c that by (simp add: claims_def waits_def)
  note worker = claims_worker [OF c]
  show ?thesis
  proof (cases ch)
    case Fire
    with step show ?thesis by (intro same) (auto simp: load_exec_def split: if_splits)
  next
    case (Produce stopped)
    with step show ?thesis
      by (intro same) (auto simp: load_exec_def produce_def split: if_splits producer.splits)
  next
    case (Serve k)
    with step obtain m where "mw_exec E lost cfg k (ld_mw s) = Some m" "s' = s\<lparr>ld_mw := m\<rparr>"
      by (auto simp: load_exec_def)
    with claims_serve [OF c] show ?thesis by simp
  next
    case Main
    with step show ?thesis
      by (intro same) (auto simp: load_exec_def run_main_def split: if_splits load_main.splits)
  next
    case (Work i wch)
    with step have "work_on (Some cfg) apiKey i wch s = Some s'" by (simp add: load_exec_def)
    then show ?thesis
    proof (cases rule: work_on_cases)
      case send
      then show ?thesis by (intro claims_send [OF c send(1,2)]) simp_all
    next
      case refuse
      then show ?thesis by (intro same) simp_all
    next
      case quit
      then show ?thesis by (intro worker [where y = Exited, OF quit(1)]) simp_all
    next
      case (answer k dt st)
      have "k \<in># waits s"
        using sum_list_swap [OF answer(1), of wait_of Ranging] answer(2) unfolding waits_def by (metis add.right_neutral
            union_single_eq_member add_mset_add_single wait_of.simps(1,2))
      then have "k < length (threads (ld_mw s))" using c by (simp add: claims_def)
      moreover have "st = 200 \<Longrightarrow> snd (threads (ld_mw s) ! k) = Done Served"
        using answer(3) by (auto simp: answer_of_def status_of_def split: mpc.splits verdict.splits)
      ultimately have "st = 200 \<Longrightarrow> served_at (ld_mw s) k" by (simp add: served_at_def)
      with answer show ?thesis by (intro worker [where y = "Recording st dt", OF answer(1)]) simp_all
    next
      case (giveup k)
      then show ?thesis by (intro worker [where y = Ranging, OF giveup(1)]) simp_all
    next
      case (sample st dt)
      then show ?thesis by (intro worker [where y = "Counting st", OF sample(1)]) simp_all
    next
      case (tally st)
      then show ?thesis by (intro worker [where y = Ranging, OF tally(1)]) auto
    qed
  qed
qed

section \<open>A whole run\<close>

definition load_paid :: "env \<Rightarrow> string \<Rightarrow> string \<Rightarrow> rl_body \<Rightarrow> world \<Rightarrow> load \<Rightarrow> bool" where
  "load_paid E apiKey q b w s \<longleftrightarrow> world_inv E (mworld (ld_mw s))
    \<and> (\<forall>t \<in> set (threads (ld_mw s)). fst t = load_request apiKey)
    \<and> (\<exists>n g. takes_by E q b n g w (mworld (ld_mw s)) \<and> int (passes (ld_mw s)) \<le> int g + fail_open (ld_mw s))"

lemma load_paid_start: "world_inv E w \<Longrightarrow> load_paid E apiKey q b w (load_start w)"
  using takes_by_none [of w w q E b] by (auto simp: load_paid_def load_start_def mw_start_def passes_def same_members_def)

lemma load_exec_paid:
  assumes p: "load_paid E apiKey q b w s" and step: "load_exec E lost (Some cfg) apiKey ch s = Some s'"
    and c: "limits cfg addrs b" "mw_key cfg (load_request apiKey) = rb_key b"
    and w: "agreed E ps q (rb_key b) w" "takes_fit E ps addrs b"
  shows "load_paid E apiKey q b w s'"
proof -
  have same: "load_paid E apiKey q b w s'" if "mworld (ld_mw s') = mworld (ld_mw s)" "fail_open (ld_mw s') = fail_open (ld_mw s)"
    "passes (ld_mw s') = passes (ld_mw s)" "set (threads (ld_mw s')) \<subseteq> insert (load_request apiKey, Arrived) (set (threads (ld_mw s)))"
    using p that unfolding load_paid_def by auto
  obtain n g where t: "takes_by E q b n g w (mworld (ld_mw s))" "int (passes (ld_mw s)) \<le> int g + fail_open (ld_mw s)"
    using p unfolding load_paid_def by blast
  show ?thesis
  proof (cases ch)
    case Fire
    with step show ?thesis by (intro same) (auto simp: load_exec_def split: if_splits)
  next
    case (Produce stopped)
    then have "ld_mw s' = ld_mw s"
      using step by (auto simp: load_exec_def produce_def split: if_splits producer.splits)
    then show ?thesis by (intro same) auto
  next
    case Main
    then have "ld_mw s' = ld_mw s"
      using step by (auto simp: load_exec_def run_main_def split: if_splits load_main.splits)
    then show ?thesis by (intro same) auto
  next
    case (Work i wch)
    with step have "work_on (Some cfg) apiKey i wch s = Some s'" by (simp add: load_exec_def)
    then show ?thesis by (cases rule: work_on_cases; intro same) (auto simp: passes_def)
  next
    case (Serve k)
    with step obtain m where m: "mw_exec E lost cfg k (ld_mw s) = Some m" "s' = s\<lparr>ld_mw := m\<rparr>"
      by (auto simp: load_exec_def)
    have key: "\<forall>t \<in> set (threads (ld_mw s)). mw_key cfg (fst t) = rb_key b"
      using p c(2) by (simp add: load_paid_def)
    have "same_members w (mworld (ld_mw s))" using t(1) by (simp add: takes_by_def)
    then have ag: "agreed E ps q (rb_key b) (mworld (ld_mw s))" using w(1) by (rule agreed_same)
    obtain n' g' where t': "takes_by E q b n' g' (mworld (ld_mw s)) (mworld m)" "world_inv E (mworld m)"
        "int (passes m) + fail_open (ld_mw s) \<le> int (passes (ld_mw s)) + int g' + fail_open m"
      using mw_exec_paid [OF m(1) c(1) key _ ag w(2)] p unfolding load_paid_def by blast
    have "int (passes m) \<le> int (g + g') + fail_open m" using t(2) t'(3) by simp
    moreover have "\<forall>t \<in> set (threads m). fst t = load_request apiKey"
    proof -
      have "fst ` set (threads m) = fst ` set (threads (ld_mw s))"
        using mw_exec_requests [OF m(1)] by (metis list.set_map)
      then show ?thesis using p unfolding load_paid_def by (metis (no_types, lifting) image_iff)
    qed
    moreover have "ld_mw s' = m" by (simp add: m(2))
    ultimately show ?thesis
      using takes_by_trans [OF t(1) t'(1)] t'(2) unfolding load_paid_def by metis
  qed
qed

lemma load_reach_paid:
  assumes "load_reach E lost (Some cfg) apiKey w s" "world_inv E w" "limits cfg addrs b"
    "mw_key cfg (load_request apiKey) = rb_key b" "agreed E ps q (rb_key b) w" "takes_fit E ps addrs b"
  shows "load_paid E apiKey q b w s \<and> claims s"
  using assms(1)
proof (induction rule: load_reach.induct)
  case load_reach_start
  then show ?case using load_paid_start [OF assms(2)] claims_start by blast
next
  case (load_reach_step s ch s')
  then show ?case using load_exec_paid [OF _ _ assms(3-6)] load_exec_claims by blast
qed

text \<open>The takes of unit cost that a fresh bucket grants.\<close>

lemma granted_ones:
  "length ts = length rs \<Longrightarrow> granted (map (\<lambda>t. req_at t b) ts) rs = of_nat (length (filter Allowed rs)) * max 0 (rb_cost b)"
  unfolding granted_def
  by (induction ts rs rule: list_induct2) (simp_all add: req_at_def algebra_simps)

lemma takes_by_bound:
  assumes t: "takes_by E q b n g w w'" and w: "world_inv E w" and b: "rl_valid b" "rb_cost b = 1"
    and fresh: "rl_bucket_of (rb_key b) (nrl (procs w q)) = None"
    and room: "int (card (insert (rb_key b) (set (order (nrl (procs w q)))))) \<le> rl_capacity (nrl (procs w q))"
    and clock: "\<forall>k. ticks w \<le> k \<and> k < ticks w' \<longrightarrow> t0 \<le> clock E k \<and> clock E k \<le> T" "t0 \<le> T"
  shows "of_nat g \<le> rb_burst b + rb_rate b * (1 + eps64) ^ 3 * (of_int (T - t0) / 1000000000)
    + of_nat n * (2 * (rb_burst b * eps64 + eta64) + eta64)"
proof -
  let ?M = "fpu_of (arch E)"
  obtain ts rs where ts: "rl_takes ?M (map (\<lambda>t. req_at t b) ts) (nrl (procs w q)) = (rs, nrl (procs w' q))"
      "set ts \<subseteq> clock E ` {ticks w..<ticks w'}" "length ts = n" "length (filter Allowed rs) = g"
    using t unfolding takes_by_def by blast
  define qs where "qs = map (\<lambda>t. req_at t b) ts"
  have nonneg: "0 \<le> rb_rate b" "0 \<le> rb_burst b" "rnd ?M (rb_burst b) = rb_burst b"
    using b(1) by (auto simp: rl_valid_def is_float_def)
  have len: "length rs = length ts" using rl_takes_length [of ?M qs "nrl (procs w q)"] ts(1) by (simp add: qs_def)
  show ?thesis
  proof (cases "qs = []")
    case True
    then have "g = 0" "n = 0" using ts(3,4) len by (simp_all add: qs_def)
    moreover have "0 \<le> rb_rate b * (1 + eps64) ^ 3 * (of_int (T - t0) / 1000000000)"
      using nonneg(1) clock(2) by (intro mult_nonneg_nonneg) (simp_all add: eps64_def power_int_minus)
    ultimately show ?thesis using nonneg(2) by simp
  next
    case False
    have key: "\<forall>x \<in> set qs. tq_key x = rb_key b" by (auto simp: qs_def req_at_def)
    have keys: "set (order (nrl (procs w q))) \<union> tq_key ` set qs = insert (rb_key b) (set (order (nrl (procs w q))))"
      using False by (auto simp: qs_def req_at_def image_iff)
    have "answers (rb_key b) qs rs = lone_takes ?M (requests (rb_key b) qs) (rl_bucket_of (rb_key b) (nrl (procs w q)))"
      using go.rl_takes_isolated [OF node_invD(2) [OF world_invD [OF w]], of qs q "rb_key b"] room keys nonneg ts(1)
      by (auto simp: qs_def [symmetric]) (auto simp: qs_def req_ok_def req_at_def)
    moreover have "requests (rb_key b) qs = qs" using key by (simp add: requests_def)
    moreover have "answers (rb_key b) qs rs = rs" by (rule answers_all [OF key]) (simp add: len qs_def)
    ultimately have "rs = lone_takes ?M qs None" using fresh by simp
    moreover have "granted qs (lone_takes ?M qs None) \<le> rb_burst b + rb_rate b * (1 + eps64) ^ 3 * (of_int (T - t0) / 1000000000)
        + of_nat (length qs) * (2 * (rb_burst b * eps64 + eta64) + eta64)"
    proof (rule bounded_go.lone_takes_bound [OF nonneg _ False])
      have "t0 \<le> t \<and> t \<le> T" if "t \<in> set ts" for t using that ts(2) clock(1) by fastforce
      then show "\<forall>x \<in> set qs. tq_rate x = rb_rate b \<and> tq_burst x = rb_burst b \<and> t0 \<le> tq_now x \<and> tq_now x \<le> T"
        by (auto simp: qs_def req_at_def)
    qed
    ultimately show ?thesis
      using granted_ones [OF len [symmetric], of b] b(2) ts(3,4) by (simp add: qs_def)
  qed
qed

end
