(* ===== verification/LoadTheorems.thy ===== *)
theory LoadTheorems
  imports LoadTakes BenchTheorems
begin

text \<open>
  The properties of a ratebench run, each with an application to a run against the cluster of
  \<open>ClusterDemo\<close>, and of its waits.
\<close>

section \<open>The shutdown\<close>

text \<open>
  C26. The shutdown of a ratebench run is safe: the producer never sends on the closed channel,
  the backlog never exceeds the channel's 1024 jobs, and once \<open>stop\<close> is closed a selecting
  producer can return. After it has returned no interleaving of the goroutines and of the
  requests inside the server goes on for ever, a run that cannot go on has reported, and a
  report has every sample counted as allowed or as denied and no job left.
\<close>

theorem load_run_shuts_down:
  assumes "load_reach E lost c apiKey w s"
  shows "ld_prod s \<noteq> Panicked \<and> ld_jobs s \<le> 1024
    \<and> (ld_main s \<noteq> Sleeping \<and> ld_prod s = Selecting
        \<longrightarrow> load_exec E lost c apiKey (Produce True) s = Some (s\<lparr>ld_prod := Returned\<rparr>))
    \<and> (ld_prod s = Returned
        \<longrightarrow> (\<nexists>f. f 0 = s \<and> (\<forall>n. \<exists>ch. load_exec E lost c apiKey ch (f n) = Some (f (Suc n)))))
    \<and> ((\<forall>ch. load_exec E lost c apiKey ch s = None) \<longrightarrow> ld_main s = Reported)
    \<and> (ld_main s = Reported \<longrightarrow> ld_jobs s = 0 \<and> length (ld_lats s) = ld_allowed s + ld_denied s)"
proof -
  have inv: "load_inv s" using assms by (rule load_reach_inv)
  then have "ld_prod s \<noteq> Panicked" "ld_jobs s \<le> 1024" "ld_main s \<noteq> Sleeping \<longrightarrow> ld_stop s"
    unfolding load_inv_def by blast+
  then show ?thesis
    using returned_ends [of s E lost c apiKey] stuck_reported [OF inv, of E lost c apiKey] reported_counted [OF inv]
    by (simp add: load_exec_def produce_def)
qed

text \<open>A run that is stopped before the first tick.\<close>

definition stopped_load :: load where
  "stopped_load = (load_start demo_world)\<lparr>ld_stop := True, ld_main := Stopped, ld_prod := Returned\<rparr>"

lemma stopped_load_reach: "load_reach demo_env lost c apiKey demo_world stopped_load"
proof -
  have "load_exec demo_env lost c apiKey Main (load_start demo_world)
      = Some ((load_start demo_world)\<lparr>ld_stop := True, ld_main := Stopped\<rparr>)"
    by (simp add: load_exec_def run_main_def load_start_def)
  moreover have "load_exec demo_env lost c apiKey (Produce True) ((load_start demo_world)\<lparr>ld_stop := True, ld_main := Stopped\<rparr>)
      = Some stopped_load"
    by (simp add: load_exec_def produce_def load_start_def stopped_load_def)
  ultimately show ?thesis by (meson load_reach_start load_reach_step)
qed

theorem load_run_shuts_down_witness:
  "\<nexists>f. f 0 = stopped_load
    \<and> (\<forall>n. \<exists>ch. load_exec demo_env (\<lambda>_. Arrives) None ''k'' ch (f n) = Some (f (Suc n)))"
proof -
  have "ld_prod stopped_load = Returned" by (simp add: stopped_load_def)
  with load_run_shuts_down [OF stopped_load_reach, of "\<lambda>_. Arrives" None "''k''"] show ?thesis by blast
qed

section \<open>What the run reports\<close>

lemma load_middleware_simps:
  assumes "getenv ''RATELIMIT_DISABLED'' \<noteq> ''1''" "0 < r" "0 < bb"
  shows "limits (load_middleware getenv addrs r bb) addrs \<lparr>rb_key = key, rb_rate = r, rb_burst = bb, rb_cost = 1\<rparr>"
    and "mw_key (load_middleware getenv addrs r bb) (load_request apiKey)
      = (if trim_space apiKey = '''' then ''anonymous'' else trim_space apiKey)"
  using assms by (auto simp: load_middleware_def mw_defaults_def limits_def mw_key_def load_request_def)

text \<open>
  C20. What one phase of ratebench reports is bounded by the token bucket, end to end: the
  requests counted as allowed are at most the burst plus the rate times the time in which clocks
  were read, up to the rounding of binary64, plus the reported number of requests that failed
  open. This holds whatever calls are lost on the way, those to the primary included, and however
  workers, requests and takes interleave. It is about a phase in which the benchmark is the only
  traffic of the cluster and no idle sweep of a limiter runs (a sweep that drops the bucket grants
  its burst again); it starts without a bucket for the key at its primary, with room for the key
  in the primary's limiter; the processes that the client can reach agree on the primary of the
  key, and their limits and messages are within what a coordinator accepts.
\<close>

theorem rate_bench_is_bounded_by_the_bucket:
  assumes "cluster_reach E w" "agreed E ps q key w" "getenv ''RATELIMIT_DISABLED'' \<noteq> ''1''" "0 < r" "0 < bb"
    and "takes_fit E ps addrs \<lparr>rb_key = key, rb_rate = r, rb_burst = bb, rb_cost = 1\<rparr>"
    and "key = (if trim_space apiKey = '''' then ''anonymous'' else trim_space apiKey)"
    and "rl_bucket_of key (nrl (procs w q)) = None"
    and "int (card (insert key (set (order (nrl (procs w q)))))) \<le> rl_capacity (nrl (procs w q))"
    and "load_reach E lost (Some (load_middleware getenv addrs r bb)) apiKey w s"
    and "\<forall>k. ticks w \<le> k \<and> k < ticks (mworld (ld_mw s)) \<longrightarrow> t0 \<le> clock E k \<and> clock E k \<le> T" "t0 \<le> T"
  shows "of_nat (lr_allowed (report a goal dur 0 s)) \<le> bb + r * (1 + eps64) ^ 3 * (of_int (T - t0) / 1000000000)
    + of_nat (ticks (mworld (ld_mw s)) - ticks w) * (2 * (bb * eps64 + eta64) + eta64)
    + of_int (lr_fail_open (report a goal dur 0 s))"
proof -
  define b where "b = \<lparr>rb_key = key, rb_rate = r, rb_burst = bb, rb_cost = 1\<rparr>"
  have w: "world_inv E w" using assms(1) by (rule cluster_reach_inv)
  have cfg: "limits (load_middleware getenv addrs r bb) addrs b"
    "mw_key (load_middleware getenv addrs r bb) (load_request apiKey) = rb_key b"
    using load_middleware_simps [of getenv r bb, OF assms(3-5)] assms(7) by (simp_all add: b_def)
  have paid: "load_paid E apiKey q b w s" "claims s"
    using load_reach_paid [OF assms(10) w cfg] assms(2,6) by (simp_all add: b_def)
  then obtain n g where t: "takes_by E q b n g w (mworld (ld_mw s))" "int (passes (ld_mw s)) \<le> int g + fail_open (ld_mw s)"
    unfolding load_paid_def by blast
  have "int (ld_allowed s) \<le> int g + fail_open (ld_mw s)"
    using paid(2) serveds_passes [of "ld_mw s"] t(2) unfolding claims_def by linarith
  then have "(of_int (int (ld_allowed s)) :: rat) \<le> of_int (int g + fail_open (ld_mw s))" by (simp only: of_int_le_iff)
  moreover have "of_nat g \<le> rb_burst b + rb_rate b * (1 + eps64) ^ 3 * (of_int (T - t0) / 1000000000)
      + of_nat n * (2 * (rb_burst b * eps64 + eta64) + eta64)"
    by (rule takes_by_bound [OF t(1) w]) (use assms(6,8,9,11,12) in \<open>simp_all add: b_def takes_fit_def\<close>)
  moreover have "of_nat n * (2 * (bb * eps64 + eta64) + eta64)
      \<le> of_nat (ticks (mworld (ld_mw s)) - ticks w) * (2 * (bb * eps64 + eta64) + eta64)"
    using t(1) assms(5) unfolding takes_by_def
    by (intro mult_right_mono) (auto simp: eps64_def eta64_def)
  ultimately show ?thesis by (simp add: report_def b_def)
qed

text \<open>
  One tick, one job, one worker: its request is granted by the cluster and counted. The run is
  on the demo cluster with a clock that stands still.
\<close>

definition demo_limit :: mw_config where
  "demo_limit = load_middleware (\<lambda>_. '''') [''http://a''] 1 2"

definition demo_load :: "mw_state \<Rightarrow> bool \<Rightarrow> nat \<Rightarrow> producer \<Rightarrow> load_worker \<Rightarrow> duration list \<Rightarrow> nat \<Rightarrow> load" where
  "demo_load m t j pr x lats n = (load_start demo_world)\<lparr>ld_mw := m, ld_tick := t, ld_jobs := j, ld_prod := pr,
    ld_workers := x # replicate 127 Ranging, ld_lats := lats, ld_allowed := n\<rparr>"

definition demo_server :: "mpc \<Rightarrow> world \<Rightarrow> mw_state" where
  "demo_server pc w = \<lparr>inflight = (\<lambda>_. None), threads = [(load_request ''k'', pc)], fail_open = 0, mworld = w\<rparr>"

lemma demo_load_start: "load_start demo_world = demo_load (mw_start demo_world) False 0 Selecting Ranging [] 0"
  using replicate_Suc [of 127 Ranging] by (simp add: demo_load_def load_start_def)

lemma demo_limit_simps: "mDisabled demo_limit = False" "mMaxInFlight demo_limit = 0" "mDryRun demo_limit = False"
  "mAddrs demo_limit = Some [''http://a'']" "mRate demo_limit = 1" "mBurst demo_limit = 2" "mCost demo_limit = 1"
  "mw_key demo_limit (load_request ''k'') = ''k''"
proof -
  have "trim_space ''k'' = ''k''" by code_simp
  then show "mDisabled demo_limit = False" "mMaxInFlight demo_limit = 0" "mDryRun demo_limit = False"
    "mAddrs demo_limit = Some [''http://a'']" "mRate demo_limit = 1" "mBurst demo_limit = 2" "mCost demo_limit = 1"
    "mw_key demo_limit (load_request ''k'') = ''k''"
    by (simp_all add: demo_limit_def load_middleware_def mw_defaults_def mw_key_def load_request_def)
qed

lemma demo_still: "cluster_reach still_env demo_world" "world_inv still_env demo_world"
    "uniform still_env {''a'', ''b'', ''c''} demo_world" "agreed still_env {''a'', ''b'', ''c''} ''a'' ''k'' demo_world"
    "takes_fit still_env {''a'', ''b'', ''c''} [''http://a''] \<lparr>rb_key = ''k'', rb_rate = 1, rb_burst = 2, rb_cost = 1\<rparr>"
proof -
  show "cluster_reach still_env demo_world" by (rule reach_boot) (rule demo_boot)
  then show "world_inv still_env demo_world" by (rule cluster_reach_inv)
  show "uniform still_env {''a'', ''b'', ''c''} demo_world"
    using demo_uniform by (simp add: uniform_def still_env_def)
  then show "agreed still_env {''a'', ''b'', ''c''} ''a'' ''k'' demo_world"
    using demo_primary by (auto simp: agreed_def uniform_def)
  show "takes_fit still_env {''a'', ''b'', ''c''} [''http://a''] \<lparr>rb_key = ''k'', rb_rate = 1, rb_burst = 2, rb_cost = 1\<rparr>"
    by (simp add: takes_fit_def rl_valid_def is_float_def max_float64_def still_env_def demo_trim take_body_def encode_rl_def
        quoted_def escape_plain plain_char_def maxValueBytes_def validateKey_def maxKeyBytes_def del: escape_string.simps)
qed

lemma demo_grant:
  "\<exists>d w. client_Take still_env (\<lambda>_. Arrives) [''http://a''] ''k'' 1 2 1 demo_world = Some (Inr d, w) \<and> d_allowed d"
proof -
  have fit: "takes_fit still_env {''a'', ''b'', ''c''} [''http://a''] \<lparr>rb_key = ''k'', rb_rate = 1, rb_burst = 2, rb_cost = 1\<rparr>"
    by (rule demo_still)
  obtain res w where t: "client_Take still_env (\<lambda>_. Arrives) [''http://a''] ''k'' 1 2 1 demo_world = Some (Inr (decision_of ''a'' res), w)"
      "Take_store (fpu_of (arch still_env)) (clock still_env (ticks demo_world)) ''k'' 1 2 1 (nrl (procs demo_world ''a''))
        = (res, nrl (procs w ''a''))"
    using client_gets_the_decision [OF demo_still(2,3), of "''a''" "''http://a''" "\<lambda>_. Arrives" "''k''" 1 2 1 "''a''" "[]"]
      fit demo_primary by (auto simp: takes_fit_def demo_trim still_env_def)
  have "res = fst (Take_store (fpu_of AMD64) 5 ''k'' 1 2 1 (NewStore 10000 (60 * second)))"
    using t(2) by (simp add: still_env_def)
  then have "Allowed res"
    by (simp add: Take_store_result rl_bucket_of_def NewStore_def bucket_for_def Take_bucket_def
        refill_new [of AMD64 5 1 2, unfolded NewBucket_def Let_def, simplified] NewBucket_def Let_def)
  with t(1) show ?thesis by (auto simp: decision_of_def)
qed

lemma demo_load_run:
  "\<exists>w. load_reach still_env (\<lambda>_. Arrives) (Some demo_limit) ''k'' demo_world
    (demo_load (demo_server (Done Served) w) False 0 Selecting Ranging [7] 1)"
proof -
  obtain d w where t: "client_Take still_env (\<lambda>_. Arrives) [''http://a''] ''k'' 1 2 1 demo_world = Some (Inr d, w)" "d_allowed d"
    using demo_grant by blast
  define run where "run = load_reach still_env (\<lambda>_. Arrives) (Some demo_limit) ''k'' demo_world"
  define ex where "ex = load_exec still_env (\<lambda>_. Arrives) (Some demo_limit) ''k''"
  have step: "run s \<Longrightarrow> ex ch s = Some s' \<Longrightarrow> run s'" for ch s s'
    unfolding run_def ex_def by (rule load_reach_step)
  note sim = ex_def load_exec_def produce_def work_on_def demo_load_def load_start_def answer_of_def status_of_def
  note mw = mw_exec_def demo_server_def step_defs goto_def demo_limit_simps
  have "run (demo_load (mw_start demo_world) False 0 Selecting Ranging [] 0)"
    unfolding run_def demo_load_start [symmetric] by (rule load_reach_start)
  moreover have "ex Fire (demo_load (mw_start demo_world) False 0 Selecting Ranging [] 0)
      = Some (demo_load (mw_start demo_world) True 0 Selecting Ranging [] 0)" by (simp add: sim)
  moreover have "ex (Produce False) (demo_load (mw_start demo_world) True 0 Selecting Ranging [] 0)
      = Some (demo_load (mw_start demo_world) False 0 Offering Ranging [] 0)" by (simp add: sim)
  moreover have "ex (Produce False) (demo_load (mw_start demo_world) False 0 Offering Ranging [] 0)
      = Some (demo_load (mw_start demo_world) False 1 Selecting Ranging [] 0)" by (simp add: sim)
  moreover have "ex (Work 0 Send) (demo_load (mw_start demo_world) False 1 Selecting Ranging [] 0)
      = Some (demo_load (demo_server Arrived demo_world) False 0 Selecting (Awaiting 0) [] 0)"
    by (simp add: sim demo_server_def mw_start_def)
  moreover have "ex (Serve 0) (demo_load (demo_server Arrived demo_world) False 0 Selecting (Awaiting 0) [] 0)
      = Some (demo_load (demo_server (Asking False) demo_world) False 0 Selecting (Awaiting 0) [] 0)"
    by (simp add: sim mw)
  moreover have "ex (Serve 0) (demo_load (demo_server (Asking False) demo_world) False 0 Selecting (Awaiting 0) [] 0)
      = Some (demo_load (demo_server (Handling False) w) False 0 Selecting (Awaiting 0) [] 0)"
    using t by (simp add: sim mw)
  moreover have "ex (Serve 0) (demo_load (demo_server (Handling False) w) False 0 Selecting (Awaiting 0) [] 0)
      = Some (demo_load (demo_server (Leaving False Served) w) False 0 Selecting (Awaiting 0) [] 0)"
    by (simp add: sim mw)
  moreover have "ex (Serve 0) (demo_load (demo_server (Leaving False Served) w) False 0 Selecting (Awaiting 0) [] 0)
      = Some (demo_load (demo_server (Done Served) w) False 0 Selecting (Awaiting 0) [] 0)"
    by (simp add: sim mw)
  moreover have "ex (Work 0 (Answer 7)) (demo_load (demo_server (Done Served) w) False 0 Selecting (Awaiting 0) [] 0)
      = Some (demo_load (demo_server (Done Served) w) False 0 Selecting (Recording 200 7) [] 0)"
    by (simp add: sim demo_server_def)
  moreover have "ex (Work 0 GiveUp) (demo_load (demo_server (Done Served) w) False 0 Selecting (Recording 200 7) [] 0)
      = Some (demo_load (demo_server (Done Served) w) False 0 Selecting (Counting 200) [7] 0)"
    by (simp add: sim)
  moreover have "ex (Work 0 GiveUp) (demo_load (demo_server (Done Served) w) False 0 Selecting (Counting 200) [7] 0)
      = Some (demo_load (demo_server (Done Served) w) False 0 Selecting Ranging [7] 1)"
    by (simp add: sim)
  ultimately have "run (demo_load (demo_server (Done Served) w) False 0 Selecting Ranging [7] 1)"
    using step by metis
  then show ?thesis unfolding run_def by blast
qed

theorem rate_bench_is_bounded_by_the_bucket_witness:
  "\<exists>s. load_reach still_env (\<lambda>_. Arrives) (Some demo_limit) ''k'' demo_world s
    \<and> lr_allowed (report AMD64 1 second 0 s) = 1 \<and> lr_fail_open (report AMD64 1 second 0 s) = 0
    \<and> 1 \<le> 2 + of_nat (ticks (mworld (ld_mw s)) - 1) * (2 * (2 * eps64 + eta64) + eta64)"
proof -
  obtain w where run: "load_reach still_env (\<lambda>_. Arrives) (Some demo_limit) ''k'' demo_world
      (demo_load (demo_server (Done Served) w) False 0 Selecting Ranging [7] 1)" (is "load_reach _ _ _ _ _ ?s")
    using demo_load_run by blast
  have s: "lr_allowed (report AMD64 1 second 0 ?s) = 1" "lr_fail_open (report AMD64 1 second 0 ?s) = 0"
    by (simp_all add: report_def demo_load_def demo_server_def)
  have key: "''k'' = (if trim_space ''k'' = '''' then ''anonymous'' else trim_space ''k'')" by code_simp
  have "of_nat (lr_allowed (report AMD64 1 second 0 ?s)) \<le> 2 + 1 * (1 + eps64) ^ 3 * (of_int (5 - 5) / 1000000000)
      + of_nat (ticks (mworld (ld_mw ?s)) - ticks demo_world) * (2 * (2 * eps64 + eta64) + eta64)
      + of_int (lr_fail_open (report AMD64 1 second 0 ?s))"
    by (rule rate_bench_is_bounded_by_the_bucket [where getenv = "\<lambda>_. ''''", OF demo_still(1,4) _ _ _ demo_still(5) key _ _
          run [unfolded demo_limit_def]])
      (simp_all add: rl_bucket_of_def NewStore_def still_env_def)
  then have "1 \<le> 2 + of_nat (ticks (mworld (ld_mw ?s)) - 1) * (2 * (2 * eps64 + eta64) + eta64)"
    by (simp only: s) simp
  with run s show ?thesis by blast
qed

section \<open>The waits\<close>

lemma rate_round_ok: "fst (rate_round get as ok e) =
    ok + length (filter (\<lambda>a. get (trim_right_char CHR ''/'' a @ ''/health'') = Inr 200) as)"
  by (induction as arbitrary: ok e) (auto split: sum.splits)

lemma rate_round_error: "\<forall>a. \<exists>st. get a = Inr st \<Longrightarrow> snd (rate_round get as ok e) = e"
proof (induction as arbitrary: ok e)
  case (Cons a as)
  then obtain st where "get (trim_right_char CHR ''/'' a @ ''/health'') = Inr st" by blast
  with Cons show ?case by simp
qed simp

lemma both_waits:
  assumes "k \<le> j" "\<not> time_before (clk j) deadline"
  shows "\<exists>r r'. rate_wait_loop get clk addrs deadline k e = Some r \<and> wait_loop get clk addrs deadline k e' = Some r'
    \<and> (r = None \<longleftrightarrow> r' = None)
    \<and> ((\<forall>i a. \<exists>st. get i a = Inr st) \<and> e = None \<and> r \<noteq> None \<longrightarrow> r = Some ''not healthy: <nil>'')"
  using assms(1)
proof (induction "j - k" arbitrary: k e e')
  case 0
  then have "\<not> time_before (clk k) deadline" using assms(2) by simp
  then show ?case by (subst wait_loop.simps, subst rate_wait_loop.simps) simp
next
  case (Suc d)
  obtain ok e1 where r: "rate_round (get k) addrs 0 e = (ok, e1)" by force
  obtain ok' e1' where r': "health_round (get k) addrs 0 e' = (ok', e1')" by force
  have ok: "ok' = ok"
    using rate_round_ok [of "get k" addrs 0 e] health_round_ok [of "get k" addrs 0 e'] r r' by simp
  have e1: "e1 = None" if "\<forall>i a. \<exists>st. get i a = Inr st" "e = None"
    using rate_round_error [of "get k" addrs 0 e] that r by simp
  have "d = j - Suc k" "Suc k \<le> j" using Suc.hyps(2) Suc.prems by auto
  note IH = Suc.hyps(1) [OF this, of e1 e1']
  show ?case
    by (subst wait_loop.simps, subst rate_wait_loop.simps) (use IH e1 in \<open>auto simp: r r' ok\<close>)
qed

text \<open>
  Both benchmarks wait alike: once the clock passes the deadline both return, and one finds the
  cluster healthy exactly when the other does. When processes answer, but not with 200,
  ratebench can only say that the error is nil, and with no address at all it finds the cluster
  healthy at once (\<open>cmd/bench\<close> has refused the empty list before).
\<close>

theorem ratebench_waits_like_bench:
  assumes "1 \<le> j" "\<not> time_before (clk j) (time_add (clk 0) d)"
  shows "\<exists>r r'. rate_waitHealthy get clk addrs d = Some r \<and> waitHealthy get clk addrs d = Some r'
    \<and> (r = None \<longleftrightarrow> r' = None)
    \<and> ((\<forall>i a. \<exists>st. get i a = Inr st) \<and> r \<noteq> None \<longrightarrow> r = Some ''not healthy: <nil>'')
    \<and> (addrs = [] \<and> time_before (clk 1) (time_add (clk 0) d) \<longrightarrow> r = None)"
proof -
  have empty: "rate_wait_loop get clk [] (time_add (clk 0) d) 1 None = Some None"
    if "time_before (clk 1) (time_add (clk 0) d)"
    by (subst rate_wait_loop.simps) (use that in simp)
  show ?thesis
    using both_waits [of 1 j clk, OF assms, of get addrs None None] empty
    unfolding rate_waitHealthy_def waitHealthy_def by fastforce
qed

theorem ratebench_waits_like_bench_witness:
  "rate_waitHealthy (\<lambda>_ _. Inr 503) (\<lambda>k. 10 * int k) [''http://a''] 15 = Some (Some ''not healthy: <nil>'')"
proof -
  have "rate_wait_loop (\<lambda>_ _. Inr 503) (\<lambda>k. 10 * int k) [''http://a''] (time_add 0 15) 1 None
      = Some (Some ''not healthy: <nil>'')"
    by (subst rate_wait_loop.simps, subst rate_wait_loop.simps) (simp add: time_add_def time_before_def wrap64_def)
  then show ?thesis
    using ratebench_waits_like_bench [of 2 "\<lambda>k. 10 * int k" 15 "\<lambda>_ _. Inr 503" "[''http://a'']"]
    by (simp add: rate_waitHealthy_def)
qed

text \<open>
  Without an address \<open>cmd/bench\<close> refuses to start, and \<open>cmd/ratebench\<close> runs: every one of its
  requests then fails open, so that it measures no limiter at all.
\<close>

theorem ratebench_runs_without_addresses:
  assumes "bench_addrs getenv addrs = []" "time_before (clk 1) (time_add (clk 0) (15 * second))"
  shows "bench_start getenv addrs get clk = Some (Inl 2)" "rate_start getenv addrs get clk = Some (Inr [])"
    "client_Take E lost [] key r b cost w = Some (Inl ''no ringcache addrs'', w)"
proof -
  have "rate_waitHealthy get clk [] (15 * second) = Some None"
    unfolding rate_waitHealthy_def by (subst rate_wait_loop.simps) (use assms(2) in simp)
  then show "bench_start getenv addrs get clk = Some (Inl 2)" "rate_start getenv addrs get clk = Some (Inr [])"
    using assms(1) by (simp_all add: bench_start_def rate_start_def)
qed (simp add: client_Take_def)

theorem ratebench_runs_without_addresses_witness:
  "rate_start (\<lambda>_. '''') (Some '','') (\<lambda>_ _. Inr 200) (\<lambda>k. int k) = Some (Inr [])"
proof (rule ratebench_runs_without_addresses(2))
  show "bench_addrs (\<lambda>_. '''') (Some '','') = []" by code_simp
  show "time_before (int 1) (time_add (int 0) (15 * second))"
    by (simp add: time_before_def time_add_def second_def)
qed

end
