(* ===== verification/Kill.thy ===== *)
theory Kill
  imports LoadTheorems
begin

text \<open>
  The fail-open scenario of \<open>cmd/ratebench/main.go\<close>: the goroutine of \<open>-kill-after\<close>, which looks
  up the primary of the key, kills its process and waits until two addresses are healthy, and
  the window that is printed in the end. The process is found by a file with its number;
  \<open>killLocalPrimary\<close> is the list of calls it makes of the operating system, on Unix paths. What
  the calls do to the cluster is a matter of \<open>fault\<close> and \<open>loss\<close>: requests that are lost.
\<close>

section \<open>The file of a process\<close>

text \<open>\<open>string(b)\<close> of a byte is the UTF-8 encoding of the code point with that number.\<close>

definition byte_string :: "char \<Rightarrow> string" where
  "byte_string c =
    (let n = of_char c :: nat
     in if n < 128 then [c] else [char_of (192 + n div 64), char_of (128 + n mod 64)])"

definition pid_letter :: "string \<Rightarrow> string" where
  "pid_letter nid =
    (let letter = (if has_prefix nid ''node-'' then drop 5 nid else nid)
     in if letter = nid \<and> 0 < length nid then byte_string (nid ! (length nid - 1)) else letter)"

text \<open>\<open>filepath.Join\<close> of two elements and the \<open>filepath.Clean\<close> it ends with.\<close>

fun clean_parts :: "bool \<Rightarrow> string list \<Rightarrow> string list \<Rightarrow> string list" where
  "clean_parts rooted acc [] = rev acc"
| "clean_parts rooted acc (p # ps) =
    (if p = '''' \<or> p = ''.'' then clean_parts rooted acc ps
     else if p = ''..'' then
       (case acc of
          [] \<Rightarrow> clean_parts rooted (if rooted then [] else [''..'']) ps
        | q # qs \<Rightarrow> clean_parts rooted (if q = ''..'' then ''..'' # acc else qs) ps)
     else clean_parts rooted (p # acc) ps)"

fun join_parts :: "string list \<Rightarrow> string" where
  "join_parts [] = ''''"
| "join_parts [p] = p"
| "join_parts (p # ps) = p @ CHR ''/'' # join_parts ps"

definition clean_path :: "string \<Rightarrow> string" where
  "clean_path s =
    (let rooted = has_prefix s ''/'';
         path = (if rooted then ''/'' else '''') @ join_parts (clean_parts rooted [] (split_on CHR ''/'' s))
     in if path = '''' then ''.'' else path)"

definition path_join :: "string \<Rightarrow> string \<Rightarrow> string" where
  "path_join d f = (if d = '''' \<and> f = '''' then '''' else clean_path (if d = '''' then f else if f = '''' then d else d @ CHR ''/'' # f))"

text \<open>\<open>fmt.Sscanf\<close> with \<open>%d\<close> on a text without leading blanks; the variable stays 0 on an error.\<close>

definition sscan_int :: "string \<Rightarrow> int" where
  "sscan_int s =
    (let neg = has_prefix s ''-'';
         ds = takeWhile is_digit (if neg \<or> has_prefix s ''+'' then tl s else s);
         n = (if neg then - int (parse_digits ds) else int (parse_digits ds))
     in if ds \<noteq> [] \<and> in_int64 n then n else 0)"

section \<open>Killing it\<close>

datatype host_call = Taskkill int | Kill int | RemoveFile string | RunBash string string

text \<open>
  The host: environment, files, and whether \<open>taskkill\<close> and \<open>os.FindProcess\<close> succeed. The
  results of \<open>Kill\<close>, of \<open>os.Remove\<close> and of the scripts are not looked at.
\<close>

record host =
  hEnv :: "string \<Rightarrow> string"
  hFile :: "string \<Rightarrow> string option"
  hTaskkill :: "int \<Rightarrow> bool"
  hFind :: "int \<Rightarrow> bool"

definition temp_dir :: "host \<Rightarrow> string" where
  "temp_dir h = (if hEnv h ''TMPDIR'' = '''' then ''/tmp'' else hEnv h ''TMPDIR'')"

definition pid_paths :: "host \<Rightarrow> string \<Rightarrow> string list" where
  "pid_paths h letter =
    [path_join (temp_dir h) (''ringcache-'' @ letter @ ''.pid''), ''/tmp/ringcache-'' @ letter @ ''.pid'']"

text \<open>The calls, and whether one of the files named a process that was dealt with.\<close>

fun kill_paths :: "host \<Rightarrow> string list \<Rightarrow> host_call list \<times> bool" where
  "kill_paths h [] = ([], False)"
| "kill_paths h (p # ps) =
    (case hFile h p of
       None \<Rightarrow> kill_paths h ps
     | Some b \<Rightarrow>
         (let pid = sscan_int (trim_space b)
          in if pid \<le> 0 then kill_paths h ps
             else if hTaskkill h pid then ([Taskkill pid, RemoveFile p], True)
             else if hFind h pid then ([Taskkill pid, Kill pid, RemoveFile p], True)
             else (case kill_paths h ps of (cs, ok) \<Rightarrow> (Taskkill pid # cs, ok))))"

definition kill_script :: "string \<Rightarrow> string" where
  "kill_script letter =
    (let q = [CHR 0x22]
     in ''pidf='' @ q @ ''/tmp/ringcache-'' @ letter @ ''.pid'' @ q @ ''; if [ -f '' @ q @ ''$pidf'' @ q @ '' ]; then kill ''
        @ q @ ''$(cat '' @ q @ ''$pidf'' @ q @ '')'' @ q @ '' 2>/dev/null || true; rm -f '' @ q @ ''$pidf'' @ q @ ''; fi'')"

definition killLocalPrimary :: "host \<Rightarrow> string \<Rightarrow> host_call list" where
  "killLocalPrimary h nid =
    (let letter = pid_letter nid
     in case kill_paths h (pid_paths h letter) of
          (cs, ok) \<Rightarrow> if ok then cs else cs @ [RunBash ''-lc'' (kill_script letter)])"

section \<open>The goroutine\<close>

text \<open>
  The primary of the key at the first address (none: the index panics); after the kill, rounds
  until two addresses are healthy, at the latest when the deadline has passed: the time the
  survivors were seen, if they were. \<open>clk k\<close> is the \<open>k\<close>-th reading of the clock.
\<close>

definition kill_target :: "env \<Rightarrow> string list \<Rightarrow> string \<Rightarrow> world \<Rightarrow> (string \<times> world) option" where
  "kill_target E addrs key w = (case addrs of [] \<Rightarrow> None | a # _ \<Rightarrow> lookupPrimary E a key w)"

partial_function (option) survivors_loop ::
  "(nat \<Rightarrow> string \<Rightarrow> string + int) \<Rightarrow> (nat \<Rightarrow> time) \<Rightarrow> string list \<Rightarrow> time \<Rightarrow> nat \<Rightarrow> time option option" where
  "survivors_loop get clk addrs deadline k =
    (if time_before (clk k) deadline then
       (if fst (rate_round (get k) addrs 0 None) \<ge> 2 then Some (Some (clk (Suc k)))
        else survivors_loop get clk addrs deadline (Suc k))
     else Some None)"

record kill_run =
  kr_primary :: string
  kr_start :: time
  kr_calls :: "host_call list"
  kr_end :: "time option"

definition kill_goroutine ::
  "env \<Rightarrow> host \<Rightarrow> (nat \<Rightarrow> string \<Rightarrow> string + int) \<Rightarrow> (nat \<Rightarrow> time) \<Rightarrow> string list \<Rightarrow> string \<Rightarrow> string \<Rightarrow> world
    \<Rightarrow> (kill_run \<times> world) option" where
  "kill_goroutine E h get clk addrs key killCmd w =
    (case kill_target E addrs key w of
       None \<Rightarrow> None
     | Some (primary, w1) \<Rightarrow>
         (let cs = (if killCmd \<noteq> '''' then [RunBash ''-c'' killCmd] else killLocalPrimary h primary)
          in map_option (\<lambda>seen. (\<lparr>kr_primary = primary, kr_start = clk 0, kr_calls = cs, kr_end = seen\<rparr>, w1))
               (survivors_loop get clk addrs (time_add (clk 1) (10 * second)) 2)))"

text \<open>The printed window, if the kill had begun; \<open>now\<close> is when it is printed.\<close>

definition fail_open_window :: "time option \<Rightarrow> time option \<Rightarrow> time \<Rightarrow> duration option" where
  "fail_open_window start seen now =
    (case start of
       None \<Rightarrow> None
     | Some t \<Rightarrow> Some (time_sub (case seen of None \<Rightarrow> now | Some e \<Rightarrow> e) t))"

section \<open>What main runs\<close>

text \<open>The phase: its name, whether it is limited, when the primary is killed, and how.\<close>

definition rate_phase :: "bool \<Rightarrow> duration \<Rightarrow> string \<Rightarrow> string \<times> bool \<times> duration \<times> string" where
  "rate_phase baseline killAfter killCmd =
    (if baseline then (''baseline_no_limiter'', False, 0, '''') else (''limited'', True, killAfter, killCmd))"

definition phase_handler :: "(string \<Rightarrow> string) \<Rightarrow> bool \<Rightarrow> string list \<Rightarrow> rat \<Rightarrow> rat \<Rightarrow> mw_config option" where
  "phase_handler getenv limited addrs r b = (if limited then Some (load_middleware getenv addrs r b) else None)"

definition phase_kills :: "bool \<Rightarrow> duration \<Rightarrow> bool" where
  "phase_kills limited killAfter \<longleftrightarrow> killAfter > 0 \<and> limited"

end
