(* ===== verification/KillTheorems.thy ===== *)
theory KillTheorems
  imports Kill
begin

text \<open>
  What \<open>-kill-after\<close> does: whom it kills, when it has seen the survivors, and what the printed
  window measures.
\<close>

section \<open>Whom it kills\<close>

text \<open>The processes the files of some paths name.\<close>

definition named :: "host \<Rightarrow> string list \<Rightarrow> int set" where
  "named h ps = {pid. 0 < pid \<and> (\<exists>p \<in> set ps. \<exists>b. hFile h p = Some b \<and> sscan_int (trim_space b) = pid)}"

lemma named_Cons:
  "named h (p # ps) = (case hFile h p of None \<Rightarrow> {} | Some b \<Rightarrow> {pid. 0 < pid \<and> sscan_int (trim_space b) = pid}) \<union> named h ps"
  by (auto simp: named_def split: option.splits)

lemma kill_paths_named:
  "{pid. Taskkill pid \<in> set (fst (kill_paths h ps)) \<or> Kill pid \<in> set (fst (kill_paths h ps))} \<subseteq> named h ps"
proof (induction ps)
  case (Cons p ps)
  then show ?case by (auto simp: named_Cons Let_def split: option.splits prod.splits if_splits)
qed simp

text \<open>Only the last file that was tried is removed, after its process was dealt with.\<close>

lemma kill_paths_last:
  "case kill_paths h ps of
     (cs, True) \<Rightarrow> (\<exists>p \<in> set ps. \<exists>pid pre. 0 < pid \<and> cs = pre @ [RemoveFile p]
       \<and> Option.bind (hFile h p) (\<lambda>b. Some (sscan_int (trim_space b))) = Some pid
       \<and> (last pre = Taskkill pid \<and> hTaskkill h pid \<or> last pre = Kill pid \<and> hFind h pid)
       \<and> pre \<noteq> [] \<and> (\<forall>c \<in> set (butlast pre). \<exists>q. c = Taskkill q \<and> \<not> hTaskkill h q))
   | (cs, False) \<Rightarrow> \<forall>c \<in> set cs. \<exists>q. c = Taskkill q \<and> \<not> hTaskkill h q \<and> \<not> hFind h q"
proof (induction ps)
  case (Cons p ps)
  show ?case
  proof (cases "hFile h p")
    case None
    with Cons show ?thesis by (auto split: prod.splits bool.splits)
  next
    case (Some b)
    define pid where "pid = sscan_int (trim_space b)"
    consider "pid \<le> 0" | "0 < pid" "hTaskkill h pid" | "0 < pid" "\<not> hTaskkill h pid" "hFind h pid"
      | "0 < pid" "\<not> hTaskkill h pid" "\<not> hFind h pid" by linarith
    then show ?thesis
    proof cases
      case 1
      with Cons Some show ?thesis by (auto simp: pid_def [symmetric] split: prod.splits bool.splits)
    next
      case 2
      then show ?thesis using Some by (auto simp: pid_def [symmetric] intro!: exI [of _ pid] exI [of _ "[Taskkill pid]"])
    next
      case 3
      then show ?thesis using Some by (auto simp: pid_def [symmetric] intro!: exI [of _ pid] exI [of _ "[Taskkill pid, Kill pid]"])
    next
      case 4
      obtain cs ok where r: "kill_paths h ps = (cs, ok)" by force
      show ?thesis
      proof (cases ok)
        case True
        with Cons r obtain q i pre where t: "q \<in> set ps" "0 < i" "cs = pre @ [RemoveFile q]"
          "Option.bind (hFile h q) (\<lambda>b. Some (sscan_int (trim_space b))) = Some i"
          "last pre = Taskkill i \<and> hTaskkill h i \<or> last pre = Kill i \<and> hFind h i" "pre \<noteq> []"
          "\<forall>c \<in> set (butlast pre). \<exists>q. c = Taskkill q \<and> \<not> hTaskkill h q" by auto
        have "kill_paths h (p # ps) = ((Taskkill pid # pre) @ [RemoveFile q], True)"
          using 4 Some r True t(3) by (simp add: pid_def [symmetric])
        with t 4 show ?thesis
          by (auto intro!: bexI [of _ q] exI [of _ i] exI [of _ "Taskkill pid # pre"])
      next
        case False
        with Cons r 4 Some show ?thesis by (auto simp: pid_def [symmetric])
      qed
    qed
  qed
qed simp

section \<open>When it sees the survivors\<close>

definition healthy :: "(string \<Rightarrow> string + int) \<Rightarrow> string list \<Rightarrow> nat" where
  "healthy get addrs = length (filter (\<lambda>a. get (trim_right_char CHR ''/'' a @ ''/health'') = Inr 200) addrs)"

lemma healthy_round: "fst (rate_round get addrs 0 e) = healthy get addrs"
  by (simp add: rate_round_ok healthy_def)

lemma survivors_unfold:
  "survivors_loop get clk addrs deadline k =
    (if clk k < deadline then (if 2 \<le> healthy (get k) addrs then Some (Some (clk (Suc k)))
       else survivors_loop get clk addrs deadline (Suc k))
     else Some None)"
  by (subst survivors_loop.simps) (simp add: healthy_round time_before_def)

text \<open>The loop ends in the first round with two healthy addresses, or at the deadline.\<close>

lemma survivors_end:
  assumes "k \<le> j" "\<not> clk j < deadline"
  shows "\<exists>i \<ge> k. i \<le> j \<and> (\<forall>m. k \<le> m \<and> m < i \<longrightarrow> clk m < deadline \<and> healthy (get m) addrs < 2)
    \<and> survivors_loop get clk addrs deadline k = Some (if clk i < deadline then Some (clk (Suc i)) else None)
    \<and> (clk i < deadline \<longrightarrow> 2 \<le> healthy (get i) addrs)"
  using assms(1)
proof (induction "j - k" arbitrary: k)
  case 0
  then show ?case using assms(2) by (intro exI [of _ k]) (simp add: survivors_unfold)
next
  case (Suc d)
  show ?case
  proof (cases "clk k < deadline \<and> healthy (get k) addrs < 2")
    case False
    then show ?thesis using Suc.prems by (intro exI [of _ k]) (auto simp: survivors_unfold [of _ _ _ _ k] not_less)
  next
    case True
    obtain i where i: "Suc k \<le> i" "i \<le> j" "\<forall>m. Suc k \<le> m \<and> m < i \<longrightarrow> clk m < deadline \<and> healthy (get m) addrs < 2"
      "survivors_loop get clk addrs deadline (Suc k) = Some (if clk i < deadline then Some (clk (Suc i)) else None)"
      "clk i < deadline \<longrightarrow> 2 \<le> healthy (get i) addrs"
      using Suc.hyps(1) [of "Suc k"] Suc.hyps(2) Suc.prems by (metis Suc_diff_Suc Suc_leI diff_Suc_1 diff_is_0_eq nat_le_linear not_less zero_less_Suc zero_less_diff)
    then have "\<forall>m. k \<le> m \<and> m < i \<longrightarrow> clk m < deadline \<and> healthy (get m) addrs < 2"
      using True by (metis le_antisym not_less_eq_eq)
    moreover have "survivors_loop get clk addrs deadline k = survivors_loop get clk addrs deadline (Suc k)"
      using True by (subst survivors_unfold) simp
    ultimately show ?thesis using i by (intro exI [of _ i]) simp
  qed
qed

text \<open>With fewer than two addresses the survivors of a killed primary are never seen.\<close>

theorem survivors_need_two:
  assumes "k \<le> j" "\<not> time_before (clk j) deadline" "length addrs < 2"
  shows "survivors_loop get clk addrs deadline k = Some None"
proof -
  obtain i where i: "survivors_loop get clk addrs deadline k = Some (if clk i < deadline then Some (clk (Suc i)) else None)"
      "clk i < deadline \<longrightarrow> 2 \<le> healthy (get i) addrs"
    using survivors_end [OF assms(1)] assms(2) unfolding time_before_def by metis
  moreover have "healthy (get i) addrs < 2"
    using assms(3) unfolding healthy_def by (rule le_less_trans [OF length_filter_le])
  ultimately show ?thesis by auto
qed

theorem survivors_need_two_witness:
  "survivors_loop (\<lambda>_ _. Inr 200) (\<lambda>k. int k) [''http://a''] 1 1 = Some None"
  by (rule survivors_need_two [of 1 1]) (simp_all add: time_before_def)

section \<open>The scenario\<close>

text \<open>
  The fail-open scenario of ratebench, for a key of unreserved bytes. The goroutine of
  \<open>-kill-after\<close> looks up the primary that decides the key's takes and, without a \<open>-kill-cmd\<close>,
  stops only processes that the files of this primary's letter name; it removes at most the
  file of the one it stopped, and runs the fallback script exactly when it removed none. It
  always ends, and what is printed as the window runs from just before the kill to the first
  round in which two addresses were healthy, or else to the printing.
\<close>

theorem kill_scenario:
  assumes "cluster_reach E w" "route E (trim_right_char CHR ''/'' a) = Some p" "key \<noteq> ''''" "list_all unreserved key"
    and "2 \<le> j" "\<not> clk j < clk 1 + 10000000000"
  shows "\<exists>r i. kill_goroutine E h get clk (a # as) key '''' w = Some (r, w)
    \<and> kr_primary r = Primary (nring (procs w p)) key
    \<and> (\<forall>pid. Taskkill pid \<in> set (kr_calls r) \<or> Kill pid \<in> set (kr_calls r)
        \<longrightarrow> pid \<in> named h (pid_paths h (pid_letter (kr_primary r))))
    \<and> length (filter (\<lambda>c. \<exists>f. c = RemoveFile f) (kr_calls r)) \<le> 1
    \<and> ((\<exists>f. RemoveFile f \<in> set (kr_calls r)) \<longleftrightarrow>
        RunBash ''-lc'' (kill_script (pid_letter (kr_primary r))) \<notin> set (kr_calls r))
    \<and> 2 \<le> i \<and> i \<le> j \<and> (\<forall>m. 2 \<le> m \<and> m < i \<longrightarrow> healthy (get m) (a # as) < 2)
    \<and> fail_open_window (Some (kr_start r)) (kr_end r) now
        = Some (time_sub (if clk i < clk 1 + 10000000000 then clk (Suc i) else now) (clk 0))
    \<and> (clk i < clk 1 + 10000000000 \<longrightarrow> 2 \<le> healthy (get i) (a # as))"
proof -
  define primary where "primary = Primary (nring (procs w p)) key"
  define ps where "ps = pid_paths h (pid_letter primary)"
  define cs where "cs = killLocalPrimary h primary"
  obtain i where i: "2 \<le> i" "i \<le> j" "\<forall>m. 2 \<le> m \<and> m < i \<longrightarrow> healthy (get m) (a # as) < 2"
    "survivors_loop get clk (a # as) (clk 1 + 10000000000) 2 = Some (if clk i < clk 1 + 10000000000 then Some (clk (Suc i)) else None)"
    "clk i < clk 1 + 10000000000 \<longrightarrow> 2 \<le> healthy (get i) (a # as)"
    using survivors_end [of 2 j clk "clk 1 + 10000000000" get "a # as"] assms(5,6) by blast
  define r where "r = \<lparr>kr_primary = primary, kr_start = clk 0, kr_calls = cs,
      kr_end = (if clk i < clk 1 + 10000000000 then Some (clk (Suc i)) else None)\<rparr>"
  have goes: "kill_goroutine E h get clk (a # as) key '''' w = Some (r, w)"
    using lookup_finds_the_primary [OF assms(1-4)] i(4)
    by (simp add: r_def kill_goroutine_def kill_target_def primary_def cs_def time_add_def second_def)
  obtain ks ok where k: "kill_paths h ps = (ks, ok)" by force
  have cs: "cs = (if ok then ks else ks @ [RunBash ''-lc'' (kill_script (pid_letter primary))])"
    using k by (simp add: cs_def killLocalPrimary_def ps_def Let_def)
  note calls = kill_paths_last [where h = h and ps = ps, unfolded k prod.case]
  have removed: "length (filter (\<lambda>c. \<exists>f. c = RemoveFile f) cs) \<le> 1
      \<and> ((\<exists>f. RemoveFile f \<in> set cs) \<longleftrightarrow> RunBash ''-lc'' (kill_script (pid_letter primary)) \<notin> set cs)"
  proof (cases ok)
    case True
    then obtain f pre pid where f: "ks = pre @ [RemoveFile f]" "last pre = Taskkill pid \<or> last pre = Kill pid" "pre \<noteq> []"
      "\<forall>c \<in> set (butlast pre). \<exists>q. c = Taskkill q \<and> \<not> hTaskkill h q" using calls by auto
    moreover have "set pre = insert (last pre) (set (butlast pre))"
      using append_butlast_last_id [OF f(3)] by (metis Un_insert_right list.simps(15) rotate1.simps(2) set_append set_rotate1 sup_bot.right_neutral)
    ultimately have t: "ks = pre @ [RemoveFile f]" "\<forall>c \<in> set pre. \<exists>q. c = Taskkill q \<or> c = Kill q" by auto
    then have "filter (\<lambda>c. \<exists>f. c = RemoveFile f) pre = []" by (auto simp: filter_empty_conv)
    with t True cs show ?thesis by auto
  next
    case False
    then have "\<forall>c \<in> set ks. \<exists>q. c = Taskkill q" using calls by auto
    then have "filter (\<lambda>c. \<exists>f. c = RemoveFile f) ks = []" by (auto simp: filter_empty_conv)
    with False cs \<open>\<forall>c \<in> set ks. \<exists>q. c = Taskkill q\<close> show ?thesis by auto
  qed
  have named: "\<forall>pid. Taskkill pid \<in> set cs \<or> Kill pid \<in> set cs \<longrightarrow> pid \<in> named h ps"
    using kill_paths_named [of h ps] k cs by (auto split: if_splits)
  have r: "kr_primary r = primary" "kr_calls r = cs" "fail_open_window (Some (kr_start r)) (kr_end r) now
      = Some (time_sub (if clk i < clk 1 + 10000000000 then clk (Suc i) else now) (clk 0))"
    by (simp_all add: r_def fail_open_window_def)
  show ?thesis
    by (intro exI [of _ r] exI [of _ i] conjI)
      (insert named i removed, unfold r goes primary_def [symmetric] ps_def, (assumption | elim conjE | rule refl)+)
qed

text \<open>A host whose first file is empty and whose second names process 42.\<close>

definition demo_host :: host where
  "demo_host = \<lparr>hEnv = (\<lambda>_. ''/var/tmp/''), hFile = (\<lambda>f. if f = ''/tmp/ringcache-a.pid'' then Some ''42 '' else Some ''''),
     hTaskkill = (\<lambda>_. False), hFind = (\<lambda>_. True)\<rparr>"

lemma demo_kill: "killLocalPrimary demo_host ''node-a'' = [Taskkill 42, Kill 42, RemoveFile ''/tmp/ringcache-a.pid'']"
  by code_simp

theorem kill_scenario_witness:
  "\<exists>r. kill_goroutine demo_env demo_host (\<lambda>_ _. Inr 200) (\<lambda>k. 4000000000 * int k) [''http://a/'', ''http://b''] ''k'' '''' demo_world
      = Some (r, demo_world)
    \<and> kr_primary r = Primary (nring (procs demo_world ''a'')) ''k''
    \<and> fail_open_window (Some (kr_start r)) (kr_end r) 0 = Some 12000000000"
proof -
  have r: "route demo_env (trim_right_char CHR ''/'' ''http://a/'') = Some ''a''"
    by (simp add: demo_env_def trim_right_char_def)
  have two: "healthy (\<lambda>_. Inr 200) [''http://a/'', ''http://b''] = 2" by (simp add: healthy_def)
  obtain r i where k: "kill_goroutine demo_env demo_host (\<lambda>_ _. Inr 200) (\<lambda>k. 4000000000 * int k)
        [''http://a/'', ''http://b''] ''k'' '''' demo_world = Some (r, demo_world)"
      "kr_primary r = Primary (nring (procs demo_world ''a'')) ''k''" "2 \<le> i"
      "\<forall>m. 2 \<le> m \<and> m < i \<longrightarrow> healthy (\<lambda>_. Inr 200) [''http://a/'', ''http://b''] < 2"
      "fail_open_window (Some (kr_start r)) (kr_end r) 0 = Some (time_sub (if 4000000000 * int i < 4000000000 * int 1 + 10000000000
        then 4000000000 * int (Suc i) else 0) (4000000000 * int 0))"
    using kill_scenario [OF demo_reach r, of "''k''" 4 "\<lambda>k. 4000000000 * int k" demo_host "\<lambda>_ _. Inr 200" "[''http://b'']" 0]
    by (auto simp: unreserved_def)
  have "\<not> 2 < i" using k(4) two by auto
  then have "i = 2" using k(3) by simp
  then show ?thesis using k(1,2,5) by (intro exI [of _ r]) (simp add: time_sub_def int64_defs)
qed

text \<open>
  With no file of the primary the fallback is a shell script that has the letter of the
  primary's name in it, as the answer of \<open>/ring\<close> spells it: a name such as \<open>node-$(id)\<close> is run.
\<close>

lemma no_files: "\<forall>p \<in> set ps. hFile h p = None \<Longrightarrow> kill_paths h ps = ([], False)"
  by (induction ps) auto

theorem fallback_runs_the_name:
  assumes "\<forall>p. hFile h p = None" "has_prefix nid ''node-''"
  shows "killLocalPrimary h nid = [RunBash ''-lc'' (kill_script (drop 5 nid))]"
proof -
  have "drop 5 nid \<noteq> nid" using assms(2) by (auto simp: has_prefix_iff)
  then show ?thesis using assms no_files [of _ h] by (simp add: killLocalPrimary_def pid_letter_def Let_def)
qed

theorem fallback_runs_the_name_witness:
  "killLocalPrimary (demo_host\<lparr>hFile := \<lambda>_. None\<rparr>) ''node-$(id)'' = [RunBash ''-lc'' (kill_script ''$(id)'')]"
  by (subst fallback_runs_the_name) simp_all

end
