(* ===== verification/HttpClient.thy ===== *)
theory HttpClient
  imports RateClient ClusterDemo
begin

text \<open>
  The value \<open>Client\<close> of \<open>pkg/ratelimit/middleware.go\<close> and the \<open>http.Client\<close> it makes once and
  keeps: which one a take uses, how long an attempt may last, and that all takes of a client
  share one pool of connections.
\<close>

section \<open>Clients\<close>

text \<open>The settings of an \<open>http.Client\<close> that bound a call; 0 is no bound.\<close>

record http_client =
  hc_timeout :: duration
  hc_header_timeout :: duration
  hc_idle :: nat
  hc_idle_per_host :: nat

record client =
  clAddrs :: "string list"
  clTimeout :: duration
  clHTTP :: "http_client option"
  clShared :: "http_client option"

definition take_timeout :: "client \<Rightarrow> duration" where
  "take_timeout c = (if clTimeout c \<le> 0 then 5 * millisecond else clTimeout c)"

text \<open>\<open>clShared\<close> is set exactly when \<open>once\<close> has run.\<close>

definition httpClient :: "client \<Rightarrow> http_client \<times> client" where
  "httpClient c =
    (case clHTTP c of
       Some h \<Rightarrow> (h, c)
     | None \<Rightarrow>
         (case clShared c of
            Some h \<Rightarrow> (h, c)
          | None \<Rightarrow>
              (let timeout = (if clTimeout c \<le> 0 then 5 * millisecond else clTimeout c);
                   h = \<lparr>hc_timeout = timeout, hc_header_timeout = timeout, hc_idle = 128, hc_idle_per_host = 32\<rparr>
               in (h, c\<lparr>clShared := Some h\<rparr>))))"

text \<open>\<open>Take\<close> on a client: the error of an empty address list comes before the client is made.\<close>

definition Take_client ::
  "env \<Rightarrow> (nat \<Rightarrow> loss) \<Rightarrow> string \<Rightarrow> rat \<Rightarrow> rat \<Rightarrow> rat \<Rightarrow> client \<times> world \<Rightarrow> ((string + decision) \<times> client \<times> world) option" where
  "Take_client E lost key r b cost cw =
    (case cw of
       (c, w) \<Rightarrow>
         if clAddrs c = [] then Some (Inl ''no ringcache addrs'', c, w)
         else map_option (\<lambda>(x, w1). (x, snd (httpClient c), w1)) (client_Take E lost (clAddrs c) key r b cost w))"

text \<open>How long one attempt may last: the context's deadline and the client's own.\<close>

definition patience :: "client \<Rightarrow> duration" where
  "patience c =
    (let h = fst (httpClient c) in if hc_timeout h > 0 then min (take_timeout c) (hc_timeout h) else take_timeout c)"

section \<open>One pool\<close>

lemma httpClient_again: "httpClient (snd (httpClient c)) = (fst (httpClient c), snd (httpClient c))"
  by (auto simp: httpClient_def Let_def split: option.splits)

lemma httpClient_keeps:
  "clAddrs (snd (httpClient c)) = clAddrs c" "clTimeout (snd (httpClient c)) = clTimeout c" "clHTTP (snd (httpClient c)) = clHTTP c"
  by (simp_all add: httpClient_def Let_def split: option.splits)

lemma take_timeout_keeps: "take_timeout (snd (httpClient c)) = take_timeout c"
  by (simp add: take_timeout_def httpClient_keeps)

text \<open>The takes of a client, one after the other; \<open>None\<close> if one does not return.\<close>

fun takes :: "env \<Rightarrow> (nat \<Rightarrow> loss) \<Rightarrow> (string \<times> rat \<times> rat \<times> rat) list \<Rightarrow> client \<times> world \<Rightarrow> (client \<times> world) option" where
  "takes E lost [] cw = Some cw"
| "takes E lost ((key, r, b, cost) # ts) cw =
    (case Take_client E lost key r b cost cw of None \<Rightarrow> None | Some (x, cw1) \<Rightarrow> takes E lost ts cw1)"

text \<open>
  However many takes a client has made, the next one uses the \<open>http.Client\<close> of the first, no
  attempt lasts longer than the client's timeout (5 ms when none is set), and every take returns.
\<close>

theorem client_keeps_one_pool:
  assumes "world_inv E w"
  shows "\<exists>c' w'. takes E lost ts (c, w) = Some (c', w') \<and> world_inv E w'
    \<and> fst (httpClient c') = fst (httpClient c) \<and> clAddrs c' = clAddrs c \<and> take_timeout c' = take_timeout c
    \<and> patience c' \<le> take_timeout c \<and> 0 < patience c'"
  using assms
proof (induction ts arbitrary: c w)
  case Nil
  then show ?case by (auto simp: patience_def take_timeout_def millisecond_def Let_def)
next
  case (Cons t ts)
  obtain key r b cost where t: "t = (key, r, b, cost)" by (cases t)
  obtain x w1 where x: "client_Take E lost (clAddrs c) key r b cost w = Some (x, w1)" "world_inv E w1"
    using client_Take_runs [OF Cons.prems] by blast
  show ?case
  proof (cases "clAddrs c = []")
    case True
    with Cons.IH [OF Cons.prems, of c] show ?thesis by (simp add: t Take_client_def)
  next
    case False
    then have "takes E lost (t # ts) (c, w) = takes E lost ts (snd (httpClient c), w1)"
      using x by (simp add: t Take_client_def)
    with Cons.IH [OF x(2), of "snd (httpClient c)"] show ?thesis
      unfolding httpClient_again fst_conv httpClient_keeps take_timeout_keeps by presburger
  qed
qed

theorem client_keeps_one_pool_witness:
  "\<exists>c' w'. takes demo_env (\<lambda>_. Arrives) [(''k'', 1, 1, 1), (''l'', 1, 1, 1)]
        (\<lparr>clAddrs = [''http://a''], clTimeout = 0, clHTTP = None, clShared = None\<rparr>, demo_world) = Some (c', w')
      \<and> hc_timeout (fst (httpClient c')) = 5000000 \<and> patience c' \<le> 5000000"
proof -
  let ?c = "\<lparr>clAddrs = [''http://a''], clTimeout = 0, clHTTP = None, clShared = None\<rparr>"
  have "hc_timeout (fst (httpClient ?c)) = 5000000" "take_timeout ?c = 5000000"
    by (simp_all add: httpClient_def take_timeout_def millisecond_def Let_def)
  then show ?thesis
    using client_keeps_one_pool [OF cluster_reach_inv [OF demo_reach], of "\<lambda>_. Arrives" "[(''k'', 1, 1, 1), (''l'', 1, 1, 1)]" ?c]
    by metis
qed

end
