(* ===== verification/Mains.thy ===== *)
theory Mains
  imports Freshness KillTheorems HttpClient
begin

text \<open>
  The \<open>main\<close> functions of \<open>cmd/bench\<close>, \<open>cmd/ratebench\<close> and \<open>examples/ratelimit-demo\<close>: their flags
  with the defaults, and what they run with them. A flag that was not given is \<open>None\<close>.
\<close>

section \<open>cmd/bench\<close>

record bench_flags =
  bfAddrs :: "string option"
  bfN :: "int option"
  bfC :: "int option"
  bfTTL :: "int option"
  bfKeys :: "int option"

record bench_run =
  brBases :: "string list"
  brN :: int
  brC :: int
  brTTL :: int
  brKeys :: int

text \<open>An exit status, or the parameters of the two phases.\<close>

definition bench_main ::
  "(string \<Rightarrow> string) \<Rightarrow> bench_flags \<Rightarrow> (nat \<Rightarrow> string \<Rightarrow> string + int) \<Rightarrow> (nat \<Rightarrow> time) \<Rightarrow> (int + bench_run) option" where
  "bench_main getenv f get clk =
    map_option (map_sum (\<lambda>st. st) (\<lambda>bases. \<lparr>brBases = bases, brN = flag_value (bfN f) 4000, brC = flag_value (bfC f) 32,
        brTTL = flag_value (bfTTL f) 60000, brKeys = flag_value (bfKeys f) 1000\<rparr>))
      (bench_start getenv (bfAddrs f) get clk)"

section \<open>cmd/ratebench\<close>

record rate_flags =
  rfAddrs :: "string option"
  rfTarget :: "rat option"
  rfBurst :: "rat option"
  rfMult :: "rat option"
  rfDuration :: "duration option"
  rfKey :: "string option"
  rfTimeout :: "duration option"
  rfKillAfter :: "duration option"
  rfKillCmd :: "string option"
  rfBaseline :: bool

record rate_run =
  ruName :: string
  ruClient :: client
  ruHandler :: "mw_config option"
  ruKey :: string
  ruTarget :: rat
  ruInterval :: duration
  ruDuration :: duration
  ruKillAfter :: "(duration \<times> string) option"

text \<open>What \<open>runPhase\<close> is called with, as far as its first statements have evaluated it.\<close>

definition rate_main ::
  "goarch \<Rightarrow> (string \<Rightarrow> string) \<Rightarrow> rate_flags \<Rightarrow> (nat \<Rightarrow> string \<Rightarrow> string + int) \<Rightarrow> (nat \<Rightarrow> time) \<Rightarrow> (int + rate_run) option" where
  "rate_main a getenv f get clk =
    map_option (map_sum (\<lambda>st. st) (\<lambda>addrs.
      let goal = flag_value (rfTarget f) 100; b = flag_value (rfBurst f) 20; factor = flag_value (rfMult f) 2;
          (name, limited, killAfter, killCmd) =
            rate_phase (rfBaseline f) (flag_value (rfKillAfter f) 0) (flag_value (rfKillCmd f) '''')
      in \<lparr>ruName = name,
          ruClient = \<lparr>clAddrs = addrs, clTimeout = flag_value (rfTimeout f) (5 * millisecond), clHTTP = None, clShared = None\<rparr>,
          ruHandler = phase_handler getenv limited addrs goal b,
          ruKey = flag_value (rfKey f) ''ratebench'',
          ruTarget = goal,
          ruInterval = offer_interval a goal factor,
          ruDuration = flag_value (rfDuration f) (60 * second),
          ruKillAfter = (if phase_kills limited killAfter then Some (killAfter, killCmd) else None)\<rparr>))
      (rate_start getenv (rfAddrs f) get clk)"

section \<open>examples/ratelimit-demo\<close>

record demo_flags =
  dfListen :: "string option"
  dfAddrs :: "string option"
  dfRate :: "rat option"
  dfBurst :: "rat option"
  dfTimeout :: "duration option"
  dfInflight :: "int option"
  dfDryRun :: bool

definition demo_main :: "(string \<Rightarrow> string) \<Rightarrow> demo_flags \<Rightarrow> string \<times> client \<times> mw_config" where
  "demo_main getenv f =
    (let mw = demo_middleware getenv (dfAddrs f) (flag_value (dfRate f) 5) (flag_value (dfBurst f) 5)
           (flag_value (dfInflight f) 32) (dfDryRun f);
         cli = \<lparr>clAddrs = (case mAddrs mw of None \<Rightarrow> [] | Some addrs \<Rightarrow> addrs),
           clTimeout = flag_value (dfTimeout f) (5 * millisecond), clHTTP = None, clShared = None\<rparr>
     in (flag_value (dfListen f) '':9090'', cli, mw))"

text \<open>The handlers behind the middleware; \<open>vars\<close> is what the expvar page says.\<close>

definition demo_mux :: "json \<Rightarrow> string \<Rightarrow> api_request \<Rightarrow> response" where
  "demo_mux vars path r =
    (if path = ''/api/hello'' then writeJSON 200 (hello r)
     else if path = ''/debug/vars'' then writeJSON 200 vars
     else http_error ''404 page not found'' 404)"

section \<open>What runs\<close>

lemma load_middleware_fields:
  assumes "0 < r" "0 < b"
  shows "mAddrs (load_middleware getenv addrs r b) = Some addrs" "mRate (load_middleware getenv addrs r b) = r"
    "mBurst (load_middleware getenv addrs r b) = b" "mCost (load_middleware getenv addrs r b) = 1"
    "mDisabled (load_middleware getenv addrs r b) \<longleftrightarrow> getenv ''RATELIMIT_DISABLED'' = ''1''"
  using assms by (cases "getenv ''RATELIMIT_DISABLED'' = ''1''"; simp add: load_middleware_def mw_defaults_def)+

text \<open>
  A ratebench that starts runs against the addresses it was given, offers at most a request per
  microsecond, limits unless it is the baseline, and kills a primary only in a limited run. The
  limiter asks for the target rate and the burst, as long as they are positive; it is switched
  off by \<open>RATELIMIT_DISABLED=1\<close> in the environment, as any middleware, and the report does not say so.
\<close>

theorem rate_main_runs:
  assumes "rate_main a getenv f get clk = Some (Inr u)"
  shows "clAddrs (ruClient u) = bench_addrs getenv (rfAddrs f) \<and> 1000 \<le> ruInterval u
    \<and> (ruHandler u = None \<longleftrightarrow> rfBaseline f)
    \<and> (ruKillAfter u \<noteq> None \<longrightarrow> \<not> rfBaseline f \<and> 0 < flag_value (rfKillAfter f) 0)
    \<and> (\<forall>c. ruHandler u = Some c \<and> 0 < ruTarget u \<and> 0 < flag_value (rfBurst f) 20 \<longrightarrow>
        mAddrs c = Some (clAddrs (ruClient u)) \<and> mRate c = ruTarget u \<and> mBurst c = flag_value (rfBurst f) 20
        \<and> mCost c = 1 \<and> (mDisabled c \<longleftrightarrow> getenv ''RATELIMIT_DISABLED'' = ''1''))"
proof -
  obtain addrs where addrs: "rate_start getenv (rfAddrs f) get clk = Some (Inr addrs)"
    using assms by (cases "rate_start getenv (rfAddrs f) get clk"; cases "the (rate_start getenv (rfAddrs f) get clk)")
      (auto simp: rate_main_def)
  then have same: "addrs = bench_addrs getenv (rfAddrs f)" by (auto simp: rate_start_def Let_def split: if_splits)
  have interval: "1000 \<le> offer_interval a g m" for g m by (simp add: offer_interval_def Let_def)
  show ?thesis
  proof (cases "rfBaseline f")
    case True
    then show ?thesis
      using assms addrs same interval by (auto simp: rate_main_def rate_phase_def phase_handler_def phase_kills_def Let_def)
  next
    case False
    then show ?thesis
      using assms addrs same interval load_middleware_fields
      by (auto simp: rate_main_def rate_phase_def phase_handler_def phase_kills_def Let_def split: if_splits)
  qed
qed

definition no_flags :: rate_flags where
  "no_flags = \<lparr>rfAddrs = Some ''http://a'', rfTarget = None, rfBurst = None, rfMult = None, rfDuration = None, rfKey = None,
     rfTimeout = None, rfKillAfter = None, rfKillCmd = None, rfBaseline = False\<rparr>"

theorem rate_main_runs_witness:
  "\<exists>u c. rate_main AMD64 (\<lambda>_. '''') no_flags (\<lambda>_ _. Inr 200) int = Some (Inr u) \<and> ruHandler u = Some c
    \<and> mRate c = 100 \<and> mBurst c = 20 \<and> \<not> mDisabled c"
proof -
  have addrs: "bench_addrs (\<lambda>_. '''') (Some ''http://a'') = [''http://a'']" by code_simp
  have "rate_waitHealthy (\<lambda>_ _. Inr 200) int [''http://a''] (15 * second) = Some None"
    unfolding rate_waitHealthy_def by (subst rate_wait_loop.simps) (simp add: time_defs)
  then have start: "rate_start (\<lambda>_. '''') (Some ''http://a'') (\<lambda>_ _. Inr 200) int = Some (Inr [''http://a''])"
    by (simp add: rate_start_def addrs)
  obtain u where u: "rate_main AMD64 (\<lambda>_. '''') no_flags (\<lambda>_ _. Inr 200) int = Some (Inr u)" "ruTarget u = 100"
    by (simp add: rate_main_def start no_flags_def flag_value_def Let_def split: prod.splits)
  note r = rate_main_runs [OF u(1)]
  then obtain c where "ruHandler u = Some c" by (auto simp: no_flags_def)
  with r u show ?thesis by (auto simp: no_flags_def flag_value_def)
qed

text \<open>
  The demo answers \<open>/api/hello\<close> with the key's header and limits it by default to 5 requests per
  second; its expvar page is behind the same middleware.
\<close>

theorem demo_main_limits:
  "fst (demo_main getenv f) = flag_value (dfListen f) '':9090''
    \<and> (let c = snd (snd (demo_main getenv f)); r = flag_value (dfRate f) 5; b = flag_value (dfBurst f) 5
       in mAddrs c = Some (clAddrs (fst (snd (demo_main getenv f)))) \<and> mCost c = 1
          \<and> mRate c = (if r \<le> 0 then 100 else r) \<and> mBurst c = (if b \<le> 0 then 20 else b)
          \<and> mMaxInFlight c = flag_value (dfInflight f) 32 \<and> mDryRun c = dfDryRun f)"
  by (simp add: demo_main_def demo_middleware_def mw_defaults_def Let_def)

end
