(* ===== verification/Spec2Isabelle.thy ===== *)
theory Spec2Isabelle
  imports RingTheorems StoreTheorems LimiterTheorems ClusterTheorems MiddlewareTheorems
    Deployment NodeClose BenchOps Mains
begin

text \<open>
  ringcache is a replicated in-memory cache with consistent hashing and a token-bucket rate
  limiter, written in Go. A cluster is a set of processes that all run \<open>cmd/ringcache\<close>. Each
  has a ring (\<open>internal/ring\<close>) that maps a key to its owners, a cache (\<open>internal/store\<close>), a
  table of token buckets (\<open>internal/ratelimit\<close>), and HTTP handlers (\<open>internal/node\<close>) that
  replicate SETs and DELETEs to the owners, read from them in turn and repair stale copies, and
  forward each take to the key's primary. \<open>pkg/ratelimit\<close> is the middleware that asks the
  cluster; \<open>cmd/bench\<close>, \<open>cmd/ratebench\<close> and \<open>examples/ratelimit-demo\<close> are its users.

  \<^bold>\<open>Library.\<close> \<open>Prelude\<close>: Go maps as association lists behind the locale \<open>go_map\<close>, list lemmas.
  \<open>GoTime\<close>: \<open>int64\<close> with its wrap-around, durations, instants. \<open>GoText\<close>, \<open>GoSort\<close>: what is used
  of \<open>strings\<close>, \<open>strconv\<close> and \<open>sort\<close>. \<open>Query\<close>: the escaping and reading of queries of \<open>net/url\<close>,
  \<open>urlQuery\<close> among them, with the locale \<open>byte_code\<close>. \<open>Float64\<close>: rounding to binary64, with the locale
  \<open>rounding\<close>. \<open>Json\<close>, \<open>Wire\<close>: JSON values, their texts' lengths, struct decoding, the messages.

  \<^bold>\<open>Ring\<close> (\<open>internal/ring/ring.go\<close>): the record \<open>ring_t\<close> and every operation, \<open>Hash32\<close> on
  32-bit words. \<open>RingProps\<close> gives the invariant and the equality of \<open>owners_loop\<close> with the
  clockwise walk \<open>owner_order\<close>; \<open>RingTheorems\<close> says what a join or leave moves.

  \<^bold>\<open>Store\<close> (\<open>internal/store/store.go\<close>): the list of elements, the element heap, the map and the
  counters as 64-bit words. \<open>LruSpec\<close> is the cache as a list of items; \<open>StoreRefine\<close> proves that
  every operation refines it, \<open>StoreCorrect\<close> and \<open>StoreTheorems\<close> what readers see and that
  replicas converge.

  \<^bold>\<open>Bucket, RateStore\<close> (\<open>internal/ratelimit\<close>): token counts are rationals rounded at every
  operation (\<open>fpu\<close>); whether the target fuses the product and the sum of a refill into one
  rounding, and what it makes of \<open>int64(f)\<close> out of range, is the target's (\<open>goarch\<close>: any choice
  of the two, \<open>AMD64\<close> and \<open>ARM64\<close> among them). \<open>BucketProps\<close> holds
  for any monotone rounding (locale \<open>machine\<close>), \<open>BucketRate\<close> bounds the rounding error of a run
  (\<open>bounded_machine\<close>), \<open>RateCorrect\<close> and \<open>LimiterTheorems\<close> lift both to the keyed store.

  \<^bold>\<open>Node, Cluster\<close> (\<open>internal/node/node.go\<close>): \<open>Node\<close> has the state of a process, \<open>New\<close>, join and
  leave, the breaker, validation; \<open>Cluster\<close> has the handlers on the world of all processes, the
  calls to other processes inside them. \<open>env\<close> supplies what the program does not control: clock
  readings, lost requests and responses, the orders of goroutines and of their results, which
  process a URL leads to. \<open>ClusterLogic\<close> and \<open>ClusterInv\<close> hold the invariant of every process
  over \<open>cluster_step\<close> (requests, read repairs in flight, janitor ticks); \<open>Replication\<close>, \<open>Deletes\<close>,
  \<open>Healthy\<close>, \<open>ClusterTakes\<close> and \<open>ClusterEdges\<close> say what a write, a delete, a read without
  failures, a take and the boundary cases do; \<open>ClusterDemo\<close> is a cluster of three on which
  \<open>ClusterTheorems\<close> applies its properties.

  \<^bold>\<open>Interleaved\<close> has the same handlers as threads. A thread stops at every access to shared state
  (one lock-protected operation of the store, the limiter, the peer map, the breaker or the
  ring); a fan-out has a goroutine per owner, a read repair one per replica, and a call to a peer
  travels, is served and is answered in steps of its own. A step of the cluster (\<open>istep\<close>) is a
  request that arrives, a step of any thread of any process, or a janitor tick, and is labelled
  with an \<open>event\<close>. \<open>InterleavedProps\<close>: what a trace does to each store and limiter, and the
  invariants; \<open>InterleavedWork\<close>: a measure that every step decreases, at most 19 per replica and
  10 for a request; \<open>InterleavedWrites\<close>, \<open>InterleavedReads\<close>, \<open>InterleavedTakes\<close>: what an
  acknowledgement, a served value and an allowed take imply about the trace (who the owners were,
  which process performed the write, which coordinator had stamped the value that is read);
  \<open>InterleavedRefine\<close>: a request as \<open>Cluster\<close> runs it is one of the interleavings;
  \<open>InterleavedTheorems\<close>: the properties; \<open>Convergence\<close>: processes that performed the same writes of
  a key agree on it, whatever else they did; \<open>Freshness\<close>: a \<open>GET\<close> that arrives after a \<open>SET\<close> was
  acknowledged by every owner answers that value and stamp or a newer pair that was written.

  \<^bold>\<open>RateClient, Middleware\<close> (\<open>pkg/ratelimit/middleware.go\<close>): \<open>Client.Take\<close> over the modelled
  cluster, and the middleware as threads whose steps are its accesses to shared state, the two
  halves of the compare-and-swap loop included. \<open>HttpClient\<close>: the \<open>http.Client\<close> that a client makes
  once, and its timeouts. \<open>MiddlewareProps\<close> has the invariant that counts
  the holders of slots and the rank that ends a request; \<open>MiddlewareTheorems\<close> the properties.

  \<^bold>\<open>ServerConfig, ServerProps, ServerTheorems, Deployment\<close> (\<open>cmd/ringcache/main.go\<close>): environment
  and flag values to a configuration, the health check, how \<open>main\<close> starts and ends; parsing of
  the printed peer list; and the composition with the cluster: servers started with the same list
  store and serve each other's writes.

  \<^bold>\<open>Janitor, JanitorTheorems\<close>: the goroutine of both stores, its channels, the ticker and
  \<open>Close\<close> under \<open>sync.Once\<close>, as interleaved steps around a guarded content (locale \<open>guarded\<close>,
  interpreted by the cache and by the limiter). \<open>NodeClose\<close>: \<open>Close\<close> of the node, which closes the
  two stores one after the other, as concurrent calls; its runs project to runs of both stores.

  \<^bold>\<open>Bench, BenchProps, BenchTheorems, BenchOps\<close> (\<open>cmd/bench\<close>, \<open>examples/ratelimit-demo\<close>): the work
  queue, percentiles and summaries, the wait for a healthy cluster, the lookup of a primary, the
  demo's middleware; \<open>BenchOps\<close> runs the SETs and GETs of the benchmark against the cluster.

  \<^bold>\<open>Load, LoadProps, LoadTakes, LoadTheorems\<close> (\<open>cmd/ratebench\<close>): the load run, with its producer,
  bounded channel, workers and main goroutine around the threads of the middleware around the
  cluster. \<open>LoadProps\<close>: the shutdown and the rank that ends a run; \<open>LoadTakes\<close>: under any losses
  a client's allowed decision is a take granted by the primary, and a counted answer is a request
  of its own; \<open>LoadTheorems\<close>: the reported numbers obey the token bucket. \<open>Kill, KillTheorems\<close>: \<open>-kill-after\<close>,
  the calls \<open>killLocalPrimary\<close> makes of the operating system, the wait for the survivors and the
  printed window. \<open>Mains\<close>: the \<open>main\<close> functions of the three commands, their flags and defaults.

  \<^bold>\<open>Abstractions.\<close> An operation under a mutex is one step. In \<open>Cluster\<close> a handler runs with the
  calls it makes as one step of the cluster; in \<open>Interleaved\<close> handlers of different requests
  interleave between any two of their accesses to shared state, and
  \<open>atomic_requests_are_interleavings\<close> links the two. A clock reading belongs to the step that
  uses it, and a request whose client goes away is one whose calls are lost. The middleware and
  the load run take from the cluster in one step, and in a load run the cluster does nothing else:
  it serves no other traffic and its limiters are not swept. Strings are bytes of valid UTF-8. Doubles are
  the finite ones; a result beyond the largest double is not rounded to infinity. HTTP is a path,
  a method, query values, and a body as JSON with its length; a call that fails or times out is
  a value of \<open>fault\<close> or \<open>loss\<close>.

  \<^bold>\<open>Loops.\<close> No fuel is used. The walk of \<open>Owners\<close> has a measure; the eviction loop and the waits
  for health and for the survivors are \<open>partial_function (option)\<close> and are proved to return (\<open>Set_total\<close>,
  \<open>waiting_for_health_ends\<close>, \<open>survivors_end\<close>); the interleaved programs have ranks that bound their runs.

  \<^bold>\<open>Not modelled.\<close> Logging and printing; \<open>flag.Parse\<close> (its values are inputs); the HTTP server
  object with its timeouts, and the transport below a call (a call is delivered, or lost in one
  of the ways of \<open>fault\<close> and \<open>loss\<close>); what the operating system makes of the calls of
  \<open>killLocalPrimary\<close> (the model has the effect: calls that are lost); the expvar page;
  Dockerfiles and scripts.
\<close>

end
